(* ===== verification/Prelude.thy ===== *)
theory Prelude
  imports Complex_Main "HOL-Library.Char_ord" "HOL-Library.List_Lexorder"
begin

text \<open>
  What the components share: the collections of facts their proofs use, list and interval lemmas,
  and the two contracts that several components meet: a machine whose every step keeps an
  invariant, and a machine that implements a more abstract one.
\<close>

section \<open>Numbers of the source\<close>

text \<open>Number.MAX_SAFE_INTEGER and Number.isSafeInteger, on a number that is an integer.\<close>

definition max_safe_integer :: int where
  "max_safe_integer = 9007199254740991"

definition isSafeInteger :: "int \<Rightarrow> bool" where
  "isSafeInteger n \<longleftrightarrow> \<bar>n\<bar> \<le> max_safe_integer"

section \<open>Dynamic values\<close>

text \<open>
  A value of the source's type \<open>unknown\<close>. A number is finite (a rational: every finite double is
  one) or one of the three others; zero has one form, since no operator modelled here but
  \<open>Object.is\<close> tells the two zeros apart. \<open>JObj\<close> is a plain object, its own data properties in
  insertion order; \<open>JOther\<close> is any other object or function (class instances, accessors, maps).
\<close>

datatype jsnum = Fin rat | NaN | PosInf | NegInf

datatype js =
    JUndef
  | JNull
  | JBool bool
  | JNum jsnum
  | JStr string
  | JArr "js list"
  | JObj "(string \<times> js) list"
  | JOther

text \<open>Reading and assigning a property of an object kept as an association list.\<close>

definition obj_get :: "(string \<times> 'v) list \<Rightarrow> string \<Rightarrow> 'v option" where
  "obj_get obj k = map_of obj k"

fun obj_set :: "string \<Rightarrow> 'v \<Rightarrow> (string \<times> 'v) list \<Rightarrow> (string \<times> 'v) list" where
  "obj_set k v [] = [(k, v)]"
| "obj_set k v ((k', v') # ps) = (if k = k' then (k, v) # ps else (k', v') # obj_set k v ps)"

lemma obj_get_set [simp]: "obj_get (obj_set k v obj) k' = (if k = k' then Some v else obj_get obj k')"
  by (induction k v obj rule: obj_set.induct) (auto simp: obj_get_def)

lemma obj_get_simps [simp]:
  "obj_get [] k = None"
  "obj_get ((k', v) # ps) k = (if k' = k then Some v else obj_get ps k)"
  by (simp_all add: obj_get_def)

lemma obj_get_None_iff: "obj_get ps k = None \<longleftrightarrow> k \<notin> fst ` set ps"
  by (simp add: obj_get_def map_of_eq_None_iff)

lemma keys_obj_set: "fst ` set (obj_set k v obj) = insert k (fst ` set obj)"
  by (induction k v obj rule: obj_set.induct) auto

lemma distinct_obj_set [simp]:
  "distinct (map fst obj) \<Longrightarrow> distinct (map fst (obj_set k v obj))"
proof (induction k v obj rule: obj_set.induct)
  case (2 k v k' v' ps)
  then show ?case using keys_obj_set [of k v ps] by auto
qed simp

section \<open>Strings of the source\<close>

text \<open>
  Strings are lists of characters, one per code unit below 256: the source's patterns and trims
  only ever accept such characters. \<open>trim\<close> removes the white space of \<open>String.prototype.trim\<close> in
  that range.
\<close>

definition js_white :: "char \<Rightarrow> bool" where
  "js_white c \<longleftrightarrow> of_char c \<in> {9, 10, 11, 12, 13, 32, 160 :: nat}"

definition trim :: "string \<Rightarrow> string" where
  "trim s = rev (dropWhile js_white (rev (dropWhile js_white s)))"

definition is_digit :: "char \<Rightarrow> bool" where
  "is_digit c \<longleftrightarrow> 48 \<le> (of_char c :: nat) \<and> of_char c \<le> (57 :: nat)"

definition is_lower :: "char \<Rightarrow> bool" where
  "is_lower c \<longleftrightarrow> 97 \<le> (of_char c :: nat) \<and> of_char c \<le> (122 :: nat)"

definition is_upper :: "char \<Rightarrow> bool" where
  "is_upper c \<longleftrightarrow> 65 \<le> (of_char c :: nat) \<and> of_char c \<le> (90 :: nat)"

definition is_alnum :: "char \<Rightarrow> bool" where
  "is_alnum c \<longleftrightarrow> is_digit c \<or> is_lower c \<or> is_upper c"

definition digit_value :: "char \<Rightarrow> nat" where
  "digit_value c = of_char c - 48"

text \<open>\<open>Number(s)\<close> for a string of decimal digits, before rounding to a double.\<close>

definition number_of_digits :: "string \<Rightarrow> nat" where
  "number_of_digits s = foldl (\<lambda>n c. 10 * n + digit_value c) 0 s"

text \<open>\<open>String(n)\<close> for a natural number.\<close>

fun digits_of_number :: "nat \<Rightarrow> string" where
  "digits_of_number n =
     (if n < 10 then [char_of (48 + n)]
      else digits_of_number (n div 10) @ [char_of (48 + n mod 10)])"

declare digits_of_number.simps [simp del]

lemma digit_value_char_of [simp]: "d < 10 \<Longrightarrow> digit_value (char_of (48 + d)) = d"
  by (simp add: digit_value_def)

lemma is_digit_char_of [simp]: "d < 10 \<Longrightarrow> is_digit (char_of (48 + d))" for d :: nat
  by (simp add: is_digit_def)

lemma number_of_digits_snoc [simp]:
  "number_of_digits (s @ [c]) = 10 * number_of_digits s + digit_value c"
  by (simp add: number_of_digits_def)

lemma number_of_digits_digits [simp]: "number_of_digits (digits_of_number n) = n"
proof (induction n rule: digits_of_number.induct)
  case (1 n)
  have small: ?case if "n < 10"
    by (subst digits_of_number.simps) (simp add: that number_of_digits_def)
  have large: ?case if "\<not> n < 10"
    by (subst digits_of_number.simps) (simp add: that 1)
  show ?case using small large by blast
qed

lemma digits_of_number_digits: "list_all is_digit (digits_of_number n)"
proof (induction n rule: digits_of_number.induct)
  case (1 n)
  then show ?case by (subst digits_of_number.simps) auto
qed

lemma digits_of_number_nonempty [simp]: "digits_of_number n \<noteq> []"
  by (subst digits_of_number.simps) simp

lemma digits_of_number_small: "n < 10 \<Longrightarrow> digits_of_number n = [char_of (48 + n)]"
  by (subst digits_of_number.simps) simp

lemma char_of_digit_value [simp]: "is_digit c \<Longrightarrow> char_of (48 + digit_value c) = c"
  by (simp add: digit_value_def is_digit_def)

lemma digit_value_less [simp]: "is_digit c \<Longrightarrow> digit_value c < 10"
  by (auto simp: digit_value_def is_digit_def)

text \<open>A digit string without a leading zero is the printed form of its number.\<close>

lemma digits_number_of_digits:
  assumes "s \<noteq> []" and "list_all is_digit s" and "digit_value (hd s) \<noteq> 0"
  shows "digits_of_number (number_of_digits s) = s \<and> number_of_digits s \<noteq> 0"
  using assms
proof (induction s rule: rev_induct)
  case (snoc c s)
  show ?case
  proof (cases "s = []")
    case True
    with snoc.prems show ?thesis
      by (simp add: number_of_digits_def digits_of_number_small)
  next
    case False
    with snoc have IH: "digits_of_number (number_of_digits s) = s" "number_of_digits s \<noteq> 0" by auto
    have "is_digit c" using snoc.prems by simp
    then have "digit_value c < 10" by simp
    with IH \<open>is_digit c\<close> show ?thesis by (subst digits_of_number.simps) simp
  qed
qed simp

lemma hd_digits_of_number: "0 < n \<Longrightarrow> digit_value (hd (digits_of_number n)) \<noteq> 0"
proof (induction n rule: digits_of_number.induct)
  case (1 n)
  have small: ?case if "n < 10" using "1.prems" that by (simp add: digits_of_number_small)
  have large: ?case if ge: "\<not> n < 10"
  proof -
    have "digit_value (hd (digits_of_number (n div 10))) \<noteq> 0" using 1 ge by simp
    then show ?thesis by (subst digits_of_number.simps) (simp add: ge)
  qed
  show ?case using small large by blast
qed

text \<open>\<open>startsWith\<close>.\<close>

fun starts_with :: "string \<Rightarrow> string \<Rightarrow> bool" where
  "starts_with [] s = True"
| "starts_with (p # ps) [] = False"
| "starts_with (p # ps) (x # xs) = (p = x \<and> starts_with ps xs)"

lemma starts_with_append [simp]: "starts_with p (p @ s)"
  by (induction p) auto

lemma starts_with_iff: "starts_with p s \<longleftrightarrow> (\<exists>t. s = p @ t)"
  by (induction p s rule: starts_with.induct) auto

text \<open>\<open>split\<close> and \<open>join\<close> on a one-character separator.\<close>

fun split_on :: "char \<Rightarrow> string \<Rightarrow> string list" where
  "split_on c [] = [[]]"
| "split_on c (x # xs) =
     (if x = c then [] # split_on c xs
      else (case split_on c xs of [] \<Rightarrow> [[x]] | w # ws \<Rightarrow> (x # w) # ws))"

fun join_with :: "string \<Rightarrow> string list \<Rightarrow> string" where
  "join_with sep [] = []"
| "join_with sep [w] = w"
| "join_with sep (w # v # ws) = w @ sep @ join_with sep (v # ws)"

lemma split_on_nonempty [simp]: "split_on c s \<noteq> []"
  by (cases s) (auto split: list.splits)

lemma join_split [simp]: "join_with [c] (split_on c s) = s"
proof (induction s)
  case (Cons x xs)
  then show ?case by (cases "split_on c xs") (auto split: list.splits, (metis join_with.simps(2,3) append_Cons neq_Nil_conv)+)
qed simp

lemma split_on_no_sep: "w \<in> set (split_on c s) \<Longrightarrow> c \<notin> set w"
proof (induction s arbitrary: w)
  case (Cons x xs)
  then show ?case by (cases "split_on c xs") (auto split: if_splits)
qed simp

lemma split_on_append_sep:
  "c \<notin> set w \<Longrightarrow> split_on c (w @ c # s) = w # split_on c s"
  by (induction w) auto

lemma split_on_plain: "c \<notin> set w \<Longrightarrow> split_on c w = [w]"
  by (induction w) auto

lemma split_join:
  "ws \<noteq> [] \<Longrightarrow> \<forall>w\<in>set ws. c \<notin> set w \<Longrightarrow> split_on c (join_with [c] ws) = ws"
  by (induction "[c]" ws rule: join_with.induct) (auto simp: split_on_append_sep split_on_plain)

text \<open>Texts whose bounds are counted in UTF-16 code units or UTF-8 bytes are lists of code units.\<close>

type_synonym utf16 = "nat list"

definition is_high_surrogate :: "nat \<Rightarrow> bool" where
  "is_high_surrogate u \<longleftrightarrow> 55296 \<le> u \<and> u \<le> 56319"

definition is_low_surrogate :: "nat \<Rightarrow> bool" where
  "is_low_surrogate u \<longleftrightarrow> 56320 \<le> u \<and> u \<le> 57343"

text \<open>\<open>TextEncoder.encode(value).byteLength\<close>: a lone surrogate is encoded as U+FFFD.\<close>

definition unit_bytes :: "nat \<Rightarrow> nat" where
  "unit_bytes u = (if u < 128 then 1 else if u < 2048 then 2 else 3)"

fun utf8_bytes :: "utf16 \<Rightarrow> nat" where
  "utf8_bytes [] = 0"
| "utf8_bytes [u] = unit_bytes u"
| "utf8_bytes (u # v # us) =
     (if is_high_surrogate u \<and> is_low_surrogate v then 4 + utf8_bytes us
      else unit_bytes u + utf8_bytes (v # us))"

lemma utf8_bytes_le: "utf8_bytes t \<le> 3 * length t"
  by (induction t rule: utf8_bytes.induct) (auto simp: unit_bytes_def)

text \<open>\<open>[...value].length\<close>.\<close>

fun code_points :: "utf16 \<Rightarrow> nat" where
  "code_points [] = 0"
| "code_points [u] = 1"
| "code_points (u # v # us) =
     (if is_high_surrogate u \<and> is_low_surrogate v then 1 + code_points us
      else 1 + code_points (v # us))"

definition white16 :: "nat \<Rightarrow> bool" where
  "white16 u \<longleftrightarrow> (9 \<le> u \<and> u \<le> 13) \<or> u \<in> {32, 160, 5760, 8232, 8233, 8239, 8287, 12288, 65279}
     \<or> (8192 \<le> u \<and> u \<le> 8202)"

definition trim16 :: "utf16 \<Rightarrow> utf16" where
  "trim16 t = rev (dropWhile white16 (rev (dropWhile white16 t)))"

text \<open>
  A dynamic value whose texts are units, as the hashed and stored JSON values are. \<open>VInstance\<close> is an
  object of a class, \<open>VOfType\<close> any value of another \<open>typeof\<close>.
\<close>

datatype jval =
    VUndef
  | VNull
  | VBool bool
  | VNum jsnum
  | VText utf16
  | VList "jval list"
  | VObj "(utf16 \<times> jval) list"
  | VInstance
  | VOfType string

section \<open>Runs that stop at the first error\<close>

fun run_steps :: "('s \<Rightarrow> 'e \<Rightarrow> 'err + 's) \<Rightarrow> 's \<Rightarrow> 'e list \<Rightarrow> 'err + 's" where
  "run_steps step s [] = Inr s"
| "run_steps step s (e # es) =
     (case step s e of Inl err \<Rightarrow> Inl err | Inr s' \<Rightarrow> run_steps step s' es)"

lemma run_steps_append:
  "run_steps step s (xs @ ys) =
     (case run_steps step s xs of Inl err \<Rightarrow> Inl err | Inr s' \<Rightarrow> run_steps step s' ys)"
  by (induction xs arbitrary: s) (auto split: sum.splits)

lemma run_steps_ConsE:
  assumes "run_steps step s (e # es) = Inr t"
  obtains s' where "step s e = Inr s'" and "run_steps step s' es = Inr t"
  using assms by (auto split: sum.splits)

lemma list_all_True [simp]: "list_all (\<lambda>_. True) xs"
  by (simp add: list_all_iff)

text \<open>
  The contract of a machine with an invariant: every step from a good state, on an event its
  callers may send, leads to a good state.
\<close>

locale invariant_machine =
  fixes step :: "'s \<Rightarrow> 'e \<Rightarrow> 'err + 's"
    and inv :: "'s \<Rightarrow> bool"
    and ok :: "'e \<Rightarrow> bool"
  assumes step_inv: "inv s \<Longrightarrow> ok e \<Longrightarrow> step s e = Inr s' \<Longrightarrow> inv s'"
begin

lemma run_inv: "inv s \<Longrightarrow> list_all ok es \<Longrightarrow> run_steps step s es = Inr t \<Longrightarrow> inv t"
proof (induction es arbitrary: s)
  case Nil
  then show ?case by simp
next
  case (Cons e es)
  from Cons.prems(3) obtain s' where s': "step s e = Inr s'" "run_steps step s' es = Inr t"
    by (rule run_steps_ConsE)
  have "inv s'" by (rule step_inv [OF Cons.prems(1) _ s'(1)]) (use Cons.prems(2) in simp)
  then show ?case using s'(2) Cons.prems(2) by (intro Cons.IH) simp_all
qed

end

text \<open>
  The contract of a machine that implements an abstract one: \<open>sim c a\<close> relates a concrete state
  and an abstract one, and every concrete step is matched by the abstract step of the same event.
\<close>

locale simulated_machine = invariant_machine step inv ok
  for step :: "'s \<Rightarrow> 'e \<Rightarrow> 'err + 's" and inv :: "'s \<Rightarrow> bool" and ok :: "'e \<Rightarrow> bool" +
  fixes spec_step :: "'a \<Rightarrow> 'e \<Rightarrow> 'a"
    and sim :: "'s \<Rightarrow> 'a \<Rightarrow> bool"
  assumes step_sim:
    "inv s \<Longrightarrow> ok e \<Longrightarrow> sim s a \<Longrightarrow> step s e = Inr s' \<Longrightarrow> sim s' (spec_step a e)"
begin

lemma run_sim:
  "inv s \<Longrightarrow> list_all ok es \<Longrightarrow> sim s a \<Longrightarrow> run_steps step s es = Inr t \<Longrightarrow>
     sim t (foldl spec_step a es)"
proof (induction es arbitrary: s a)
  case Nil
  then show ?case by simp
next
  case (Cons e es)
  from Cons.prems(4) obtain s' where s': "step s e = Inr s'" "run_steps step s' es = Inr t"
    by (rule run_steps_ConsE)
  have "inv s'" "sim s' (spec_step a e)"
    using Cons.prems(1-3) s'(1) by (auto intro: step_inv step_sim)
  then show ?case using s'(2) Cons.prems(2) Cons.IH by simp
qed

end

text \<open>
  The contract of a machine whose steps only move forward in a preorder on states, for example one
  that only ever adds to a history.
\<close>

locale forward_machine = invariant_machine step inv ok
  for step :: "'s \<Rightarrow> 'e \<Rightarrow> 'err + 's" and inv :: "'s \<Rightarrow> bool" and ok :: "'e \<Rightarrow> bool" +
  fixes le :: "'s \<Rightarrow> 's \<Rightarrow> bool"
  assumes le_refl: "le s s"
    and le_trans: "le s t \<Longrightarrow> le t u \<Longrightarrow> le s u"
    and step_le: "inv s \<Longrightarrow> ok e \<Longrightarrow> step s e = Inr s' \<Longrightarrow> le s s'"
begin

lemma run_le: "inv s \<Longrightarrow> list_all ok es \<Longrightarrow> run_steps step s es = Inr t \<Longrightarrow> le s t"
proof (induction es arbitrary: s)
  case Nil
  then show ?case by (simp add: le_refl)
next
  case (Cons e es)
  from Cons.prems(3) obtain s' where s': "step s e = Inr s'" "run_steps step s' es = Inr t"
    by (rule run_steps_ConsE)
  have "inv s'" "le s s'" using Cons.prems(1,2) s'(1) by (auto intro: step_inv step_le)
  moreover from this s'(2) Cons.prems(2) have "le s' t" by (intro Cons.IH) simp_all
  ultimately show ?case using le_trans by blast
qed

end

section \<open>Lists\<close>

text \<open>\<open>findIndex\<close>: the index of the first element that satisfies a predicate.\<close>

fun find_index :: "('a \<Rightarrow> bool) \<Rightarrow> 'a list \<Rightarrow> nat option" where
  "find_index P [] = None"
| "find_index P (x # xs) = (if P x then Some 0 else map_option Suc (find_index P xs))"

lemma find_index_SomeD:
  "find_index P xs = Some i \<Longrightarrow> i < length xs \<and> P (xs ! i) \<and> (\<forall>j<i. \<not> P (xs ! j))"
proof (induction xs arbitrary: i)
  case (Cons x xs)
  then show ?case
    by (auto split: if_splits simp: less_Suc_eq_0_disj nth_Cons' Suc_less_eq2)
qed simp

lemma find_index_None [simp]: "find_index P xs = None \<longleftrightarrow> (\<forall>x\<in>set xs. \<not> P x)"
  by (induction xs) auto

lemma find_SomeD: "find P xs = Some x \<Longrightarrow> x \<in> set xs \<and> P x"
  by (auto simp: find_Some_iff)

lemma find_None_iff' [simp]: "find P xs = None \<longleftrightarrow> (\<forall>x\<in>set xs. \<not> P x)"
  by (auto simp: find_None_iff)

text \<open>The last \<open>n\<close> elements, as \<open>slice(-n)\<close> gives for \<open>0 < n\<close>.\<close>

definition slice_last :: "nat \<Rightarrow> 'a list \<Rightarrow> 'a list" where
  "slice_last n xs = drop (length xs - n) xs"

lemma length_slice_last [simp]: "length (slice_last n xs) = min n (length xs)"
  by (simp add: slice_last_def)

text \<open>
  A pass over a list whose steps either do nothing or raise the flag: an unraised flag means that
  no step of the pass had anything to do.
\<close>

lemma fold_flag_True:
  assumes "\<And>x s c. step x (s, c) = (s, c) \<or> snd (step x (s, c))"
  shows "snd (fold step xs (s, True))"
proof (induction xs arbitrary: s)
  case (Cons x xs)
  from assms [of x s True] have "snd (step x (s, True))" by auto
  with Cons.IH show ?case by (cases "step x (s, True)") simp
qed simp

lemma fold_flag_False:
  assumes "\<And>x s c. step x (s, c) = (s, c) \<or> snd (step x (s, c))"
    and "fold step xs (s, False) = (t, False)"
  shows "t = s \<and> (\<forall>x\<in>set xs. step x (s, False) = (s, False))"
  using assms(2)
proof (induction xs)
  case (Cons x xs)
  have "step x (s, False) = (s, False)"
  proof (rule ccontr)
    assume "step x (s, False) \<noteq> (s, False)"
    with assms(1) [of x s False] obtain s' where "step x (s, False) = (s', True)"
      by (metis prod.collapse)
    with Cons.prems fold_flag_True [where step = step and xs = xs and s = s', OF assms(1)] show False by simp
  qed
  with Cons show ?case by simp
qed simp

lemma takeWhile_neq [simp]: "c \<notin> set w \<Longrightarrow> takeWhile (\<lambda>x. x \<noteq> c) (w @ c # y) = w"
  by (induction w) auto

lemma dropWhile_neq [simp]: "c \<notin> set w \<Longrightarrow> dropWhile (\<lambda>x. x \<noteq> c) (w @ c # y) = c # y"
  by (induction w) auto

section \<open>Integer intervals\<close>

lemma upto_snoc: "i \<le> j + 1 \<Longrightarrow> [i..j + 1] = [i..j] @ [j + 1]" for i j :: int
  using upto_rec2 [of i "j + 1"] by simp

lemma filter_upto_greater:
  "i - 1 \<le> c \<Longrightarrow> filter (\<lambda>r. c < r) [i..j] = [c + 1..j]" for i j c :: int
proof (induction i j arbitrary: c rule: upto.induct)
  case (1 i j)
  show ?case
  proof (cases "i \<le> j")
    case True
    show ?thesis
    proof (cases "c < i")
      case True
      with 1 have "c + 1 = i" by simp
      moreover have "filter (\<lambda>r. c < r) [i..j] = [i..j]"
        using True by (intro filter_True) auto
      ultimately show ?thesis by simp
    next
      case False
      then show ?thesis using 1 True by (simp add: upto_rec1 [of i j])
    qed
  next
    case False
    with 1 show ?thesis by simp
  qed
qed

section \<open>Passes repeated until nothing changes\<close>

text \<open>
  The contract of a \<open>while (changed)\<close> loop over a pass that reports whether it changed the state: a
  changing pass shrinks what is left to add. The loop then ends in a state reached by a pass that
  changed nothing, and it keeps what the pass keeps.
\<close>

locale saturating_pass =
  fixes pass :: "'s \<Rightarrow> 's \<times> bool"
    and loop :: "'s \<Rightarrow> 's"
    and inv :: "'s \<Rightarrow> bool"
    and left :: "'s \<Rightarrow> nat"
  assumes loop_unfold: "loop s = (let (t, c) = pass s in if c then loop t else t)"
    and pass_inv: "inv s \<Longrightarrow> inv (fst (pass s))"
    and pass_left: "snd (pass s) \<Longrightarrow> left (fst (pass s)) < left s"
begin

lemma loop_saturates: "inv s \<Longrightarrow> \<exists>t. inv t \<and> pass t = (loop s, False)"
proof (induction "left s" arbitrary: s rule: less_induct)
  case less
  show ?case
  proof (cases "snd (pass s)")
    case True
    then have "loop s = loop (fst (pass s))"
      by (subst loop_unfold) (simp add: case_prod_beta Let_def)
    with less.hyps [OF pass_left [OF True] pass_inv [OF less.prems]] show ?thesis by simp
  next
    case False
    then have "loop s = fst (pass s)"
      by (subst loop_unfold) (simp add: case_prod_beta Let_def)
    with False less.prems show ?thesis by (intro exI [of _ s]) (simp add: prod_eq_iff)
  qed
qed

lemma loop_inv: "inv s \<Longrightarrow> inv (loop s)"
  using loop_saturates pass_inv by (metis fst_conv)

end

end
