(* ===== verification/Event_Ring.thy ===== *)
theory Event_Ring
  imports Prelude
begin

text \<open>
  The bounded replay ring of the bridges' event streams
  (\<^verbatim>\<open>packages/protocol/src/node/event-ring.ts\<close>): its state, one definition per method, the
  invariant every method keeps (bounded, byte-accounted, densely numbered), and the proof that a
  replay it reports complete is exactly the log after the client's cursor.

  Revisions are integers. \<open>supersede\<close> answers one of the three results the source's callback
  documents: null, the retained payload itself, or a replacement; the source tells the last two
  apart by object identity.
\<close>

section \<open>State\<close>

record 'a ring_event =
  revision :: int
  event :: 'a

datatype 'a supersede_result = Unrelated | Unchanged | Replacement 'a

record 'a ring_options =
  opt_maxBytes :: "int option"
  opt_measureBytes :: "('a \<Rightarrow> int) option"
  opt_supersede :: "('a \<Rightarrow> 'a \<Rightarrow> 'a supersede_result) option"

text \<open>\<open>maxBytes\<close> is None for the source's POSITIVE_INFINITY.\<close>

record 'a ring =
  capacity :: int
  maxBytes :: "int option"
  measureBytes :: "'a \<Rightarrow> int"
  supersede :: "('a \<Rightarrow> 'a \<Rightarrow> 'a supersede_result) option"
  buffer :: "'a ring_event list"
  ring_revision :: int
  droppedEvents :: int
  retainedBytes :: int

record 'a replay_result =
  replay_events :: "'a ring_event list"
  complete :: bool
  replay_latest :: int

record ring_stats =
  stat_retained :: int
  stat_capacity :: int
  stat_latestRevision :: int
  stat_dropped :: int
  stat_retainedBytes :: int
  stat_maxBytes :: "int option"

datatype ring_error = MaxBytesRequiresMeasure | RevisionsGoBackwards

section \<open>Operations\<close>

definition DEFAULT_RING_CAPACITY :: int where
  "DEFAULT_RING_CAPACITY = 512"

definition new_ring :: "int \<Rightarrow> 'a ring_options \<Rightarrow> ring_error + 'a ring" where
  "new_ring cap opts =
     (if opt_maxBytes opts \<noteq> None \<and> opt_measureBytes opts = None then Inl MaxBytesRequiresMeasure
      else Inr \<lparr>capacity = max 1 cap,
                maxBytes = map_option (max 0) (opt_maxBytes opts),
                measureBytes = (case opt_measureBytes opts of None \<Rightarrow> (\<lambda>_. 0) | Some f \<Rightarrow> f),
                supersede = opt_supersede opts,
                buffer = [], ring_revision = 0, droppedEvents = 0, retainedBytes = 0\<rparr>)"

definition latestRevision :: "'a ring \<Rightarrow> int" where
  "latestRevision r = ring_revision r"

definition oldestRevision :: "'a ring \<Rightarrow> int" where
  "oldestRevision r = (case buffer r of [] \<Rightarrow> 0 | e # _ \<Rightarrow> revision e)"

definition getStats :: "'a ring \<Rightarrow> ring_stats" where
  "getStats r = \<lparr>stat_retained = int (length (buffer r)), stat_capacity = capacity r,
     stat_latestRevision = ring_revision r, stat_dropped = droppedEvents r,
     stat_retainedBytes = retainedBytes r, stat_maxBytes = maxBytes r\<rparr>"

definition clear :: "'a ring \<Rightarrow> 'a ring" where
  "clear r = r\<lparr>buffer := [], retainedBytes := 0\<rparr>"

definition cost :: "'a ring \<Rightarrow> 'a \<Rightarrow> int" where
  "cost r e = max 0 (measureBytes r e)"

definition over_bytes :: "int option \<Rightarrow> int \<Rightarrow> bool" where
  "over_bytes limit n = (case limit of None \<Rightarrow> False | Some m \<Rightarrow> n > m)"

text \<open>The newest-first scan of \<open>collapseSuperseded\<close>, on the buffer reversed.\<close>

fun collapse_scan ::
  "('a \<Rightarrow> 'a \<Rightarrow> 'a supersede_result) \<Rightarrow> ('a \<Rightarrow> int) \<Rightarrow> 'a \<Rightarrow> 'a ring_event list \<Rightarrow> int
    \<Rightarrow> 'a ring_event list \<times> int" where
  "collapse_scan f c incoming [] bytes = ([], bytes)"
| "collapse_scan f c incoming (entry # older) bytes =
     (case f incoming (event entry) of
        Unrelated \<Rightarrow>
          (let (rest, bytes') = collapse_scan f c incoming older bytes in (entry # rest, bytes'))
      | Unchanged \<Rightarrow> (entry # older, bytes)
      | Replacement x \<Rightarrow>
          (let (rest, bytes') =
             collapse_scan f c incoming older (bytes - c (event entry) + c x)
           in (entry\<lparr>event := x\<rparr> # rest, bytes')))"

definition collapseSuperseded :: "'a \<Rightarrow> 'a ring \<Rightarrow> 'a ring" where
  "collapseSuperseded incoming r =
     (case supersede r of
        None \<Rightarrow> r
      | Some f \<Rightarrow>
          (let (newest_first, bytes) =
             collapse_scan f (cost r) incoming (rev (buffer r)) (retainedBytes r)
           in r\<lparr>buffer := rev newest_first, retainedBytes := bytes\<rparr>))"

fun trim_loop ::
  "int \<Rightarrow> int option \<Rightarrow> ('a \<Rightarrow> int) \<Rightarrow> 'a ring_event list \<Rightarrow> int \<Rightarrow> int
    \<Rightarrow> 'a ring_event list \<times> int \<times> int" where
  "trim_loop cap limit c [] bytes dropped = ([], bytes, dropped)"
| "trim_loop cap limit c (removed # rest) bytes dropped =
     (if int (length (removed # rest)) > cap \<or> over_bytes limit bytes
      then trim_loop cap limit c rest (bytes - c (event removed)) (dropped + 1)
      else (removed # rest, bytes, dropped))"

definition retain :: "'a \<Rightarrow> 'a ring \<Rightarrow> 'a ring" where
  "retain e r =
     (let r1 = collapseSuperseded e r;
          (buf, bytes, dropped) =
            trim_loop (capacity r1) (maxBytes r1) (cost r1)
              (buffer r1 @ [\<lparr>revision = ring_revision r1, event = e\<rparr>])
              (retainedBytes r1 + cost r1 e) (droppedEvents r1)
      in r1\<lparr>buffer := buf, retainedBytes := bytes, droppedEvents := dropped\<rparr>)"

definition skipTo :: "int \<Rightarrow> 'a ring \<Rightarrow> ring_error + 'a ring" where
  "skipTo target r =
     (if \<not> isSafeInteger target \<or> target < ring_revision r then Inl RevisionsGoBackwards
      else if target > ring_revision r \<and> 0 < length (buffer r)
      then Inr (clear (r\<lparr>droppedEvents := droppedEvents r + int (length (buffer r))\<rparr>))
      else Inr r)"

definition append_event :: "'a \<Rightarrow> 'a ring \<Rightarrow> 'a ring" where
  "append_event e r = retain e (r\<lparr>ring_revision := ring_revision r + 1\<rparr>)"

definition appendAt :: "int \<Rightarrow> 'a \<Rightarrow> 'a ring \<Rightarrow> ring_error + 'a ring" where
  "appendAt n e r =
     (case skipTo (n - 1) r of
        Inl err \<Rightarrow> Inl err
      | Inr r' \<Rightarrow> Inr (retain e (r'\<lparr>ring_revision := n\<rparr>)))"

definition advanceTo :: "int \<Rightarrow> 'a ring \<Rightarrow> ring_error + 'a ring" where
  "advanceTo n r =
     (case skipTo n r of Inl err \<Rightarrow> Inl err | Inr r' \<Rightarrow> Inr (r'\<lparr>ring_revision := n\<rparr>))"

definition advance :: "'a ring \<Rightarrow> ring_error + 'a ring" where
  "advance r = advanceTo (ring_revision r + 1) r"

text \<open>A cursor is None when it is not a finite number.\<close>

definition since :: "int option \<Rightarrow> 'a ring \<Rightarrow> 'a replay_result" where
  "since cursor r =
     (case cursor of
        None \<Rightarrow> \<lparr>replay_events = [], complete = False, replay_latest = ring_revision r\<rparr>
      | Some c \<Rightarrow>
          if c < 0 then \<lparr>replay_events = [], complete = False, replay_latest = ring_revision r\<rparr>
          else if c > ring_revision r
          then \<lparr>replay_events = [], complete = False, replay_latest = ring_revision r\<rparr>
          else if c = ring_revision r
          then \<lparr>replay_events = [], complete = True, replay_latest = ring_revision r\<rparr>
          else
            (let oldest = oldestRevision r; whole = (oldest \<noteq> 0 \<and> c + 1 \<ge> oldest)
             in \<lparr>replay_events = (if whole then filter (\<lambda>entry. revision entry > c) (buffer r) else []),
                 complete = whole, replay_latest = ring_revision r\<rparr>))"


text \<open>The text of a cursor is None when the header or query value is absent.\<close>

definition parseEventCursor :: "string option \<Rightarrow> int option" where
  "parseEventCursor raw =
     (case raw of
        None \<Rightarrow> None
      | Some s \<Rightarrow>
          (let trimmed = trim s
           in if length trimmed = 0 \<or> \<not> (trimmed \<noteq> [] \<and> list_all is_digit trimmed) then None
              else (let value = int (number_of_digits trimmed)
                    in if isSafeInteger value then Some value else None)))"

section \<open>The invariant\<close>

definition total_cost :: "'a ring \<Rightarrow> 'a ring_event list \<Rightarrow> int" where
  "total_cost r es = (\<Sum>e\<leftarrow>es. cost r (event e))"

definition dense :: "'a ring \<Rightarrow> bool" where
  "dense r \<longleftrightarrow> map revision (buffer r) =
     [ring_revision r - int (length (buffer r)) + 1..ring_revision r]"

definition ring_inv :: "'a ring \<Rightarrow> bool" where
  "ring_inv r \<longleftrightarrow>
     1 \<le> capacity r \<and> 0 \<le> ring_revision r - int (length (buffer r)) \<and> dense r
     \<and> int (length (buffer r)) \<le> capacity r
     \<and> (case maxBytes r of None \<Rightarrow> True | Some m \<Rightarrow> 0 \<le> m)
     \<and> retainedBytes r = total_cost r (buffer r) \<and> \<not> over_bytes (maxBytes r) (retainedBytes r)"

lemma cost_nonneg [simp]: "0 \<le> cost r e"
  by (simp add: cost_def)

lemma cost_cong [simp]:
  "cost (r\<lparr>buffer := b\<rparr>) = cost r" "cost (r\<lparr>ring_revision := n\<rparr>) = cost r"
  "cost (r\<lparr>retainedBytes := k\<rparr>) = cost r" "cost (r\<lparr>droppedEvents := d\<rparr>) = cost r"
  by (simp_all add: cost_def fun_eq_iff)

lemma total_cost_cong [simp]:
  "total_cost (r\<lparr>buffer := b\<rparr>) = total_cost r" "total_cost (r\<lparr>ring_revision := n\<rparr>) = total_cost r"
  "total_cost (r\<lparr>retainedBytes := k\<rparr>) = total_cost r"
  "total_cost (r\<lparr>droppedEvents := d\<rparr>) = total_cost r"
  by (simp_all add: total_cost_def fun_eq_iff)

lemma total_cost_simps [simp]:
  "total_cost r [] = 0" "total_cost r (e # es) = cost r (event e) + total_cost r es"
  "total_cost r (xs @ ys) = total_cost r xs + total_cost r ys"
  by (simp_all add: total_cost_def)

lemma total_cost_rev [simp]: "total_cost r (rev es) = total_cost r es"
  by (induction es) auto

lemmas ring_update_simps = cost_cong total_cost_cong

section \<open>Collapsing and trimming\<close>

lemma collapse_scan_revisions:
  "map revision (fst (collapse_scan f c x es b)) = map revision es"
  by (induction f c x es b rule: collapse_scan.induct)
    (auto split: supersede_result.splits prod.splits)

lemma collapse_scan_bytes:
  "snd (collapse_scan f (cost r) x es b) =
     b - total_cost r es + total_cost r (fst (collapse_scan f (cost r) x es b))"
  by (induction f "cost r" x es b rule: collapse_scan.induct)
    (auto split: supersede_result.splits prod.splits)

lemma collapseSuperseded_fields [simp]:
  "capacity (collapseSuperseded x r) = capacity r" "maxBytes (collapseSuperseded x r) = maxBytes r"
  "ring_revision (collapseSuperseded x r) = ring_revision r"
  "supersede (collapseSuperseded x r) = supersede r"
  "measureBytes (collapseSuperseded x r) = measureBytes r"
  by (auto simp: collapseSuperseded_def split: option.splits prod.splits)

lemma collapseSuperseded_cost [simp]:
  "cost (collapseSuperseded x r) = cost r" "total_cost (collapseSuperseded x r) = total_cost r"
  by (simp_all add: cost_def total_cost_def fun_eq_iff)

lemma collapseSuperseded_revisions [simp]:
  "map revision (buffer (collapseSuperseded x r)) = map revision (buffer r)"
proof (cases "supersede r")
  case (Some f)
  have "map revision (fst (collapse_scan f (cost r) x (rev (buffer r)) (retainedBytes r))) =
    rev (map revision (buffer r))"
    by (simp add: collapse_scan_revisions rev_map)
  with Some show ?thesis
    by (simp add: collapseSuperseded_def case_prod_beta rev_map [symmetric])
qed (simp add: collapseSuperseded_def)

lemma collapseSuperseded_length [simp]:
  "length (buffer (collapseSuperseded x r)) = length (buffer r)"
  using arg_cong [OF collapseSuperseded_revisions [of x r], of length] by (simp only: length_map)

lemma collapseSuperseded_bytes:
  assumes "retainedBytes r = total_cost r (buffer r)"
  shows "retainedBytes (collapseSuperseded x r) = total_cost r (buffer (collapseSuperseded x r))"
proof (cases "supersede r")
  case (Some f)
  with assms show ?thesis
    using collapse_scan_bytes [of f r x "rev (buffer r)" "retainedBytes r"]
    by (auto simp: collapseSuperseded_def split: prod.splits)
qed (use assms in \<open>simp add: collapseSuperseded_def\<close>)

lemma collapseSuperseded_None: "supersede r = None \<Longrightarrow> collapseSuperseded x r = r"
  by (simp add: collapseSuperseded_def)

text \<open>Trimming keeps a suffix of the buffer, and the byte count stays that of what is kept.\<close>

lemma trim_loop_suffix:
  "trim_loop cap m c buf b d = (buf', b', d') \<Longrightarrow>
     \<exists>k. buf' = drop k buf \<and> k \<le> length buf \<and> d' = d + int k"
proof (induction cap m c buf b d rule: trim_loop.induct)
  case (1 cap limit c bytes dropped)
  then show ?case by (auto intro!: exI [of _ 0])
next
  case (2 cap limit c e es b d)
  show ?case
  proof (cases "int (length (e # es)) > cap \<or> over_bytes limit b")
    case True
    with 2 obtain k where "buf' = drop k es" "k \<le> length es" "d' = d + 1 + int k"
      by (metis trim_loop.simps(2))
    then show ?thesis by (auto intro!: exI [of _ "Suc k"])
  next
    case False
    with 2 show ?thesis by (auto intro!: exI [of _ 0])
  qed
qed

lemma trim_loop_bounds:
  assumes "trim_loop cap m (cost r) buf (total_cost r buf) d = (buf', b', d')"
    and "0 \<le> cap" and "case m of None \<Rightarrow> True | Some k \<Rightarrow> 0 \<le> k"
  shows "int (length buf') \<le> cap \<and> b' = total_cost r buf' \<and> \<not> over_bytes m b'"
  using assms
proof (induction buf arbitrary: d)
  case Nil
  then show ?case by (auto simp: over_bytes_def split: option.splits)
next
  case (Cons e es)
  show ?case
  proof (cases "int (length (e # es)) > cap \<or> over_bytes m (total_cost r (e # es))")
    case True
    then have "trim_loop cap m (cost r) es (total_cost r es) (d + 1) = (buf', b', d')"
      using Cons.prems(1) by simp
    then show ?thesis using Cons.prems(2,3) by (rule Cons.IH)
  next
    case False
    with Cons.prems(1) show ?thesis by auto
  qed
qed

text \<open>Appending one event to the newest end, at whatever revision the ring was moved to.\<close>

lemma retain_fields [simp]:
  "capacity (retain e r) = capacity r" "maxBytes (retain e r) = maxBytes r"
  "ring_revision (retain e r) = ring_revision r" "supersede (retain e r) = supersede r"
  by (auto simp: retain_def Let_def split: prod.splits)

lemma retain_buffer:
  obtains k where "k \<le> Suc (length (buffer r))"
    and "buffer (retain e r) =
      drop k (buffer (collapseSuperseded e r) @ [\<lparr>revision = ring_revision r, event = e\<rparr>])"
proof -
  obtain buf b d where t: "trim_loop (capacity r) (maxBytes r) (cost r)
      (buffer (collapseSuperseded e r) @ [\<lparr>revision = ring_revision r, event = e\<rparr>])
      (retainedBytes (collapseSuperseded e r) + cost r e)
      (droppedEvents (collapseSuperseded e r)) = (buf, b, d)"
    by (metis prod_cases3)
  from trim_loop_suffix [OF t] t that show ?thesis
    by (auto simp: retain_def Let_def)
qed

lemma retain_cost [simp]: "cost (retain e r) = cost r" "total_cost (retain e r) = total_cost r"
  by (auto simp: retain_def Let_def total_cost_def fun_eq_iff split: prod.splits)

lemma drop_upto: "k \<le> nat (j - i + 1) \<Longrightarrow> drop k [i..j] = [i + int k..j]" for i j :: int
proof (induction k arbitrary: i)
  case (Suc k)
  then have "[i..j] = i # [i + 1..j]" by (simp add: upto_rec1)
  then show ?case using Suc by (simp add: ac_simps)
qed simp

lemma retain_inv:
  assumes cap: "1 \<le> capacity r" and len: "0 \<le> ring_revision r - int (length (buffer r)) - 1"
    and rev: "map revision (buffer r) = [ring_revision r - int (length (buffer r))..ring_revision r - 1]"
    and m: "case maxBytes r of None \<Rightarrow> True | Some m \<Rightarrow> 0 \<le> m"
    and bytes: "retainedBytes r = total_cost r (buffer r)"
  shows "ring_inv (retain e r)"
proof -
  define whole where
    "whole = buffer (collapseSuperseded e r) @ [\<lparr>revision = ring_revision r, event = e\<rparr>]"
  obtain buf b d where t: "trim_loop (capacity r) (maxBytes r) (cost r) whole
      (total_cost r whole) (droppedEvents (collapseSuperseded e r)) = (buf, b, d)"
    by (metis prod_cases3)
  have r': "buffer (retain e r) = buf" "retainedBytes (retain e r) = b"
    using t collapseSuperseded_bytes [OF bytes, of e] by (simp_all add: retain_def whole_def)
  have bounds: "int (length buf) \<le> capacity r \<and> b = total_cost r buf \<and> \<not> over_bytes (maxBytes r) b"
    by (rule trim_loop_bounds [OF t _ m]) (use cap in simp)
  obtain k where k: "buf = drop k whole" "k \<le> length whole"
    using trim_loop_suffix [OF t] by blast
  have whole: "map revision whole = [ring_revision r - int (length (buffer r))..ring_revision r]"
    using rev upto_snoc [of "ring_revision r - int (length (buffer r))" "ring_revision r - 1"]
    by (simp add: whole_def)
  have lw: "length whole = Suc (length (buffer r))" by (simp add: whole_def)
  have "map revision buf = [ring_revision r - int (length (buffer r)) + int k..ring_revision r]"
    using k whole lw by (simp add: drop_upto flip: drop_map)
  moreover have "length buf = Suc (length (buffer r)) - k" using k lw by simp
  ultimately have "map revision buf = [ring_revision r - int (length buf) + 1..ring_revision r]"
    and "int (length buf) \<le> ring_revision r"
    using k lw len by (auto simp: of_nat_diff algebra_simps)
  with bounds m cap show ?thesis by (auto simp: ring_inv_def dense_def r')
qed


section \<open>Every method keeps the invariant\<close>

lemma new_ring_inv: "new_ring cap opts = Inr r \<Longrightarrow> ring_inv r"
  by (auto simp: new_ring_def ring_inv_def dense_def over_bytes_def split: if_splits option.splits)

lemma clear_inv: "ring_inv r \<Longrightarrow> ring_inv (clear r)"
  by (auto simp: ring_inv_def clear_def dense_def over_bytes_def split: option.splits)

lemma append_event_inv: "ring_inv r \<Longrightarrow> ring_inv (append_event e r)"
  unfolding append_event_def
  by (rule retain_inv) (auto simp: ring_inv_def dense_def algebra_simps)

text \<open>A jump leaves an empty buffer; otherwise the ring is unchanged.\<close>

lemma skipTo_cases:
  assumes "skipTo n r = Inr r'"
  obtains (stay) "r' = r" "n = ring_revision r"
  | (dropped) "buffer r' = []" "retainedBytes r' = (if buffer r = [] then retainedBytes r else 0)"
      "n > ring_revision r" "capacity r' = capacity r" "maxBytes r' = maxBytes r"
      "supersede r' = supersede r" "ring_revision r' = ring_revision r"
      "total_cost r' = total_cost r"
proof (cases "n = ring_revision r")
  case True
  with assms have "r' = r" by (simp add: skipTo_def split: if_splits)
  then show thesis using True by (rule stay)
next
  case False
  with assms have "n > ring_revision r" by (simp add: skipTo_def split: if_splits)
  then show thesis
    using assms by (intro dropped) (auto simp: skipTo_def clear_def split: if_splits)
qed

lemma advanceTo_inv:
  assumes "ring_inv r" and "advanceTo n r = Inr r'"
  shows "ring_inv r'"
proof -
  from assms(2) obtain s where s: "skipTo n r = Inr s" "r' = s\<lparr>ring_revision := n\<rparr>"
    by (auto simp: advanceTo_def split: sum.splits)
  from s(1) show ?thesis
  proof (cases rule: skipTo_cases)
    case stay
    with assms(1) s(2) show ?thesis by simp
  next
    case dropped
    with assms(1) s(2) show ?thesis
      by (auto simp: ring_inv_def dense_def over_bytes_def split: option.splits if_splits)
  qed
qed

lemma appendAt_inv:
  assumes "ring_inv r" and "appendAt n e r = Inr r'"
  shows "ring_inv r'"
proof -
  from assms(2) obtain s where s: "skipTo (n - 1) r = Inr s"
    and r': "r' = retain e (s\<lparr>ring_revision := n\<rparr>)"
    by (auto simp: appendAt_def split: sum.splits)
  from s show ?thesis unfolding r'
  proof (cases rule: skipTo_cases)
    case stay
    then have "n = ring_revision r + 1" by simp
    with stay(1) assms(1) show "ring_inv (retain e (s\<lparr>ring_revision := n\<rparr>))"
      by (intro retain_inv) (auto simp: ring_inv_def dense_def algebra_simps)
  next
    case dropped
    with assms(1) show "ring_inv (retain e (s\<lparr>ring_revision := n\<rparr>))"
      by (intro retain_inv) (auto simp: ring_inv_def dense_def split: if_splits)
  qed
qed

lemma advance_inv: "ring_inv r \<Longrightarrow> advance r = Inr r' \<Longrightarrow> ring_inv r'"
  unfolding advance_def by (rule advanceTo_inv)

section \<open>The ring as a machine, and the log it stands for\<close>

datatype 'a ring_op = Append 'a | AppendAt int 'a | Advance | AdvanceTo int | Clear

fun ring_step :: "'a ring \<Rightarrow> 'a ring_op \<Rightarrow> ring_error + 'a ring" where
  "ring_step r (Append e) = Inr (append_event e r)"
| "ring_step r (AppendAt n e) = appendAt n e r"
| "ring_step r Advance = advance r"
| "ring_step r (AdvanceTo n) = advanceTo n r"
| "ring_step r Clear = Inr (clear r)"

text \<open>The log: every event ever issued, with its revision, and the latest revision.\<close>

fun log_step :: "(int \<times> 'a) list \<times> int \<Rightarrow> 'a ring_op \<Rightarrow> (int \<times> 'a) list \<times> int" where
  "log_step (l, n) (Append e) = (l @ [(n + 1, e)], n + 1)"
| "log_step (l, n) (AppendAt k e) = (l @ [(k, e)], k)"
| "log_step (l, n) Advance = (l, n + 1)"
| "log_step (l, n) (AdvanceTo k) = (l, k)"
| "log_step (l, n) Clear = (l, n)"

abbreviation entry_pair :: "'a ring_event \<Rightarrow> int \<times> 'a" where
  "entry_pair e \<equiv> (revision e, event e)"

text \<open>
  The log is strictly increasing and ends at the latest revision; without a supersede callback the
  buffer is its newest end, payloads included.
\<close>

definition log_sim :: "'a ring \<Rightarrow> (int \<times> 'a) list \<times> int \<Rightarrow> bool" where
  "log_sim r a \<longleftrightarrow>
     snd a = ring_revision r \<and> (\<forall>p\<in>set (fst a). fst p \<le> ring_revision r)
     \<and> sorted_wrt (\<lambda>p q. fst p < fst q) (fst a)
     \<and> (supersede r = None \<longrightarrow> (\<exists>older. fst a = older @ map entry_pair (buffer r)))"

lemma log_sim_retain:
  assumes "supersede r = None \<Longrightarrow> \<exists>older. l = older @ map entry_pair (buffer r)"
    and "\<forall>p\<in>set l. fst p < ring_revision r" and "sorted_wrt (\<lambda>p q. fst p < fst q) l"
  shows "log_sim (retain e r) (l @ [(ring_revision r, e)], ring_revision r)"
proof -
  have "\<exists>older. l @ [(ring_revision r, e)] = older @ map entry_pair (buffer (retain e r))"
    if none: "supersede r = None"
  proof -
    from assms(1) [OF none] obtain older where l: "l = older @ map entry_pair (buffer r)" by blast
    let ?w = "buffer r @ [\<lparr>revision = ring_revision r, event = e\<rparr>]"
    obtain k where b: "buffer (retain e r) = drop k ?w"
      using retain_buffer [of r e] collapseSuperseded_None [OF none] by metis
    have "map entry_pair ?w = map entry_pair (take k ?w) @ map entry_pair (drop k ?w)"
      by (simp only: append_take_drop_id flip: map_append)
    with l b show ?thesis
      by (intro exI [of _ "older @ map entry_pair (take k ?w)"]) simp
  qed
  then show ?thesis using assms(2,3) by (auto simp: log_sim_def sorted_wrt_append)
qed

lemma log_sim_advanceTo:
  assumes "log_sim r a" and "advanceTo n r = Inr r'"
  shows "log_sim r' (fst a, n)"
proof -
  from assms(2) obtain s where s: "skipTo n r = Inr s" "r' = s\<lparr>ring_revision := n\<rparr>"
    by (auto simp: advanceTo_def split: sum.splits)
  from s(1) show ?thesis
    by (cases rule: skipTo_cases) (use assms(1) s(2) in \<open>fastforce simp: log_sim_def\<close>)+
qed

lemma ring_step_sim:
  assumes "ring_inv r" and "log_sim r a" and "ring_step r e = Inr r'"
  shows "log_sim r' (log_step a e)"
proof (cases e)
  case (Append x)
  have "log_sim (append_event x r) (fst a @ [(ring_revision r + 1, x)], ring_revision r + 1)"
    unfolding append_event_def
    using log_sim_retain [of "r\<lparr>ring_revision := ring_revision r + 1\<rparr>" "fst a" x] assms(2)
    by (fastforce simp: log_sim_def)
  with Append assms(2,3) show ?thesis by (cases a) (auto simp: log_sim_def)
next
  case (AppendAt n x)
  with assms(3) obtain s where s: "skipTo (n - 1) r = Inr s"
    and r': "r' = retain x (s\<lparr>ring_revision := n\<rparr>)"
    by (auto simp: appendAt_def split: sum.splits)
  from s have "log_sim r' (fst a @ [(n, x)], n)"
    unfolding r'
  proof (cases rule: skipTo_cases)
    case stay
    with assms(2) show "log_sim (retain x (s\<lparr>ring_revision := n\<rparr>)) (fst a @ [(n, x)], n)"
      using log_sim_retain [of "s\<lparr>ring_revision := n\<rparr>" "fst a" x] by (fastforce simp: log_sim_def)
  next
    case dropped
    with assms(2) show "log_sim (retain x (s\<lparr>ring_revision := n\<rparr>)) (fst a @ [(n, x)], n)"
      using log_sim_retain [of "s\<lparr>ring_revision := n\<rparr>" "fst a" x] by (fastforce simp: log_sim_def)
  qed
  with AppendAt show ?thesis by (cases a) simp
next
  case Advance
  with assms have "log_sim r' (fst a, ring_revision r + 1)"
    by (auto simp: advance_def intro: log_sim_advanceTo)
  with Advance assms(2) show ?thesis by (cases a) (auto simp: log_sim_def)
next
  case (AdvanceTo n)
  with assms show ?thesis by (cases a) (use log_sim_advanceTo in fastforce)
next
  case Clear
  with assms(2,3) show ?thesis by (cases a) (auto simp: log_sim_def clear_def)
qed

lemma ring_step_inv: "ring_inv r \<Longrightarrow> ring_step r e = Inr r' \<Longrightarrow> ring_inv r'"
  by (cases e) (auto intro: append_event_inv appendAt_inv advance_inv advanceTo_inv clear_inv)

interpretation replay: simulated_machine ring_step ring_inv "\<lambda>_. True" log_step log_sim
  by unfold_locales (auto intro: ring_step_inv ring_step_sim)


section \<open>What a replay promises\<close>

text \<open>A complete replay holds exactly the revisions after the cursor.\<close>

lemma since_complete_revisions:
  assumes "ring_inv r" and "complete (since (Some c) r)"
  shows "map revision (replay_events (since (Some c) r)) = [c + 1..latestRevision r]"
proof -
  have d: "map revision (buffer r) =
      [ring_revision r - int (length (buffer r)) + 1..ring_revision r]"
    using assms(1) by (simp add: ring_inv_def dense_def)
  show ?thesis
  proof (cases "c = ring_revision r")
    case True
    then show ?thesis by (auto simp: since_def latestRevision_def)
  next
    case False
    with assms(2) have c: "c < ring_revision r" and o: "oldestRevision r \<noteq> 0" "c + 1 \<ge> oldestRevision r"
      by (auto simp: since_def Let_def split: if_splits)
    from o(1) obtain e es where b: "buffer r = e # es"
      by (auto simp: oldestRevision_def split: list.splits)
    with d have "revision e = ring_revision r - int (length (buffer r)) + 1"
      by (simp add: upto_rec1)
    with o(2) b have "ring_revision r - int (length (buffer r)) + 1 - 1 \<le> c"
      by (simp add: oldestRevision_def)
    then have "filter (\<lambda>x. c < x) (map revision (buffer r)) = [c + 1..ring_revision r]"
      unfolding d by (rule filter_upto_greater)
    moreover have "replay_events (since (Some c) r) = filter (\<lambda>x. c < revision x) (buffer r)"
      using assms(2) c by (auto simp: since_def Let_def split: if_splits)
    ultimately show ?thesis by (simp add: filter_map o_def latestRevision_def)
  qed
qed

text \<open>Every entry of the log after the cursor of a complete replay is in the buffer.\<close>

lemma since_complete_log:
  assumes inv: "ring_inv r" and sim: "log_sim r a" and none: "supersede r = None"
    and ok: "complete (since (Some c) r)"
  shows "map entry_pair (replay_events (since (Some c) r)) = filter (\<lambda>p. c < fst p) (fst a)"
proof -
  from sim none obtain older where l: "fst a = older @ map entry_pair (buffer r)"
    by (auto simp: log_sim_def)
  from sim have srt: "sorted_wrt (\<lambda>p q. fst p < fst q) (older @ map entry_pair (buffer r))"
    by (simp add: log_sim_def l)
  show ?thesis
  proof (cases "c = ring_revision r")
    case True
    then have "replay_events (since (Some c) r) = []" by (simp add: since_def)
    moreover have "filter (\<lambda>p. c < fst p) (fst a) = []"
      using sim True by (fastforce simp: log_sim_def filter_empty_conv)
    ultimately show ?thesis by simp
  next
    case False
    with ok have c: "c < ring_revision r" and o: "oldestRevision r \<noteq> 0" "c + 1 \<ge> oldestRevision r"
      by (auto simp: since_def Let_def split: if_splits)
    from o(1) obtain e es where b: "buffer r = e # es"
      by (auto simp: oldestRevision_def split: list.splits)
    have "\<forall>p\<in>set older. fst p < revision e"
      using srt b by (auto simp: sorted_wrt_append)
    with o(2) b have "filter (\<lambda>p. c < fst p) older = []"
      by (fastforce simp: oldestRevision_def filter_empty_conv)
    moreover have "replay_events (since (Some c) r) = filter (\<lambda>x. c < revision x) (buffer r)"
      using ok c by (auto simp: since_def Let_def split: if_splits)
    ultimately show ?thesis by (simp add: l filter_map o_def)
  qed
qed

lemma run_supersede:
  "run_steps ring_step r ops = Inr t \<Longrightarrow> supersede t = supersede r"
proof (induction ops arbitrary: r)
  case (Cons e es)
  from Cons.prems obtain s where s: "ring_step r e = Inr s" "run_steps ring_step s es = Inr t"
    by (rule run_steps_ConsE)
  have "supersede s = supersede r"
    using s(1) by (cases e)
      (auto simp: append_event_def appendAt_def advance_def advanceTo_def clear_def
        split: sum.splits elim: skipTo_cases)
  with Cons.IH [OF s(2)] show ?case by simp
qed simp

definition ring_log :: "'a ring_op list \<Rightarrow> (int \<times> 'a) list" where
  "ring_log ops = fst (foldl log_step ([], 0) ops)"

lemma new_ring_sim: "new_ring cap opts = Inr r \<Longrightarrow> log_sim r ([], 0)"
  by (auto simp: new_ring_def log_sim_def split: if_splits)


definition example_ring :: "nat ring" where
  "example_ring = \<lparr>capacity = 2, maxBytes = None, measureBytes = (\<lambda>_. 0), supersede = None,
     buffer = [], ring_revision = 0, droppedEvents = 0, retainedBytes = 0\<rparr>"

definition example_options :: "nat ring_options" where
  "example_options = \<lparr>opt_maxBytes = None, opt_measureBytes = None, opt_supersede = None\<rparr>"

lemma example_ring_new: "new_ring 2 example_options = Inr example_ring"
  by (simp add: new_ring_def example_options_def example_ring_def)

lemmas ring_eval = append_event_def retain_def collapseSuperseded_def over_bytes_def cost_def
  since_def oldestRevision_def latestRevision_def example_ring_def appendAt_def advance_def
  advanceTo_def skipTo_def clear_def isSafeInteger_def max_safe_integer_def


text \<open>No hole, with or without a supersede callback: after any sequence of method calls, the
  revisions of a complete replay are exactly the cursor's successor up to the latest revision.\<close>

theorem since_complete_dense:
  assumes "new_ring cap opts = Inr r0" and "run_steps ring_step r0 ops = Inr r"
    and "complete (since (Some c) r)"
  shows "map revision (replay_events (since (Some c) r)) = [c + 1..latestRevision r]"
  using since_complete_revisions replay.run_inv [OF new_ring_inv [OF assms(1)] list_all_True assms(2)] assms(3)
  by blast

theorem since_complete_dense_witness:
  "map revision (replay_events (since (Some 1) (append_event 9 (append_event 8 (append_event (7::nat) example_ring)))))
   = [1 + 1..3]"
  using since_complete_dense [OF example_ring_new, of "[Append 7, Append 8, Append 9]" _ 1]
  by (simp add: ring_eval)

text \<open>Boundedness and accounting: after any sequence of method calls the ring holds at most its
  capacity of events and at most its byte limit, and its byte count is that of what it holds.\<close>

theorem ring_bounded:
  assumes "new_ring cap opts = Inr r0" and "run_steps ring_step r0 ops = Inr r"
  shows "int (length (buffer r)) \<le> capacity r
    \<and> retainedBytes r = (\<Sum>e\<leftarrow>buffer r. max 0 (measureBytes r (event e)))
    \<and> (\<forall>m. maxBytes r = Some m \<longrightarrow> retainedBytes r \<le> m)"
proof -
  have "ring_inv r" by (rule replay.run_inv [OF new_ring_inv [OF assms(1)] list_all_True assms(2)])
  then show ?thesis
    by (auto simp: ring_inv_def total_cost_def cost_def over_bytes_def split: option.splits)
qed

theorem ring_bounded_witness:
  "int (length (buffer (append_event 9 (append_event 8 (append_event (7::nat) example_ring))))) \<le> 2"
  using ring_bounded [OF example_ring_new, of "[Append 7, Append 8, Append 9]"]
  by (simp add: ring_eval)


lemma trim_loop_unlimited:
  "0 \<le> cap \<Longrightarrow> trim_loop cap None c buf b d = (buf', b', d') \<Longrightarrow>
     length buf' = min (length buf) (nat cap)"
  by (induction cap "None :: int option" c buf b d rule: trim_loop.induct)
    (auto simp: over_bytes_def split: if_splits)

lemma retain_unlimited:
  assumes "0 \<le> capacity r" and "maxBytes r = None"
  shows "length (buffer (retain e r)) = min (Suc (length (buffer r))) (nat (capacity r))"
  using assms trim_loop_unlimited by (fastforce simp: retain_def Let_def split: prod.splits)

lemma append_run:
  assumes "ring_inv r" and "maxBytes r = None"
    and "int (length (buffer r)) = min (capacity r) (ring_revision r)"
    and "run_steps ring_step r (map Append es) = Inr t"
  shows "ring_inv t \<and> capacity t = capacity r
    \<and> int (length (buffer t)) = min (capacity t) (ring_revision t)"
  using assms
proof (induction es arbitrary: r)
  case (Cons e es)
  let ?s = "append_event e r"
  have "length (buffer ?s) = min (Suc (length (buffer r))) (nat (capacity r))"
    using Cons.prems(1,2) by (simp add: append_event_def retain_unlimited ring_inv_def)
  then have "int (length (buffer ?s)) = min (capacity r) (ring_revision r + 1)"
    using Cons.prems(1,3) by (auto simp: ring_inv_def)
  then have "ring_inv t \<and> capacity t = capacity ?s
      \<and> int (length (buffer t)) = min (capacity t) (ring_revision t)"
    by (intro Cons.IH) (use Cons.prems in \<open>simp_all add: append_event_def append_event_inv [unfolded append_event_def]\<close>)
  then show ?case by (simp add: append_event_def)
qed simp

lemma since_recent_complete:
  assumes "ring_inv r" and "0 \<le> c" and "c \<le> ring_revision r"
    and "ring_revision r - int (length (buffer r)) \<le> c"
  shows "complete (since (Some c) r)"
proof (cases "c = ring_revision r")
  case False
  with assms obtain e es where b: "buffer r = e # es" by (cases "buffer r") auto
  have "map revision (buffer r) = [ring_revision r - int (length (buffer r)) + 1..ring_revision r]"
    using assms(1) by (simp add: ring_inv_def dense_def)
  then have "revision e = ring_revision r - int (length (buffer r)) + 1"
    by (simp add: b upto_rec1)
  with b False assms show ?thesis
    by (auto simp: since_def oldestRevision_def Let_def ring_inv_def)
qed (use assms in \<open>simp add: since_def\<close>)

text \<open>Availability: a ring without a byte limit that only ever appends serves a complete replay
  to every client whose cursor is at most one capacity behind the latest revision.\<close>

theorem recent_cursor_is_served:
  assumes "new_ring cap opts = Inr r0" and "opt_maxBytes opts = None"
    and "run_steps ring_step r0 (map Append es) = Inr r"
    and "0 \<le> c" and "latestRevision r - max 1 cap \<le> c" and "c \<le> latestRevision r"
  shows "complete (since (Some c) r)"
proof -
  have i: "ring_inv r0" by (rule new_ring_inv [OF assms(1)])
  have r0: "maxBytes r0 = None" "capacity r0 = max 1 cap"
    "int (length (buffer r0)) = min (capacity r0) (ring_revision r0)"
    using assms(1,2) by (auto simp: new_ring_def split: if_splits)
  have "ring_inv r \<and> capacity r = capacity r0
      \<and> int (length (buffer r)) = min (capacity r) (ring_revision r)"
    by (rule append_run [OF i r0(1,3) assms(3)])
  with r0(2) assms(4-6) show ?thesis
    by (intro since_recent_complete) (auto simp: latestRevision_def)
qed

theorem recent_cursor_is_served_witness:
  "complete (since (Some 1) (append_event 9 (append_event 8 (append_event (7::nat) example_ring))))"
  by (rule recent_cursor_is_served [OF example_ring_new, of "[7, 8, 9]"])
    (simp_all add: ring_eval example_options_def)

end
