(* ===== verification/Graph_Model.thy ===== *)
theory Graph_Model
  imports Prelude
begin

text \<open>
  The records of a graph run: the parts of the frozen plan the run reads, activations, rewinds,
  fan-outs and artifacts (\<^verbatim>\<open>packages/protocol/src/graphs/run-model.ts\<close> and
  \<^verbatim>\<open>plan.ts\<close>), with the run's bounds.

  Field names carry a prefix per record. Fields that no modelled operation reads are kept as
  dynamic values. Record-typed fields keep their insertion order as association lists. Error texts
  are lists of UTF-16 code units, since their bound is counted in code units.
\<close>

section \<open>Bounds\<close>

definition maxActivations :: nat where "maxActivations = 200"
definition maxActivationHistory :: nat where "maxActivationHistory = 2000"
definition maxRewinds :: nat where "maxRewinds = 50"
definition maxErrorChars :: nat where "maxErrorChars = 2000"
definition maxGuardResults :: nat where "maxGuardResults = 8"
definition maxActivationKeyChars :: nat where "maxActivationKeyChars = 256"
definition maxAttempt :: int where "maxAttempt = 1000"
definition maxTruncatedItemIds :: nat where "maxTruncatedItemIds = 32"

section \<open>Plan\<close>

datatype node_kind = KAgent | KSystem | KGate | KMerge | KHuman | KSubgraph

datatype ws_access = AccNone | AccRead | AccWrite

datatype failure_policy = FailRun | SkipFailure | RouteFailure

text \<open>A port of a node: node, port and, for a gate or human node, the outlet that forwards it.\<close>

record port_ref =
  pf_node :: string
  pf_port :: string
  pf_outlet :: "string option"

datatype edge_source = FromNode port_ref | FromRunInput string

datatype collect_wait = AllSettled | Quorum | FirstFinished

record collect_policy =
  cp_wait :: collect_wait
  cp_count :: "int option"
  cp_minSuccessful :: int
  cp_includeFailures :: bool

record input_port =
  ip_name :: string
  ip_type :: string
  ip_required :: bool
  ip_collect :: "collect_policy option"
  ip_fanIn :: bool
  ip_edges :: "string list"
  ip_carries :: "string list"

datatype items_truncate = TruncFirst | TruncFail

record lens =
  ln_key :: string
  ln_role :: string

datatype replicate_axis =
    OverPanel string
  | OverLenses "lens list"
  | OverItems string int items_truncate
  | OverSamples int

text \<open>
  One record for the node kinds: \<open>pn_role\<close> and \<open>pn_isolation\<close> are read of agent nodes,
  \<open>pn_replicate\<close> of agent and sub-graph nodes, \<open>pn_strategy\<close> (the strategy's kind) of merges.
\<close>

record plan_node =
  pn_id :: string
  pn_kind :: node_kind
  pn_subgraph :: "string option"
  pn_loop :: "string option"
  pn_inputs :: "input_port list"
  pn_when :: "js option"
  pn_workspaceAccess :: ws_access
  pn_onFailure :: failure_policy
  pn_retryAttempts :: int
  pn_retryOn :: "string list"
  pn_isolation :: "string option"
  pn_role :: string
  pn_replicate :: "replicate_axis list option"
  pn_strategy :: string
  pn_timeoutMs :: "int option"

datatype edge_iterations = AllIterations | FirstIteration | LaterIterations

datatype edge_transform =
    TPick "string list"
  | TFilter js
  | TLimit int
  | TFlatten string
  | TAdapt string

text \<open>\<open>pe_sourceList\<close>: whether the source type is a list, None where the plan has no source type.\<close>

record plan_edge =
  pe_id :: string
  pe_from :: edge_source
  pe_to :: "string \<times> string"
  pe_transform :: "edge_transform list"
  pe_zip :: bool
  pe_iterations :: edge_iterations
  pe_sourceList :: "bool option"
  pe_budgetCheck :: bool
  pe_fanIn :: bool

record loop_carry =
  lc_from :: port_ref
  lc_to :: "string \<times> string"

record plan_loop =
  pl_id :: string
  pl_subgraph :: "string option"
  pl_members :: "string list"
  pl_until :: js
  pl_maxIterations :: int
  pl_carry :: "loop_carry list"

datatype param_source = ParamValue js | ParamRef string

record plan_subgraph =
  ps_id :: string
  ps_params :: "(string \<times> param_source) list"

record plan_output =
  po_name :: string
  po_required :: bool
  po_from :: port_ref

record plan_limits =
  li_maxAgentSessions :: int
  li_maxConcurrentAgents :: int
  li_maxTokens :: "int option"
  li_maxWallClockMs :: "int option"

record graph_plan =
  plan_outputs :: "plan_output list"
  plan_nodes :: "plan_node list"
  plan_edges :: "plan_edge list"
  plan_loops :: "plan_loop list"
  plan_subgraphs :: "plan_subgraph list option"
  plan_limits :: plan_limits

section \<open>Activations\<close>

datatype run_status =
    Provisioning | RRunning | RWaiting | RPaused | RComplete | RFailed | Cancelling | RCancelled

datatype act_state =
    Waiting | Ready | Admitting | Running | AwaitingHuman
  | Complete | Failed | Skipped | Cancelled | Superseded

datatype port_input = OneId string | ManyIds "string list"

record block =
  bl_reason :: string
  bl_holder :: "string option"
  bl_holderAccess :: "string option"

record activation =
  act_key :: string
  act_nodeId :: string
  act_iteration :: int
  act_branchKey :: "string option"
  act_attempt :: int
  act_state :: act_state
  act_inputs :: "(string \<times> port_input) list"
  act_outputs :: "(string \<times> string) list"
  act_outlet :: "string option"
  act_session :: "js option"
  act_human :: "js option"
  act_policy :: "js option"
  act_enforcement :: "string option"
  act_enforcementReason :: "string option"
  act_baseline :: "js option"
  act_worktree :: "js option"
  act_guards :: "js list option"
  act_blocked :: "block option"
  act_error :: "utf16 option"
  act_errorCause :: "string option"
  act_createdAt :: string
  act_startedAt :: "string option"
  act_finishedAt :: "string option"
  act_supersededBy :: "string option"

text \<open>\<open>[value].flat()\<close>: the ids of an input, one or many.\<close>

fun port_ids :: "port_input \<Rightarrow> string list" where
  "port_ids (OneId i) = [i]"
| "port_ids (ManyIds is) = is"

section \<open>Fan-outs, rewinds, artifacts, runs\<close>

record fan_out_item =
  fi_key :: string
  fi_index :: int
  fi_id :: string
  fi_artifact :: string

record item_fan_out =
  fo_nodeId :: string
  fo_iteration :: int
  fo_sources :: "string list"
  fo_items :: "fan_out_item list"
  fo_total :: int
  fo_truncatedIds :: "string list option"
  fo_createdAt :: string
  fo_supersededBy :: "string option"

record rewind =
  rw_id :: string
  rw_kind :: string
  rw_nodeId :: string
  rw_activation :: string
  rw_iteration :: int
  rw_requestedAt :: string
  rw_requestedBy :: string
  rw_activations :: "string list"
  rw_artifacts :: "string list"
  rw_code :: "js option"

record artifact_producer =
  ap_nodeId :: string
  ap_activation :: string
  ap_port :: string

datatype artifact_state = ALive | ASuperseded

record artifact_file =
  af_path :: string
  af_sha256 :: string
  af_bytes :: int

text \<open>\<open>ab_file\<close> is Some for a reference artifact, whose value may be absent.\<close>

record artifact_body =
  ab_file :: "artifact_file option"
  ab_value :: "jval option"

record artifact_workspace =
  aw_headRef :: string
  aw_baseRef :: "string option"

record artifact =
  art_id :: string
  art_digest :: string
  art_type :: string
  art_runId :: string
  art_producer :: artifact_producer
  art_inputs :: "string list"
  art_workspace :: "artifact_workspace option"
  art_createdAt :: string
  art_bytes :: int
  art_body :: artifact_body
  art_itemIds :: "string list option"
  art_itemSources :: "string list list option"
  art_sourceItem :: "string option"
  art_state :: artifact_state
  art_supersededBy :: "string option"

record run_usage =
  us_agentSessions :: int
  us_tokens :: int
  us_cacheReadTokens :: "int option"

text \<open>A role is bound to one model or, for a panel, to several.\<close>

datatype role_binding = OneModel js | PanelModels "js list"

record run_bindings =
  rb_roles :: "(string \<times> role_binding) list"
  rb_params :: "(string \<times> js) list"
  rb_inputs :: "(string \<times> string) list"

record graph_run =
  run_id :: string
  run_projectId :: string
  run_environmentId :: "string option"
  run_template :: js
  run_bindings :: run_bindings
  run_launch :: "js option"
  run_mockOptions :: "js option"
  run_plan :: graph_plan
  run_status :: run_status
  run_mock :: bool
  run_activations :: "activation list"
  run_rewinds :: "rewind list"
  run_loopIterations :: "(string \<times> int) list"
  run_fanOuts :: "item_fan_out list option"
  run_usage :: run_usage
  run_revision :: int
  run_createdAt :: string
  run_updatedAt :: string
  run_startedAt :: "string option"
  run_finishedAt :: "string option"
  run_cancelRequestedAt :: "string option"
  run_error :: "utf16 option"
  run_errorCause :: "string option"

section \<open>Terminal states\<close>

definition isGraphRunTerminal :: "run_status \<Rightarrow> bool" where
  "isGraphRunTerminal s \<longleftrightarrow> s \<in> {RComplete, RFailed, RCancelled}"

definition isGraphActivationTerminal :: "act_state \<Rightarrow> bool" where
  "isGraphActivationTerminal s \<longleftrightarrow> s \<in> {Complete, Failed, Skipped, Cancelled, Superseded}"

end
