(* ===== verification/Graph_Lineage.thy ===== *)
theory Graph_Lineage
  imports Graph_Model
begin

text \<open>
  The bounded appends and updates of a run record
  (\<^verbatim>\<open>packages/protocol/src/graphs/run-lineage.ts\<close>, with \<open>supersedeGraphItemFanOuts\<close> of
  \<^verbatim>\<open>run-fanout.ts\<close>): every helper answers a new record or a typed refusal, and
  keeps the record's invariant.
\<close>

section \<open>Refusals\<close>

datatype change_code =
    CActivations | CActivationHistory | CRewinds
  | CDuplicateActivation | CUnknownActivation | CAlreadySuperseded | CDuplicateRewind

type_synonym refusal = "change_code \<times> string"

section \<open>Operations\<close>

text \<open>An error text cut to the record's bound, never inside a surrogate pair; 8230 is the ellipsis.\<close>

definition boundGraphError :: "utf16 \<Rightarrow> utf16" where
  "boundGraphError t =
     (if length t \<le> maxErrorChars then t
      else (let cut = maxErrorChars - 1;
                cut = (if is_high_surrogate (t ! (cut - 1)) then cut - 1 else cut)
            in take cut t @ [8230]))"

definition graphRunActivation :: "graph_run \<Rightarrow> string \<Rightarrow> activation option" where
  "graphRunActivation run key = find (\<lambda>a. act_key a = key) (run_activations run)"

definition liveGraphActivations :: "graph_run \<Rightarrow> activation list" where
  "liveGraphActivations run = filter (\<lambda>a. act_state a \<noteq> Superseded) (run_activations run)"

definition appendGraphActivation :: "graph_run \<Rightarrow> activation \<Rightarrow> refusal + graph_run" where
  "appendGraphActivation run a =
     (if graphRunActivation run (act_key a) \<noteq> None
      then Inl (CDuplicateActivation, ''The run already has an activation with this key'')
      else if length (run_activations run) + 1 > maxActivationHistory
      then Inl (CActivationHistory,
             ''A run keeps at most 2000 activations, superseded ones included'')
      else if act_state a \<noteq> Superseded \<and> length (liveGraphActivations run) + 1 > maxActivations
      then Inl (CActivations, ''A run allows at most 200 activations that are not superseded'')
      else Inr (run\<lparr>run_activations := run_activations run @ [a]\<rparr>))"

text \<open>
  \<open>replaceGraphActivation\<close> with an update that may throw: the outer sum is the exception of the
  callback, the inner one the helper's typed refusal.
\<close>

definition replace_with ::
  "graph_run \<Rightarrow> string \<Rightarrow> (activation \<Rightarrow> 'x + activation) \<Rightarrow> 'x + (refusal + graph_run)" where
  "replace_with run key upd =
     (case find_index (\<lambda>a. act_key a = key) (run_activations run) of
        None \<Rightarrow> Inr (Inl (CUnknownActivation, ''The run has no such activation''))
      | Some index \<Rightarrow>
          (let current = run_activations run ! index
           in if act_state current = Superseded
              then Inr (Inl (CAlreadySuperseded, ''A superseded activation never changes''))
              else (case upd current of
                      Inl x \<Rightarrow> Inl x
                    | Inr nxt \<Rightarrow>
                        if act_key nxt \<noteq> key
                        then Inr (Inl (CUnknownActivation, ''An update may not change the key''))
                        else Inr (Inr (run\<lparr>run_activations := (run_activations run)[index := nxt]\<rparr>)))))"

definition replaceGraphActivation ::
  "graph_run \<Rightarrow> string \<Rightarrow> (activation \<Rightarrow> activation) \<Rightarrow> refusal + graph_run" where
  "replaceGraphActivation run key upd =
     (case replace_with run key (\<lambda>a. Inr (upd a) :: unit + activation) of
        Inl _ \<Rightarrow> Inl (CUnknownActivation, []) | Inr r \<Rightarrow> r)"

definition supersedeGraphItemFanOuts ::
  "item_fan_out list option \<Rightarrow> string \<Rightarrow> string list \<Rightarrow> item_fan_out list option" where
  "supersedeGraphItemFanOuts fanOuts rewindId artifacts =
     map_option (map (\<lambda>fo.
       if fo_supersededBy fo = None \<and> (\<exists>i\<in>set (fo_sources fo). i \<in> set artifacts)
       then fo\<lparr>fo_supersededBy := Some rewindId\<rparr> else fo)) fanOuts"

text \<open>The check of the activations a rewind names, in the order it names them.\<close>

fun check_targets :: "graph_run \<Rightarrow> string list \<Rightarrow> refusal option" where
  "check_targets run [] = None"
| "check_targets run (key # keys) =
     (case graphRunActivation run key of
        None \<Rightarrow> Some (CUnknownActivation, ''The rewind names no activation'')
      | Some a \<Rightarrow>
          if act_state a = Superseded
          then Some (CAlreadySuperseded,
                 ''The rewind names an activation that is already superseded'')
          else check_targets run keys)"

definition applyGraphRewind :: "graph_run \<Rightarrow> rewind \<Rightarrow> refusal + graph_run" where
  "applyGraphRewind run rw =
     (if \<exists>r\<in>set (run_rewinds run). rw_id r = rw_id rw
      then Inl (CDuplicateRewind, ''The run already has this rewind'')
      else if length (run_rewinds run) + 1 > maxRewinds
      then Inl (CRewinds, ''A run allows at most 50 rewinds'')
      else
        (case check_targets run (remdups (rw_activations rw)) of
           Some refused \<Rightarrow> Inl refused
         | None \<Rightarrow>
             (let targets = set (rw_activations rw);
                  node = find (\<lambda>n. pn_id n = rw_nodeId rw) (plan_nodes (run_plan run));
                  loops = (case Option.bind node pn_loop of
                             None \<Rightarrow> run_loopIterations run
                           | Some l \<Rightarrow> obj_set l (rw_iteration rw) (run_loopIterations run));
                  fanOuts = supersedeGraphItemFanOuts (run_fanOuts run) (rw_id rw) (rw_artifacts rw)
              in Inr (run\<lparr>run_activations := map (\<lambda>a.
                             if act_key a \<in> targets
                             then a\<lparr>act_state := Superseded, act_supersededBy := Some (rw_id rw)\<rparr>
                             else a) (run_activations run),
                          run_rewinds := run_rewinds run @ [rw],
                          run_loopIterations := loops,
                          run_fanOuts := (case fanOuts of None \<Rightarrow> run_fanOuts run | Some f \<Rightarrow> Some f)\<rparr>))))"

section \<open>Facts of the error bound\<close>

lemma boundGraphError_length: "length (boundGraphError t) \<le> maxErrorChars"
  by (auto simp: boundGraphError_def maxErrorChars_def Let_def)

lemma boundGraphError_short: "length t \<le> maxErrorChars \<Longrightarrow> boundGraphError t = t"
  by (simp add: boundGraphError_def)

lemma boundGraphError_idem [simp]: "boundGraphError (boundGraphError t) = boundGraphError t"
  by (rule boundGraphError_short) (rule boundGraphError_length)

section \<open>The record's invariant\<close>

definition activation_ok :: "string set \<Rightarrow> activation \<Rightarrow> bool" where
  "activation_ok rewinds a \<longleftrightarrow>
     (act_state a = Superseded \<longleftrightarrow> act_supersededBy a \<noteq> None)
     \<and> set_option (act_supersededBy a) \<subseteq> rewinds
     \<and> (\<forall>e. act_error a = Some e \<longrightarrow> length e \<le> maxErrorChars)"

definition rewind_ids :: "graph_run \<Rightarrow> string set" where
  "rewind_ids run = rw_id ` set (run_rewinds run)"

definition run_inv :: "graph_run \<Rightarrow> bool" where
  "run_inv run \<longleftrightarrow>
     distinct (map act_key (run_activations run))
     \<and> length (run_activations run) \<le> maxActivationHistory
     \<and> length (liveGraphActivations run) \<le> maxActivations
     \<and> distinct (map rw_id (run_rewinds run)) \<and> length (run_rewinds run) \<le> maxRewinds
     \<and> (\<forall>a\<in>set (run_activations run). activation_ok (rewind_ids run) a)
     \<and> (\<forall>e. run_error run = Some e \<longrightarrow> length e \<le> maxErrorChars)"

lemma graphRunActivation_SomeD:
  "graphRunActivation run key = Some a \<Longrightarrow> a \<in> set (run_activations run) \<and> act_key a = key"
  by (auto simp: graphRunActivation_def dest: find_SomeD)

lemma graphRunActivation_None:
  "graphRunActivation run key = None \<longleftrightarrow> key \<notin> act_key ` set (run_activations run)"
  by (auto simp: graphRunActivation_def)

lemma graphRunActivation_mem:
  assumes "run_inv run" and "a \<in> set (run_activations run)"
  shows "graphRunActivation run (act_key a) = Some a"
proof -
  obtain b where b: "graphRunActivation run (act_key a) = Some b"
    using assms(2) by (cases "graphRunActivation run (act_key a)") (auto simp: graphRunActivation_None)
  then have "b \<in> set (run_activations run)" "act_key b = act_key a"
    by (auto dest: graphRunActivation_SomeD)
  with assms have "b = a" by (auto simp: run_inv_def distinct_map inj_on_def)
  with b show ?thesis by simp
qed

section \<open>Every helper keeps the invariant\<close>

lemma appendGraphActivation_inv:
  assumes "run_inv run" and "activation_ok (rewind_ids run) a"
    and "appendGraphActivation run a = Inr run'"
  shows "run_inv run'"
  using assms
  by (auto simp: appendGraphActivation_def run_inv_def liveGraphActivations_def rewind_ids_def
      graphRunActivation_None image_iff split: if_splits)

text \<open>An accepted replacement changes one live activation, at its place.\<close>

lemma replace_with_cases:
  assumes "replace_with run key upd = Inr (Inr run')"
  obtains i nxt where "i < length (run_activations run)"
    and "act_key (run_activations run ! i) = key"
    and "act_state (run_activations run ! i) \<noteq> Superseded"
    and "upd (run_activations run ! i) = Inr nxt" and "act_key nxt = key"
    and "run' = run\<lparr>run_activations := (run_activations run)[i := nxt]\<rparr>"
proof -
  from assms obtain i where i: "find_index (\<lambda>a. act_key a = key) (run_activations run) = Some i"
    by (auto simp: replace_with_def split: option.splits)
  from assms i have live: "act_state (run_activations run ! i) \<noteq> Superseded"
    by (auto simp: replace_with_def Let_def)
  from assms i live obtain nxt where n: "upd (run_activations run ! i) = Inr nxt"
    by (auto simp: replace_with_def Let_def split: sum.splits)
  from assms i live n have "act_key nxt = key"
    and "run' = run\<lparr>run_activations := (run_activations run)[i := nxt]\<rparr>"
    by (auto simp: replace_with_def Let_def split: if_splits)
  then show thesis using find_index_SomeD [OF i] live n by (intro that [of i nxt]) auto
qed

lemma length_filter_update:
  "i < length xs \<Longrightarrow> P (xs ! i) \<Longrightarrow> P x \<Longrightarrow> length (filter P (xs[i := x])) = length (filter P xs)"
  by (induction xs arbitrary: i) (auto split: nat.splits)

lemma replace_with_inv:
  assumes "run_inv run" and "replace_with run key upd = Inr (Inr run')"
    and ok: "\<And>a b. a \<in> set (run_activations run) \<Longrightarrow> act_state a \<noteq> Superseded \<Longrightarrow> upd a = Inr b \<Longrightarrow>
      act_state b \<noteq> Superseded \<and> activation_ok (rewind_ids run) b"
  shows "run_inv run'"
proof -
  from assms(2) obtain i b where i: "i < length (run_activations run)"
    "act_key (run_activations run ! i) = key" "act_state (run_activations run ! i) \<noteq> Superseded"
    "upd (run_activations run ! i) = Inr b" "act_key b = key"
    and r: "run' = run\<lparr>run_activations := (run_activations run)[i := b]\<rparr>"
    by (rule replace_with_cases)
  have b: "act_state b \<noteq> Superseded" "activation_ok (rewind_ids run) b"
    using ok [OF nth_mem [OF i(1)] i(3,4)] by auto
  have "map act_key ((run_activations run)[i := b]) = map act_key (run_activations run)"
    using i by (simp add: map_update list_update_same_conv)
  moreover have "length (filter (\<lambda>a. act_state a \<noteq> Superseded) ((run_activations run)[i := b]))
      = length (filter (\<lambda>a. act_state a \<noteq> Superseded) (run_activations run))"
    using i(1,3) b(1) by (intro length_filter_update) auto
  ultimately show ?thesis
    using assms(1) b unfolding r run_inv_def liveGraphActivations_def rewind_ids_def
    by (auto dest: subsetD [OF set_update_subset_insert])
qed


lemma replaceGraphActivation_inv:
  assumes "run_inv run" and "replaceGraphActivation run key upd = Inr run'"
    and "\<And>a. a \<in> set (run_activations run) \<Longrightarrow> act_state a \<noteq> Superseded \<Longrightarrow>
      act_state (upd a) \<noteq> Superseded \<and> activation_ok (rewind_ids run) (upd a)"
  shows "run_inv run'"
proof -
  have "replace_with run key (\<lambda>a. Inr (upd a) :: unit + activation) = Inr (Inr run')"
    using assms(2) by (auto simp: replaceGraphActivation_def split: sum.splits)
  then show ?thesis by (rule replace_with_inv [OF assms(1)]) (use assms(3) in auto)
qed

lemma check_targets_None:
  "check_targets run keys = None \<longleftrightarrow>
     (\<forall>k\<in>set keys. \<exists>a. graphRunActivation run k = Some a \<and> act_state a \<noteq> Superseded)"
  by (induction keys) (auto split: option.splits)

text \<open>What an accepted rewind does to the record, field by field.\<close>

lemma applyGraphRewind_cases:
  assumes "applyGraphRewind run rw = Inr run'"
  obtains "rw_id rw \<notin> rewind_ids run" and "length (run_rewinds run) < maxRewinds"
    and "\<forall>k\<in>set (rw_activations rw). \<exists>a. graphRunActivation run k = Some a \<and> act_state a \<noteq> Superseded"
    and "run_activations run' = map (\<lambda>a. if act_key a \<in> set (rw_activations rw)
           then a\<lparr>act_state := Superseded, act_supersededBy := Some (rw_id rw)\<rparr> else a)
         (run_activations run)"
    and "run_rewinds run' = run_rewinds run @ [rw]" and "run_error run' = run_error run"
    and "run_status run' = run_status run" and "run_id run' = run_id run"
    and "run_plan run' = run_plan run"
proof -
  from assms have "\<not> (\<exists>r\<in>set (run_rewinds run). rw_id r = rw_id rw)"
    and l: "\<not> length (run_rewinds run) + 1 > maxRewinds"
    and c: "check_targets run (remdups (rw_activations rw)) = None"
    by (auto simp: applyGraphRewind_def split: if_splits option.splits)
  then have "rw_id rw \<notin> rewind_ids run" by (auto simp: rewind_ids_def)
  moreover from c have "\<forall>k\<in>set (rw_activations rw).
      \<exists>a. graphRunActivation run k = Some a \<and> act_state a \<noteq> Superseded"
    by (simp add: check_targets_None)
  moreover from assms l c \<open>\<not> (\<exists>r\<in>set (run_rewinds run). rw_id r = rw_id rw)\<close>
  have "run_activations run' = map (\<lambda>a. if act_key a \<in> set (rw_activations rw)
           then a\<lparr>act_state := Superseded, act_supersededBy := Some (rw_id rw)\<rparr> else a)
         (run_activations run)
      \<and> run_rewinds run' = run_rewinds run @ [rw] \<and> run_error run' = run_error run
      \<and> run_status run' = run_status run \<and> run_id run' = run_id run \<and> run_plan run' = run_plan run"
    by (auto simp: applyGraphRewind_def Let_def)
  ultimately show thesis using l by (intro that) simp_all
qed

lemma length_filter_map_le:
  "(\<And>x. P (f x) \<Longrightarrow> P x) \<Longrightarrow> length (filter P (map f xs)) \<le> length (filter P xs)"
  by (induction xs) (auto intro: le_SucI)

lemma applyGraphRewind_inv:
  assumes "run_inv run" and "applyGraphRewind run rw = Inr run'"
  shows "run_inv run'"
proof -
  let ?f = "\<lambda>a. if act_key a \<in> set (rw_activations rw)
           then a\<lparr>act_state := Superseded, act_supersededBy := Some (rw_id rw)\<rparr> else a"
  from assms(2) show ?thesis
  proof (rule applyGraphRewind_cases)
    assume new: "rw_id rw \<notin> rewind_ids run" and l: "length (run_rewinds run) < maxRewinds"
      and acts: "run_activations run' = map ?f (run_activations run)"
      and rws: "run_rewinds run' = run_rewinds run @ [rw]" and err: "run_error run' = run_error run"
    have keys: "map act_key (run_activations run') = map act_key (run_activations run)"
      by (simp add: acts)
    have live: "length (liveGraphActivations run') \<le> length (liveGraphActivations run)"
      unfolding liveGraphActivations_def acts by (rule length_filter_map_le) (auto split: if_splits)
    have ids: "rewind_ids run' = insert (rw_id rw) (rewind_ids run)" by (simp add: rewind_ids_def rws)
    have "activation_ok (rewind_ids run') (?f a)" if "a \<in> set (run_activations run)" for a
      using that assms(1) by (auto simp: run_inv_def activation_ok_def ids)
    then have "\<forall>a\<in>set (run_activations run'). activation_ok (rewind_ids run') a"
      by (simp only: acts set_map ball_simps) blast
    moreover have "length (run_activations run') = length (run_activations run)" by (simp add: acts)
    ultimately show ?thesis
      using assms(1) new l live keys by (auto simp: run_inv_def rws err rewind_ids_def)
  qed
qed


section \<open>An example run\<close>

text \<open>Records with every optional field absent, at which the properties are applied.\<close>

definition example_activation :: "string \<Rightarrow> string \<Rightarrow> act_state \<Rightarrow> activation" where
  "example_activation key node st = \<lparr>act_key = key, act_nodeId = node, act_iteration = 1,
     act_branchKey = None, act_attempt = 1, act_state = st, act_inputs = [], act_outputs = [],
     act_outlet = None, act_session = None, act_human = None, act_policy = None,
     act_enforcement = None, act_enforcementReason = None, act_baseline = None, act_worktree = None,
     act_guards = None, act_blocked = None, act_error = None, act_errorCause = None,
     act_createdAt = ''t0'', act_startedAt = None, act_finishedAt = None, act_supersededBy = None\<rparr>"

definition example_run :: "activation list \<Rightarrow> graph_run" where
  "example_run acts = \<lparr>run_id = ''run1'', run_projectId = ''p'', run_environmentId = None,
     run_template = JNull, run_bindings = \<lparr>rb_roles = [], rb_params = [], rb_inputs = []\<rparr>,
     run_launch = None, run_mockOptions = None,
     run_plan = \<lparr>plan_outputs = [], plan_nodes = [], plan_edges = [], plan_loops = [],
       plan_subgraphs = None, plan_limits = \<lparr>li_maxAgentSessions = 200, li_maxConcurrentAgents = 4,
         li_maxTokens = None, li_maxWallClockMs = None\<rparr>\<rparr>,
     run_status = RRunning, run_mock = False, run_activations = acts, run_rewinds = [],
     run_loopIterations = [], run_fanOuts = None,
     run_usage = \<lparr>us_agentSessions = 0, us_tokens = 0, us_cacheReadTokens = None\<rparr>,
     run_revision = 1, run_createdAt = ''t0'', run_updatedAt = ''t0'', run_startedAt = None,
     run_finishedAt = None, run_cancelRequestedAt = None, run_error = None, run_errorCause = None\<rparr>"

lemmas example_eval = example_activation_def example_run_def

lemma example_run_inv:
  "distinct (map fst xs) \<Longrightarrow> length xs \<le> 200 \<Longrightarrow> list_all (\<lambda>(k, n, s). s \<noteq> Superseded) xs \<Longrightarrow>
     run_inv (example_run (map (\<lambda>(k, n, s). example_activation k n s) xs))"
  by (auto simp: run_inv_def example_eval liveGraphActivations_def activation_ok_def
      rewind_ids_def maxActivationHistory_def maxActivations_def maxRewinds_def o_def
      case_prod_beta list_all_iff intro: le_trans [OF length_filter_le])

end
