(* ===== verification/Graph_Transitions.thy ===== *)
theory Graph_Transitions
  imports Graph_Lineage
begin

text \<open>
  The transition tables of a run and its activations, and the pure functions that apply executor
  reports, settlements, admissions and admission blocks
  (\<^verbatim>\<open>apps/backend/src/core/graph-run-transitions.ts\<close>). A thrown
  GraphRunTransitionError is the left value of the result.

  \<open>sameJson\<close> compares serialisations; two activations are the same here when they are equal.
\<close>

section \<open>Tables\<close>

fun run_transitions :: "run_status \<Rightarrow> run_status list" where
  "run_transitions Provisioning = [RRunning, Cancelling, RFailed, RCancelled]"
| "run_transitions RRunning = [RWaiting, RPaused, Cancelling, RComplete, RFailed]"
| "run_transitions RWaiting = [RRunning, RPaused, Cancelling, RComplete, RFailed]"
| "run_transitions RPaused = [RRunning, RWaiting, Cancelling, RComplete, RFailed]"
| "run_transitions Cancelling = [RCancelled, RFailed]"
| "run_transitions RComplete = []"
| "run_transitions RFailed = []"
| "run_transitions RCancelled = []"

fun activation_transitions :: "act_state \<Rightarrow> act_state list" where
  "activation_transitions Waiting = [Ready, Skipped, Cancelled, Failed]"
| "activation_transitions Ready = [Admitting, Skipped, Cancelled, Failed]"
| "activation_transitions Admitting = [Running, AwaitingHuman, Complete, Failed, Cancelled]"
| "activation_transitions Running = [Running, AwaitingHuman, Complete, Failed, Cancelled]"
| "activation_transitions AwaitingHuman = [Running, AwaitingHuman, Complete, Failed, Cancelled]"
| "activation_transitions Complete = []"
| "activation_transitions Failed = []"
| "activation_transitions Skipped = []"
| "activation_transitions Cancelled = []"
| "activation_transitions Superseded = []"

definition isGraphActivationAdmitted :: "act_state \<Rightarrow> bool" where
  "isGraphActivationAdmitted s \<longleftrightarrow> s \<in> {Admitting, Running, AwaitingHuman}"

definition canTransitionGraphRun :: "run_status \<Rightarrow> run_status \<Rightarrow> bool" where
  "canTransitionGraphRun src dst \<longleftrightarrow> src = dst \<or> dst \<in> set (run_transitions src)"

datatype transition_error =
    RunCannotBecome run_status run_status
  | ActivationCannotBecome act_state act_state
  | ActivationCannotBeAdmitted act_state
  | TransitionRefused string

section \<open>Run status\<close>

text \<open>\<open>or_else a b\<close> is the source's \<open>a ?? b\<close>.\<close>

definition or_else :: "'a option \<Rightarrow> 'a \<Rightarrow> 'a option" where
  "or_else a b = (case a of None \<Rightarrow> Some b | Some x \<Rightarrow> Some x)"

definition transitionGraphRun ::
  "graph_run \<Rightarrow> run_status \<Rightarrow> string \<Rightarrow> (utf16 \<times> string) option \<Rightarrow> transition_error + graph_run" where
  "transitionGraphRun run status now failure =
     (if \<not> canTransitionGraphRun (run_status run) status
      then Inl (RunCannotBecome (run_status run) status)
      else
        (let r = run\<lparr>run_status := status\<rparr>;
             r = (if status = RRunning \<and> run_startedAt r = None then r\<lparr>run_startedAt := Some now\<rparr> else r);
             r = (if status = Cancelling \<and> run_cancelRequestedAt r = None
                  then r\<lparr>run_cancelRequestedAt := Some now\<rparr> else r);
             r = (if status = RComplete \<or> status = RFailed \<or> status = RCancelled
                  then r\<lparr>run_finishedAt := or_else (run_finishedAt r) now\<rparr> else r)
         in case failure of
              None \<Rightarrow> Inr r
            | Some (err, cause) \<Rightarrow>
                if run_error r = None
                then Inr (r\<lparr>run_error := Some (boundGraphError err), run_errorCause := Some cause\<rparr>)
                else Inr r))"

section \<open>Reports\<close>

record facts =
  fact_session :: "js option"
  fact_policy :: "js option"
  fact_enforcement :: "string option"
  fact_enforcementReason :: "string option"
  fact_baseline :: "js option"
  fact_worktree :: "js option"
  fact_guards :: "js list option"
  fact_human :: "js option"
  fact_usage :: "(rat \<times> rat option) option"

datatype report_state =
    RepUnchanged
  | RepRunning
  | RepAwaitingHuman
  | RepComplete "(string \<times> string) list" "string option"
  | RepFailed utf16 string "(string \<times> string) list option"
  | RepCancelled "utf16 option"

fun report_target :: "act_state \<Rightarrow> report_state \<Rightarrow> act_state" where
  "report_target current RepUnchanged = current"
| "report_target current RepRunning = Running"
| "report_target current RepAwaitingHuman = AwaitingHuman"
| "report_target current (RepComplete _ _) = Complete"
| "report_target current (RepFailed _ _ _) = Failed"
| "report_target current (RepCancelled _) = Cancelled"

text \<open>The names the source's messages print for the states.\<close>

fun state_name :: "act_state \<Rightarrow> string" where
  "state_name Waiting = ''waiting''"
| "state_name Ready = ''ready''"
| "state_name Admitting = ''admitting''"
| "state_name Running = ''running''"
| "state_name AwaitingHuman = ''awaiting-human''"
| "state_name Complete = ''complete''"
| "state_name Failed = ''failed''"
| "state_name Skipped = ''skipped''"
| "state_name Cancelled = ''cancelled''"
| "state_name Superseded = ''superseded''"

text \<open>\<open>if (value) next.field = value\<close> for an optional fact (an empty string is not truthy).\<close>

definition override :: "'a option \<Rightarrow> 'a option \<Rightarrow> 'a option" where
  "override new old = (case new of None \<Rightarrow> old | Some x \<Rightarrow> Some x)"

definition truthy :: "string option \<Rightarrow> string option" where
  "truthy s = (if s = Some [] then None else s)"

definition report_next :: "activation \<Rightarrow> facts \<Rightarrow> report_state \<Rightarrow> act_state \<Rightarrow> string \<Rightarrow> activation" where
  "report_next current f rep target now =
     (let n = current\<lparr>act_state := target,
            act_session := override (fact_session f) (act_session current),
            act_policy := override (fact_policy f) (act_policy current),
            act_enforcement := override (truthy (fact_enforcement f)) (act_enforcement current),
            act_enforcementReason := override (fact_enforcementReason f) (act_enforcementReason current),
            act_baseline := override (fact_baseline f) (act_baseline current),
            act_worktree := override (fact_worktree f) (act_worktree current),
            act_guards := override (map_option (slice_last maxGuardResults) (fact_guards f))
                            (act_guards current),
            act_human := override (fact_human f) (act_human current)\<rparr>;
          n = (if (target = Running \<or> target = AwaitingHuman) \<and> act_startedAt n = None
               then n\<lparr>act_startedAt := Some now\<rparr> else n);
          n = (case rep of
                 RepComplete outs outlet \<Rightarrow>
                   n\<lparr>act_outputs := outs, act_outlet := override outlet (act_outlet n)\<rparr>
               | RepFailed err cause outs \<Rightarrow>
                   n\<lparr>act_outputs := (case outs of None \<Rightarrow> act_outputs n | Some p \<Rightarrow> p),
                     act_error := Some (boundGraphError err), act_errorCause := Some cause\<rparr>
               | RepCancelled (Some err) \<Rightarrow> n\<lparr>act_error := Some (boundGraphError err)\<rparr>
               | _ \<Rightarrow> n)
      in if isGraphActivationTerminal target
         then n\<lparr>act_startedAt := or_else (act_startedAt n) now, act_finishedAt := Some now\<rparr>
         else n)"

definition add_usage :: "(rat \<times> rat option) option \<Rightarrow> run_usage \<Rightarrow> run_usage" where
  "add_usage reported u =
     (case reported of
        None \<Rightarrow> u
      | Some (tokens, cacheRead) \<Rightarrow>
          (let c = (case cacheRead of None \<Rightarrow> 0 | Some x \<Rightarrow> x)
           in if tokens > 0 \<or> c > 0
              then (let t = max 0 \<lfloor>tokens\<rfloor>; cr = max 0 \<lfloor>c\<rfloor>
                    in u\<lparr>us_tokens := us_tokens u + t,
                         us_cacheReadTokens :=
                           (if cr > 0 \<or> us_cacheReadTokens u \<noteq> None
                            then Some ((case us_cacheReadTokens u of None \<Rightarrow> 0 | Some x \<Rightarrow> x) + cr)
                            else us_cacheReadTokens u)\<rparr>)
              else u))"

definition usage_reported :: "(rat \<times> rat option) option \<Rightarrow> bool" where
  "usage_reported reported =
     (case reported of None \<Rightarrow> False
      | Some (t, c) \<Rightarrow> t > 0 \<or> (case c of None \<Rightarrow> 0 | Some x \<Rightarrow> x) > 0)"

record report_outcome =
  out_run :: graph_run
  out_activation :: activation
  out_changed :: bool

definition applyGraphActivationReport ::
  "graph_run \<Rightarrow> string \<Rightarrow> facts \<Rightarrow> report_state \<Rightarrow> string \<Rightarrow> string + report_outcome" where
  "applyGraphActivationReport run key f rep now =
     (case find (\<lambda>a. act_key a = key) (run_activations run) of
        None \<Rightarrow> Inl ''The run has no such activation''
      | Some current \<Rightarrow>
          if isGraphActivationTerminal (act_state current)
          then Inr \<lparr>out_run = run, out_activation = current, out_changed = False\<rparr>
          else
            (let target = report_target (act_state current) rep
             in if target \<noteq> act_state current
                   \<and> target \<notin> set (activation_transitions (act_state current))
                then Inl (''An executor cannot move a '' @ state_name (act_state current)
                       @ '' activation to '' @ state_name target)
                else if rep = RepUnchanged \<and> act_state current \<noteq> Running
                   \<and> act_state current \<noteq> AwaitingHuman \<and> act_state current \<noteq> Admitting
                then Inl (''An executor does not own a '' @ state_name (act_state current)
                       @ '' activation'')
                else
                  (let nxt = report_next current f rep target now
                   in if act_session nxt \<noteq> None
                         \<and> (act_policy nxt = None \<or> act_enforcement nxt = None)
                      then Inl ''An activation records its policy and enforcement tier before its session''
                      else
                        (case replaceGraphActivation run key (\<lambda>_. nxt) of
                           Inl refused \<Rightarrow> Inl (snd refused)
                         | Inr replaced \<Rightarrow>
                             (let updated = replaced\<lparr>run_usage := add_usage (fact_usage f) (run_usage replaced)\<rparr>;
                                  changed = (usage_reported (fact_usage f) \<or> current \<noteq> nxt)
                              in Inr \<lparr>out_run = (if changed then updated else run),
                                      out_activation = nxt, out_changed = changed\<rparr>)))))"

section \<open>Settling, admitting, blocking\<close>

datatype settled = SSkipped | SCancelled | SFailed

fun settled_state :: "settled \<Rightarrow> act_state" where
  "settled_state SSkipped = Skipped"
| "settled_state SCancelled = Cancelled"
| "settled_state SFailed = Failed"

definition settle_update ::
  "settled \<Rightarrow> string \<Rightarrow> (utf16 \<times> string option) option \<Rightarrow> activation \<Rightarrow> transition_error + activation" where
  "settle_update st now failure a =
     (let state = settled_state st
      in if act_state a \<noteq> state \<and> state \<notin> set (activation_transitions (act_state a))
         then Inl (ActivationCannotBecome (act_state a) state)
         else
           (let n = a\<lparr>act_blocked := None, act_state := state, act_finishedAt := Some now\<rparr>
            in case failure of
                 None \<Rightarrow> Inr n
               | Some (err, cause) \<Rightarrow>
                   Inr (n\<lparr>act_error := Some (boundGraphError err),
                          act_errorCause := override (truthy cause) (act_errorCause n)\<rparr>)))"

definition settleGraphActivation ::
  "graph_run \<Rightarrow> string \<Rightarrow> settled \<Rightarrow> string \<Rightarrow> (utf16 \<times> string option) option
    \<Rightarrow> transition_error + graph_run" where
  "settleGraphActivation run key st now failure =
     (case replace_with run key (settle_update st now failure) of
        Inl thrown \<Rightarrow> Inl thrown
      | Inr (Inl refused) \<Rightarrow> Inl (TransitionRefused (snd refused))
      | Inr (Inr r) \<Rightarrow> Inr r)"

definition admit_update :: "activation \<Rightarrow> transition_error + activation" where
  "admit_update a =
     (if act_state a \<noteq> Ready then Inl (ActivationCannotBeAdmitted (act_state a))
      else Inr (a\<lparr>act_blocked := None, act_state := Admitting\<rparr>))"

definition admitGraphActivation ::
  "graph_run \<Rightarrow> string \<Rightarrow> bool \<Rightarrow> transition_error + graph_run" where
  "admitGraphActivation run key agentSession =
     (case replace_with run key admit_update of
        Inl thrown \<Rightarrow> Inl thrown
      | Inr (Inl refused) \<Rightarrow> Inl (TransitionRefused (snd refused))
      | Inr (Inr r) \<Rightarrow>
          if \<not> agentSession then Inr r
          else Inr (r\<lparr>run_usage := (run_usage r)\<lparr>us_agentSessions := us_agentSessions (run_usage r) + 1\<rparr>\<rparr>))"

definition markGraphActivationBlocked :: "graph_run \<Rightarrow> string \<Rightarrow> block \<Rightarrow> graph_run" where
  "markGraphActivationBlocked run key b =
     (case find (\<lambda>a. act_key a = key) (run_activations run) of
        None \<Rightarrow> run
      | Some current \<Rightarrow>
          if act_state current \<noteq> Ready then run
          else if act_blocked current = Some b then run
          else
            (case replaceGraphActivation run key (\<lambda>a. a\<lparr>act_blocked := Some \<lparr>
                     bl_reason = bl_reason b, bl_holder = truthy (bl_holder b),
                     bl_holderAccess = truthy (bl_holderAccess b)\<rparr>\<rparr>) of
               Inl _ \<Rightarrow> run | Inr r \<Rightarrow> r))"


section \<open>The run record as a machine\<close>

datatype graph_event =
    EAppend activation
  | EReport string facts report_state string
  | ESettle string settled string "(utf16 \<times> string option) option"
  | EAdmit string bool
  | EBlock string block
  | ERewind rewind
  | ETransition run_status string "(utf16 \<times> string) option"

datatype graph_error = GRefused refusal | GReport string | GThrown transition_error

definition map_error :: "('x \<Rightarrow> 'y) \<Rightarrow> 'x + 'a \<Rightarrow> 'y + 'a" where
  "map_error f r = (case r of Inl e \<Rightarrow> Inl (f e) | Inr a \<Rightarrow> Inr a)"

lemma map_error_Inr [simp]: "map_error f r = Inr a \<longleftrightarrow> r = Inr a"
  by (auto simp: map_error_def split: sum.splits)

lemma map_error_simps [simp]: "map_error f (Inl e) = Inl (f e)" "map_error f (Inr a) = Inr a"
  by (simp_all add: map_error_def)

fun graph_step :: "graph_run \<Rightarrow> graph_event \<Rightarrow> graph_error + graph_run" where
  "graph_step run (EAppend a) = map_error GRefused (appendGraphActivation run a)"
| "graph_step run (EReport key f rep now) =
     (case applyGraphActivationReport run key f rep now of
        Inl m \<Rightarrow> Inl (GReport m) | Inr out \<Rightarrow> Inr (out_run out))"
| "graph_step run (ESettle key st now failure) =
     map_error GThrown (settleGraphActivation run key st now failure)"
| "graph_step run (EAdmit key s) = map_error GThrown (admitGraphActivation run key s)"
| "graph_step run (EBlock key b) = Inr (markGraphActivationBlocked run key b)"
| "graph_step run (ERewind rw) = map_error GRefused (applyGraphRewind run rw)"
| "graph_step run (ETransition st now failure) =
     map_error GThrown (transitionGraphRun run st now failure)"

text \<open>A new activation has not been superseded, and its error fits the bound.\<close>

fun event_ok :: "graph_event \<Rightarrow> bool" where
  "event_ok (EAppend a) \<longleftrightarrow> act_state a \<noteq> Superseded \<and> act_supersededBy a = None
     \<and> (\<forall>e. act_error a = Some e \<longrightarrow> length e \<le> maxErrorChars)"
| "event_ok _ \<longleftrightarrow> True"

section \<open>How one activation changes\<close>

text \<open>One step of an activation's state: stay, follow the table, or be superseded once.\<close>

definition state_step :: "act_state \<Rightarrow> act_state \<Rightarrow> bool" where
  "state_step s t \<longleftrightarrow> s = t \<or> t \<in> set (activation_transitions s) \<or> (s \<noteq> Superseded \<and> t = Superseded)"

lemma table_not_superseded [simp]: "Superseded \<notin> set (activation_transitions s)"
  by (cases s) auto

lemma terminal_no_transitions: "isGraphActivationTerminal s \<Longrightarrow> activation_transitions s = []"
  by (cases s) (auto simp: isGraphActivationTerminal_def)

lemma state_step_terminal:
  "state_step\<^sup>*\<^sup>* s t \<Longrightarrow> isGraphActivationTerminal s \<Longrightarrow> t = s \<or> t = Superseded"
  by (induction rule: rtranclp_induct)
    (auto simp: state_step_def terminal_no_transitions isGraphActivationTerminal_def)

text \<open>The position of an activation, which no step changes.\<close>

definition same_position :: "activation \<Rightarrow> activation \<Rightarrow> bool" where
  "same_position a b \<longleftrightarrow> act_key a = act_key b \<and> act_nodeId a = act_nodeId b
     \<and> act_iteration a = act_iteration b \<and> act_branchKey a = act_branchKey b
     \<and> act_attempt a = act_attempt b \<and> act_inputs a = act_inputs b"

definition act_le :: "activation \<Rightarrow> activation \<Rightarrow> bool" where
  "act_le a b \<longleftrightarrow> same_position a b \<and> state_step\<^sup>*\<^sup>* (act_state a) (act_state b)
     \<and> (act_state a = Superseded \<longrightarrow> b = a)"

lemma act_le_refl [simp]: "act_le a a"
  by (simp add: act_le_def same_position_def)

lemma act_le_trans: "act_le a b \<Longrightarrow> act_le b c \<Longrightarrow> act_le a c"
  by (auto simp: act_le_def same_position_def intro: rtranclp_trans)

definition history_le :: "graph_run \<Rightarrow> graph_run \<Rightarrow> bool" where
  "history_le run run' \<longleftrightarrow>
     (\<forall>a\<in>set (run_activations run). \<exists>b\<in>set (run_activations run'). act_le a b)"

lemma history_le_refl: "history_le r r"
  unfolding history_le_def using act_le_refl by blast

lemma history_le_trans: "history_le r s \<Longrightarrow> history_le s t \<Longrightarrow> history_le r t"
  unfolding history_le_def using act_le_trans by meson

lemma history_le_same: "run_activations r' = run_activations r \<Longrightarrow> history_le r r'"
  unfolding history_le_def by (metis act_le_refl)

lemma replace_with_le:
  assumes "replace_with run key upd = Inr (Inr run')"
    and ok: "\<And>a b. a \<in> set (run_activations run) \<Longrightarrow> act_key a = key \<Longrightarrow> upd a = Inr b \<Longrightarrow>
      act_state a \<noteq> Superseded \<Longrightarrow> act_le a b"
  shows "history_le run run'"
proof -
  from assms(1) obtain i b where i: "i < length (run_activations run)"
    "act_key (run_activations run ! i) = key" "act_state (run_activations run ! i) \<noteq> Superseded"
    "upd (run_activations run ! i) = Inr b" "act_key b = key"
    and r: "run' = run\<lparr>run_activations := (run_activations run)[i := b]\<rparr>"
    by (rule replace_with_cases)
  have le: "act_le (run_activations run ! i) b" using ok [OF nth_mem [OF i(1)] i(2,4,3)] .
  have "\<exists>c\<in>set ((run_activations run)[i := b]). act_le (run_activations run ! j) c"
    if "j < length (run_activations run)" for j
  proof (cases "j = i")
    case True
    then show ?thesis using le i(1) by (intro bexI [of _ b]) (auto simp: set_update_memI)
  next
    case False
    then have "run_activations run ! j = (run_activations run)[i := b] ! j" by simp
    then show ?thesis using that by (metis act_le_refl length_list_update nth_mem)
  qed
  then show ?thesis by (auto simp: history_le_def r in_set_conv_nth)
qed


section \<open>Each operation: invariant and history\<close>

lemma report_next_simps [simp]:
  "act_key (report_next a f rep t now) = act_key a"
  "act_nodeId (report_next a f rep t now) = act_nodeId a"
  "act_iteration (report_next a f rep t now) = act_iteration a"
  "act_branchKey (report_next a f rep t now) = act_branchKey a"
  "act_attempt (report_next a f rep t now) = act_attempt a"
  "act_inputs (report_next a f rep t now) = act_inputs a"
  "act_state (report_next a f rep t now) = t"
  "act_supersededBy (report_next a f rep t now) = act_supersededBy a"
  by (auto simp: report_next_def Let_def split: report_state.splits option.splits)

lemma report_next_error:
  "act_error (report_next a f rep t now) = Some e \<Longrightarrow>
     act_error a = Some e \<or> length e \<le> maxErrorChars"
  using boundGraphError_length
  by (auto simp: report_next_def Let_def split: report_state.splits option.splits if_splits)

lemma report_target_not_superseded:
  "s \<noteq> Superseded \<Longrightarrow> report_target s rep \<noteq> Superseded"
  by (cases rep) auto

text \<open>An accepted report on a live activation replaces it by the reported one.\<close>

lemma report_cases:
  assumes "applyGraphActivationReport run key f rep now = Inr out"
  obtains (terminal) "out_run out = run" "out_changed out = False"
      "graphRunActivation run key = Some (out_activation out)"
      "isGraphActivationTerminal (act_state (out_activation out))"
  | (moved) a target r where "a \<in> set (run_activations run)" "act_key a = key"
      "\<not> isGraphActivationTerminal (act_state a)" "target = report_target (act_state a) rep"
      "target = act_state a \<or> target \<in> set (activation_transitions (act_state a))"
      "rep = RepUnchanged \<Longrightarrow> isGraphActivationAdmitted (act_state a)"
      "out_activation out = report_next a f rep target now"
      "act_session (out_activation out) \<noteq> None \<Longrightarrow>
        act_policy (out_activation out) \<noteq> None \<and> act_enforcement (out_activation out) \<noteq> None"
      "replaceGraphActivation run key (\<lambda>_. report_next a f rep target now) = Inr r"
      "run_activations (out_run out) = run_activations r
        \<or> out_run out = run \<and> report_next a f rep target now = a"
      "run_rewinds (out_run out) = run_rewinds run" "run_error (out_run out) = run_error run"
proof -
  from assms obtain a where a: "find (\<lambda>a. act_key a = key) (run_activations run) = Some a"
    by (auto simp: applyGraphActivationReport_def split: option.splits)
  then have mem: "a \<in> set (run_activations run)" "act_key a = key" by (auto dest: find_SomeD)
  show thesis
  proof (cases "isGraphActivationTerminal (act_state a)")
    case True
    with assms a have "out_run out = run \<and> out_changed out = False \<and> out_activation out = a"
      by (auto simp: applyGraphActivationReport_def)
    with True a show ?thesis by (intro terminal) (auto simp: graphRunActivation_def)
  next
    case False
    let ?t = "report_target (act_state a) rep"
    let ?n = "report_next a f rep ?t now"
    from assms a False have t: "?t = act_state a \<or> ?t \<in> set (activation_transitions (act_state a))"
      by (auto simp: applyGraphActivationReport_def Let_def split: if_splits)
    from assms a False t have own: "rep = RepUnchanged \<Longrightarrow> isGraphActivationAdmitted (act_state a)"
      by (auto simp: applyGraphActivationReport_def isGraphActivationAdmitted_def Let_def split: if_splits)
    from assms a False t own have pol: "act_session ?n \<noteq> None \<Longrightarrow>
        act_policy ?n \<noteq> None \<and> act_enforcement ?n \<noteq> None"
      by (auto simp: applyGraphActivationReport_def Let_def split: if_splits)
    from assms a False t own pol obtain r where r: "replaceGraphActivation run key (\<lambda>_. ?n) = Inr r"
      by (auto simp: applyGraphActivationReport_def Let_def split: if_splits sum.splits)
    from r have keep: "run_rewinds r = run_rewinds run" "run_error r = run_error run"
      by (auto simp: replaceGraphActivation_def split: sum.splits elim: replace_with_cases)
    from assms a False t r have out: "out_activation out = ?n"
      "out_run out = (if usage_reported (fact_usage f) \<or> a \<noteq> ?n
         then r\<lparr>run_usage := add_usage (fact_usage f) (run_usage r)\<rparr> else run)"
      by (auto simp: applyGraphActivationReport_def Let_def split: if_splits)
    show ?thesis
      by (rule moved [OF mem False refl t own out(1) _ r]) (use out pol keep in auto)
  qed
qed


lemma replaceGraphActivation_le:
  assumes "replaceGraphActivation run key upd = Inr run'"
    and "\<And>a. a \<in> set (run_activations run) \<Longrightarrow> act_key a = key \<Longrightarrow> act_state a \<noteq> Superseded \<Longrightarrow>
      act_le a (upd a)"
  shows "history_le run run'"
proof -
  have "replace_with run key (\<lambda>a. Inr (upd a) :: unit + activation) = Inr (Inr run')"
    using assms(1) by (auto simp: replaceGraphActivation_def split: sum.splits)
  then show ?thesis by (rule replace_with_le) (use assms(2) in auto)
qed

lemma run_inv_keys:
  "run_inv run \<Longrightarrow> a \<in> set (run_activations run) \<Longrightarrow> b \<in> set (run_activations run) \<Longrightarrow>
     act_key a = act_key b \<Longrightarrow> a = b"
  by (auto simp: run_inv_def distinct_map inj_on_def)

lemma run_inv_cong:
  "run_activations r = run_activations s \<Longrightarrow> run_rewinds r = run_rewinds s \<Longrightarrow>
     run_error r = run_error s \<Longrightarrow> run_inv r = run_inv s"
  by (simp add: run_inv_def liveGraphActivations_def rewind_ids_def)

lemma not_terminal_not_superseded: "\<not> isGraphActivationTerminal s \<Longrightarrow> s \<noteq> Superseded"
  by (auto simp: isGraphActivationTerminal_def)

lemma report_inv_le:
  assumes inv: "run_inv run" and rep: "applyGraphActivationReport run key f rep now = Inr out"
  shows "run_inv (out_run out) \<and> history_le run (out_run out)"
  using rep
proof (cases rule: report_cases)
  case terminal
  then show ?thesis using inv history_le_refl by simp
next
  case (moved a target r)
  let ?n = "report_next a f rep target now"
  have live: "act_state a \<noteq> Superseded" using moved(3) by (rule not_terminal_not_superseded)
  have only_a: "b = a" if "b \<in> set (run_activations run)" "act_key b = key" for b
    using run_inv_keys [OF inv that(1) moved(1)] that(2) moved(2) by simp
  have ok: "activation_ok (rewind_ids run) a" using inv moved(1) by (simp add: run_inv_def)
  have n: "target \<noteq> Superseded" using moved(4) live by (simp add: report_target_not_superseded)
  have "run_inv r"
  proof -
    have e: "length e \<le> maxErrorChars" if "act_error ?n = Some e" for e
      using report_next_error [OF that] ok by (auto simp: activation_ok_def)
    have "activation_ok (rewind_ids run) ?n"
      using ok live n e by (auto simp: activation_ok_def)
    with n show ?thesis by (intro replaceGraphActivation_inv [OF inv moved(9)]) auto
  qed
  have "history_le run r"
  proof (rule replaceGraphActivation_le [OF moved(9)])
    fix b assume "b \<in> set (run_activations run)" "act_key b = key"
    then have "b = a" by (rule only_a)
    moreover have "state_step (act_state a) target" using moved(5) by (auto simp: state_step_def)
    ultimately show "act_le b ?n" using live by (auto simp: act_le_def same_position_def)
  qed
  show ?thesis
  proof (cases "out_run out = run")
    case True
    then show ?thesis using inv history_le_refl by simp
  next
    case False
    with moved(10) have acts: "run_activations (out_run out) = run_activations r" by blast
    have "run_rewinds r = run_rewinds run" "run_error r = run_error run"
      using moved(9) by (auto simp: replaceGraphActivation_def split: sum.splits elim: replace_with_cases)
    with acts moved(11,12) \<open>run_inv r\<close> have "run_inv (out_run out)"
      using run_inv_cong [of "out_run out" r] by simp
    with \<open>history_le run r\<close> acts show ?thesis by (simp add: history_le_def)
  qed
qed

lemma settle_update_ok:
  assumes "settle_update st now failure a = Inr b" and "activation_ok R a" and "act_state a \<noteq> Superseded"
  shows "activation_ok R b \<and> act_state b \<noteq> Superseded \<and> act_le a b"
proof -
  have s: "act_state b = settled_state st" "settled_state st \<noteq> Superseded"
    "act_supersededBy b = act_supersededBy a" "same_position a b"
    "state_step (act_state a) (settled_state st)"
    using assms(1) by (cases st; auto simp: settle_update_def same_position_def Let_def state_step_def
        split: if_splits option.splits)+
  moreover have "length e \<le> maxErrorChars" if "act_error b = Some e" for e
    using assms(1,2) that boundGraphError_length
    by (auto simp: settle_update_def Let_def activation_ok_def split: if_splits option.splits)
  ultimately show ?thesis using assms(2,3) by (auto simp: activation_ok_def act_le_def)
qed

lemma settle_inv_le:
  assumes inv: "run_inv run" and "settleGraphActivation run key st now failure = Inr run'"
  shows "run_inv run' \<and> history_le run run'"
proof -
  have r: "replace_with run key (settle_update st now failure) = Inr (Inr run')"
    using assms(2) by (auto simp: settleGraphActivation_def split: sum.splits)
  have ok: "activation_ok (rewind_ids run) a" if "a \<in> set (run_activations run)" for a
    using inv that by (simp add: run_inv_def)
  show ?thesis
    using replace_with_inv [OF inv r] replace_with_le [OF r] settle_update_ok ok by blast
qed

lemma admit_update_ok:
  assumes "admit_update a = Inr b" and "activation_ok R a"
  shows "activation_ok R b \<and> act_state b \<noteq> Superseded \<and> act_le a b"
  using assms
  by (auto simp: admit_update_def activation_ok_def act_le_def same_position_def state_step_def
      split: if_splits)

lemma admit_inv_le:
  assumes inv: "run_inv run" and "admitGraphActivation run key s = Inr run'"
  shows "run_inv run' \<and> history_le run run'"
proof -
  obtain r where r: "replace_with run key admit_update = Inr (Inr r)"
    and acts: "run_activations run' = run_activations r" "run_rewinds run' = run_rewinds r"
      "run_error run' = run_error r"
    using assms(2) by (auto simp: admitGraphActivation_def split: sum.splits if_splits)
  have ok: "activation_ok (rewind_ids run) a" if "a \<in> set (run_activations run)" for a
    using inv that by (simp add: run_inv_def)
  have "run_inv r \<and> history_le run r"
    using replace_with_inv [OF inv r] replace_with_le [OF r] admit_update_ok ok by blast
  then show ?thesis using run_inv_cong [OF acts] by (simp add: history_le_def acts)
qed

lemma blocked_inv_le:
  assumes "run_inv run"
  shows "run_inv (markGraphActivationBlocked run key b) \<and>
    history_le run (markGraphActivationBlocked run key b)"
proof -
  let ?upd = "\<lambda>a. a\<lparr>act_blocked := Some \<lparr>bl_reason = bl_reason b, bl_holder = truthy (bl_holder b),
      bl_holderAccess = truthy (bl_holderAccess b)\<rparr>\<rparr>"
  have ok: "act_state (?upd a) \<noteq> Superseded \<and> activation_ok R (?upd a)"
    if "act_state a \<noteq> Superseded" "activation_ok R a" for a R
    using that by (auto simp: activation_ok_def)
  have le: "act_le a (?upd a)" if "act_state a \<noteq> Superseded" for a
    using that by (auto simp: act_le_def same_position_def)
  have "run_inv r \<and> history_le run r" if "replaceGraphActivation run key ?upd = Inr r" for r
    using replaceGraphActivation_inv [OF assms that] replaceGraphActivation_le [OF that] ok le assms
    by (metis run_inv_def)
  then show ?thesis
    using assms history_le_refl
    by (auto simp: markGraphActivationBlocked_def split: option.splits sum.splits)
qed

lemma rewind_le:
  assumes inv: "run_inv run" and "applyGraphRewind run rw = Inr run'"
  shows "history_le run run'"
  using assms(2)
proof (rule applyGraphRewind_cases)
  let ?f = "\<lambda>a. if act_key a \<in> set (rw_activations rw)
           then a\<lparr>act_state := Superseded, act_supersededBy := Some (rw_id rw)\<rparr> else a"
  assume t: "\<forall>k\<in>set (rw_activations rw). \<exists>a. graphRunActivation run k = Some a \<and> act_state a \<noteq> Superseded"
    and acts: "run_activations run' = map ?f (run_activations run)"
  have "act_le a (?f a)" if a: "a \<in> set (run_activations run)" for a
    using t graphRunActivation_mem [OF inv a]
    by (fastforce simp: act_le_def same_position_def state_step_def)
  then show ?thesis unfolding history_le_def acts set_map by (metis (no_types, lifting) imageI)
qed

lemma transition_inv_le:
  assumes "run_inv run" and "transitionGraphRun run st now failure = Inr run'"
  shows "run_inv run' \<and> history_le run run'"
proof -
  have acts: "run_activations run' = run_activations run" "run_rewinds run' = run_rewinds run"
    and err: "\<And>e. run_error run' = Some e \<Longrightarrow> run_error run = Some e \<or> length e \<le> maxErrorChars"
    using assms(2) boundGraphError_length
    by (auto simp: transitionGraphRun_def Let_def split: if_splits option.splits)
  have "length e \<le> maxErrorChars" if "run_error run' = Some e" for e
    using err [OF that] assms(1) by (auto simp: run_inv_def)
  then have "run_inv run'"
    using assms(1) by (simp add: run_inv_def acts liveGraphActivations_def rewind_ids_def)
  with acts(1) show ?thesis by (simp add: history_le_same)
qed

lemma append_le: "appendGraphActivation run a = Inr run' \<Longrightarrow> history_le run run'"
  by (auto simp: appendGraphActivation_def history_le_def split: if_splits intro: act_le_refl)

lemma graph_step_inv_le:
  assumes "run_inv run" and "event_ok e" and "graph_step run e = Inr run'"
  shows "run_inv run' \<and> history_le run run'"
proof (cases e)
  case (EAppend a)
  then have r: "appendGraphActivation run a = Inr run'" and "activation_ok (rewind_ids run) a"
    using assms(2,3) by (auto simp: activation_ok_def)
  then show ?thesis using append_le appendGraphActivation_inv [OF assms(1)] by blast
next
  case (EReport key f rep now)
  then obtain out where "applyGraphActivationReport run key f rep now = Inr out" "run' = out_run out"
    using assms(3) by (auto split: sum.splits)
  then show ?thesis using report_inv_le [OF assms(1)] by blast
next
  case (ESettle key st now failure)
  then show ?thesis using assms(3) settle_inv_le [OF assms(1)] by simp
next
  case (EAdmit key s)
  then show ?thesis using assms(3) admit_inv_le [OF assms(1)] by simp
next
  case (EBlock key b)
  then have "run' = markGraphActivationBlocked run key b" using assms(3) by simp
  then show ?thesis using blocked_inv_le [OF assms(1)] by blast
next
  case (ERewind rw)
  then have "applyGraphRewind run rw = Inr run'" using assms(3) by simp
  then show ?thesis using rewind_le [OF assms(1)] applyGraphRewind_inv [OF assms(1)] by blast
next
  case (ETransition st now failure)
  then show ?thesis using assms(3) transition_inv_le [OF assms(1)] by simp
qed

interpretation runrec: forward_machine graph_step run_inv event_ok history_le
  by unfold_locales (use graph_step_inv_le history_le_refl history_le_trans in blast)+


section \<open>What the record promises\<close>

text \<open>C6. The run record's invariant holds after any sequence of accepted operations: activation
  keys are unique, at most 2,000 activations are kept and at most 200 of them are live, at most 50
  rewinds with unique ids, an activation is superseded exactly when it names a recorded rewind,
  and every recorded error fits its bound.\<close>

theorem run_record_invariant:
  assumes "run_inv run" and "list_all event_ok es" and "run_steps graph_step run es = Inr run'"
  shows "run_inv run'"
  using assms by (rule runrec.run_inv)

theorem run_record_invariant_witness:
  "run_inv (example_run [example_activation ''plan'' ''plan'' Admitting])"
  by (rule run_record_invariant [OF example_run_inv [of "[(''plan'', ''plan'', Ready)]"],
        of "[EAdmit ''plan'' False]"])
    (simp_all add: example_eval admitGraphActivation_def replace_with_def admit_update_def)



text \<open>C19. A report moves an activation only along the table: an accepted report leaves a terminal
  activation alone, and otherwise its activation ends in the reported state, which the table
  allows, with its session never recorded before its policy and enforcement tier.\<close>

theorem report_follows_table:
  assumes "run_inv run" and "applyGraphActivationReport run key f rep now = Inr out"
    and "graphRunActivation run key = Some a"
  shows "if isGraphActivationTerminal (act_state a) then out_run out = run \<and> \<not> out_changed out
    else graphRunActivation (out_run out) key = Some (out_activation out)
      \<and> act_state (out_activation out) = report_target (act_state a) rep
      \<and> (act_state (out_activation out) = act_state a
          \<or> act_state (out_activation out) \<in> set (activation_transitions (act_state a)))
      \<and> (act_session (out_activation out) \<noteq> None \<longrightarrow>
           act_policy (out_activation out) \<noteq> None \<and> act_enforcement (out_activation out) \<noteq> None)"
proof -
  have a: "a \<in> set (run_activations run)" "act_key a = key"
    using assms(3) by (auto dest: graphRunActivation_SomeD)
  from assms(2) show ?thesis
  proof (cases rule: report_cases)
    case terminal
    with assms(3) show ?thesis by simp
  next
    case (moved b target r)
    have b: "b = a" using run_inv_keys [OF assms(1) moved(1) a(1)] moved(2) a(2) by simp
    have i: "run_inv (out_run out)" using report_inv_le [OF assms(1,2)] by simp
    have "out_activation out \<in> set (run_activations (out_run out))"
    proof (cases "out_run out = run \<and> report_next b f rep target now = b")
      case True
      then show ?thesis using moved(1,7) by simp
    next
      case False
      with moved(10) have acts: "run_activations (out_run out) = run_activations r" by blast
      have "replace_with run key (\<lambda>_. Inr (report_next b f rep target now) :: unit + activation)
          = Inr (Inr r)"
        using moved(9) by (auto simp: replaceGraphActivation_def split: sum.splits)
      then show ?thesis
        by (rule replace_with_cases) (use acts moved(7) in \<open>auto simp: set_update_memI\<close>)
    qed
    from graphRunActivation_mem [OF i this] have "graphRunActivation (out_run out) key = Some (out_activation out)"
      using moved(2,7) by simp
    with moved b show ?thesis by auto
  qed
qed

definition no_facts :: facts where
  "no_facts = \<lparr>fact_session = None, fact_policy = None, fact_enforcement = None,
     fact_enforcementReason = None, fact_baseline = None, fact_worktree = None, fact_guards = None,
     fact_human = None, fact_usage = None\<rparr>"

theorem report_follows_table_witness:
  "\<exists>out. applyGraphActivationReport (example_run [example_activation ''plan'' ''plan'' Running]) ''plan''
       no_facts (RepComplete [(''report'', ''art1'')] None) ''t2'' = Inr out
     \<and> graphRunActivation (out_run out) ''plan'' = Some (out_activation out)
     \<and> act_state (out_activation out) = Complete"
proof -
  let ?run = "example_run [example_activation ''plan'' ''plan'' Running]"
  obtain out where out: "applyGraphActivationReport ?run ''plan'' no_facts
      (RepComplete [(''report'', ''art1'')] None) ''t2'' = Inr out"
    by (simp add: applyGraphActivationReport_def example_eval no_facts_def report_next_def
        isGraphActivationTerminal_def override_def truthy_def replaceGraphActivation_def
        replace_with_def add_usage_def usage_reported_def Let_def)
  have inv: "run_inv ?run" using example_run_inv [of "[(''plan'', ''plan'', Running)]"] by simp
  show ?thesis
    using report_follows_table [OF inv out, of "example_activation ''plan'' ''plan'' Running"] out
    by (simp add: graphRunActivation_def example_eval isGraphActivationTerminal_def)
qed


end
