(* ===== verification/Graph_Rewind.thy ===== *)
theory Graph_Rewind
  imports Graph_Transitions
begin

text \<open>
  Restart and rewind as graph operations
  (\<^verbatim>\<open>packages/protocol/src/graphs/run-rewind.ts\<close>, \<open>graphLineageDescendants\<close> of
  \<^verbatim>\<open>run-lineage.ts\<close>, and the record part of
  \<^verbatim>\<open>apps/backend/src/core/graph-run-rewind.ts\<close>): what a restart supersedes, when one is
  refused, and the record it leaves. The scope is proved to be exactly the least set closed under
  the rules of the module comment.
\<close>

section \<open>Readers\<close>

record reader =
  rd_node :: string
  rd_zip :: bool
  rd_carry :: bool

text \<open>The map from a consumer to its readers, as the list of its entries in insertion order.\<close>

definition readersByConsumer :: "graph_run \<Rightarrow> (string \<times> reader) list" where
  "readersByConsumer run =
     concat (map (\<lambda>e. case pe_from e of
               FromNode p \<Rightarrow> [(fst (pe_to e), \<lparr>rd_node = pf_node p, rd_zip = pe_zip e, rd_carry = False\<rparr>)]
             | FromRunInput _ \<Rightarrow> []) (plan_edges (run_plan run)))
     @ concat (map (\<lambda>l. map (\<lambda>c. (fst (lc_to c),
               \<lparr>rd_node = pf_node (lc_from c), rd_zip = False, rd_carry = True\<rparr>)) (pl_carry l))
         (plan_loops (run_plan run)))"

definition readers_of :: "(string \<times> reader) list \<Rightarrow> string \<Rightarrow> reader list" where
  "readers_of readers n = map snd (filter (\<lambda>(c, _). c = n) readers)"

text \<open>The loop of a node: \<open>new Map(nodes)\<close> keeps the last node with an id.\<close>

definition node_loop :: "graph_run \<Rightarrow> string \<Rightarrow> string option" where
  "node_loop run n =
     Option.bind (map_of (rev (map (\<lambda>p. (pn_id p, p)) (plan_nodes (run_plan run)))) n) pn_loop"

definition readsPosition :: "graph_run \<Rightarrow> activation \<Rightarrow> activation \<Rightarrow> reader \<Rightarrow> bool" where
  "readsPosition run producer consumer reader =
     (let loop = node_loop run (act_nodeId producer)
      in if loop \<noteq> None \<and> loop = node_loop run (act_nodeId consumer)
            \<and> act_iteration consumer \<noteq>
                (if rd_carry reader then act_iteration producer + 1 else act_iteration producer)
         then False
         else if rd_zip reader \<and> act_branchKey producer \<noteq> None \<and> act_branchKey consumer \<noteq> None
            \<and> act_branchKey producer \<noteq> act_branchKey consumer
         then False else True)"

section \<open>The restart scope\<close>

record restart_scope =
  rs_activations :: "string list"
  rs_artifacts :: "string list"
  rs_loopIterations :: "(string \<times> int) list"

text \<open>The sets and maps the loop updates, sets as their elements in insertion order.\<close>

record scope_state =
  sc_acts :: "string list"
  sc_arts :: "string list"
  sc_byNode :: "(string \<times> activation list) list"
  sc_earliest :: "(string \<times> int) list"

definition set_add :: "'a \<Rightarrow> 'a list \<Rightarrow> 'a list" where
  "set_add x xs = (if x \<in> set xs then xs else xs @ [x])"

definition consumes :: "activation \<Rightarrow> string list \<Rightarrow> bool" where
  "consumes a arts \<longleftrightarrow> (\<exists>p\<in>set (act_inputs a). \<exists>i\<in>set (port_ids (snd p)). i \<in> set arts)"

definition supersede_act :: "graph_run \<Rightarrow> activation \<Rightarrow> scope_state \<Rightarrow> scope_state" where
  "supersede_act run a st =
     (let st = st\<lparr>sc_acts := set_add (act_key a) (sc_acts st),
            sc_byNode := (case obj_get (sc_byNode st) (act_nodeId a) of
                            Some l \<Rightarrow> obj_set (act_nodeId a) (l @ [a]) (sc_byNode st)
                          | None \<Rightarrow> obj_set (act_nodeId a) [a] (sc_byNode st))\<rparr>
      in case node_loop run (act_nodeId a) of
           None \<Rightarrow> st
         | Some l \<Rightarrow> st\<lparr>sc_earliest := obj_set l
               (min (case obj_get (sc_earliest st) l of None \<Rightarrow> act_iteration a | Some m \<Rightarrow> m)
                  (act_iteration a)) (sc_earliest st)\<rparr>)"

definition live_acts :: "graph_run \<Rightarrow> activation list" where
  "live_acts run = filter (\<lambda>a. act_state a \<noteq> Superseded) (run_activations run)"

definition live_by_key :: "graph_run \<Rightarrow> string \<Rightarrow> activation option" where
  "live_by_key run = map_of (rev (map (\<lambda>a. (act_key a, a)) (live_acts run)))"

definition live_artifacts :: "graph_run \<Rightarrow> artifact list \<Rightarrow> artifact list" where
  "live_artifacts run arts = filter (\<lambda>x. art_state x = ALive \<and> art_runId x = run_id run) arts"

fun artifact_step ::
  "graph_run \<Rightarrow> artifact \<Rightarrow> scope_state \<times> bool \<Rightarrow> scope_state \<times> bool" where
  "artifact_step run x (st, changed) =
     (if art_id x \<in> set (sc_arts st) then (st, changed)
         else if ap_activation (art_producer x) \<in> set (sc_acts st)
              \<or> (\<exists>i\<in>set (art_inputs x). i \<in> set (sc_arts st))
         then (let st = st\<lparr>sc_arts := set_add (art_id x) (sc_arts st)\<rparr>
               in case live_by_key run (ap_activation (art_producer x)) of
                    None \<Rightarrow> (st, True)
                  | Some p \<Rightarrow> (if act_key p \<notin> set (sc_acts st) then supersede_act run p st else st, True))
         else (st, changed))"

definition rewound_iteration :: "graph_run \<Rightarrow> activation \<Rightarrow> scope_state \<Rightarrow> bool" where
  "rewound_iteration run a st =
     (case node_loop run (act_nodeId a) of
        None \<Rightarrow> False
      | Some l \<Rightarrow> (case obj_get (sc_earliest st) l of
                     None \<Rightarrow> False | Some m \<Rightarrow> act_iteration a > m))"

definition reads_superseded ::
  "graph_run \<Rightarrow> (string \<times> reader) list \<Rightarrow> activation \<Rightarrow> scope_state \<Rightarrow> bool" where
  "reads_superseded run readers a st \<longleftrightarrow>
     (\<exists>r\<in>set (readers_of readers (act_nodeId a)).
        \<exists>p\<in>set (case obj_get (sc_byNode st) (rd_node r) of None \<Rightarrow> [] | Some l \<Rightarrow> l).
          readsPosition run p a r)"

fun activation_step ::
  "graph_run \<Rightarrow> (string \<times> reader) list \<Rightarrow> activation \<Rightarrow> scope_state \<times> bool \<Rightarrow> scope_state \<times> bool" where
  "activation_step run readers a (st, changed) =
     (if act_key a \<in> set (sc_acts st) then (st, changed)
         else if consumes a (sc_arts st) \<or> rewound_iteration run a st
              \<or> reads_superseded run readers a st
         then (supersede_act run a st, True)
         else (st, changed))"

definition scope_pass ::
  "graph_run \<Rightarrow> artifact list \<Rightarrow> scope_state \<Rightarrow> scope_state \<times> bool" where
  "scope_pass run arts st =
     fold (activation_step run (readersByConsumer run)) (live_acts run)
       (fold (artifact_step run) (live_artifacts run arts) (st, False))"

text \<open>What a pass may still add: the termination measure of the loop.\<close>

definition scope_left :: "graph_run \<Rightarrow> artifact list \<Rightarrow> scope_state \<Rightarrow> nat" where
  "scope_left run arts st =
     card (act_key ` set (live_acts run) - set (sc_acts st))
     + card (art_id ` set (live_artifacts run arts) - set (sc_arts st))"

lemma set_set_add [simp]: "set (set_add x xs) = insert x (set xs)"
  by (auto simp: set_add_def)

lemma supersede_act_fields [simp]:
  "set (sc_acts (supersede_act run a st)) = insert (act_key a) (set (sc_acts st))"
  "sc_arts (supersede_act run a st) = sc_arts st"
  by (simp_all add: supersede_act_def Let_def split: option.split)

text \<open>A pass only adds, and a pass that reports a change has added something of its own.\<close>

definition grows :: "graph_run \<Rightarrow> artifact list \<Rightarrow> scope_state \<Rightarrow> scope_state \<times> bool \<Rightarrow> bool" where
  "grows run arts st sc \<longleftrightarrow>
     set (sc_acts st) \<subseteq> set (sc_acts (fst sc)) \<and> set (sc_arts st) \<subseteq> set (sc_arts (fst sc))
     \<and> (snd sc \<longrightarrow>
          (\<exists>a\<in>set (live_acts run). act_key a \<in> set (sc_acts (fst sc)) - set (sc_acts st))
          \<or> (\<exists>x\<in>set (live_artifacts run arts). art_id x \<in> set (sc_arts (fst sc)) - set (sc_arts st)))"

text \<open>The three outcomes of visiting an artifact and the two of visiting an activation.\<close>

lemma artifact_step_cases:
  obtains (same) "artifact_step run x (st, c) = (st, c)"
  | (alone) st' where "artifact_step run x (st, c) = (st', True)" and "art_id x \<notin> set (sc_arts st)"
    and "ap_activation (art_producer x) \<in> set (sc_acts st) \<or> (\<exists>i\<in>set (art_inputs x). i \<in> set (sc_arts st))"
    and "st' = st\<lparr>sc_arts := set_add (art_id x) (sc_arts st)\<rparr>"
    and "\<And>p. live_by_key run (ap_activation (art_producer x)) = Some p \<Longrightarrow> act_key p \<in> set (sc_acts st)"
  | (both) p where "artifact_step run x (st, c) =
        (supersede_act run p (st\<lparr>sc_arts := set_add (art_id x) (sc_arts st)\<rparr>), True)"
    and "art_id x \<notin> set (sc_arts st)"
    and "ap_activation (art_producer x) \<in> set (sc_acts st) \<or> (\<exists>i\<in>set (art_inputs x). i \<in> set (sc_arts st))"
    and "live_by_key run (ap_activation (art_producer x)) = Some p" and "act_key p \<notin> set (sc_acts st)"
proof (cases "art_id x \<in> set (sc_arts st)
    \<or> \<not> (ap_activation (art_producer x) \<in> set (sc_acts st) \<or> (\<exists>i\<in>set (art_inputs x). i \<in> set (sc_arts st)))")
  case True
  then show ?thesis by (intro same) auto
next
  case new: False
  show ?thesis
  proof (cases "live_by_key run (ap_activation (art_producer x))")
    case None
    with new show ?thesis by (intro alone) (auto simp: Let_def)
  next
    case (Some p)
    show ?thesis
    proof (cases "act_key p \<in> set (sc_acts st)")
      case True
      with new Some show ?thesis by (intro alone) (auto simp: Let_def)
    next
      case False
      with new Some show ?thesis by (intro both [of p]) (auto simp: Let_def)
    qed
  qed
qed

lemma activation_step_cases:
  obtains (same) "activation_step run readers a (st, c) = (st, c)"
  | (added) "activation_step run readers a (st, c) = (supersede_act run a st, True)"
    and "act_key a \<notin> set (sc_acts st)"
    and "consumes a (sc_arts st) \<or> rewound_iteration run a st \<or> reads_superseded run readers a st"
  by (cases "act_key a \<in> set (sc_acts st)
      \<or> \<not> (consumes a (sc_arts st) \<or> rewound_iteration run a st \<or> reads_superseded run readers a st)")
    auto

lemma artifact_step_grows:
  assumes "x \<in> set (live_artifacts run arts)" and "grows run arts st (st', c)"
  shows "grows run arts st (artifact_step run x (st', c))"
  by (rule artifact_step_cases [of run x st' c]) (use assms in \<open>auto simp: grows_def\<close>)

lemma activation_step_grows:
  assumes "a \<in> set (live_acts run)" and "grows run arts st (st', c)"
  shows "grows run arts st (activation_step run readers a (st', c))"
  by (rule activation_step_cases [of run readers a st' c]) (use assms in \<open>auto simp: grows_def\<close>)

declare artifact_step.simps [simp del] activation_step.simps [simp del]

lemma scope_pass_grows: "grows run arts st (scope_pass run arts st)"
proof -
  have "grows run arts st (fold (artifact_step run) (live_artifacts run arts) (st, False))"
    by (rule fold_invariant [where Q = "\<lambda>x. x \<in> set (live_artifacts run arts)"])
      (simp_all add: artifact_step_grows split_paired_all, simp add: grows_def)
  then show ?thesis
    unfolding scope_pass_def
    by (rule fold_invariant [where Q = "\<lambda>x. x \<in> set (live_acts run)", rotated])
      (simp_all add: activation_step_grows split_paired_all)
qed

lemma scope_pass_left:
  assumes "snd (scope_pass run arts st)"
  shows "scope_left run arts (fst (scope_pass run arts st)) < scope_left run arts st"
proof -
  let ?t = "fst (scope_pass run arts st)"
  let ?A = "act_key ` set (live_acts run)" and ?R = "art_id ` set (live_artifacts run arts)"
  have sub: "?A - set (sc_acts ?t) \<subseteq> ?A - set (sc_acts st)"
      "?R - set (sc_arts ?t) \<subseteq> ?R - set (sc_arts st)"
    and new: "?A - set (sc_acts ?t) \<subset> ?A - set (sc_acts st)
      \<or> ?R - set (sc_arts ?t) \<subset> ?R - set (sc_arts st)"
    using scope_pass_grows [of run arts st] assms unfolding grows_def by blast+
  from new show ?thesis
  proof
    assume "?A - set (sc_acts ?t) \<subset> ?A - set (sc_acts st)"
    then have "card (?A - set (sc_acts ?t)) < card (?A - set (sc_acts st))"
      by (simp add: psubset_card_mono)
    with card_mono [OF _ sub(2)] show ?thesis by (simp add: scope_left_def add_less_le_mono)
  next
    assume "?R - set (sc_arts ?t) \<subset> ?R - set (sc_arts st)"
    then have "card (?R - set (sc_arts ?t)) < card (?R - set (sc_arts st))"
      by (simp add: psubset_card_mono)
    with card_mono [OF _ sub(1)] show ?thesis by (simp add: scope_left_def add_le_less_mono)
  qed
qed

function scope_loop :: "graph_run \<Rightarrow> artifact list \<Rightarrow> scope_state \<Rightarrow> scope_state" where
  "scope_loop run arts st =
     (let (t, changed) = scope_pass run arts st in if changed then scope_loop run arts t else t)"
  by auto

termination
  by (relation "measure (\<lambda>(run, arts, st). scope_left run arts st)")
    (simp, use scope_pass_left in \<open>force simp: prod_eq_iff\<close>)

declare scope_loop.simps [simp del]

text \<open>The position of a key in the record: \<open>new Map(entries)\<close> keeps the last index of a key.\<close>

definition record_order :: "graph_run \<Rightarrow> string \<Rightarrow> nat" where
  "record_order run k =
     (case map_of (rev (zip (map act_key (run_activations run)) [0..<length (run_activations run)])) k of
        Some i \<Rightarrow> i | None \<Rightarrow> 0)"

text \<open>The comparator puts the root first and then follows the record order.\<close>

definition root_first :: "graph_run \<Rightarrow> string \<Rightarrow> string list \<Rightarrow> string list" where
  "root_first run rt keys = sort_key (\<lambda>k. if k = rt then 0 else Suc (record_order run k)) keys"

definition rewound_loops :: "graph_run \<Rightarrow> (string \<times> int) list \<Rightarrow> (string \<times> int) list" where
  "rewound_loops run earliest =
     fold (\<lambda>(l, i) acc. if i < (case obj_get (run_loopIterations run) l of None \<Rightarrow> 1 | Some n \<Rightarrow> n)
                         then obj_set l i acc else acc) earliest []"

definition scope_start :: "graph_run \<Rightarrow> activation \<Rightarrow> scope_state" where
  "scope_start run rt = supersede_act run rt
     \<lparr>sc_acts = [act_key rt], sc_arts = [], sc_byNode = [], sc_earliest = []\<rparr>"

definition graphRestartScope ::
  "graph_run \<Rightarrow> artifact list \<Rightarrow> string \<Rightarrow> restart_scope option" where
  "graphRestartScope run arts key =
     (case graphRunActivation run key of
        None \<Rightarrow> None
      | Some rt \<Rightarrow>
          if act_state rt = Superseded then None
          else (let st = scope_loop run arts (scope_start run rt)
                in Some \<lparr>rs_activations = root_first run (act_key rt) (sc_acts st),
                         rs_artifacts = sort (sc_arts st),
                         rs_loopIterations = rewound_loops run (sc_earliest st)\<rparr>))"

section \<open>The rules of the module comment\<close>

text \<open>
  What a restart supersedes, as the least relation closed under the documented rules: the root,
  the artifacts of a superseded activation and those derived from superseded artifacts, the
  activations that made, consumed or read them, and the later iterations of a rewound loop.
\<close>

inductive scoped_act :: "graph_run \<Rightarrow> artifact list \<Rightarrow> activation \<Rightarrow> activation \<Rightarrow> bool"
  and scoped_art :: "graph_run \<Rightarrow> artifact list \<Rightarrow> activation \<Rightarrow> string \<Rightarrow> bool"
  for run arts rt where
  scoped_root: "scoped_act run arts rt rt"
| scoped_made: "scoped_art run arts rt (art_id x) \<Longrightarrow> x \<in> set (live_artifacts run arts) \<Longrightarrow>
    a \<in> set (live_acts run) \<Longrightarrow> act_key a = ap_activation (art_producer x) \<Longrightarrow> scoped_act run arts rt a"
| scoped_consumed: "scoped_art run arts rt i \<Longrightarrow> a \<in> set (live_acts run) \<Longrightarrow> p \<in> set (act_inputs a) \<Longrightarrow>
    i \<in> set (port_ids (snd p)) \<Longrightarrow> scoped_act run arts rt a"
| scoped_later: "scoped_act run arts rt b \<Longrightarrow> a \<in> set (live_acts run) \<Longrightarrow>
    node_loop run (act_nodeId b) = Some l \<Longrightarrow> node_loop run (act_nodeId a) = Some l \<Longrightarrow>
    act_iteration b < act_iteration a \<Longrightarrow> scoped_act run arts rt a"
| scoped_read: "scoped_act run arts rt b \<Longrightarrow> a \<in> set (live_acts run) \<Longrightarrow>
    (act_nodeId a, r) \<in> set (readersByConsumer run) \<Longrightarrow> rd_node r = act_nodeId b \<Longrightarrow>
    readsPosition run b a r \<Longrightarrow> scoped_act run arts rt a"
| scoped_output: "scoped_act run arts rt a \<Longrightarrow> x \<in> set (live_artifacts run arts) \<Longrightarrow>
    ap_activation (art_producer x) = act_key a \<Longrightarrow> scoped_art run arts rt (art_id x)"
| scoped_derived: "scoped_art run arts rt i \<Longrightarrow> x \<in> set (live_artifacts run arts) \<Longrightarrow>
    i \<in> set (art_inputs x) \<Longrightarrow> scoped_art run arts rt (art_id x)"

section \<open>The loop computes them\<close>

definition members :: "graph_run \<Rightarrow> scope_state \<Rightarrow> activation set" where
  "members run st = {a \<in> set (live_acts run). act_key a \<in> set (sc_acts st)}"

definition by_node_ok :: "graph_run \<Rightarrow> scope_state \<Rightarrow> bool" where
  "by_node_ok run st \<longleftrightarrow> (\<forall>n. set (case obj_get (sc_byNode st) n of None \<Rightarrow> [] | Some l \<Rightarrow> l)
     = {a \<in> members run st. act_nodeId a = n})"

definition earliest_ok :: "graph_run \<Rightarrow> scope_state \<Rightarrow> bool" where
  "earliest_ok run st \<longleftrightarrow> distinct (map fst (sc_earliest st))
     \<and> (\<forall>l. let B = {a \<in> members run st. node_loop run (act_nodeId a) = Some l}
           in case obj_get (sc_earliest st) l of
                None \<Rightarrow> B = {}
              | Some m \<Rightarrow> m \<in> act_iteration ` B \<and> (\<forall>a\<in>B. m \<le> act_iteration a))"

lemma earliest_okD:
  assumes "earliest_ok run st"
  shows "case obj_get (sc_earliest st) l of
      None \<Rightarrow> {a \<in> members run st. node_loop run (act_nodeId a) = Some l} = {}
    | Some m \<Rightarrow> m \<in> act_iteration ` {a \<in> members run st. node_loop run (act_nodeId a) = Some l}
        \<and> (\<forall>a\<in>{a \<in> members run st. node_loop run (act_nodeId a) = Some l}. m \<le> act_iteration a)"
  using assms unfolding earliest_ok_def Let_def by blast

definition scope_inv ::
  "graph_run \<Rightarrow> artifact list \<Rightarrow> activation \<Rightarrow> scope_state \<Rightarrow> bool" where
  "scope_inv run arts rt st \<longleftrightarrow>
     distinct (sc_acts st) \<and> distinct (sc_arts st)
     \<and> set (sc_acts st) = act_key ` members run st \<and> rt \<in> members run st
     \<and> (\<forall>a\<in>members run st. scoped_act run arts rt a)
     \<and> (\<forall>i\<in>set (sc_arts st). scoped_art run arts rt i)
     \<and> (\<forall>x\<in>set (live_artifacts run arts). art_id x \<in> set (sc_arts st) \<longrightarrow>
          (\<forall>a\<in>set (live_acts run). act_key a = ap_activation (art_producer x) \<longrightarrow> a \<in> members run st))
     \<and> by_node_ok run st \<and> earliest_ok run st"

text \<open>Two live activations with one key are the same one.\<close>

definition keys_unique :: "graph_run \<Rightarrow> bool" where
  "keys_unique run \<longleftrightarrow> distinct (map act_key (run_activations run))"

lemma keys_unique_live:
  "keys_unique run \<Longrightarrow> distinct (map act_key (live_acts run))"
  by (simp add: keys_unique_def live_acts_def distinct_map_filter)

lemma keys_unique_inj:
  "keys_unique run \<Longrightarrow> a \<in> set (live_acts run) \<Longrightarrow> b \<in> set (live_acts run) \<Longrightarrow>
     act_key a = act_key b \<Longrightarrow> a = b"
  by (metis distinct_map inj_onD keys_unique_live)

lemma live_by_key_Some:
  assumes "keys_unique run"
  shows "live_by_key run k = Some a \<longleftrightarrow> a \<in> set (live_acts run) \<and> act_key a = k"
proof -
  have "distinct (map fst (rev (map (\<lambda>a. (act_key a, a)) (live_acts run))))"
    using keys_unique_live [OF assms] by (simp add: rev_map [symmetric] o_def)
  then have "live_by_key run k = Some a \<longleftrightarrow> (k, a) \<in> set (rev (map (\<lambda>a. (act_key a, a)) (live_acts run)))"
    unfolding live_by_key_def by (rule map_of_eq_Some_iff)
  then show ?thesis by auto
qed

lemma members_supersede:
  assumes "keys_unique run" and "a \<in> set (live_acts run)"
  shows "members run (supersede_act run a st) = insert a (members run st)"
  using assms keys_unique_inj [OF assms(1) _ assms(2)] by (auto simp: members_def)

lemma by_node_supersede:
  assumes "keys_unique run" and "a \<in> set (live_acts run)" and "by_node_ok run st"
  shows "by_node_ok run (supersede_act run a st)"
proof -
  have g: "obj_get (sc_byNode (supersede_act run a st)) n =
      (if n = act_nodeId a
       then Some ((case obj_get (sc_byNode st) n of None \<Rightarrow> [] | Some l \<Rightarrow> l) @ [a])
       else obj_get (sc_byNode st) n)" for n
    by (auto simp: supersede_act_def Let_def split: option.split)
  show ?thesis
    using assms(3) unfolding by_node_ok_def members_supersede [OF assms(1,2)] g
    by (auto split: option.splits)
qed

lemma earliest_supersede:
  assumes "keys_unique run" and "a \<in> set (live_acts run)" and "earliest_ok run st"
  shows "earliest_ok run (supersede_act run a st)"
proof (cases "node_loop run (act_nodeId a)")
  case None
  then have "sc_earliest (supersede_act run a st) = sc_earliest st"
    by (simp add: supersede_act_def Let_def)
  moreover have "{b \<in> insert a (members run st). node_loop run (act_nodeId b) = Some l} =
      {b \<in> members run st. node_loop run (act_nodeId b) = Some l}" for l
    using None by auto
  ultimately show ?thesis
    using assms(3) unfolding earliest_ok_def members_supersede [OF assms(1,2)] by simp
next
  case (Some k)
  let ?m = "min (case obj_get (sc_earliest st) k of None \<Rightarrow> act_iteration a | Some m \<Rightarrow> m) (act_iteration a)"
  have e: "sc_earliest (supersede_act run a st) = obj_set k ?m (sc_earliest st)"
    by (simp add: supersede_act_def Let_def Some)
  let ?B = "\<lambda>l. {a \<in> members run st. node_loop run (act_nodeId a) = Some l}"
  have B: "{b \<in> insert a (members run st). node_loop run (act_nodeId b) = Some l} =
      (if l = k then insert a (?B l) else ?B l)" for l
    using Some by auto
  have old: "case obj_get (sc_earliest st) l of None \<Rightarrow> ?B l = {}
      | Some m \<Rightarrow> m \<in> act_iteration ` ?B l \<and> (\<forall>a\<in>?B l. m \<le> act_iteration a)" for l
    using assms(3) by (simp add: earliest_ok_def Let_def)
  have "?m \<in> act_iteration ` insert a (?B k) \<and> (\<forall>b\<in>insert a (?B k). ?m \<le> act_iteration b)"
    using old [of k] by (cases "obj_get (sc_earliest st) k") (auto simp: min_def)
  then show ?thesis
    using assms(3) old unfolding earliest_ok_def members_supersede [OF assms(1,2)] e B
    by (auto simp: Let_def)
qed

lemma supersede_lists:
  "distinct (sc_acts st) \<Longrightarrow> distinct (sc_acts (supersede_act run a st))"
  by (auto simp: supersede_act_def set_add_def Let_def split: option.split)

lemma scope_inv_supersede:
  assumes uniq: "keys_unique run" and a: "a \<in> set (live_acts run)" "scoped_act run arts rt a"
    and inv: "scope_inv run arts rt st"
  shows "scope_inv run arts rt (supersede_act run a st)"
proof -
  let ?t = "supersede_act run a st"
  have m: "members run ?t = insert a (members run st)" by (rule members_supersede [OF uniq a(1)])
  have "by_node_ok run ?t" "earliest_ok run ?t" "distinct (sc_acts ?t)"
    using inv by (simp_all add: scope_inv_def by_node_supersede earliest_supersede supersede_lists uniq a)
  moreover have "set (sc_acts ?t) = act_key ` members run ?t" using inv m by (auto simp: scope_inv_def)
  ultimately show ?thesis using inv a(2) m unfolding scope_inv_def by auto
qed

text \<open>Adding an artifact alone, when its live producer, if any, is superseded already.\<close>

lemma scope_inv_artifact:
  assumes uniq: "keys_unique run" and arts: "distinct (map art_id (live_artifacts run arts))"
    and x: "x \<in> set (live_artifacts run arts)" "scoped_art run arts rt (art_id x)"
    and prod: "\<And>p. live_by_key run (ap_activation (art_producer x)) = Some p \<Longrightarrow> p \<in> members run st"
    and inv: "scope_inv run arts rt st"
  shows "scope_inv run arts rt (st\<lparr>sc_arts := set_add (art_id x) (sc_arts st)\<rparr>)"
proof -
  let ?t = "st\<lparr>sc_arts := set_add (art_id x) (sc_arts st)\<rparr>"
  have m: "members run ?t = members run st" by (simp add: members_def)
  have "distinct (sc_arts ?t)" using inv by (simp add: scope_inv_def set_add_def)
  moreover have "a \<in> members run st"
    if "y \<in> set (live_artifacts run arts)" "art_id y \<in> set (sc_arts ?t)" "a \<in> set (live_acts run)"
      "act_key a = ap_activation (art_producer y)" for y a
  proof (cases "art_id y = art_id x")
    case True
    with arts x(1) that(1) have "y = x" by (metis distinct_map inj_onD)
    with that prod show ?thesis by (simp add: live_by_key_Some [OF uniq])
  next
    case False
    with that inv show ?thesis by (auto simp: scope_inv_def)
  qed
  ultimately show ?thesis
    using inv x(2) unfolding scope_inv_def m by_node_ok_def earliest_ok_def by simp
qed

lemma members_superset: "members run st \<subseteq> members run (supersede_act run a st)"
  by (auto simp: members_def)

lemma scoped_new_artifact:
  assumes "scope_inv run arts rt st" and "x \<in> set (live_artifacts run arts)"
    and "ap_activation (art_producer x) \<in> set (sc_acts st) \<or> (\<exists>i\<in>set (art_inputs x). i \<in> set (sc_arts st))"
  shows "scoped_art run arts rt (art_id x)"
  using assms scoped_output scoped_derived by (fastforce simp: scope_inv_def)

lemma artifact_step_inv:
  assumes uniq: "keys_unique run" and arts: "distinct (map art_id (live_artifacts run arts))"
    and x: "x \<in> set (live_artifacts run arts)" and inv: "scope_inv run arts rt st"
  shows "scope_inv run arts rt (fst (artifact_step run x (st, c)))"
proof (rule artifact_step_cases [of run x st c])
  assume "artifact_step run x (st, c) = (st, c)"
  with inv show ?thesis by simp
next
  fix st' assume e: "artifact_step run x (st, c) = (st', True)"
    and new: "ap_activation (art_producer x) \<in> set (sc_acts st) \<or> (\<exists>i\<in>set (art_inputs x). i \<in> set (sc_arts st))"
    and st': "st' = st\<lparr>sc_arts := set_add (art_id x) (sc_arts st)\<rparr>"
    and p: "\<And>p. live_by_key run (ap_activation (art_producer x)) = Some p \<Longrightarrow> act_key p \<in> set (sc_acts st)"
  have "scope_inv run arts rt st'"
    unfolding st'
    by (rule scope_inv_artifact [OF uniq arts x scoped_new_artifact [OF inv x new] _ inv])
      (use p in \<open>auto simp: members_def live_by_key_Some [OF uniq]\<close>)
  with e show ?thesis by simp
next
  fix p let ?t = "st\<lparr>sc_arts := set_add (art_id x) (sc_arts st)\<rparr>"
  assume e: "artifact_step run x (st, c) = (supersede_act run p ?t, True)"
    and new: "ap_activation (art_producer x) \<in> set (sc_acts st) \<or> (\<exists>i\<in>set (art_inputs x). i \<in> set (sc_arts st))"
    and p: "live_by_key run (ap_activation (art_producer x)) = Some p"
  have pl: "p \<in> set (live_acts run)" "act_key p = ap_activation (art_producer x)"
    using p by (auto simp: live_by_key_Some [OF uniq])
  have sx: "scoped_art run arts rt (art_id x)" by (rule scoped_new_artifact [OF inv x new])
  then have sp: "scoped_act run arts rt p" by (rule scoped_made [OF _ x pl])
  have "scope_inv run arts rt ((supersede_act run p st)\<lparr>sc_arts := set_add (art_id x) (sc_arts (supersede_act run p st))\<rparr>)"
    by (rule scope_inv_artifact [OF uniq arts x sx _ scope_inv_supersede [OF uniq pl(1) sp inv]])
      (use p members_supersede [OF uniq pl(1)] in auto)
  moreover have "(supersede_act run p st)\<lparr>sc_arts := set_add (art_id x) (sc_arts (supersede_act run p st))\<rparr>
      = supersede_act run p ?t"
    by (simp add: supersede_act_def Let_def split: option.split)
  ultimately show ?thesis using e by simp
qed

lemma scoped_new_activation:
  assumes inv: "scope_inv run arts rt st" and a: "a \<in> set (live_acts run)"
    and new: "consumes a (sc_arts st) \<or> rewound_iteration run a st
      \<or> reads_superseded run (readersByConsumer run) a st"
  shows "scoped_act run arts rt a"
  using new
proof (elim disjE)
  assume "consumes a (sc_arts st)"
  with inv a show ?thesis by (auto simp: consumes_def scope_inv_def intro: scoped_consumed)
next
  assume "rewound_iteration run a st"
  then obtain l m where l: "node_loop run (act_nodeId a) = Some l" "obj_get (sc_earliest st) l = Some m"
      "m < act_iteration a"
    by (auto simp: rewound_iteration_def split: option.splits)
  have "m \<in> act_iteration ` {a \<in> members run st. node_loop run (act_nodeId a) = Some l}"
    using inv l(2) by (auto simp: scope_inv_def earliest_ok_def Let_def split: option.splits)
  then obtain b where "b \<in> members run st" "node_loop run (act_nodeId b) = Some l" "act_iteration b = m"
    by auto
  with inv l a show ?thesis by (auto simp: scope_inv_def intro: scoped_later)
next
  assume "reads_superseded run (readersByConsumer run) a st"
  then obtain r p where "(act_nodeId a, r) \<in> set (readersByConsumer run)" "readsPosition run p a r"
      "p \<in> set (case obj_get (sc_byNode st) (rd_node r) of None \<Rightarrow> [] | Some l \<Rightarrow> l)"
    by (auto simp: reads_superseded_def readers_of_def)
  with inv a show ?thesis
    by (auto simp: scope_inv_def by_node_ok_def intro: scoped_read)
qed

lemma activation_step_inv:
  assumes "keys_unique run" and "a \<in> set (live_acts run)" and "scope_inv run arts rt st"
  shows "scope_inv run arts rt (fst (activation_step run (readersByConsumer run) a (st, c)))"
  by (rule activation_step_cases [of run "readersByConsumer run" a st c])
    (use assms in \<open>auto intro: scope_inv_supersede scoped_new_activation\<close>)

lemma scope_pass_inv:
  assumes "keys_unique run" and "distinct (map art_id (live_artifacts run arts))"
    and "scope_inv run arts rt st"
  shows "scope_inv run arts rt (fst (scope_pass run arts st))"
proof -
  have "scope_inv run arts rt (fst (fold (artifact_step run) (live_artifacts run arts) (st, False)))"
    by (rule fold_invariant [where Q = "\<lambda>x. x \<in> set (live_artifacts run arts)"
        and P = "\<lambda>sc. scope_inv run arts rt (fst sc)"])
      (use assms in \<open>simp_all add: artifact_step_inv split_paired_all\<close>)
  then show ?thesis
    unfolding scope_pass_def
    by (rule fold_invariant [where Q = "\<lambda>x. x \<in> set (live_acts run)"
        and P = "\<lambda>sc. scope_inv run arts rt (fst sc)", rotated])
      (use assms in \<open>simp_all add: activation_step_inv split_paired_all\<close>)
qed

lemma root_live:
  assumes "graphRunActivation run key = Some rt" and "act_state rt \<noteq> Superseded"
  shows "rt \<in> set (live_acts run)" "act_key rt = key"
  using assms by (auto simp: live_acts_def dest: graphRunActivation_SomeD)

lemma scope_start_inv:
  assumes uniq: "keys_unique run" and rt: "rt \<in> set (live_acts run)"
  shows "scope_inv run arts rt (scope_start run rt)"
proof -
  let ?e = "\<lparr>sc_acts = [], sc_arts = [], sc_byNode = [], sc_earliest = []\<rparr>"
  have s: "scope_start run rt = supersede_act run rt ?e"
    by (simp add: scope_start_def supersede_act_def set_add_def obj_get_def Let_def split: option.split)
  have "members run ?e = {}" by (simp add: members_def)
  moreover from this have "members run (scope_start run rt) = {rt}"
    unfolding s by (simp add: members_supersede [OF uniq rt])
  moreover have "by_node_ok run (scope_start run rt)" "earliest_ok run (scope_start run rt)"
    unfolding s by (intro by_node_supersede earliest_supersede uniq rt;
        simp add: by_node_ok_def earliest_ok_def obj_get_def members_def)+
  moreover have "sc_acts (scope_start run rt) = [act_key rt]" "sc_arts (scope_start run rt) = []"
    by (simp_all add: s supersede_act_def set_add_def Let_def split: option.split)
  ultimately show ?thesis by (simp add: scope_inv_def scoped_root)
qed

section \<open>The saturated scope is closed\<close>

lemma step_flags:
  "artifact_step run x (st, c) = (st, c) \<or> snd (artifact_step run x (st, c))"
  "activation_step run readers a (st, c) = (st, c) \<or> snd (activation_step run readers a (st, c))"
  by (rule artifact_step_cases [of run x st c], auto)
    (rule activation_step_cases [of run readers a st c], auto)

lemma scope_pass_unchanged:
  assumes "scope_pass run arts st = (t, False)"
  shows "t = st"
    and "\<forall>x\<in>set (live_artifacts run arts). artifact_step run x (st, False) = (st, False)"
    and "\<forall>a\<in>set (live_acts run). activation_step run (readersByConsumer run) a (st, False) = (st, False)"
proof -
  obtain s c where s: "fold (artifact_step run) (live_artifacts run arts) (st, False) = (s, c)"
    by (cases "fold (artifact_step run) (live_artifacts run arts) (st, False)")
  have "\<not> c"
    using assms fold_flag_True [where step = "activation_step run (readersByConsumer run)"
          and xs = "live_acts run" and s = s, OF step_flags(2)]
    by (auto simp: scope_pass_def s)
  with s have f: "fold (artifact_step run) (live_artifacts run arts) (st, False) = (s, False)" by simp
  have 1: "s = st \<and> (\<forall>x\<in>set (live_artifacts run arts). artifact_step run x (st, False) = (st, False))"
    by (rule fold_flag_False [where step = "artifact_step run", OF step_flags(1) f])
  have "fold (activation_step run (readersByConsumer run)) (live_acts run) (st, False) = (t, False)"
    using assms f 1 by (simp add: scope_pass_def)
  from fold_flag_False [where step = "activation_step run (readersByConsumer run)", OF step_flags(2) this] 1
  show "t = st"
    and "\<forall>x\<in>set (live_artifacts run arts). artifact_step run x (st, False) = (st, False)"
    and "\<forall>a\<in>set (live_acts run). activation_step run (readersByConsumer run) a (st, False) = (st, False)"
    by simp_all
qed

lemma set_add_same: "set_add x xs = xs \<longleftrightarrow> x \<in> set xs"
  by (auto simp: set_add_def)

lemma unchanged_artifact:
  assumes "artifact_step run x (st, False) = (st, False)"
    and "ap_activation (art_producer x) \<in> set (sc_acts st) \<or> (\<exists>i\<in>set (art_inputs x). i \<in> set (sc_arts st))"
  shows "art_id x \<in> set (sc_arts st)"
  using assms by (auto simp: artifact_step.simps Let_def split: if_splits option.splits)

lemma unchanged_activation:
  assumes "activation_step run readers a (st, False) = (st, False)"
    and "consumes a (sc_arts st) \<or> rewound_iteration run a st \<or> reads_superseded run readers a st"
  shows "act_key a \<in> set (sc_acts st)"
  using assms by (auto simp: activation_step.simps split: if_splits)

lemma saturated_closed:
  assumes uniq: "keys_unique run" and inv: "scope_inv run arts rt st"
    and sat: "scope_pass run arts st = (st, False)"
  shows "scoped_act run arts rt a \<Longrightarrow> a \<in> members run st"
    and "scoped_art run arts rt i \<Longrightarrow> i \<in> set (sc_arts st)"
proof (induction rule: scoped_act_scoped_art.inducts)
  case scoped_root
  then show ?case using inv by (simp add: scope_inv_def)
next
  case (scoped_made x a)
  then show ?case using inv by (simp add: scope_inv_def)
next
  case (scoped_consumed i a p)
  then have "consumes a (sc_arts st)" by (auto simp: consumes_def)
  then show ?case
    using unchanged_activation scope_pass_unchanged(3) [OF sat] scoped_consumed(3) by (auto simp: members_def)
next
  case (scoped_later b a l)
  have ok: "earliest_ok run st" using inv by (simp add: scope_inv_def)
  obtain m where m: "obj_get (sc_earliest st) l = Some m"
    using ok scoped_later(4,2) scoped_later(6) by (fastforce simp: earliest_ok_def Let_def split: option.splits)
  with ok have "\<forall>c\<in>members run st. node_loop run (act_nodeId c) = Some l \<longrightarrow> m \<le> act_iteration c"
    by (auto simp: earliest_ok_def Let_def split: option.splits)
  then have "m < act_iteration a" using scoped_later by force
  with m scoped_later have "rewound_iteration run a st" by (simp add: rewound_iteration_def)
  then show ?case
    using unchanged_activation scope_pass_unchanged(3) [OF sat] scoped_later by (auto simp: members_def)
next
  case (scoped_read b a r)
  have "b \<in> set (case obj_get (sc_byNode st) (rd_node r) of None \<Rightarrow> [] | Some l \<Rightarrow> l)"
    using inv scoped_read by (simp add: scope_inv_def by_node_ok_def)
  with scoped_read have "reads_superseded run (readersByConsumer run) a st"
    by (force simp: reads_superseded_def readers_of_def)
  then show ?case
    using unchanged_activation scope_pass_unchanged(3) [OF sat] scoped_read by (auto simp: members_def)
next
  case (scoped_output a x)
  then show ?case
    using unchanged_artifact scope_pass_unchanged(2) [OF sat] by (auto simp: members_def)
next
  case (scoped_derived i x)
  then show ?case using unchanged_artifact scope_pass_unchanged(2) [OF sat] by blast
qed

interpretation scope: saturating_pass "scope_pass run arts" "scope_loop run arts"
    "\<lambda>st. keys_unique run \<and> distinct (map art_id (live_artifacts run arts)) \<and> scope_inv run arts rt st"
    "scope_left run arts"
  for run arts rt
  by unfold_locales (use scope_pass_inv scope_pass_left in \<open>auto simp: scope_loop.simps [of run arts]\<close>)

lemma scope_loop_exact:
  assumes uniq: "keys_unique run" and arts: "distinct (map art_id (live_artifacts run arts))"
    and rt: "rt \<in> set (live_acts run)"
  defines "st \<equiv> scope_loop run arts (scope_start run rt)"
  shows "scope_inv run arts rt st" and "members run st = {a. scoped_act run arts rt a}"
    and "set (sc_arts st) = {i. scoped_art run arts rt i}"
proof -
  obtain s where s: "scope_inv run arts rt s" "scope_pass run arts s = (st, False)"
    using scope.loop_saturates [of run arts rt "scope_start run rt"] scope_start_inv [OF uniq rt] uniq arts
    unfolding st_def by blast
  then have t: "scope_inv run arts rt st" "scope_pass run arts st = (st, False)"
    using scope_pass_unchanged(1) by fastforce+
  then show "scope_inv run arts rt st" by simp
  show "members run st = {a. scoped_act run arts rt a}"
    using saturated_closed(1) [OF uniq t] t(1) by (auto simp: scope_inv_def)
  show "set (sc_arts st) = {i. scoped_art run arts rt i}"
    using saturated_closed(2) [OF uniq t] t(1) by (auto simp: scope_inv_def)
qed

lemma set_root_first [simp]: "set (root_first run k keys) = set keys"
  by (simp add: root_first_def)

lemma rewound_loops_get:
  assumes "distinct (map fst earliest)"
  shows "obj_get (rewound_loops run earliest) l = Some i \<longleftrightarrow>
    obj_get earliest l = Some i \<and> i < (case obj_get (run_loopIterations run) l of None \<Rightarrow> 1 | Some n \<Rightarrow> n)"
proof -
  let ?f = "\<lambda>(l, i) acc. if i < (case obj_get (run_loopIterations run) l of None \<Rightarrow> 1 | Some n \<Rightarrow> n)
                         then obj_set l i acc else acc"
  have "obj_get (fold ?f es acc) l = Some i \<longleftrightarrow>
      (case obj_get es l of
         Some j \<Rightarrow> if j < (case obj_get (run_loopIterations run) l of None \<Rightarrow> 1 | Some n \<Rightarrow> n)
                   then j = i else obj_get acc l = Some i
       | None \<Rightarrow> obj_get acc l = Some i)"
    if "distinct (map fst es)" for es acc
    using that
  proof (induction es arbitrary: acc)
    case (Cons e es)
    obtain k v where e: "e = (k, v)" by (cases e)
    have "obj_get es k = None" using Cons.prems e by (simp add: obj_get_None_iff)
    with Cons.IH [of "if v < (case obj_get (run_loopIterations run) k of None \<Rightarrow> 1 | Some n \<Rightarrow> n)
        then obj_set k v acc else acc"] Cons.prems
    show ?case by (cases "k = l") (auto simp: e split: option.splits)
  qed simp
  from this [OF assms, of "[]"] show ?thesis
    by (auto simp: rewound_loops_def split: option.splits if_splits)
qed

text \<open>C7. What a restart supersedes is exactly the least set of activations and artifacts that contains
  the restarted activation and is closed under the documented rules: nothing that depends on it is
  kept and nothing independent is touched. Each loop counter rewinds to the earliest superseded
  iteration of the loop, when that is before the current one.\<close>

theorem restart_scope_exact:
  assumes "run_inv run" and "distinct (map art_id (live_artifacts run arts))"
    and "graphRunActivation run key = Some rt" and "graphRestartScope run arts key = Some sc"
  shows "set (rs_activations sc) = act_key ` {a. scoped_act run arts rt a}
    \<and> distinct (rs_activations sc)
    \<and> set (rs_artifacts sc) = {i. scoped_art run arts rt i}
    \<and> distinct (rs_artifacts sc) \<and> sorted (rs_artifacts sc)
    \<and> (\<forall>l i. obj_get (rs_loopIterations sc) l = Some i \<longleftrightarrow>
         (let later = act_iteration ` {a. scoped_act run arts rt a \<and> node_loop run (act_nodeId a) = Some l}
          in later \<noteq> {} \<and> i = Min later
             \<and> i < (case obj_get (run_loopIterations run) l of None \<Rightarrow> 1 | Some n \<Rightarrow> n)))"
proof -
  let ?st = "scope_loop run arts (scope_start run rt)"
  have uniq: "keys_unique run" using assms(1) by (simp add: run_inv_def keys_unique_def)
  have live: "act_state rt \<noteq> Superseded"
    and sc: "sc = \<lparr>rs_activations = root_first run (act_key rt) (sc_acts ?st),
        rs_artifacts = sort (sc_arts ?st), rs_loopIterations = rewound_loops run (sc_earliest ?st)\<rparr>"
    using assms(3,4) by (auto simp: graphRestartScope_def Let_def split: if_splits)
  note ex = scope_loop_exact [OF uniq assms(2) root_live(1) [OF assms(3) live]]
  have inv: "distinct (sc_acts ?st)" "distinct (sc_arts ?st)" "earliest_ok run ?st"
      "set (sc_acts ?st) = act_key ` members run ?st"
    using ex(1) by (auto simp: scope_inv_def)
  have "obj_get (rs_loopIterations sc) l = Some i \<longleftrightarrow>
      (let later = act_iteration ` {a. scoped_act run arts rt a \<and> node_loop run (act_nodeId a) = Some l}
       in later \<noteq> {} \<and> i = Min later
          \<and> i < (case obj_get (run_loopIterations run) l of None \<Rightarrow> 1 | Some n \<Rightarrow> n))" for l i
  proof -
    let ?B = "{a \<in> members run ?st. node_loop run (act_nodeId a) = Some l}"
    have B: "{a. scoped_act run arts rt a \<and> node_loop run (act_nodeId a) = Some l} = ?B"
      using ex(2) by auto
    have fin: "finite (act_iteration ` ?B)" by (simp add: members_def)
    have "obj_get (sc_earliest ?st) l = Some i \<longleftrightarrow> act_iteration ` ?B \<noteq> {} \<and> i = Min (act_iteration ` ?B)"
    proof (cases "obj_get (sc_earliest ?st) l")
      case None
      have "?B = {}" using earliest_okD [OF inv(3), of l] unfolding None by simp
      with None show ?thesis by simp
    next
      case (Some m)
      have "m \<in> act_iteration ` ?B" "\<forall>a\<in>?B. m \<le> act_iteration a"
        using earliest_okD [OF inv(3), of l] unfolding Some by simp_all
      with fin have "Min (act_iteration ` ?B) = m" by (intro Min_eqI) auto
      with Some \<open>m \<in> act_iteration ` ?B\<close> show ?thesis by auto
    qed
    then show ?thesis
      using rewound_loops_get [of "sc_earliest ?st" run l i] inv(3) unfolding B Let_def
      by (simp add: sc earliest_ok_def)
  qed
  then show ?thesis using inv ex(2,3) by (simp add: sc root_first_def)
qed

lemma restart_scope_exact_witness:
  "\<exists>sc. graphRestartScope (example_run [example_activation ''plan'' ''plan'' Complete,
       example_activation ''fix'' ''fix'' Running]) [] ''plan'' = Some sc
     \<and> distinct (rs_activations sc) \<and> sorted (rs_artifacts sc)"
proof -
  let ?run = "example_run [example_activation ''plan'' ''plan'' Complete, example_activation ''fix'' ''fix'' Running]"
  let ?rt = "example_activation ''plan'' ''plan'' Complete"
  have rt: "graphRunActivation ?run ''plan'' = Some ?rt"
    by (simp add: graphRunActivation_def example_eval)
  then obtain sc where sc: "graphRestartScope ?run [] ''plan'' = Some sc"
    by (simp add: graphRestartScope_def example_eval Let_def)
  have "run_inv ?run"
    using example_run_inv [of "[(''plan'', ''plan'', Complete), (''fix'', ''fix'', Running)]"] by simp
  from restart_scope_exact [OF this _ rt sc] sc show ?thesis by (simp add: live_artifacts_def)
qed

end
