(* ===== verification/Field_Checks.thy ===== *)
theory Field_Checks
  imports Prelude
begin

text \<open>
  The path-tracking validation helpers (\<^verbatim>\<open>packages/protocol/src/field-validation.ts\<close>) and the
  grammar and bounds of graph templates (\<^verbatim>\<open>packages/protocol/src/graphs/grammar.ts\<close>): the
  error collector, one definition per check, and the type reference grammar with its parser.

  Numeric bounds are integers, as every caller passes. A check takes the collector and answers it
  updated. A pattern is a predicate on strings. Text is a list of UTF-16 code units.
\<close>

section \<open>The collector\<close>

record field_error =
  fe_path :: string
  fe_code :: string
  fe_message :: string

record collector =
  col_errors :: "field_error list"
  col_omitted :: nat
  col_max :: nat

definition DEFAULT_MAX_FIELD_ERRORS :: nat where "DEFAULT_MAX_FIELD_ERRORS = 20"

definition col_add :: "string \<Rightarrow> string \<Rightarrow> string \<Rightarrow> collector \<Rightarrow> collector" where
  "col_add path code message c =
     (if length (col_errors c) \<ge> col_max c then c\<lparr>col_omitted := col_omitted c + 1\<rparr>
      else c\<lparr>col_errors := col_errors c @ [\<lparr>fe_path = (if path = [] then ''$'' else path),
               fe_code = code, fe_message = take 300 message\<rparr>]\<rparr>)"

definition col_failed :: "collector \<Rightarrow> bool" where
  "col_failed c \<longleftrightarrow> length (col_errors c) > 0 \<or> col_omitted c > 0"

definition col_result :: "'v \<Rightarrow> collector \<Rightarrow> (field_error list \<times> nat) + 'v" where
  "col_result v c = (if col_failed c then Inl (col_errors c, col_omitted c) else Inr v)"

definition show_int :: "int \<Rightarrow> string" where
  "show_int n = (if n < 0 then ''-'' @ digits_of_number (nat (- n)) else digits_of_number (nat n))"

definition joinIndex :: "string \<Rightarrow> int \<Rightarrow> string" where
  "joinIndex base n = base @ ''['' @ show_int n @ '']''"

definition joinKey :: "string \<Rightarrow> string \<Rightarrow> string" where
  "joinKey base key = (if base \<noteq> [] then base @ ''.'' @ key else key)"

definition isPlainRecord :: "js \<Rightarrow> bool" where
  "isPlainRecord v = (case v of JObj _ \<Rightarrow> True | _ \<Rightarrow> False)"

section \<open>Checks of single values\<close>

definition checkObject :: "js \<Rightarrow> string \<Rightarrow> string list \<Rightarrow> collector \<Rightarrow> bool \<times> collector" where
  "checkObject v path allowed c =
     (case v of
        JObj ps \<Rightarrow> (True, fold (\<lambda>k c. if k \<in> set allowed then c
                          else col_add (joinKey path k) ''unknown_field''
                                 ''Unknown field is not permitted'' c) (map fst ps) c)
      | _ \<Rightarrow> (False, col_add path ''type'' ''Expected an object'' c))"

record string_options =
  so_min :: "int option"
  so_max :: int
  so_pattern :: "(string \<Rightarrow> bool) option"
  so_optional :: bool

definition checkString ::
  "js \<Rightarrow> string \<Rightarrow> string_options \<Rightarrow> collector \<Rightarrow> bool \<times> collector" where
  "checkString v path opts c =
     (if v = JUndef \<and> so_optional opts then (True, c)
      else
        (case v of
           JStr s \<Rightarrow>
             (let mn = (case so_min opts of None \<Rightarrow> 0 | Some m \<Rightarrow> m)
              in if int (length s) < mn
                 then (False, col_add path (if mn = 1 then ''empty'' else ''too_short'')
                         (''Must contain at least '' @ show_int mn @ '' characters'') c)
                 else if int (length s) > so_max opts
                 then (False, col_add path ''too_long''
                         (''Must contain at most '' @ show_int (so_max opts) @ '' characters'') c)
                 else (case so_pattern opts of
                         None \<Rightarrow> (True, c)
                       | Some p \<Rightarrow> if p s then (True, c)
                                   else (False, col_add path ''pattern''
                                           ''Contains unsupported characters'' c)))
         | _ \<Rightarrow> (False, col_add path ''type'' ''Expected a string'' c)))"

record number_options =
  no_maxAbs :: "int option"
  no_min :: "int option"
  no_max :: "int option"
  no_integer :: bool

definition safe_integer_number :: "rat \<Rightarrow> bool" where
  "safe_integer_number q \<longleftrightarrow> snd (quotient_of q) = 1 \<and> isSafeInteger (fst (quotient_of q))"

definition checkFiniteNumber ::
  "js \<Rightarrow> string \<Rightarrow> number_options \<Rightarrow> collector \<Rightarrow> bool \<times> collector" where
  "checkFiniteNumber v path opts c =
     (case v of
        JNum (Fin q) \<Rightarrow>
          (if no_integer opts \<and> \<not> safe_integer_number q
           then (False, col_add path ''not_integer'' ''Must be a safe integer'' c)
           else if (case no_maxAbs opts of None \<Rightarrow> False | Some m \<Rightarrow> \<bar>q\<bar> > of_int m)
           then (False, col_add path ''out_of_range''
                   (''Absolute value must not exceed '' @ show_int (the (no_maxAbs opts))) c)
           else if (case no_min opts of None \<Rightarrow> False | Some m \<Rightarrow> q < of_int m)
           then (False, col_add path ''out_of_range'' (''Must be at least '' @ show_int (the (no_min opts))) c)
           else if (case no_max opts of None \<Rightarrow> False | Some m \<Rightarrow> q > of_int m)
           then (False, col_add path ''out_of_range'' (''Must be at most '' @ show_int (the (no_max opts))) c)
           else (True, c))
      | JNum _ \<Rightarrow> (False, col_add path ''not_finite'' ''Must be a finite number'' c)
      | _ \<Rightarrow> (False, col_add path ''type'' ''Expected a number'' c))"

definition checkArray ::
  "js \<Rightarrow> string \<Rightarrow> int option \<Rightarrow> int \<Rightarrow> collector \<Rightarrow> bool \<times> collector" where
  "checkArray v path mn mx c =
     (case v of
        JArr xs \<Rightarrow>
          (if int (length xs) < (case mn of None \<Rightarrow> 0 | Some m \<Rightarrow> m)
           then (False, col_add path ''too_few''
                   (''Must contain at least '' @ show_int (the mn) @ '' entries'') c)
           else if int (length xs) > mx
           then (False, col_add path ''too_many''
                   (''Must contain at most '' @ show_int mx @ '' entries'') c)
           else (True, c))
      | _ \<Rightarrow> (False, col_add path ''type'' ''Expected an array'' c))"

definition checkEnum :: "js \<Rightarrow> string \<Rightarrow> string list \<Rightarrow> collector \<Rightarrow> bool \<times> collector" where
  "checkEnum v path allowed c =
     (if (case v of JStr s \<Rightarrow> s \<in> set allowed | _ \<Rightarrow> False) then (True, c)
      else (False, col_add path ''enum'' (''Expected one of: '' @ join_with '', '' allowed) c))"

section \<open>Nesting depth\<close>

text \<open>The children a value pushes; other objects have no enumerable values of their own here.\<close>

fun js_children :: "js \<Rightarrow> js list" where
  "js_children (JArr xs) = xs"
| "js_children (JObj ps) = map snd ps"
| "js_children _ = []"

definition js_is_object :: "js \<Rightarrow> bool" where
  "js_is_object v = (case v of JArr _ \<Rightarrow> True | JObj _ \<Rightarrow> True | JOther \<Rightarrow> True | _ \<Rightarrow> False)"

lemma js_children_size: "(\<Sum>x\<leftarrow>js_children v. Suc (size x)) \<le> size v"
proof (cases v)
  case (JObj ps)
  have "(\<Sum>x\<leftarrow>map snd ps. Suc (size x)) \<le> size_list (size_prod (\<lambda>_. 0) size) ps"
    by (induction ps) auto
  with JObj show ?thesis by simp
next
  case (JArr xs)
  have "(\<Sum>x\<leftarrow>xs. Suc (size x)) \<le> size_list size xs" by (induction xs) auto
  with JArr show ?thesis by simp
qed simp_all

lemma sum_list_rev_push:
  "(\<Sum>(x, _)\<leftarrow>rev (map (\<lambda>ch. (ch, d)) xs). Suc (size x)) = (\<Sum>x\<leftarrow>xs. Suc (size (x :: js)))"
  by (simp add: rev_map [symmetric] o_def sum_list_rev flip: rev_map)

text \<open>The stack, its top first; the last child pushed is on top.\<close>

function depth_loop :: "nat \<Rightarrow> (js \<times> nat) list \<Rightarrow> bool" where
  "depth_loop maxDepth [] = False"
| "depth_loop maxDepth ((v, d) # stack) =
     (if \<not> js_is_object v then depth_loop maxDepth stack
      else if d > maxDepth then True
      else depth_loop maxDepth (rev (map (\<lambda>ch. (ch, d + 1)) (js_children v)) @ stack))"
  by pat_completeness auto

termination
  by (relation "measure (\<lambda>(_, stack). \<Sum>(x, _)\<leftarrow>stack. Suc (size x))")
    (use js_children_size in \<open>auto simp: sum_list_rev_push less_Suc_eq_le\<close>)

definition jsonDepthExceeds :: "js \<Rightarrow> nat \<Rightarrow> bool" where
  "jsonDepthExceeds v maxDepth = depth_loop maxDepth [(v, 1)]"

section \<open>Grammars\<close>

definition maxIdChars :: nat where "maxIdChars = 64"
definition maxKeyChars :: nat where "maxKeyChars = 48"
definition maxEnumValueChars :: nat where "maxEnumValueChars = 64"
definition maxTypeRefChars :: nat where "maxTypeRefChars = 96"
definition maxPathChars :: nat where "maxPathChars = 256"
definition maxPathSegments :: nat where "maxPathSegments = 16"
definition maxTypeVersion :: nat where "maxTypeVersion = 999"
definition maxListDepth :: nat where "maxListDepth = 2"
definition maxLabelBytes :: nat where "maxLabelBytes = 200"
definition maxDescriptionBytes :: nat where "maxDescriptionBytes = 4096"
definition GRAPH_PLAN_ID_MAX_CHARS :: nat where "GRAPH_PLAN_ID_MAX_CHARS = 128"

definition lower_digit :: "char \<Rightarrow> bool" where
  "lower_digit c \<longleftrightarrow> is_lower c \<or> is_digit c"

text \<open>\<open>[a-z][a-z0-9]*(-[a-z0-9]+)*\<close>: words joined by single hyphens.\<close>

definition GRAPH_ID_PATTERN :: "string \<Rightarrow> bool" where
  "GRAPH_ID_PATTERN s =
     (case split_on CHR ''-'' s of
        [] \<Rightarrow> False
      | w # ws \<Rightarrow> w \<noteq> [] \<and> is_lower (hd w) \<and> list_all lower_digit w
                  \<and> list_all (\<lambda>u. u \<noteq> [] \<and> list_all lower_digit u) ws)"

definition GRAPH_PLAN_ID_PATTERN :: "string \<Rightarrow> bool" where
  "GRAPH_PLAN_ID_PATTERN s = list_all GRAPH_ID_PATTERN (split_on CHR ''/'' s)"

definition word_char :: "char \<Rightarrow> bool" where
  "word_char c \<longleftrightarrow> is_alnum c \<or> c = CHR ''_''"

definition GRAPH_KEY_PATTERN :: "string \<Rightarrow> bool" where
  "GRAPH_KEY_PATTERN s \<longleftrightarrow> s \<noteq> [] \<and> is_lower (hd s) \<and> list_all word_char s"

definition GRAPH_ENUM_VALUE_PATTERN :: "string \<Rightarrow> bool" where
  "GRAPH_ENUM_VALUE_PATTERN s \<longleftrightarrow> s \<noteq> [] \<and> is_alnum (hd s)
     \<and> list_all (\<lambda>c. word_char c \<or> c = CHR ''.'' \<or> c = CHR ''-'') s"

definition GRAPH_PATH_SEGMENT_PATTERN :: "string \<Rightarrow> bool" where
  "GRAPH_PATH_SEGMENT_PATTERN s \<longleftrightarrow> s \<noteq> [] \<and> (is_lower (hd s) \<or> is_upper (hd s) \<or> hd s = CHR ''_'')
     \<and> list_all (\<lambda>c. word_char c \<or> c = CHR ''-'') s"

text \<open>
  \<open>(list<)*\<close>, a kebab-case name, \<open>@\<close>, a number without leading zero, \<open>>*\<close>. No name contains a
  \<open><\<close>, so taking the prefixes greedily is exact.
\<close>

function drop_lists :: "string \<Rightarrow> string" where
  "drop_lists s = (if starts_with ''list<'' s then drop_lists (drop 5 s) else s)"
  by auto

termination
  by (relation "measure length") (auto elim: starts_with.elims)

declare drop_lists.simps [simp del]

definition GRAPH_TYPE_REF_PATTERN :: "string \<Rightarrow> bool" where
  "GRAPH_TYPE_REF_PATTERN s =
     (let body = drop_lists s;
          name = takeWhile (\<lambda>c. c \<noteq> CHR ''@'') body;
          rest = dropWhile (\<lambda>c. c \<noteq> CHR ''@'') body;
          digits = takeWhile is_digit (tl rest);
          close = dropWhile is_digit (tl rest)
      in GRAPH_ID_PATTERN name \<and> rest \<noteq> [] \<and> digits \<noteq> [] \<and> hd digits \<noteq> CHR ''0''
         \<and> list_all (\<lambda>c. c = CHR ''>'') close)"

record type_ref =
  tr_name :: string
  tr_version :: nat
  tr_depth :: nat

function strip_lists :: "string \<Rightarrow> nat \<Rightarrow> (string \<times> nat) option" where
  "strip_lists inner depth =
     (if starts_with ''list<'' inner
      then (if last inner \<noteq> CHR ''>'' then None
            else strip_lists (butlast (drop 5 inner)) (depth + 1))
      else Some (inner, depth))"
  by auto

termination
  by (relation "measure (\<lambda>(s, _). length s)") (auto elim: starts_with.elims)

declare strip_lists.simps [simp del]

definition parseGraphTypeRef :: "string \<Rightarrow> type_ref option" where
  "parseGraphTypeRef ref =
     (if length ref > maxTypeRefChars \<or> \<not> GRAPH_TYPE_REF_PATTERN ref then None
      else
        (case strip_lists ref 0 of
           None \<Rightarrow> None
         | Some (inner, listDepth) \<Rightarrow>
             if CHR ''>'' \<in> set inner \<or> listDepth > maxListDepth then None
             else
               (let name = takeWhile (\<lambda>c. c \<noteq> CHR ''@'') inner;
                    version = number_of_digits (tl (dropWhile (\<lambda>c. c \<noteq> CHR ''@'') inner))
                in if length name > maxIdChars \<or> \<not> isSafeInteger (int version)
                      \<or> version > maxTypeVersion then None
                   else Some \<lparr>tr_name = name, tr_version = version, tr_depth = listDepth\<rparr>)))"

text \<open>A reference as the source's documentation writes one.\<close>

fun wrap_lists :: "nat \<Rightarrow> string \<Rightarrow> string" where
  "wrap_lists 0 s = s"
| "wrap_lists (Suc n) s = ''list<'' @ wrap_lists n s @ ''>''"

definition print_type_ref :: "type_ref \<Rightarrow> string" where
  "print_type_ref r = wrap_lists (tr_depth r) (tr_name r @ ''@'' @ digits_of_number (tr_version r))"

fun js_string :: "js \<Rightarrow> string option" where
  "js_string (JStr s) = Some s"
| "js_string _ = None"

definition isGraphId :: "js \<Rightarrow> bool" where
  "isGraphId v = (case js_string v of None \<Rightarrow> False
                  | Some s \<Rightarrow> length s \<le> maxIdChars \<and> GRAPH_ID_PATTERN s)"

definition isGraphPlanId :: "js \<Rightarrow> bool" where
  "isGraphPlanId v = (case js_string v of None \<Rightarrow> False
                  | Some s \<Rightarrow> length s \<le> GRAPH_PLAN_ID_MAX_CHARS \<and> GRAPH_PLAN_ID_PATTERN s)"

definition isGraphKey :: "js \<Rightarrow> bool" where
  "isGraphKey v = (case js_string v of None \<Rightarrow> False
                  | Some s \<Rightarrow> length s \<le> maxKeyChars \<and> GRAPH_KEY_PATTERN s)"

definition isGraphFieldPath :: "js \<Rightarrow> bool" where
  "isGraphFieldPath v = (case js_string v of None \<Rightarrow> False
     | Some s \<Rightarrow> length s \<le> maxPathChars
         \<and> (let segments = split_on CHR ''.'' s
            in length segments \<le> maxPathSegments \<and> list_all GRAPH_PATH_SEGMENT_PATTERN segments))"

section \<open>Checks against a grammar\<close>

definition checkPresent :: "js \<Rightarrow> string \<Rightarrow> collector \<Rightarrow> bool \<times> collector" where
  "checkPresent v path c =
     (if v \<noteq> JUndef then (True, c) else (False, col_add path ''required'' ''Field is required'' c))"

definition show_nat :: "nat \<Rightarrow> string" where "show_nat n = digits_of_number n"

definition checkGrammar ::
  "js \<Rightarrow> string \<Rightarrow> (string \<Rightarrow> bool) \<Rightarrow> nat \<Rightarrow> string \<Rightarrow> collector \<Rightarrow> bool \<times> collector" where
  "checkGrammar v path pattern maxChars description c =
     (case v of
        JUndef \<Rightarrow> (False, col_add path ''required'' ''Field is required'' c)
      | JStr s \<Rightarrow>
          (if s = [] then (False, col_add path ''empty'' ''Must not be empty'' c)
           else if length s > maxChars
           then (False, col_add path ''too_long''
                   (''Must contain at most '' @ show_nat maxChars @ '' characters'') c)
           else if \<not> pattern s then (False, col_add path ''pattern'' (''Must be '' @ description) c)
           else (True, c))
      | _ \<Rightarrow> (False, col_add path ''type'' ''Expected a string'' c))"

definition checkGraphId :: "js \<Rightarrow> string \<Rightarrow> collector \<Rightarrow> bool \<times> collector" where
  "checkGraphId v path c = checkGrammar v path GRAPH_ID_PATTERN maxIdChars
     ''a lower-case kebab-case id (a-z, 0-9 and single hyphens, starting with a letter)'' c"

definition checkGraphKey :: "js \<Rightarrow> string \<Rightarrow> collector \<Rightarrow> bool \<times> collector" where
  "checkGraphKey v path c = checkGrammar v path GRAPH_KEY_PATTERN maxKeyChars
     ''an identifier (letters, digits and underscores, starting with a lower-case letter)'' c"

definition checkGraphEnumValue :: "js \<Rightarrow> string \<Rightarrow> collector \<Rightarrow> bool \<times> collector" where
  "checkGraphEnumValue v path c = checkGrammar v path GRAPH_ENUM_VALUE_PATTERN maxEnumValueChars
     (''letters, digits, '' @ [CHR 0x27] @ ''_'' @ [CHR 0x27] @ '', '' @ [CHR 0x27] @ ''.'' @ [CHR 0x27]
      @ '' or '' @ [CHR 0x27] @ ''-'' @ [CHR 0x27] @ '', starting with a letter or digit'') c"

definition checkGraphFieldPath :: "js \<Rightarrow> string \<Rightarrow> collector \<Rightarrow> bool \<times> collector" where
  "checkGraphFieldPath v path c =
     (case v of
        JUndef \<Rightarrow> (False, col_add path ''required'' ''Field is required'' c)
      | JStr s \<Rightarrow>
          (if length s > maxPathChars
           then (False, col_add path ''too_long''
                   (''Must contain at most '' @ show_nat maxPathChars @ '' characters'') c)
           else if length (split_on CHR ''.'' s) > maxPathSegments
           then (False, col_add path ''too_many''
                   (''Must contain at most '' @ show_nat maxPathSegments @ '' segments'') c)
           else if \<not> isGraphFieldPath v
           then (False, col_add path ''pattern'' ''Must be a dotted field path such as report.issues'' c)
           else (True, c))
      | _ \<Rightarrow> (False, col_add path ''type'' ''Expected a string'' c))"

definition checkGraphTypeRef :: "js \<Rightarrow> string \<Rightarrow> collector \<Rightarrow> bool \<times> collector" where
  "checkGraphTypeRef v path c =
     (case v of
        JUndef \<Rightarrow> (False, col_add path ''required'' ''Field is required'' c)
      | JStr s \<Rightarrow>
          (if length s > maxTypeRefChars
           then (False, col_add path ''too_long''
                   (''Must contain at most '' @ show_nat maxTypeRefChars @ '' characters'') c)
           else if parseGraphTypeRef s = None
           then (False, col_add path ''type_ref''
                   (''Must be name@major or list<name@major>, at most '' @ show_nat maxListDepth
                    @ '' lists deep'') c)
           else (True, c))
      | _ \<Rightarrow> (False, col_add path ''type'' ''Expected a string'' c))"

definition checkGraphInteger ::
  "js \<Rightarrow> string \<Rightarrow> int \<Rightarrow> int \<Rightarrow> bool \<Rightarrow> collector \<Rightarrow> bool \<times> collector" where
  "checkGraphInteger v path mn mx opt c =
     (if v = JUndef \<and> opt then (True, c)
      else if v = JUndef then (False, col_add path ''required'' ''Field is required'' c)
      else checkFiniteNumber v path
             \<lparr>no_maxAbs = None, no_min = Some mn, no_max = Some mx, no_integer = True\<rparr> c)"

definition checkGraphBoolean :: "js \<Rightarrow> string \<Rightarrow> bool \<Rightarrow> collector \<Rightarrow> bool \<times> collector" where
  "checkGraphBoolean v path opt c =
     (case v of
        JUndef \<Rightarrow> if opt then (True, c) else (False, col_add path ''required'' ''Field is required'' c)
      | JBool _ \<Rightarrow> (True, c)
      | _ \<Rightarrow> (False, col_add path ''type'' ''Expected a boolean'' c))"

definition checkGraphList ::
  "js \<Rightarrow> string \<Rightarrow> int option \<Rightarrow> int \<Rightarrow> bool \<Rightarrow> collector \<Rightarrow> bool \<times> collector" where
  "checkGraphList v path mn mx opt c =
     (if v = JUndef \<and> opt then (False, c)
      else if v = JUndef then (False, col_add path ''required'' ''Field is required'' c)
      else checkArray v path mn mx c)"

datatype record_key = RKId | RKKey | RKPlanId

fun record_key_ok :: "record_key \<Rightarrow> string \<Rightarrow> bool" where
  "record_key_ok RKId k = isGraphId (JStr k)"
| "record_key_ok RKPlanId k = isGraphPlanId (JStr k)"
| "record_key_ok RKKey k = isGraphKey (JStr k)"

fun record_key_message :: "record_key \<Rightarrow> string" where
  "record_key_message RKId = ''Key must be a kebab-case id''"
| "record_key_message RKPlanId =
     ''Key must be a kebab-case node id, or an inlined node'' @ [CHR 0x27] @ ''s (sub-graph/node)''"
| "record_key_message RKKey = ''Key must be an identifier''"

definition checkGraphRecord ::
  "js \<Rightarrow> string \<Rightarrow> nat \<Rightarrow> record_key \<Rightarrow> collector \<Rightarrow> (string \<times> js) list option \<times> collector" where
  "checkGraphRecord v path mx key c =
     (case v of
        JObj ps \<Rightarrow>
          (if length ps > mx
           then (None, col_add path ''too_many'' (''Must contain at most '' @ show_nat mx @ '' entries'') c)
           else (let (valid, c') = fold (\<lambda>(k, e) (valid, c).
                         if record_key_ok key k then (valid @ [(k, e)], c)
                         else (valid, col_add (joinKey path k) ''pattern'' (record_key_message key) c))
                       ps ([], c)
                 in (Some valid, c')))
      | _ \<Rightarrow> (None, col_add path ''type'' ''Expected an object'' c))"

text \<open>A scope of unique names: the names seen so far.\<close>

definition name_scope_add ::
  "string \<Rightarrow> string \<Rightarrow> string \<Rightarrow> string list \<times> collector \<Rightarrow> bool \<times> string list \<times> collector" where
  "name_scope_add what name path sc =
     (let (seen, c) = sc
      in if name \<in> set seen
         then (False, seen, col_add path ''duplicate''
                 (''Duplicate '' @ what @ '' '' @ [CHR 0x22] @ name @ [CHR 0x22]) c)
         else (True, seen @ [name], c))"

definition name_scope_has :: "string \<Rightarrow> string list \<Rightarrow> bool" where
  "name_scope_has name seen \<longleftrightarrow> name \<in> set seen"

section \<open>Text\<close>

datatype text_value = TextUndef | Text utf16 | NotText

definition fitsBytes :: "utf16 \<Rightarrow> nat \<Rightarrow> bool" where
  "fitsBytes t maxBytes \<longleftrightarrow> length t * 3 \<le> maxBytes \<or> utf8_bytes t \<le> maxBytes"

record text_options =
  to_maxBytes :: nat
  to_maxChars :: "nat option"
  to_multiline :: bool
  to_optional :: bool
  to_allowEmpty :: bool

definition bidi_override :: "nat \<Rightarrow> bool" where
  "bidi_override u \<longleftrightarrow> (8234 \<le> u \<and> u \<le> 8238) \<or> (8294 \<le> u \<and> u \<le> 8297)"

definition SINGLE_LINE_FORBIDDEN :: "utf16 \<Rightarrow> bool" where
  "SINGLE_LINE_FORBIDDEN t \<longleftrightarrow> (\<exists>u\<in>set t. u \<le> 31 \<or> (127 \<le> u \<and> u \<le> 159) \<or> bidi_override u)"

definition MULTI_LINE_FORBIDDEN :: "utf16 \<Rightarrow> bool" where
  "MULTI_LINE_FORBIDDEN t \<longleftrightarrow>
     (\<exists>u\<in>set t. u \<le> 8 \<or> (11 \<le> u \<and> u \<le> 31) \<or> (127 \<le> u \<and> u \<le> 159) \<or> bidi_override u)"

definition checkGraphText ::
  "text_value \<Rightarrow> string \<Rightarrow> text_options \<Rightarrow> collector \<Rightarrow> bool \<times> collector" where
  "checkGraphText v path opts c =
     (case v of
        TextUndef \<Rightarrow> if to_optional opts then (True, c)
                      else (False, col_add path ''required'' ''Field is required'' c)
      | NotText \<Rightarrow> (False, col_add path ''type'' ''Expected a string'' c)
      | Text t \<Rightarrow>
          (if \<not> to_allowEmpty opts \<and> trim16 t = []
           then (False, col_add path ''empty'' ''Must not be empty'' c)
           else if \<not> fitsBytes t (to_maxBytes opts)
           then (False, col_add path ''too_large''
                   (''Must be at most '' @ show_nat (to_maxBytes opts) @ '' UTF-8 bytes'') c)
           else if (case to_maxChars opts of None \<Rightarrow> False | Some m \<Rightarrow> code_points t > m)
           then (False, col_add path ''too_long''
                   (''Must contain at most '' @ show_nat (the (to_maxChars opts)) @ '' characters'') c)
           else if (if to_multiline opts then MULTI_LINE_FORBIDDEN t else SINGLE_LINE_FORBIDDEN t)
           then (False, col_add path ''control_character''
                   (if to_multiline opts
                    then ''Must not contain control or bidirectional-override characters''
                    else ''Must be a single line without control or bidirectional-override characters'') c)
           else if \<not> to_multiline opts \<and> trim16 t \<noteq> t
           then (False, col_add path ''whitespace'' ''Must not start or end with whitespace'' c)
           else (True, c)))"

definition checkGraphLabel :: "text_value \<Rightarrow> string \<Rightarrow> bool \<Rightarrow> collector \<Rightarrow> bool \<times> collector" where
  "checkGraphLabel v path opt c = checkGraphText v path \<lparr>to_maxBytes = maxLabelBytes,
     to_maxChars = None, to_multiline = False, to_optional = opt, to_allowEmpty = False\<rparr> c"

definition checkGraphDescription :: "text_value \<Rightarrow> string \<Rightarrow> nat \<Rightarrow> collector \<Rightarrow> bool \<times> collector" where
  "checkGraphDescription v path maxBytes c = checkGraphText v path \<lparr>to_maxBytes = maxBytes,
     to_maxChars = None, to_multiline = True, to_optional = True, to_allowEmpty = False\<rparr> c"

lemma fitsBytes_exact: "fitsBytes t n \<longleftrightarrow> utf8_bytes t \<le> n"
  using utf8_bytes_le [of t] by (auto simp: fitsBytes_def)

section \<open>The contract of a check\<close>

text \<open>
  A check reports through its result and through the collector alike: a valid value leaves the
  collector alone, an invalid one adds exactly one error at the path.
\<close>

locale field_check =
  fixes check :: "'v \<Rightarrow> string \<Rightarrow> collector \<Rightarrow> bool \<times> collector"
    and valid :: "'v \<Rightarrow> bool"
  assumes check_accepts: "valid v \<Longrightarrow> check v path c = (True, c)"
    and check_rejects: "\<not> valid v \<Longrightarrow> \<exists>code m. check v path c = (False, col_add path code m c)"
begin

lemma check_verdict: "fst (check v path c) \<longleftrightarrow> valid v"
  using check_accepts [of v path c] check_rejects [of v path c] by (cases "valid v") auto

end

definition col_count :: "collector \<Rightarrow> nat" where
  "col_count c = length (col_errors c) + col_omitted c"

definition col_ok :: "collector \<Rightarrow> bool" where
  "col_ok c \<longleftrightarrow> length (col_errors c) \<le> col_max c \<and> (col_omitted c > 0 \<longrightarrow> length (col_errors c) = col_max c)
     \<and> (\<forall>e\<in>set (col_errors c). fe_path e \<noteq> [] \<and> length (fe_message e) \<le> 300)"

lemma col_add_count [simp]: "col_count (col_add p k m c) = Suc (col_count c)"
  by (simp add: col_add_def col_count_def)

lemma col_add_ok: "col_ok c \<Longrightarrow> col_ok (col_add p k m c)"
  by (auto simp: col_add_def col_ok_def)

lemma col_failed_count: "col_failed c \<longleftrightarrow> 0 < col_count c"
  by (auto simp: col_failed_def col_count_def)

text \<open>Checks run in sequence, as a validator does.\<close>

definition run_checks :: "(collector \<Rightarrow> bool \<times> collector) list \<Rightarrow> collector \<Rightarrow> collector" where
  "run_checks checks c = fold (\<lambda>f c. snd (f c)) checks c"

context field_check begin

lemma checks_count:
  "col_count (run_checks (map (\<lambda>(v, p). check v p) vs) c)
     = col_count c + length (filter (\<lambda>(v, _). \<not> valid v) vs)"
proof (induction vs arbitrary: c)
  case (Cons x vs)
  obtain v p where x: "x = (v, p)" by (cases x)
  show ?case
  proof (cases "valid v")
    case True
    then show ?thesis using Cons.IH [of c] check_accepts [OF True, of p c]
      by (simp add: x run_checks_def)
  next
    case False
    then obtain k m where "check v p c = (False, col_add p k m c)" using check_rejects by blast
    with False Cons.IH [of "col_add p k m c"] show ?thesis by (simp add: x run_checks_def)
  qed
qed (simp add: run_checks_def)

lemma checks_ok: "col_ok c \<Longrightarrow> col_ok (run_checks (map (\<lambda>(v, p). check v p) vs) c)"
proof (induction vs arbitrary: c)
  case (Cons x vs)
  obtain v p where x: "x = (v, p)" by (cases x)
  have "col_ok (snd (check v p c))"
    using Cons.prems check_accepts [of v p c] check_rejects [of v p c] col_add_ok
    by (cases "valid v") fastforce+
  with Cons.IH [of "snd (check v p c)"] show ?case by (simp add: x run_checks_def)
qed (simp add: run_checks_def)

end

section \<open>The checks meet the contract\<close>

definition valid_type_ref :: "js \<Rightarrow> bool" where
  "valid_type_ref v = (case js_string v of None \<Rightarrow> False | Some s \<Rightarrow> parseGraphTypeRef s \<noteq> None)"

definition integer_in :: "int \<Rightarrow> int \<Rightarrow> bool \<Rightarrow> js \<Rightarrow> bool" where
  "integer_in mn mx opt v =
     (case v of JUndef \<Rightarrow> opt
      | JNum (Fin q) \<Rightarrow> safe_integer_number q \<and> of_int mn \<le> q \<and> q \<le> of_int mx
      | _ \<Rightarrow> False)"

lemma id_pattern_nonempty: "GRAPH_ID_PATTERN s \<Longrightarrow> s \<noteq> []"
  by (auto simp: GRAPH_ID_PATTERN_def)

lemma checkGrammar_accepts:
  "s \<noteq> [] \<Longrightarrow> length s \<le> mx \<Longrightarrow> pat s \<Longrightarrow> checkGrammar (JStr s) path pat mx d c = (True, c)"
  by (simp add: checkGrammar_def)

lemma checkGrammar_rejects:
  "(\<And>s. v = JStr s \<Longrightarrow> s = [] \<or> mx < length s \<or> \<not> pat s) \<Longrightarrow>
     \<exists>k m. checkGrammar v path pat mx d c = (False, col_add path k m c)"
  by (cases v) (auto simp: checkGrammar_def)

lemma js_string_Some [simp]: "js_string v = Some s \<longleftrightarrow> v = JStr s"
  by (cases v) auto

lemma key_pattern_nonempty: "GRAPH_KEY_PATTERN s \<Longrightarrow> s \<noteq> []"
  by (auto simp: GRAPH_KEY_PATTERN_def)

interpretation graph_id: field_check checkGraphId isGraphId
proof
  show "checkGraphId v p c = (True, c)" if "isGraphId v" for v p c
    using that by (auto simp: checkGraphId_def isGraphId_def checkGrammar_accepts id_pattern_nonempty
        split: option.splits)
  show "\<exists>k m. checkGraphId v p c = (False, col_add p k m c)" if "\<not> isGraphId v" for v p c
    unfolding checkGraphId_def by (rule checkGrammar_rejects) (use that in \<open>auto simp: isGraphId_def\<close>)
qed

interpretation graph_key: field_check checkGraphKey isGraphKey
proof
  show "checkGraphKey v p c = (True, c)" if "isGraphKey v" for v p c
    using that by (auto simp: checkGraphKey_def isGraphKey_def checkGrammar_accepts key_pattern_nonempty
        split: option.splits)
  show "\<exists>k m. checkGraphKey v p c = (False, col_add p k m c)" if "\<not> isGraphKey v" for v p c
    unfolding checkGraphKey_def by (rule checkGrammar_rejects) (use that in \<open>auto simp: isGraphKey_def\<close>)
qed

interpretation graph_path: field_check checkGraphFieldPath isGraphFieldPath
proof
  show "checkGraphFieldPath v p c = (True, c)" if "isGraphFieldPath v" for v p c
    using that by (cases v) (auto simp: checkGraphFieldPath_def isGraphFieldPath_def Let_def)
  show "\<exists>k m. checkGraphFieldPath v p c = (False, col_add p k m c)" if "\<not> isGraphFieldPath v" for v p c
    using that by (cases v) (auto simp: checkGraphFieldPath_def)
qed

lemma parse_length: "parseGraphTypeRef s = Some r \<Longrightarrow> length s \<le> maxTypeRefChars"
  by (simp add: parseGraphTypeRef_def split: if_splits)

interpretation graph_type_ref: field_check checkGraphTypeRef valid_type_ref
proof
  show "checkGraphTypeRef v p c = (True, c)" if "valid_type_ref v" for v p c
    using that parse_length by (cases v) (fastforce simp: checkGraphTypeRef_def valid_type_ref_def)+
  show "\<exists>k m. checkGraphTypeRef v p c = (False, col_add p k m c)" if "\<not> valid_type_ref v" for v p c
    using that by (cases v) (auto simp: checkGraphTypeRef_def valid_type_ref_def)
qed

interpretation graph_integer: field_check "\<lambda>v p. checkGraphInteger v p mn mx opt" "integer_in mn mx opt"
  for mn mx opt
proof
  show "checkGraphInteger v p mn mx opt c = (True, c)" if "integer_in mn mx opt v" for v p c
    using that
    by (auto simp: checkGraphInteger_def checkFiniteNumber_def integer_in_def split: js.splits jsnum.splits)
  show "\<exists>k m. checkGraphInteger v p mn mx opt c = (False, col_add p k m c)"
    if "\<not> integer_in mn mx opt v" for v p c
    using that
    by (auto simp: checkGraphInteger_def checkFiniteNumber_def integer_in_def not_le
        split: js.splits jsnum.splits)
qed

section \<open>Depth\<close>

fun js_depth :: "js \<Rightarrow> nat" where
  "js_depth (JArr xs) = Suc (Max (set (0 # map js_depth xs)))"
| "js_depth (JObj ps) = Suc (Max (set (0 # map (\<lambda>p. js_depth (snd p)) ps)))"
| "js_depth JOther = 1"
| "js_depth _ = 0"

lemma js_depth_object: "js_is_object v \<Longrightarrow> 0 < js_depth v"
  by (cases v) (auto simp: js_is_object_def)

lemma js_depth_children:
  "js_is_object v \<Longrightarrow> js_depth v > Suc m \<longleftrightarrow> (\<exists>ch\<in>set (js_children v). js_depth ch > m)"
  by (cases v) (auto simp: js_is_object_def Max_gr_iff)

lemma js_depth_leaf: "\<not> js_is_object v \<Longrightarrow> js_depth v = 0"
  by (cases v) (auto simp: js_is_object_def)

lemma depth_loop_exact:
  "\<forall>(v, d)\<in>set stack. 0 < d \<and> d \<le> Suc maxDepth \<Longrightarrow>
     depth_loop maxDepth stack \<longleftrightarrow> (\<exists>(v, d)\<in>set stack. js_depth v + d > Suc maxDepth)"
proof (induction maxDepth stack rule: depth_loop.induct)
  case (2 maxDepth v d stack)
  show ?case
  proof (cases "js_is_object v")
    case False
    with 2 show ?thesis by (auto simp: js_depth_leaf)
  next
    case obj: True
    show ?thesis
    proof (cases "maxDepth < d")
      case True
      with 2(3) have "d = Suc maxDepth" by auto
      moreover have "0 < js_depth v" by (rule js_depth_object [OF obj])
      ultimately show ?thesis using obj by force
    next
      case False
      have "js_depth v + d > Suc maxDepth \<longleftrightarrow> js_depth v > Suc (maxDepth - d)"
        using False by auto
      also have "\<dots> \<longleftrightarrow> (\<exists>ch\<in>set (js_children v). js_depth ch > maxDepth - d)"
        by (rule js_depth_children [OF obj])
      also have "\<dots> \<longleftrightarrow> (\<exists>ch\<in>set (js_children v). js_depth ch + (d + 1) > Suc maxDepth)"
        using False by (intro bex_cong refl) auto
      finally have "js_depth v + d > Suc maxDepth \<longleftrightarrow>
          (\<exists>ch\<in>set (js_children v). js_depth ch + (d + 1) > Suc maxDepth)" .
      moreover have "\<forall>(v, d)\<in>set (rev (map (\<lambda>ch. (ch, d + 1)) (js_children v)) @ stack).
          0 < d \<and> d \<le> Suc maxDepth"
        using 2(3) False by auto
      ultimately show ?thesis using 2(2) obj False by (simp add: bex_Un)
    qed
  qed
qed simp

section \<open>Type references\<close>

definition type_ref_ok :: "type_ref \<Rightarrow> bool" where
  "type_ref_ok r \<longleftrightarrow> GRAPH_ID_PATTERN (tr_name r) \<and> length (tr_name r) \<le> maxIdChars
     \<and> 0 < tr_version r \<and> tr_version r \<le> maxTypeVersion \<and> tr_depth r \<le> maxListDepth"

lemma starts_with_char: "starts_with p s \<Longrightarrow> set p \<subseteq> set s"
  by (auto simp: starts_with_iff)

lemma lower_digit_not: "lower_digit c \<Longrightarrow> c \<notin> {CHR ''<'', CHR ''>'', CHR ''@''}"
  by (auto simp: lower_digit_def is_lower_def is_digit_def)

lemma set_join_with: "set (join_with sep ws) \<subseteq> set sep \<union> (\<Union>w\<in>set ws. set w)"
  by (induction sep ws rule: join_with.induct) auto

lemma id_pattern_chars:
  assumes "GRAPH_ID_PATTERN s" and "c \<in> {CHR ''<'', CHR ''>'', CHR ''@''}"
  shows "c \<notin> set s"
proof
  assume "c \<in> set s"
  then have "c \<in> set (join_with ''-'' (split_on CHR ''-'' s))" by simp
  with set_join_with [of "''-''" "split_on CHR ''-'' s"] assms(2)
  obtain w where "w \<in> set (split_on CHR ''-'' s)" "c \<in> set w" by auto
  moreover from this assms(1) have "list_all lower_digit w"
    by (auto simp: GRAPH_ID_PATTERN_def list_all_iff split: list.splits)
  ultimately show False using assms(2) lower_digit_not by (auto simp: list_all_iff)
qed

lemma starts_with_close:
  "\<not> starts_with p x \<Longrightarrow> CHR ''>'' \<notin> set p \<Longrightarrow> \<not> starts_with p (x @ replicate k CHR ''>'' @ y)
     \<or> k = 0"
proof (induction p x rule: starts_with.induct)
  case (2 p ps)
  then show ?case by (cases k) auto
qed auto

lemma strip_lists_sound:
  "strip_lists s d = Some (inner, n) \<Longrightarrow>
     \<exists>k. n = d + k \<and> s = wrap_lists k inner \<and> \<not> starts_with ''list<'' inner"
proof (induction s d rule: strip_lists.induct)
  case (1 s d)
  show ?case
  proof (cases "starts_with ''list<'' s")
    case True
    with "1.prems" have close: "last s = CHR ''>''" and r: "strip_lists (butlast (drop 5 s)) (d + 1) = Some (inner, n)"
      by (simp_all add: strip_lists.simps [of s] split: if_splits)
    obtain t where t: "s = ''list<'' @ t" using True by (auto simp: starts_with_iff)
    then have "t \<noteq> []" "last t = CHR ''>''" using close by (auto split: if_splits)
    then have "s = ''list<'' @ butlast (drop 5 s) @ ''>''"
      using t append_butlast_last_id [of t] by simp
    moreover obtain k where "n = d + 1 + k" "butlast (drop 5 s) = wrap_lists k inner"
        "\<not> starts_with ''list<'' inner"
      using "1.IH" [OF True _ r] close by auto
    ultimately show ?thesis by (intro exI [of _ "Suc k"]) simp
  next
    case False
    with "1.prems" show ?thesis by (intro exI [of _ 0]) (simp add: strip_lists.simps [of s])
  qed
qed

lemma strip_lists_wrap:
  "\<not> starts_with ''list<'' inner \<Longrightarrow> strip_lists (wrap_lists k inner) d = Some (inner, d + k)"
proof (induction k arbitrary: d)
  case 0
  then show ?case by (simp add: strip_lists.simps)
next
  case (Suc k)
  then show ?case
    by (subst strip_lists.simps) (simp add: butlast_append)
qed

lemma drop_lists_wrap:
  "drop_lists (wrap_lists k inner @ y) = drop_lists (inner @ replicate k CHR ''>'' @ y)"
proof (induction k arbitrary: y)
  case (Suc k)
  have "drop_lists (wrap_lists (Suc k) inner @ y) = drop_lists (wrap_lists k inner @ CHR ''>'' # y)"
    by (subst drop_lists.simps) simp
  also have "\<dots> = drop_lists (inner @ replicate k CHR ''>'' @ CHR ''>'' # y)" by (rule Suc)
  finally show ?case by (simp add: replicate_app_Cons_same)
qed simp

lemma drop_lists_plain:
  assumes "\<not> starts_with ''list<'' inner"
  shows "drop_lists (wrap_lists k inner) = inner @ replicate k CHR ''>''"
proof -
  have "\<not> starts_with ''list<'' (inner @ replicate k CHR ''>'')"
    using starts_with_close [OF assms, of k "[]"] assms by (cases "k = 0") auto
  then show ?thesis using drop_lists_wrap [of k inner "[]"] by (simp add: drop_lists.simps)
qed

lemma digit_value_zero: "is_digit c \<Longrightarrow> digit_value c = 0 \<Longrightarrow> c = CHR ''0''"
proof -
  assume "is_digit c" "digit_value c = 0"
  then have "(of_char c :: nat) = of_char (CHR ''0'')" by (simp add: digit_value_def is_digit_def)
  then show "c = CHR ''0''" by (simp only: of_char_eq_iff)
qed

lemma digit_close_split:
  assumes "list_all (\<lambda>c. c = CHR ''>'') (dropWhile is_digit (w @ replicate k CHR ''>''))"
    and "CHR ''>'' \<notin> set w"
  shows "list_all is_digit w \<and> takeWhile is_digit (w @ replicate k CHR ''>'') = w"
  using assms
proof (induction w)
  case Nil
  then show ?case by (cases k) (auto simp: is_digit_def)
qed (auto split: if_splits)

text \<open>What the parser accepts is what the printer prints.\<close>

lemma parse_type_ref_sound:
  assumes "parseGraphTypeRef ref = Some r"
  shows "type_ref_ok r \<and> print_type_ref r = ref"
proof -
  obtain inner n where pat: "GRAPH_TYPE_REF_PATTERN ref" and strip: "strip_lists ref 0 = Some (inner, n)"
    and gt: "CHR ''>'' \<notin> set inner" and n: "n \<le> maxListDepth"
    using assms by (auto simp: parseGraphTypeRef_def split: if_splits option.splits)
  let ?at = "\<lambda>c. c \<noteq> CHR ''@''"
  let ?name = "takeWhile ?at inner" and ?digits = "tl (dropWhile ?at inner)"
  from assms pat strip gt n have r: "r = \<lparr>tr_name = ?name, tr_version = number_of_digits ?digits, tr_depth = n\<rparr>"
    and bounds: "length ?name \<le> maxIdChars" "number_of_digits ?digits \<le> maxTypeVersion"
    by (auto simp: parseGraphTypeRef_def Let_def split: if_splits)
  obtain k where k: "n = k" "ref = wrap_lists k inner" "\<not> starts_with ''list<'' inner"
    using strip_lists_sound [OF strip] by auto
  have body: "drop_lists ref = inner @ replicate k CHR ''>''" using drop_lists_plain [OF k(3)] k(2) by simp
  have rest: "dropWhile ?at (inner @ replicate k CHR ''>'') \<noteq> []"
    using pat by (simp add: GRAPH_TYPE_REF_PATTERN_def Let_def body)
  then have "CHR ''@'' \<in> set inner" by (auto simp: dropWhile_eq_Nil_conv)
  then have tw: "takeWhile ?at (inner @ replicate k CHR ''>'') = ?name"
    and dw: "dropWhile ?at (inner @ replicate k CHR ''>'') = dropWhile ?at inner @ replicate k CHR ''>''"
    and ne: "dropWhile ?at inner \<noteq> []"
    by (auto simp: takeWhile_append1 dropWhile_append1 dropWhile_eq_Nil_conv)
  have tl: "tl (dropWhile ?at (inner @ replicate k CHR ''>'')) = ?digits @ replicate k CHR ''>''"
    using dw ne by simp
  have "set ?digits \<subseteq> set inner"
    using ne by (metis dual_order.trans list.set_sel(2) set_dropWhileD subsetI)
  with gt have "CHR ''>'' \<notin> set ?digits" by blast
  moreover have "list_all (\<lambda>c. c = CHR ''>'') (dropWhile is_digit (?digits @ replicate k CHR ''>''))"
    and name: "GRAPH_ID_PATTERN ?name"
    and dig: "takeWhile is_digit (?digits @ replicate k CHR ''>'') \<noteq> []"
      "hd (takeWhile is_digit (?digits @ replicate k CHR ''>'')) \<noteq> CHR ''0''"
    using pat by (simp_all add: GRAPH_TYPE_REF_PATTERN_def Let_def body tw tl)
  ultimately have d: "list_all is_digit ?digits" "?digits \<noteq> []" "hd ?digits \<noteq> CHR ''0''"
    using digit_close_split [of ?digits k] by auto
  then have "is_digit (hd ?digits)" by (cases ?digits) auto
  with d(3) have "digit_value (hd ?digits) \<noteq> 0"
    using digit_value_zero by blast
  note num = digits_number_of_digits [OF d(2,1) this]
  have "inner = ?name @ ''@'' @ ?digits"
    using takeWhile_dropWhile_id [of ?at inner] ne hd_dropWhile [of ?at inner]
    by (metis append_Cons append_Nil list.collapse)
  then show ?thesis
    using r k num name bounds n by (simp add: type_ref_ok_def print_type_ref_def)
qed

lemma takeWhile_digits_close:
  "list_all is_digit w \<Longrightarrow> takeWhile is_digit (w @ replicate k CHR ''>'') = w
     \<and> dropWhile is_digit (w @ replicate k CHR ''>'') = replicate k CHR ''>''"
  by (induction w) (cases k; auto simp: is_digit_def)+

text \<open>What the printer prints is parsed back.\<close>

lemma parse_type_ref_complete:
  assumes ok: "type_ref_ok r"
  shows "parseGraphTypeRef (print_type_ref r) = Some r"
proof -
  let ?at = "\<lambda>c. c \<noteq> CHR ''@''" and ?k = "tr_depth r"
  let ?digits = "digits_of_number (tr_version r)"
  let ?inner = "tr_name r @ CHR ''@'' # ?digits"
  have name: "GRAPH_ID_PATTERN (tr_name r)" and v: "0 < tr_version r" "tr_version r \<le> 999"
    and k: "?k \<le> 2" and len: "length (tr_name r) \<le> 64"
    using ok by (auto simp: type_ref_ok_def maxTypeVersion_def maxListDepth_def maxIdChars_def)
  have no: "CHR ''<'' \<notin> set (tr_name r)" "CHR ''>'' \<notin> set (tr_name r)" "CHR ''@'' \<notin> set (tr_name r)"
    using id_pattern_chars [OF name] by auto
  have dig: "list_all is_digit ?digits" by (rule digits_of_number_digits)
  then have nod: "CHR ''<'' \<notin> set ?digits" "CHR ''>'' \<notin> set ?digits"
    by (auto simp: list_all_iff is_digit_def)
  have start: "\<not> starts_with ''list<'' ?inner"
    using starts_with_char [of "''list<''" ?inner] no nod by auto
  have at: "takeWhile ?at (?inner @ y) = tr_name r" "dropWhile ?at (?inner @ y) = CHR ''@'' # ?digits @ y" for y
    using no(3) by simp_all
  have "hd ?digits \<noteq> CHR ''0''" using hd_digits_of_number [OF v(1)] by (auto simp: digit_value_def)
  then have pat: "GRAPH_TYPE_REF_PATTERN (print_type_ref r)"
    using name takeWhile_digits_close [OF dig, of ?k] at [of "replicate ?k CHR ''>''"]
    by (simp add: GRAPH_TYPE_REF_PATTERN_def print_type_ref_def drop_lists_plain [OF start] list_all_iff Let_def)
  have "length ?digits \<le> 3"
    using v by (auto simp: digits_of_number.simps [of "tr_version r"]
        digits_of_number.simps [of "tr_version r div 10"] digits_of_number.simps [of "tr_version r div 10 div 10"])
  moreover have "length (wrap_lists n s) = 6 * n + length s" for n s by (induction n) auto
  ultimately have "length (print_type_ref r) \<le> maxTypeRefChars"
    using len k by (simp add: print_type_ref_def maxTypeRefChars_def)
  moreover have "strip_lists (print_type_ref r) 0 = Some (?inner, ?k)"
    using strip_lists_wrap [OF start, of ?k 0] by (simp add: print_type_ref_def)
  ultimately show ?thesis
    using pat no nod ok at [of "[]"] v
    by (simp add: parseGraphTypeRef_def Let_def type_ref_ok_def isSafeInteger_def max_safe_integer_def)
qed

section \<open>What the checks promise\<close>

text \<open>Type references parse and print exactly: a text is accepted if and only if it is the printed
  form of a kebab-case name of at most 64 characters, a major version from 1 to 999 and at most
  two list levels, and the parser answers those parts.\<close>

theorem type_ref_roundtrip:
  "parseGraphTypeRef ref = Some r \<longleftrightarrow> type_ref_ok r \<and> ref = print_type_ref r"
  using parse_type_ref_sound parse_type_ref_complete by blast

text \<open>The iterative depth measure, written without recursion so that hostile documents cannot
  overflow the stack, always ends and agrees with the structural nesting depth.\<close>

theorem json_depth_exact: "jsonDepthExceeds v maxDepth \<longleftrightarrow> maxDepth < js_depth v"
  using depth_loop_exact [of "[(v, 1)]" maxDepth] by (simp add: jsonDepthExceeds_def)

text \<open>Diagnostics are complete and bounded: checking any list of type references, the collector
  counts exactly one error per invalid one, keeps at most its maximum, omits only when full, and
  every kept error has a path and a message of at most 300 characters.\<close>

theorem type_ref_checks_report:
  assumes "col_ok c"
  shows "let c' = run_checks (map (\<lambda>(v, p). checkGraphTypeRef v p) vs) c
     in col_count c' = col_count c + length (filter (\<lambda>(v, _). \<not> valid_type_ref v) vs)
        \<and> col_ok c' \<and> (col_failed c' \<longleftrightarrow> col_failed c \<or> (\<exists>(v, _)\<in>set vs. \<not> valid_type_ref v))"
  using graph_type_ref.checks_count [of vs c] graph_type_ref.checks_ok [OF assms, of vs]
  by (auto simp: Let_def col_failed_count filter_empty_conv)

definition empty_collector :: collector where
  "empty_collector = \<lparr>col_errors = [], col_omitted = 0, col_max = DEFAULT_MAX_FIELD_ERRORS\<rparr>"

theorem type_ref_checks_report_witness:
  "col_failed (run_checks (map (\<lambda>(v, p). checkGraphTypeRef v p) [(JNull, ''type'')]) empty_collector)"
  using type_ref_checks_report [of empty_collector "[(JNull, ''type'')]"]
  by (simp add: empty_collector_def col_ok_def valid_type_ref_def DEFAULT_MAX_FIELD_ERRORS_def Let_def)

end
