(* ===== verification/Predicates.thy ===== *)
theory Predicates
  imports Field_Checks
begin

text \<open>
  Graph predicates: the structural guard and the path-root grammar
  (\<^verbatim>\<open>packages/protocol/src/graphs/predicate-shape.ts\<close>), the total three-valued evaluator and the
  list filter (\<^verbatim>\<open>predicate-eval.ts\<close>). The evaluator is proved to be Kleene logic over what the
  leaves read, monotone in what is known, and never to stop on a predicate the guard accepts.

  A read answers None for the source's MISSING. A recursion that the source bounds by a depth
  counts the levels left instead of the levels used. Values with accessors, proxies and class
  instances are \<open>JOther\<close>: no own data property of them is read.
\<close>

section \<open>Shapes\<close>

definition maxPredicateDepth :: nat where "maxPredicateDepth = 8"
definition maxPredicateNodes :: nat where "maxPredicateNodes = 64"
definition maxPredicateListValues :: nat where "maxPredicateListValues = 64"
definition maxPredicateStringBytes :: nat where "maxPredicateStringBytes = 1024"
definition maxNumberAbs :: int where "maxNumberAbs = 1000000000000"
definition maxArtifactItems :: nat where "maxArtifactItems = 10000"

datatype scalar = SNull | SBool bool | SNum rat | SStr string

datatype comparison = CmpEq | CmpNeq | CmpLt | CmpLte | CmpGt | CmpGte

fun comparison_of :: "string \<Rightarrow> comparison option" where
  "comparison_of s =
     (if s = ''eq'' then Some CmpEq else if s = ''neq'' then Some CmpNeq
      else if s = ''lt'' then Some CmpLt else if s = ''lte'' then Some CmpLte
      else if s = ''gt'' then Some CmpGt else if s = ''gte'' then Some CmpGte else None)"

definition GRAPH_PREDICATE_COMPARISONS :: "string list" where
  "GRAPH_PREDICATE_COMPARISONS = [''eq'', ''neq'', ''lt'', ''lte'', ''gt'', ''gte'']"

definition GRAPH_PREDICATE_PRESENCE_OPS :: "string list" where
  "GRAPH_PREDICATE_PRESENCE_OPS = [''exists'', ''empty'', ''nonEmpty'']"

definition GRAPH_PREDICATE_OPS :: "string list" where
  "GRAPH_PREDICATE_OPS =
     GRAPH_PREDICATE_COMPARISONS @ [''in''] @ GRAPH_PREDICATE_PRESENCE_OPS @ [''count'']"

text \<open>A prepared leaf operation, with its operand.\<close>

datatype leaf_op =
    OpExists | OpEmpty | OpNonEmpty
  | OpEq scalar | OpNeq scalar
  | OpOrder comparison rat
  | OpIn "scalar list"
  | OpCount comparison int

datatype prepared =
    PAll "prepared list"
  | PAny "prepared list"
  | PNot prepared
  | PLeaf string "string list" leaf_op

datatype eval_code = Malformed | TooDeep | TooManyNodes | Internal

record eval_error =
  ee_code :: eval_code
  ee_at :: string
  ee_message :: string

section \<open>The structural guard\<close>

definition text_of :: "js \<Rightarrow> text_value" where
  "text_of v = (case v of JUndef \<Rightarrow> TextUndef | JStr s \<Rightarrow> Text (map of_char s) | _ \<Rightarrow> NotText)"

definition checkPredicatePath :: "js \<Rightarrow> string \<Rightarrow> collector \<Rightarrow> collector" where
  "checkPredicatePath v path c =
     (case v of
        JStr s \<Rightarrow>
          (let head = takeWhile (\<lambda>x. x \<noteq> CHR ''.'') s
           in if length s \<le> maxPathChars \<and> CHR ''/'' \<in> set head \<and> isGraphPlanId (JStr head)
              then (if CHR ''.'' \<notin> set s
                    then col_add path ''pattern''
                           ''Must be a dotted field path such as review/verify.verdict'' c
                    else snd (checkGraphFieldPath
                           (JStr (''n'' @ dropWhile (\<lambda>x. x \<noteq> CHR ''.'') s)) path c))
              else snd (checkGraphFieldPath v path c))
      | _ \<Rightarrow> snd (checkGraphFieldPath v path c))"

definition checkScalar :: "js \<Rightarrow> string \<Rightarrow> collector \<Rightarrow> bool \<times> collector" where
  "checkScalar v path c =
     (case v of
        JUndef \<Rightarrow> (False, col_add path ''required'' ''Field is required'' c)
      | JNull \<Rightarrow> (True, c)
      | JBool _ \<Rightarrow> (True, c)
      | JNum _ \<Rightarrow> checkFiniteNumber v path
          \<lparr>no_maxAbs = Some maxNumberAbs, no_min = None, no_max = None, no_integer = False\<rparr> c
      | JStr _ \<Rightarrow> checkGraphText (text_of v) path
          \<lparr>to_maxBytes = maxPredicateStringBytes, to_maxChars = None, to_multiline = True,
           to_optional = False, to_allowEmpty = True\<rparr> c
      | _ \<Rightarrow> (False, col_add path ''type'' ''Expected a string, number, boolean or null'' c))"

definition field_of :: "(string \<times> js) list \<Rightarrow> string \<Rightarrow> js" where
  "field_of ps k = (case obj_get ps k of None \<Rightarrow> JUndef | Some v \<Rightarrow> v)"

text \<open>The operand checks of one leaf.\<close>

definition checkOperand :: "string \<Rightarrow> (string \<times> js) list \<Rightarrow> string \<Rightarrow> collector \<Rightarrow> collector" where
  "checkOperand op ps path c =
     (let valuePath = joinKey path ''value''; v = field_of ps ''value''
      in if op = ''count''
         then (let (present, c) = checkPresent (field_of ps ''compare'') (joinKey path ''compare'') c;
                   c = (if present then snd (checkEnum (field_of ps ''compare'') (joinKey path ''compare'')
                                               GRAPH_PREDICATE_COMPARISONS c) else c);
                   (present, c) = checkPresent v valuePath c
               in if present
                  then snd (checkFiniteNumber v valuePath
                         \<lparr>no_maxAbs = None, no_min = Some 0, no_max = Some (int maxArtifactItems),
                          no_integer = True\<rparr> c)
                  else c)
         else if op = ''in''
         then (case checkGraphList v valuePath (Some 1) (int maxPredicateListValues) False c of
                 (False, c) \<Rightarrow> c
               | (True, c) \<Rightarrow>
                   (case v of
                      JArr xs \<Rightarrow> snd (fold (\<lambda>x (i, c).
                                   (i + 1, snd (checkScalar x (joinIndex valuePath i) c))) xs (0, c))
                    | _ \<Rightarrow> c))
         else if op \<in> {''lt'', ''lte'', ''gt'', ''gte''}
         then (let (present, c) = checkPresent v valuePath c
               in if present
                  then snd (checkFiniteNumber v valuePath
                         \<lparr>no_maxAbs = Some maxNumberAbs, no_min = None, no_max = None,
                          no_integer = False\<rparr> c)
                  else c)
         else if op \<in> {''eq'', ''neq''} then snd (checkScalar v valuePath c)
         else c)"

definition leaf_fields :: "string \<Rightarrow> string list" where
  "leaf_fields op =
     (if op = ''count'' then [''path'', ''op'', ''compare'', ''value'']
      else if op \<in> set GRAPH_PREDICATE_PRESENCE_OPS then [''path'', ''op'']
      else [''path'', ''op'', ''value''])"

definition checkLeaf :: "(string \<times> js) list \<Rightarrow> string \<Rightarrow> collector \<Rightarrow> collector" where
  "checkLeaf ps path c =
     (case obj_get ps ''op'' of
        None \<Rightarrow> col_add path ''predicate'' ''Expected all, any, not, or a path with an op'' c
      | Some opv \<Rightarrow>
          (case checkEnum opv (joinKey path ''op'') GRAPH_PREDICATE_OPS c of
             (False, c) \<Rightarrow> c
           | (True, c) \<Rightarrow>
               (case opv of
                  JStr op \<Rightarrow>
                    (let c = snd (checkObject (JObj ps) path (leaf_fields op) c);
                         c = checkPredicatePath (field_of ps ''path'') (joinKey path ''path'') c
                     in checkOperand op ps path c)
                | _ \<Rightarrow> c)))"

text \<open>Visiting the children of a combinator in order, the state threaded through.\<close>

fun check_children ::
  "(js \<Rightarrow> string \<Rightarrow> collector \<times> nat \<Rightarrow> collector \<times> nat) \<Rightarrow> string \<Rightarrow> int \<Rightarrow> js list
    \<Rightarrow> collector \<times> nat \<Rightarrow> collector \<times> nat" where
  "check_children visit listPath i [] st = st"
| "check_children visit listPath i (x # xs) st =
     check_children visit listPath (i + 1) xs (visit x (joinIndex listPath i) st)"

text \<open>Which of \<open>all\<close> and \<open>any\<close> a node is, \<open>all\<close> first.\<close>

definition combinator_of :: "(string \<times> js) list \<Rightarrow> string option" where
  "combinator_of ps = (if obj_get ps ''all'' \<noteq> None then Some ''all''
                       else if obj_get ps ''any'' \<noteq> None then Some ''any'' else None)"

text \<open>The state is the collector and the nodes visited; the first argument is the levels left.\<close>

primrec checkNode :: "nat \<Rightarrow> js \<Rightarrow> string \<Rightarrow> collector \<times> nat \<Rightarrow> collector \<times> nat" where
  "checkNode 0 v path st =
     (col_add path ''too_deep''
        (''Predicates nest at most '' @ show_nat maxPredicateDepth @ '' levels deep'') (fst st), snd st)"
| "checkNode (Suc levels) v path st =
     (let c = fst st; nodes = snd st + 1;
          c = (if nodes = maxPredicateNodes + 1
               then col_add path ''too_many''
                      (''A predicate has at most '' @ show_nat maxPredicateNodes @ '' nodes'') c
               else c)
      in if nodes > maxPredicateNodes then (c, nodes)
         else
           (case v of
              JObj ps \<Rightarrow>
                (case combinator_of ps of
                      Some k \<Rightarrow>
                        (let c = snd (checkObject v path [k] c); listPath = joinKey path k
                         in case checkGraphList (field_of ps k) listPath (Some 1) (int maxPredicateNodes) False c of
                              (False, c) \<Rightarrow> (c, nodes)
                            | (True, c) \<Rightarrow>
                                (case field_of ps k of
                                   JArr xs \<Rightarrow> check_children (checkNode levels) listPath 0 xs (c, nodes)
                                 | _ \<Rightarrow> (c, nodes)))
                    | None \<Rightarrow>
                        if obj_get ps ''not'' \<noteq> None
                        then checkNode levels (field_of ps ''not'') (joinKey path ''not'')
                               (snd (checkObject v path [''not''] c), nodes)
                        else (checkLeaf ps path c, nodes))
            | _ \<Rightarrow> (col_add path ''type'' ''Expected a predicate object'' c, nodes)))"

definition checkGraphPredicate :: "js \<Rightarrow> string \<Rightarrow> collector \<Rightarrow> collector" where
  "checkGraphPredicate v path c =
     (case checkPresent v path c of
        (False, c) \<Rightarrow> c
      | (True, c) \<Rightarrow> fst (checkNode maxPredicateDepth v path (c, 0)))"

definition validateGraphPredicate :: "js \<Rightarrow> (field_error list \<times> nat) + js" where
  "validateGraphPredicate v = col_result v (checkGraphPredicate v [] empty_collector)"

definition isGraphPredicate :: "js \<Rightarrow> bool" where
  "isGraphPredicate v = (case validateGraphPredicate v of Inl _ \<Rightarrow> False | Inr _ \<Rightarrow> True)"

section \<open>Path roots\<close>

definition splitGraphPredicatePath ::
  "string list \<Rightarrow> (string \<Rightarrow> bool) \<Rightarrow> (string \<times> string list) option" where
  "splitGraphPredicatePath segments hasRoot =
     (case segments of
        [] \<Rightarrow> None
      | first # rest \<Rightarrow>
          if first \<in> {''params'', ''run''} then Some (first, rest)
          else
            (case rest of
               second # below \<Rightarrow>
                 if hasRoot (first @ ''.'' @ second) then Some (first @ ''.'' @ second, below)
                 else if hasRoot first then Some (first, rest) else None
             | [] \<Rightarrow> if hasRoot first then Some (first, rest) else None))"

section \<open>Preparing\<close>

text \<open>Messages write the source's en dash as a hyphen.\<close>

definition ee :: "eval_code \<Rightarrow> string \<Rightarrow> string \<Rightarrow> eval_error" where
  "ee code path message = \<lparr>ee_code = code, ee_at = (if path = [] then ''$'' else path), ee_message = message\<rparr>"

text \<open>Own enumerable data keys of a plain object with at most \<open>maxKeys\<close> of them.\<close>

definition plainEntries :: "js \<Rightarrow> nat \<Rightarrow> (string \<times> js) list option" where
  "plainEntries v maxKeys =
     (case v of JObj ps \<Rightarrow> if length ps > maxKeys then None else Some ps | _ \<Rightarrow> None)"

definition boundedArray :: "js \<Rightarrow> nat \<Rightarrow> js list option" where
  "boundedArray v mx = (case v of JArr xs \<Rightarrow> if length xs > mx then None else Some xs | _ \<Rightarrow> None)"

fun scalar_of :: "js \<Rightarrow> scalar option" where
  "scalar_of JNull = Some SNull"
| "scalar_of (JBool b) = Some (SBool b)"
| "scalar_of (JNum (Fin q)) = (if \<bar>q\<bar> \<le> of_int maxNumberAbs then Some (SNum q) else None)"
| "scalar_of (JStr s) =
     (if length s \<le> maxPredicateStringBytes \<and> utf8_bytes (map of_char s) \<le> maxPredicateStringBytes
      then Some (SStr s) else None)"
| "scalar_of _ = None"

definition isGraphLeafPath :: "js \<Rightarrow> bool" where
  "isGraphLeafPath v =
     (if isGraphFieldPath v then True
      else
        (case v of
           JStr s \<Rightarrow>
             (let head = takeWhile (\<lambda>x. x \<noteq> CHR ''.'') s
              in CHR ''/'' \<in> set head \<and> length head \<le> GRAPH_PLAN_ID_MAX_CHARS
                 \<and> GRAPH_PLAN_ID_PATTERN head
                 \<and> (CHR ''.'' \<notin> set s
                    \<or> isGraphFieldPath (JStr (tl (dropWhile (\<lambda>x. x \<noteq> CHR ''.'') s)))))
         | _ \<Rightarrow> False))"

text \<open>\<open>entries.size === keys.length && keys.every(has)\<close>.\<close>

definition only_keys :: "(string \<times> js) list \<Rightarrow> string list \<Rightarrow> bool" where
  "only_keys ps keys \<longleftrightarrow> length ps = length keys \<and> (\<forall>k\<in>set keys. obj_get ps k \<noteq> None)"

definition prepareLeaf :: "(string \<times> js) list \<Rightarrow> string \<Rightarrow> eval_error + prepared" where
  "prepareLeaf ps path =
     (let opv = field_of ps ''op'' in
      case opv of
        JStr op \<Rightarrow>
          (if op \<notin> set GRAPH_PREDICATE_OPS then Inl (ee Malformed (joinKey path ''op'') ''Unknown operator'')
           else
             (case field_of ps ''path'' of
                JStr leafPath \<Rightarrow>
                  (if \<not> isGraphLeafPath (JStr leafPath)
                   then Inl (ee Malformed (joinKey path ''path'') ''Expected a field path'')
                   else
                     (let valuePath = joinKey path ''value''; operand = field_of ps ''value'';
                          leaf = (\<lambda>l. Inr (PLeaf leafPath (split_on CHR ''.'' leafPath) l))
                      in if op \<in> set GRAPH_PREDICATE_PRESENCE_OPS
                         then (if \<not> only_keys ps [''path'', ''op'']
                               then Inl (ee Malformed path (op @ '' takes only path and op''))
                               else leaf (if op = ''exists'' then OpExists
                                          else if op = ''empty'' then OpEmpty else OpNonEmpty))
                         else if op \<in> {''eq'', ''neq''}
                         then (if \<not> only_keys ps [''path'', ''op'', ''value'']
                               then Inl (ee Malformed path (op @ '' takes path, op and value''))
                               else (case scalar_of operand of
                                       None \<Rightarrow> Inl (ee Malformed valuePath ''Expected a bounded scalar'')
                                     | Some x \<Rightarrow> leaf (if op = ''eq'' then OpEq x else OpNeq x)))
                         else if op \<in> {''lt'', ''lte'', ''gt'', ''gte''}
                         then (if \<not> only_keys ps [''path'', ''op'', ''value'']
                               then Inl (ee Malformed path (op @ '' takes path, op and value''))
                               else (case scalar_of operand of
                                       Some (SNum q) \<Rightarrow> leaf (OpOrder (the (comparison_of op)) q)
                                     | _ \<Rightarrow> Inl (ee Malformed valuePath ''Expected a finite number'')))
                         else if op = ''in''
                         then (if \<not> only_keys ps [''path'', ''op'', ''value'']
                               then Inl (ee Malformed path ''in takes path, op and value'')
                               else (case boundedArray operand maxPredicateListValues of
                                       None \<Rightarrow> Inl (ee Malformed valuePath ''Expected 1-64 bounded scalars'')
                                     | Some xs \<Rightarrow>
                                         if xs = [] \<or> list_ex (\<lambda>x. scalar_of x = None) xs
                                         then Inl (ee Malformed valuePath ''Expected 1-64 bounded scalars'')
                                         else leaf (OpIn (map (the \<circ> scalar_of) xs))))
                         else
                           (if \<not> only_keys ps [''path'', ''op'', ''compare'', ''value'']
                            then Inl (ee Malformed path ''count takes path, op, compare and value'')
                            else
                              (case field_of ps ''compare'' of
                                 JStr cmp \<Rightarrow>
                                   (case comparison_of cmp of
                                      None \<Rightarrow> Inl (ee Malformed (joinKey path ''compare'') ''Unknown comparison'')
                                    | Some k \<Rightarrow>
                                        (case operand of
                                           JNum (Fin q) \<Rightarrow>
                                             if safe_integer_number q \<and> 0 \<le> q \<and> q \<le> of_nat maxArtifactItems
                                             then leaf (OpCount k \<lfloor>q\<rfloor>)
                                             else Inl (ee Malformed valuePath
                                                    ''Expected an integer from 0 to 10000'')
                                         | _ \<Rightarrow> Inl (ee Malformed valuePath
                                                    ''Expected an integer from 0 to 10000'')))
                               | _ \<Rightarrow> Inl (ee Malformed (joinKey path ''compare'') ''Unknown comparison'')))))
              | _ \<Rightarrow> Inl (ee Malformed (joinKey path ''path'') ''Expected a field path'')))
      | _ \<Rightarrow> Inl (ee Malformed (joinKey path ''op'') ''Unknown operator''))"

text \<open>The children in order; the budget counts the nodes visited so far.\<close>

fun prepare_children ::
  "(js \<Rightarrow> string \<Rightarrow> nat \<Rightarrow> eval_error + (prepared \<times> nat)) \<Rightarrow> string \<Rightarrow> int \<Rightarrow> js list \<Rightarrow> nat
    \<Rightarrow> eval_error + (prepared list \<times> nat)" where
  "prepare_children prep listPath i [] nodes = Inr ([], nodes)"
| "prepare_children prep listPath i (x # xs) nodes =
     (case prep x (joinIndex listPath i) nodes of
        Inl e \<Rightarrow> Inl e
      | Inr (p, nodes) \<Rightarrow>
          (case prepare_children prep listPath (i + 1) xs nodes of
             Inl e \<Rightarrow> Inl e
           | Inr (ps, nodes) \<Rightarrow> Inr (p # ps, nodes)))"

primrec prepareNode :: "nat \<Rightarrow> js \<Rightarrow> string \<Rightarrow> nat \<Rightarrow> eval_error + (prepared \<times> nat)" where
  "prepareNode 0 v path nodes =
     Inl (ee TooDeep path (''Predicates nest at most '' @ show_nat maxPredicateDepth @ '' levels deep''))"
| "prepareNode (Suc levels) v path nodes =
     (let nodes = nodes + 1
      in if nodes > maxPredicateNodes
         then Inl (ee TooManyNodes path (''A predicate has at most '' @ show_nat maxPredicateNodes @ '' nodes''))
         else
           (case plainEntries v 4 of
              None \<Rightarrow> Inl (ee Malformed path ''Expected a predicate object'')
            | Some ps \<Rightarrow>
                (case combinator_of ps of
                      Some k \<Rightarrow>
                        (if \<not> only_keys ps [k]
                         then Inl (ee Malformed path (k @ '' stands alone in its object''))
                         else
                           (let listPath = joinKey path k
                            in case boundedArray (field_of ps k) maxPredicateNodes of
                                 None \<Rightarrow> Inl (ee Malformed listPath ''Expected 1-64 predicates'')
                               | Some xs \<Rightarrow>
                                   if xs = [] then Inl (ee Malformed listPath ''Expected 1-64 predicates'')
                                   else
                                     (case prepare_children (prepareNode levels) listPath 0 xs nodes of
                                        Inl e \<Rightarrow> Inl e
                                      | Inr (children, nodes) \<Rightarrow>
                                          Inr (if k = ''all'' then PAll children else PAny children, nodes))))
                    | None \<Rightarrow>
                        if obj_get ps ''not'' \<noteq> None
                        then (if \<not> only_keys ps [''not'']
                              then Inl (ee Malformed path ''not stands alone in its object'')
                              else
                                (case prepareNode levels (field_of ps ''not'') (joinKey path ''not'') nodes of
                                   Inl e \<Rightarrow> Inl e
                                 | Inr (child, nodes) \<Rightarrow> Inr (PNot child, nodes)))
                        else
                          (case prepareLeaf ps path of Inl e \<Rightarrow> Inl e | Inr leaf \<Rightarrow> Inr (leaf, nodes)))))"

definition prepare_predicate :: "js \<Rightarrow> eval_error + prepared" where
  "prepare_predicate v =
     (case prepareNode maxPredicateDepth v [] 0 of Inl e \<Rightarrow> Inl e | Inr (p, _) \<Rightarrow> Inr p)"

section \<open>Evaluating\<close>

text \<open>An own data property of a plain object.\<close>

definition ownData :: "js \<Rightarrow> string \<Rightarrow> js option" where
  "ownData v k = (case v of JObj ps \<Rightarrow> obj_get ps k | _ \<Rightarrow> None)"

fun walk :: "js option \<Rightarrow> string list \<Rightarrow> js option" where
  "walk current [] = current"
| "walk current (segment # segments) =
     (case current of None \<Rightarrow> walk None segments | Some v \<Rightarrow> walk (ownData v segment) segments)"

text \<open>The scalar a read value is: null, a string, a boolean or a finite number.\<close>

fun read_scalar :: "js option \<Rightarrow> scalar option" where
  "read_scalar (Some JNull) = Some SNull"
| "read_scalar (Some (JStr s)) = Some (SStr s)"
| "read_scalar (Some (JBool b)) = Some (SBool b)"
| "read_scalar (Some (JNum (Fin q))) = Some (SNum q)"
| "read_scalar _ = None"

fun comparable :: "scalar \<Rightarrow> scalar \<Rightarrow> bool" where
  "comparable SNull _ = True"
| "comparable _ SNull = True"
| "comparable (SBool _) (SBool _) = True"
| "comparable (SNum _) (SNum _) = True"
| "comparable (SStr _) (SStr _) = True"
| "comparable _ _ = False"

fun compare_numbers :: "rat \<Rightarrow> comparison \<Rightarrow> rat \<Rightarrow> bool" where
  "compare_numbers l CmpEq r \<longleftrightarrow> l = r"
| "compare_numbers l CmpNeq r \<longleftrightarrow> l \<noteq> r"
| "compare_numbers l CmpLt r \<longleftrightarrow> l < r"
| "compare_numbers l CmpLte r \<longleftrightarrow> l \<le> r"
| "compare_numbers l CmpGt r \<longleftrightarrow> l > r"
| "compare_numbers l CmpGte r \<longleftrightarrow> l \<ge> r"

fun length_of :: "js option \<Rightarrow> nat option" where
  "length_of (Some (JStr s)) = Some (length s)"
| "length_of (Some (JArr xs)) = Some (length xs)"
| "length_of _ = None"

fun value_exists :: "js option \<Rightarrow> bool" where
  "value_exists (Some (JStr _)) = True"
| "value_exists (Some (JBool _)) = True"
| "value_exists (Some (JNum (Fin _))) = True"
| "value_exists (Some (JArr _)) = True"
| "value_exists (Some (JObj _)) = True"
| "value_exists _ = False"

text \<open>A truth value is None for unknown.\<close>

fun evaluateLeaf :: "leaf_op \<Rightarrow> js option \<Rightarrow> bool option" where
  "evaluateLeaf OpExists actual = Some (value_exists actual)"
| "evaluateLeaf OpEmpty actual = map_option (\<lambda>n. n = 0) (length_of actual)"
| "evaluateLeaf OpNonEmpty actual = map_option (\<lambda>n. n > 0) (length_of actual)"
| "evaluateLeaf (OpCount cmp k) actual =
     (case actual of
        Some (JArr xs) \<Rightarrow> Some (compare_numbers (of_nat (length xs)) cmp (of_int k))
      | _ \<Rightarrow> None)"
| "evaluateLeaf (OpOrder cmp k) actual =
     (case actual of Some (JNum (Fin q)) \<Rightarrow> Some (compare_numbers q cmp k) | _ \<Rightarrow> None)"
| "evaluateLeaf (OpEq literal) actual =
     (case read_scalar actual of
        None \<Rightarrow> None | Some x \<Rightarrow> if comparable x literal then Some (x = literal) else None)"
| "evaluateLeaf (OpNeq literal) actual =
     (case read_scalar actual of
        None \<Rightarrow> None | Some x \<Rightarrow> if comparable x literal then Some (x \<noteq> literal) else None)"
| "evaluateLeaf (OpIn literals) actual =
     (case read_scalar actual of
        None \<Rightarrow> None
      | Some x \<Rightarrow>
          (let candidates = filter (comparable x) literals
           in if candidates = [] then None else Some (x \<in> set candidates)))"

definition GRAPH_PREDICATE_MAX_UNKNOWN_PATHS :: nat where "GRAPH_PREDICATE_MAX_UNKNOWN_PATHS = 8"

definition note_unknown :: "string \<Rightarrow> string list \<Rightarrow> string list" where
  "note_unknown path ups =
     (if length ups < GRAPH_PREDICATE_MAX_UNKNOWN_PATHS \<and> path \<notin> set ups then ups @ [path] else ups)"

text \<open>
  The unknown paths are threaded through; the combinators stop at the first child that decides,
  with \<open>unknown\<close> telling whether an earlier child was unknown.
\<close>

fun evaluateNode :: "(string list \<Rightarrow> js option) \<Rightarrow> prepared \<Rightarrow> string list \<Rightarrow> bool option \<times> string list"
  and evaluate_children ::
    "bool \<Rightarrow> (string list \<Rightarrow> js option) \<Rightarrow> prepared list \<Rightarrow> bool \<Rightarrow> string list \<Rightarrow> bool option \<times> string list"
where
  "evaluateNode resolve (PNot child) ups =
     (let (truth, ups) = evaluateNode resolve child ups in (map_option Not truth, ups))"
| "evaluateNode resolve (PAll children) ups = evaluate_children False resolve children False ups"
| "evaluateNode resolve (PAny children) ups = evaluate_children True resolve children False ups"
| "evaluateNode resolve (PLeaf path segments l) ups =
     (let truth = evaluateLeaf l (resolve segments)
      in (truth, if truth = None then note_unknown path ups else ups))"
| "evaluate_children decisive resolve [] unknown ups =
     (if unknown then None else Some (\<not> decisive), ups)"
| "evaluate_children decisive resolve (child # children) unknown ups =
     (let (truth, ups) = evaluateNode resolve child ups
      in if truth = Some decisive then (Some decisive, ups)
         else evaluate_children decisive resolve children (unknown \<or> truth = None) ups)"

record evaluation =
  ev_value :: bool
  ev_truth :: "bool option"
  ev_unknownPaths :: "string list"
  ev_error :: "eval_error option"

definition settle_predicate ::
  "eval_error + prepared \<Rightarrow> (string list \<Rightarrow> js option) \<Rightarrow> evaluation" where
  "settle_predicate prep resolve =
     (case prep of
        Inl e \<Rightarrow> \<lparr>ev_value = False, ev_truth = None, ev_unknownPaths = [], ev_error = Some e\<rparr>
      | Inr p \<Rightarrow>
          (let (truth, ups) = evaluateNode resolve p []
           in \<lparr>ev_value = (truth = Some True), ev_truth = truth, ev_unknownPaths = ups, ev_error = None\<rparr>))"

record pred_environment =
  env_values :: "(string \<times> js) list option"
  env_params :: "js option"
  env_run :: "js option"

definition rootValue :: "pred_environment \<Rightarrow> string \<Rightarrow> js option" where
  "rootValue env name =
     (if name = ''params'' then env_params env
      else if name = ''run'' then env_run env
      else (case env_values env of None \<Rightarrow> None | Some roots \<Rightarrow> obj_get roots name))"

definition environmentResolver :: "pred_environment \<Rightarrow> string list \<Rightarrow> js option" where
  "environmentResolver env segments =
     (case splitGraphPredicatePath segments (\<lambda>name. rootValue env name \<noteq> None) of
        None \<Rightarrow> None
      | Some (root_name, below) \<Rightarrow> walk (rootValue env root_name) below)"

definition evaluateGraphPredicate :: "js \<Rightarrow> pred_environment \<Rightarrow> evaluation" where
  "evaluateGraphPredicate predicate env = settle_predicate (prepare_predicate predicate) (environmentResolver env)"

definition evaluateGraphElementPredicate :: "js \<Rightarrow> js \<Rightarrow> evaluation" where
  "evaluateGraphElementPredicate predicate element =
     settle_predicate (prepare_predicate predicate) (walk (Some element))"

datatype filter_failure = FilterEval eval_error | NotAList | TooManyItems nat

record filter_result =
  fr_items :: "js list"
  fr_dropped :: nat
  fr_unknown :: nat

definition filter_step :: "prepared \<Rightarrow> js \<Rightarrow> filter_result \<Rightarrow> filter_result" where
  "filter_step p element r =
     (case fst (evaluateNode (walk (Some element)) p []) of
        Some True \<Rightarrow> r\<lparr>fr_items := fr_items r @ [element]\<rparr>
      | Some False \<Rightarrow> r\<lparr>fr_dropped := fr_dropped r + 1\<rparr>
      | None \<Rightarrow> r\<lparr>fr_unknown := fr_unknown r + 1\<rparr>)"

definition filterGraphPredicateList ::
  "js \<Rightarrow> js \<Rightarrow> nat option \<Rightarrow> filter_failure + filter_result" where
  "filterGraphPredicateList lst where_pred maxItems =
     (let mx = min (case maxItems of None \<Rightarrow> maxArtifactItems | Some n \<Rightarrow> n) maxArtifactItems
      in case lst of
           JArr _ \<Rightarrow>
             (case boundedArray lst mx of
                None \<Rightarrow> Inl (TooManyItems mx)
              | Some elements \<Rightarrow>
                  (case prepare_predicate where_pred of
                     Inl e \<Rightarrow> Inl (FilterEval e)
                   | Inr p \<Rightarrow>
                       Inr (fold (filter_step p) elements
                              \<lparr>fr_items = [], fr_dropped = 0, fr_unknown = 0\<rparr>)))
         | _ \<Rightarrow> Inl NotAList)"

section \<open>The evaluator is Kleene logic\<close>

fun kleene :: "(string list \<Rightarrow> js option) \<Rightarrow> prepared \<Rightarrow> bool option" where
  "kleene resolve (PNot p) = map_option Not (kleene resolve p)"
| "kleene resolve (PAll ps) =
     (if Some False \<in> kleene resolve ` set ps then Some False
      else if None \<in> kleene resolve ` set ps then None else Some True)"
| "kleene resolve (PAny ps) =
     (if Some True \<in> kleene resolve ` set ps then Some True
      else if None \<in> kleene resolve ` set ps then None else Some False)"
| "kleene resolve (PLeaf _ segments l) = evaluateLeaf l (resolve segments)"

lemma evaluate_truth:
  "fst (evaluateNode resolve p ups) = kleene resolve p"
  "fst (evaluate_children decisive resolve ps unknown ups) =
     (if Some decisive \<in> kleene resolve ` set ps then Some decisive
      else if unknown \<or> None \<in> kleene resolve ` set ps then None else Some (\<not> decisive))"
proof (induction resolve p ups and decisive resolve ps unknown ups
    rule: evaluateNode_evaluate_children.induct)
  case (6 decisive resolve child children unknown ups)
  then show ?case
    by (cases "evaluateNode resolve child ups")
      (cases "kleene resolve child"; auto simp: Let_def split: if_splits)
qed (auto simp: Let_def case_prod_beta)

text \<open>What the unknown paths tell: few, distinct, added only, and never empty for an unknown result.\<close>

definition paths_ok :: "string list \<Rightarrow> bool" where
  "paths_ok ups \<longleftrightarrow> distinct ups \<and> length ups \<le> GRAPH_PREDICATE_MAX_UNKNOWN_PATHS"

lemma note_unknown_ok: "paths_ok ups \<Longrightarrow> paths_ok (note_unknown p ups)"
  by (auto simp: paths_ok_def note_unknown_def)

lemma note_unknown_nonempty: "note_unknown p ups \<noteq> []"
  by (auto simp: note_unknown_def GRAPH_PREDICATE_MAX_UNKNOWN_PATHS_def)

lemma evaluate_paths:
  "paths_ok ups \<Longrightarrow> paths_ok (snd (evaluateNode resolve p ups))
     \<and> (ups \<noteq> [] \<or> kleene resolve p = None \<longrightarrow> snd (evaluateNode resolve p ups) \<noteq> [])"
  "paths_ok ups \<Longrightarrow> paths_ok (snd (evaluate_children decisive resolve ps unknown ups))
     \<and> (ups \<noteq> [] \<or> (Some decisive \<notin> kleene resolve ` set ps \<and> None \<in> kleene resolve ` set ps)
          \<longrightarrow> snd (evaluate_children decisive resolve ps unknown ups) \<noteq> [])"
proof (induction resolve p ups and decisive resolve ps unknown ups
    rule: evaluateNode_evaluate_children.induct)
  case (4 resolve path segments l ups)
  then show ?case by (auto simp: Let_def note_unknown_ok note_unknown_nonempty)
next
  case (6 decisive resolve child children unknown ups)
  obtain t u where e: "evaluateNode resolve child ups = (t, u)" by (cases "evaluateNode resolve child ups")
  then have t: "t = kleene resolve child" using evaluate_truth(1) [of resolve child ups] by simp
  have u: "paths_ok u \<and> (ups \<noteq> [] \<or> kleene resolve child = None \<longrightarrow> u \<noteq> [])"
    using 6(1) [OF 6(3)] e by simp
  show ?case
  proof (cases "t = Some decisive")
    case True
    with e t u show ?thesis by (force simp: Let_def)
  next
    case False
    have IH: "paths_ok (snd (evaluate_children decisive resolve children (unknown \<or> t = None) u))
        \<and> (u \<noteq> [] \<or> (Some decisive \<notin> kleene resolve ` set children \<and> None \<in> kleene resolve ` set children)
          \<longrightarrow> snd (evaluate_children decisive resolve children (unknown \<or> t = None) u) \<noteq> [])"
      using 6(2) [of "(t, u)" t u] e u False by simp
    then show ?thesis using e t u False by (auto simp: Let_def)
  qed
qed (auto simp: Let_def case_prod_beta split: if_splits)

text \<open>More known values: every path that resolved keeps its value.\<close>

definition knows_more :: "(string list \<Rightarrow> js option) \<Rightarrow> (string list \<Rightarrow> js option) \<Rightarrow> bool" where
  "knows_more r r' \<longleftrightarrow> (\<forall>segs. r segs \<noteq> None \<longrightarrow> r' segs = r segs)"

fun exists_free :: "prepared \<Rightarrow> bool" where
  "exists_free (PNot p) = exists_free p"
| "exists_free (PAll ps) = list_all exists_free ps"
| "exists_free (PAny ps) = list_all exists_free ps"
| "exists_free (PLeaf _ _ l) = (l \<noteq> OpExists)"

lemma evaluateLeaf_missing: "l \<noteq> OpExists \<Longrightarrow> evaluateLeaf l None = None"
  by (cases l) auto

lemma evaluateLeaf_more:
  assumes "knows_more r r'" and "l \<noteq> OpExists" and "evaluateLeaf l (r segments) = Some b"
  shows "evaluateLeaf l (r' segments) = Some b"
proof -
  have "r segments \<noteq> None" using assms(2,3) evaluateLeaf_missing [of l] by (cases "r segments") auto
  with assms(1) have "r' segments = r segments" unfolding knows_more_def by (elim allE impE)
  with assms(3) show ?thesis by simp
qed

lemma mem_image: "x \<in> f ` S \<longleftrightarrow> (\<exists>q\<in>S. f q = x)"
  by auto

lemma verdicts_known:
  "(\<forall>q\<in>S. f q = Some d) \<longleftrightarrow> (\<forall>q\<in>S. f q \<noteq> Some (\<not> d)) \<and> (\<forall>q\<in>S. f q \<noteq> None)"
proof -
  have "f q = Some d \<longleftrightarrow> f q \<noteq> Some (\<not> d) \<and> f q \<noteq> None" for q by (cases "f q") auto
  then show ?thesis by simp blast
qed

lemma kleene_all_some:
  "kleene r (PAll ps) = Some b \<longleftrightarrow>
     (if b then (\<forall>q\<in>set ps. kleene r q = Some True) else (\<exists>q\<in>set ps. kleene r q = Some False))"
  using verdicts_known [of "set ps" "kleene r" True]
  by (simp add: mem_image)

lemma kleene_any_some:
  "kleene r (PAny ps) = Some b \<longleftrightarrow>
     (if b then (\<exists>q\<in>set ps. kleene r q = Some True) else (\<forall>q\<in>set ps. kleene r q = Some False))"
  using verdicts_known [of "set ps" "kleene r" False]
  by (simp add: mem_image)

lemma kleene_mono:
  assumes "knows_more r r'"
  shows "exists_free p \<Longrightarrow> kleene r p = Some b \<Longrightarrow> kleene r' p = Some b"
proof (induction p arbitrary: b)
  case (PLeaf path segments l)
  then show ?case using evaluateLeaf_more [OF assms] by simp
next
  case (PAll ps)
  then show ?case by (auto simp: kleene_all_some list_all_iff simp del: kleene.simps split: if_splits)
next
  case (PAny ps)
  then show ?case by (auto simp: kleene_any_some list_all_iff simp del: kleene.simps split: if_splits)
qed auto

section \<open>The guard and the evaluator agree\<close>

text \<open>A check that adds nothing accepts; these are the checks' outcomes seen through the count.\<close>

definition verdict :: "(collector \<Rightarrow> bool \<times> collector) \<Rightarrow> bool \<Rightarrow> bool" where
  "verdict f b \<longleftrightarrow> (\<forall>c. (b \<longrightarrow> f c = (True, c)) \<and> (\<not> b \<longrightarrow> (\<exists>p k m. f c = (False, col_add p k m c))))"

lemma added [simp]: "\<exists>pa k m. col_add p a b c = col_add pa k m c"
  by blast

lemma verdict_cases:
  assumes "verdict f b"
  shows "fst (f c) = b" and "col_count (snd (f c)) = col_count c + (if b then 0 else 1)"
    and "b \<Longrightarrow> snd (f c) = c"
proof -
  consider "b" "f c = (True, c)" | "\<not> b" "\<exists>p k m. f c = (False, col_add p k m c)"
    using assms unfolding verdict_def by blast
  then show "fst (f c) = b" "col_count (snd (f c)) = col_count c + (if b then 0 else 1)"
    "b \<Longrightarrow> snd (f c) = c"
    by (cases; auto)+
qed

lemma verdict_check: "field_check check valid \<Longrightarrow> verdict (check v p) (valid v)"
  unfolding verdict_def field_check_def by blast

lemma path_verdict: "verdict (checkGraphFieldPath v p) (isGraphFieldPath v)"
  by (rule verdict_check) (rule graph_path.field_check_axioms)

lemma enum_verdict: "verdict (checkEnum v p allowed) (\<exists>s\<in>set allowed. v = JStr s)"
  by (cases v) (auto simp: verdict_def checkEnum_def)

lemma present_verdict: "verdict (checkPresent v p) (v \<noteq> JUndef)"
  by (auto simp: verdict_def checkPresent_def)

definition number_ok :: "number_options \<Rightarrow> js \<Rightarrow> bool" where
  "number_ok opts v = (case v of
     JNum (Fin q) \<Rightarrow> (no_integer opts \<longrightarrow> safe_integer_number q)
       \<and> (\<forall>m. no_maxAbs opts = Some m \<longrightarrow> \<bar>q\<bar> \<le> of_int m)
       \<and> (\<forall>m. no_min opts = Some m \<longrightarrow> of_int m \<le> q) \<and> (\<forall>m. no_max opts = Some m \<longrightarrow> q \<le> of_int m)
   | _ \<Rightarrow> False)"

lemma number_verdict: "verdict (\<lambda>c. checkFiniteNumber v p opts c) (number_ok opts v)"
  by (cases v rule: js.exhaust)
    (auto simp: verdict_def checkFiniteNumber_def number_ok_def not_le not_less
      split: option.splits jsnum.splits)

definition list_ok :: "int option \<Rightarrow> int \<Rightarrow> js \<Rightarrow> bool" where
  "list_ok mn mx v = (case v of
     JArr xs \<Rightarrow> (case mn of None \<Rightarrow> 0 | Some m \<Rightarrow> m) \<le> int (length xs) \<and> int (length xs) \<le> mx
   | _ \<Rightarrow> False)"

lemma list_verdict: "verdict (\<lambda>c. checkGraphList v p mn mx False c) (list_ok mn mx v)"
  by (cases v) (auto simp: verdict_def checkGraphList_def checkArray_def list_ok_def not_le)

definition text_ok :: "text_value \<Rightarrow> text_options \<Rightarrow> bool" where
  "text_ok v opts = (case v of
     TextUndef \<Rightarrow> to_optional opts
   | NotText \<Rightarrow> False
   | Text t \<Rightarrow> (to_allowEmpty opts \<or> trim16 t \<noteq> []) \<and> utf8_bytes t \<le> to_maxBytes opts
       \<and> (\<forall>m. to_maxChars opts = Some m \<longrightarrow> code_points t \<le> m)
       \<and> \<not> (if to_multiline opts then MULTI_LINE_FORBIDDEN t else SINGLE_LINE_FORBIDDEN t)
       \<and> (to_multiline opts \<or> trim16 t = t))"

lemma verdict_accept: "verdict (\<lambda>c. (True, c)) True"
  by (simp add: verdict_def)

lemma verdict_guard:
  assumes "verdict f b"
  shows "verdict (\<lambda>c. if bad then (False, col_add p k m c) else f c) (\<not> bad \<and> b)"
  using assms by (cases bad) (simp_all add: verdict_def)

lemma text_verdict: "verdict (\<lambda>c. checkGraphText v p opts c) (text_ok v opts)"
proof (cases v)
  case (Text t)
  have ok: "text_ok v opts \<longleftrightarrow> \<not> (\<not> to_allowEmpty opts \<and> trim16 t = []) \<and> \<not> \<not> fitsBytes t (to_maxBytes opts)
      \<and> \<not> (case to_maxChars opts of None \<Rightarrow> False | Some m \<Rightarrow> code_points t > m)
      \<and> \<not> (if to_multiline opts then MULTI_LINE_FORBIDDEN t else SINGLE_LINE_FORBIDDEN t)
      \<and> \<not> (\<not> to_multiline opts \<and> trim16 t \<noteq> t) \<and> True"
    unfolding text_ok_def Text fitsBytes_exact text_value.case by (cases "to_maxChars opts") (simp_all add: not_less)
  show ?thesis
    unfolding ok unfolding checkGraphText_def Text text_value.case
    by (intro verdict_guard verdict_accept)
qed (simp_all add: verdict_def checkGraphText_def text_ok_def)

definition scalar_ok :: "js \<Rightarrow> bool" where
  "scalar_ok v = (case v of
     JNull \<Rightarrow> True | JBool _ \<Rightarrow> True
   | JNum _ \<Rightarrow> number_ok \<lparr>no_maxAbs = Some maxNumberAbs, no_min = None, no_max = None, no_integer = False\<rparr> v
   | JStr _ \<Rightarrow> text_ok (text_of v) \<lparr>to_maxBytes = maxPredicateStringBytes, to_maxChars = None,
       to_multiline = True, to_optional = False, to_allowEmpty = True\<rparr>
   | _ \<Rightarrow> False)"

lemma scalar_verdict: "verdict (\<lambda>c. checkScalar v p c) (scalar_ok v)"
  using number_verdict [of v p] text_verdict [of "text_of v" p]
  by (cases v) (auto simp: verdict_def checkScalar_def scalar_ok_def)

lemma unit_bytes_pos: "0 < unit_bytes u"
  by (simp add: unit_bytes_def)

lemma utf8_bytes_latin: "list_all (\<lambda>u. u < 256) t \<Longrightarrow> length t \<le> utf8_bytes t"
  by (induction t rule: utf8_bytes.induct)
    (auto simp: is_high_surrogate_def unit_bytes_def)

lemma scalar_ok_scalar: "scalar_ok v \<Longrightarrow> scalar_of v \<noteq> None"
proof (cases v)
  case (JStr s)
  have "length (map of_char s :: nat list) \<le> utf8_bytes (map of_char s)"
    by (rule utf8_bytes_latin) (simp add: list_all_iff)
  then show "scalar_ok v \<Longrightarrow> ?thesis" by (auto simp: JStr scalar_ok_def text_ok_def text_of_def)
next
  case (JNum n)
  then show "scalar_ok v \<Longrightarrow> ?thesis" by (cases n) (auto simp: scalar_ok_def number_ok_def)
qed (auto simp: scalar_ok_def)

text \<open>\<open>checkObject\<close> counts the unknown fields.\<close>

lemma object_fold_count:
  "col_count (fold (\<lambda>k c. if k \<in> set allowed then c else col_add (joinKey path k) code m c) ks c)
     = col_count c + length (filter (\<lambda>k. k \<notin> set allowed) ks)"
  by (induction ks arbitrary: c) auto

lemma object_count:
  "col_count (snd (checkObject (JObj ps) path allowed c))
     = col_count c + length (filter (\<lambda>k. k \<notin> set allowed) (map fst ps))"
  by (simp add: checkObject_def object_fold_count)

lemma object_clean:
  assumes "col_count (snd (checkObject (JObj ps) path allowed c)) = col_count c"
  shows "fst ` set ps \<subseteq> set allowed" and "snd (checkObject (JObj ps) path allowed c) = c"
proof -
  show sub: "fst ` set ps \<subseteq> set allowed"
    using assms by (auto simp: object_count filter_empty_conv)
  have "fold (\<lambda>k c. if k \<in> set allowed then c else col_add (joinKey path k) m n c) ks d = d"
    if "set ks \<subseteq> set allowed" for ks d m n
    using that by (induction ks) auto
  from this [of "map fst ps"] sub show "snd (checkObject (JObj ps) path allowed c) = c"
    by (simp add: checkObject_def)
qed

lemma only_keysI:
  assumes "distinct (map fst ps)" and "fst ` set ps \<subseteq> set keys" and "distinct keys"
    and "\<forall>k\<in>set keys. obj_get ps k \<noteq> None"
  shows "only_keys ps keys"
proof -
  have "fst ` set ps = set keys" using assms(2,4) by (auto simp: obj_get_None_iff)
  then have "length (map fst ps) = length keys"
    using distinct_card [OF assms(1)] distinct_card [OF assms(3)] by simp
  then show ?thesis using assms(4) by (simp add: only_keys_def)
qed

lemma field_of_present: "field_of ps k \<noteq> JUndef \<Longrightarrow> obj_get ps k \<noteq> None"
  by (cases "obj_get ps k") (simp_all add: field_of_def)

text \<open>Whatever a check adds, it keeps: the number of errors never falls.\<close>

lemma verdict_le: "verdict f b \<Longrightarrow> col_count c \<le> col_count (snd (f c))"
  using verdict_cases(2) [of f b c] by simp

lemma verdict_eq: "verdict f b \<Longrightarrow> col_count (snd (f c)) = col_count c \<Longrightarrow> b \<and> f c = (True, c)"
  using verdict_cases [of f b c] by (cases b; cases "f c") auto

lemma object_le: "col_count c \<le> col_count (snd (checkObject (JObj ps) path allowed c))"
  by (simp add: object_count)

lemma leaf_tail:
  assumes "isGraphFieldPath (JStr (CHR ''n'' # CHR ''.'' # below))"
  shows "isGraphFieldPath (JStr below)"
  using assms by (auto simp: isGraphFieldPath_def Let_def)

lemma path_count:
  "col_count c \<le> col_count (checkPredicatePath v p c)
     \<and> (col_count (checkPredicatePath v p c) = col_count c \<longrightarrow> (\<exists>s. v = JStr s) \<and> isGraphLeafPath v)"
proof (cases "\<exists>s. v = JStr s \<and> length s \<le> maxPathChars
      \<and> CHR ''/'' \<in> set (takeWhile (\<lambda>x. x \<noteq> CHR ''.'') s) \<and> isGraphPlanId (JStr (takeWhile (\<lambda>x. x \<noteq> CHR ''.'') s))")
  case True
  then obtain s where s: "v = JStr s" "length s \<le> maxPathChars"
    "CHR ''/'' \<in> set (takeWhile (\<lambda>x. x \<noteq> CHR ''.'') s)"
    "isGraphPlanId (JStr (takeWhile (\<lambda>x. x \<noteq> CHR ''.'') s))" by blast
  show ?thesis
  proof (cases "CHR ''.'' \<in> set s")
    case False
    with s show ?thesis by (simp add: checkPredicatePath_def)
  next
    case dot: True
    then obtain below where below: "dropWhile (\<lambda>x. x \<noteq> CHR ''.'') s = CHR ''.'' # below"
      by (cases "dropWhile (\<lambda>x. x \<noteq> CHR ''.'') s") (auto dest: dropWhile_eq_Cons_conv [THEN iffD1])
    have check: "checkPredicatePath v p c
        = snd (checkGraphFieldPath (JStr (CHR ''n'' # CHR ''.'' # below)) p c)"
      using s dot below by (simp add: checkPredicatePath_def)
    let ?w = "JStr (CHR ''n'' # CHR ''.'' # below)"
    have le: "col_count c \<le> col_count (checkPredicatePath v p c)"
      unfolding check by (rule verdict_le [OF path_verdict])
    have "isGraphLeafPath v" if "col_count (checkPredicatePath v p c) = col_count c"
    proof -
      have "isGraphFieldPath ?w" using verdict_eq [OF path_verdict, of ?w p c] that by (simp add: check)
      from leaf_tail [OF this] s below show ?thesis
        by (simp add: isGraphLeafPath_def isGraphPlanId_def)
    qed
    with le s show ?thesis by simp
  qed
next
  case False
  then have check: "checkPredicatePath v p c = snd (checkGraphFieldPath v p c)"
    by (cases v) (auto simp: checkPredicatePath_def)
  have "isGraphFieldPath v \<Longrightarrow> \<exists>s. v = JStr s"
    by (cases v) (auto simp: isGraphFieldPath_def)
  then show ?thesis
    using verdict_le [OF path_verdict, of c v p] verdict_eq [OF path_verdict, of v p c]
    by (auto simp: check isGraphLeafPath_def)
qed

lemma scalars_count:
  "col_count c \<le> col_count (snd (fold (\<lambda>x (i, c). (i + 1, snd (checkScalar x (joinIndex p i) c))) xs (i, c)))
   \<and> (col_count (snd (fold (\<lambda>x (i, c). (i + 1, snd (checkScalar x (joinIndex p i) c))) xs (i, c))) = col_count c
       \<longrightarrow> list_all scalar_ok xs)"
proof (induction xs arbitrary: i c)
  case (Cons x xs)
  have "col_count c \<le> col_count (snd (checkScalar x (joinIndex p i) c))"
    and "col_count (snd (checkScalar x (joinIndex p i) c)) = col_count c \<Longrightarrow> scalar_ok x"
    using verdict_le [OF scalar_verdict] verdict_eq [OF scalar_verdict] by blast+
  with Cons.IH [of "snd (checkScalar x (joinIndex p i) c)" "i + 1"] show ?case by auto
qed simp

text \<open>The operand the guard accepts for each operation.\<close>

definition operand_ok :: "string \<Rightarrow> (string \<times> js) list \<Rightarrow> bool" where
  "operand_ok op ps =
     (let v = field_of ps ''value'' in
      if op = ''count''
      then (\<exists>s\<in>set GRAPH_PREDICATE_COMPARISONS. field_of ps ''compare'' = JStr s)
        \<and> number_ok \<lparr>no_maxAbs = None, no_min = Some 0, no_max = Some (int maxArtifactItems), no_integer = True\<rparr> v
      else if op = ''in'' then list_ok (Some 1) (int maxPredicateListValues) v
        \<and> (case v of JArr xs \<Rightarrow> list_all scalar_ok xs | _ \<Rightarrow> False)
      else if op \<in> {''lt'', ''lte'', ''gt'', ''gte''}
      then number_ok \<lparr>no_maxAbs = Some maxNumberAbs, no_min = None, no_max = None, no_integer = False\<rparr> v
      else if op \<in> {''eq'', ''neq''} then scalar_ok v
      else True)"

lemma count_operand_count:
  "col_count c \<le> col_count (checkOperand ''count'' ps p c)
     \<and> (col_count (checkOperand ''count'' ps p c) = col_count c \<longrightarrow> operand_ok ''count'' ps)"
proof -
  let ?v = "field_of ps ''value''" and ?cmp = "field_of ps ''compare''"
  let ?opts = "\<lparr>no_maxAbs = None, no_min = Some 0, no_max = Some (int maxArtifactItems), no_integer = True\<rparr>"
  define c1 where "c1 = (if ?cmp \<noteq> JUndef then snd (checkEnum ?cmp (joinKey p ''compare'') GRAPH_PREDICATE_COMPARISONS c)
     else col_add (joinKey p ''compare'') ''required'' ''Field is required'' c)"
  have c1: "col_count c \<le> col_count c1"
    "col_count c1 = col_count c \<Longrightarrow> \<exists>s\<in>set GRAPH_PREDICATE_COMPARISONS. ?cmp = JStr s"
    using verdict_le [OF enum_verdict, of c] verdict_eq [OF enum_verdict, of ?cmp _ _ c]
    by (auto simp: c1_def split: if_splits)
  have c2: "checkOperand ''count'' ps p c = (if ?v \<noteq> JUndef then snd (checkFiniteNumber ?v (joinKey p ''value'') ?opts c1)
     else col_add (joinKey p ''value'') ''required'' ''Field is required'' c1)"
    by (simp add: checkOperand_def c1_def checkPresent_def Let_def)
  have le: "col_count c1 \<le> col_count (checkOperand ''count'' ps p c)"
    unfolding c2 using verdict_le [OF number_verdict, of c1] by simp
  have "number_ok ?opts ?v" if "col_count (checkOperand ''count'' ps p c) = col_count c1"
    using that verdict_eq [OF number_verdict, of ?v _ ?opts c1] unfolding c2 by (simp split: if_splits)
  with le c1 show ?thesis by (auto simp: operand_ok_def Let_def)
qed

lemma in_operand_count:
  "col_count c \<le> col_count (checkOperand ''in'' ps p c)
     \<and> (col_count (checkOperand ''in'' ps p c) = col_count c \<longrightarrow> operand_ok ''in'' ps)"
proof -
  let ?v = "field_of ps ''value''" and ?p = "joinKey p ''value''"
  show ?thesis
  proof (cases "list_ok (Some 1) (int maxPredicateListValues) ?v")
    case True
    then obtain xs where xs: "?v = JArr xs" by (cases ?v) (auto simp: list_ok_def)
    have "checkGraphList ?v ?p (Some 1) (int maxPredicateListValues) False c = (True, c)"
      using list_verdict [of ?v ?p "Some 1" "int maxPredicateListValues"] True by (simp add: verdict_def)
    then have "checkOperand ''in'' ps p c =
       snd (fold (\<lambda>x (i, c). (i + 1, snd (checkScalar x (joinIndex ?p i) c))) xs (0, c))"
      by (simp add: checkOperand_def xs)
    with scalars_count [of c ?p xs 0] True xs show ?thesis by (simp add: operand_ok_def)
  next
    case False
    then obtain q k m where "checkGraphList ?v ?p (Some 1) (int maxPredicateListValues) False c = (False, col_add q k m c)"
      using list_verdict [of ?v ?p "Some 1" "int maxPredicateListValues"] unfolding verdict_def by blast
    then show ?thesis by (simp add: checkOperand_def)
  qed
qed

lemma operand_count:
  "col_count c \<le> col_count (checkOperand op ps p c)
     \<and> (col_count (checkOperand op ps p c) = col_count c \<longrightarrow> operand_ok op ps)"
proof -
  let ?v = "field_of ps ''value''" and ?p = "joinKey p ''value''"
  let ?opts = "\<lparr>no_maxAbs = Some maxNumberAbs, no_min = None, no_max = None, no_integer = False\<rparr>"
  have operand3: "operand_ok op ps = number_ok ?opts ?v" if "op \<in> {''lt'', ''lte'', ''gt'', ''gte''}"
    using that by (auto simp: operand_ok_def)
  have operand4: "operand_ok op ps = scalar_ok ?v" if "op \<in> {''eq'', ''neq''}"
    using that by (auto simp: operand_ok_def)
  consider "op = ''count''" | "op = ''in''" | "op \<in> {''lt'', ''lte'', ''gt'', ''gte''}"
    | "op \<in> {''eq'', ''neq''}"
    | "op \<noteq> ''count''" "op \<noteq> ''in''" "op \<notin> {''lt'', ''lte'', ''gt'', ''gte''}" "op \<notin> {''eq'', ''neq''}"
    by metis
  then show ?thesis
  proof cases
    case 1
    then show ?thesis using count_operand_count by simp
  next
    case 2
    then show ?thesis using in_operand_count by simp
  next
    case 3
    then have "checkOperand op ps p c = (if ?v \<noteq> JUndef then snd (checkFiniteNumber ?v ?p ?opts c)
       else col_add ?p ''required'' ''Field is required'' c)"
      by (auto simp: checkOperand_def checkPresent_def)
    then show ?thesis
      using verdict_le [OF number_verdict, of c ?v ?p ?opts] verdict_eq [OF number_verdict, of ?v ?p ?opts c]
      unfolding operand3 [OF 3] by (simp split: if_splits)
  next
    case 4
    then have "checkOperand op ps p c = snd (checkScalar ?v ?p c)" by (auto simp: checkOperand_def)
    then show ?thesis
      using verdict_le [OF scalar_verdict, of c ?v ?p] verdict_eq [OF scalar_verdict, of ?v ?p c]
      unfolding operand4 [OF 4] by simp
  next
    case 5
    then show ?thesis by (simp add: checkOperand_def operand_ok_def)
  qed
qed

text \<open>An object whose keys, and those of the objects in it, are distinct, as every object's are.\<close>

fun js_wf :: "js \<Rightarrow> bool" where
  "js_wf (JArr xs) = list_all js_wf xs"
| "js_wf (JObj ps) = (distinct (map fst ps) \<and> list_all (\<lambda>p. js_wf (snd p)) ps)"
| "js_wf _ = True"

lemma js_wf_field: "js_wf (JObj ps) \<Longrightarrow> js_wf (field_of ps k)"
  by (induction ps) (auto simp: field_of_def obj_get_def list_all_iff split: option.splits dest: map_of_SomeD)

lemma comparison_known: "\<exists>s\<in>set GRAPH_PREDICATE_COMPARISONS. v = JStr s \<Longrightarrow> \<exists>s k. v = JStr s \<and> comparison_of s = Some k"
  by (auto simp: GRAPH_PREDICATE_COMPARISONS_def)

lemma number_ok_finite: "number_ok opts v \<Longrightarrow> \<exists>q. v = JNum (Fin q)"
  by (auto simp: number_ok_def split: js.splits jsnum.splits)

lemma number_ok_order:
  assumes "number_ok \<lparr>no_maxAbs = Some maxNumberAbs, no_min = None, no_max = None, no_integer = False\<rparr> v"
  shows "\<exists>q. v = JNum (Fin q) \<and> scalar_of v = Some (SNum q)"
proof -
  obtain q where "v = JNum (Fin q)" using number_ok_finite [OF assms] by blast
  with assms show ?thesis by (simp add: number_ok_def)
qed

lemma number_ok_count:
  assumes "number_ok \<lparr>no_maxAbs = None, no_min = Some 0, no_max = Some (int maxArtifactItems), no_integer = True\<rparr> v"
  shows "\<exists>q. v = JNum (Fin q) \<and> safe_integer_number q \<and> 0 \<le> q \<and> q \<le> of_nat maxArtifactItems"
proof -
  obtain q where "v = JNum (Fin q)" using number_ok_finite [OF assms] by blast
  with assms show ?thesis by (simp add: number_ok_def)
qed

lemma ops_cases:
  assumes "op \<in> set GRAPH_PREDICATE_OPS"
  obtains "op \<in> {''eq'', ''neq''}" | "op \<in> {''lt'', ''lte'', ''gt'', ''gte''}" | "op = ''in''"
    | "op = ''exists''" | "op = ''empty''" | "op = ''nonEmpty''" | "op = ''count''"
  using assms unfolding GRAPH_PREDICATE_OPS_def GRAPH_PREDICATE_COMPARISONS_def
    GRAPH_PREDICATE_PRESENCE_OPS_def set_append list.set Un_iff insert_iff empty_iff by metis

lemma leaf_accepted:
  assumes wf: "distinct (map fst ps)"
    and op: "obj_get ps ''op'' = Some (JStr op)" "op \<in> set GRAPH_PREDICATE_OPS"
    and keys: "fst ` set ps \<subseteq> set (leaf_fields op)"
    and path: "field_of ps ''path'' = JStr leafPath" "isGraphLeafPath (JStr leafPath)"
    and operand: "operand_ok op ps"
  shows "\<exists>leaf. prepareLeaf ps p = Inr leaf"
proof -
  have "field_of ps ''path'' \<noteq> JUndef" using path(1) by simp
  then have has: "obj_get ps ''path'' \<noteq> None" "obj_get ps ''op'' \<noteq> None"
    using op(1) field_of_present by auto
  have opf: "field_of ps ''op'' = JStr op" using op(1) by (simp add: field_of_def)
  note base = prepareLeaf_def Let_def opf path GRAPH_PREDICATE_OPS_def GRAPH_PREDICATE_COMPARISONS_def
  have only: "only_keys ps (leaf_fields op)" if "\<forall>k\<in>set (leaf_fields op). obj_get ps k \<noteq> None"
    by (rule only_keysI [OF wf keys _ that]) (simp add: leaf_fields_def)
  have vals: "field_of ps ''value'' \<noteq> JUndef \<Longrightarrow> obj_get ps ''value'' \<noteq> None"
    "field_of ps ''compare'' \<noteq> JUndef \<Longrightarrow> obj_get ps ''compare'' \<noteq> None"
    using field_of_present by auto
  from op(2) show ?thesis
  proof (cases rule: ops_cases)
    case 1
    then have "scalar_ok (field_of ps ''value'')"
      using operand by (elim insertE emptyE; simp add: operand_ok_def)
    then have v: "scalar_of (field_of ps ''value'') \<noteq> None" by (rule scalar_ok_scalar)
    then have "field_of ps ''value'' \<noteq> JUndef" by auto
    then have "only_keys ps [''path'', ''op'', ''value'']"
      using only has vals 1 by (elim insertE emptyE; simp add: leaf_fields_def GRAPH_PREDICATE_PRESENCE_OPS_def)
    moreover from v obtain x where "scalar_of (field_of ps ''value'') = Some x" by blast
    ultimately show ?thesis using 1
      by (elim insertE emptyE; simp add: base GRAPH_PREDICATE_PRESENCE_OPS_def)
  next
    case 2
    then have "\<exists>q. field_of ps ''value'' = JNum (Fin q) \<and> scalar_of (field_of ps ''value'') = Some (SNum q)"
      using operand by (intro number_ok_order) (elim insertE emptyE; simp add: operand_ok_def)
    then obtain q where q: "field_of ps ''value'' = JNum (Fin q)" "scalar_of (JNum (Fin q)) = Some (SNum q)" by auto
    then have "only_keys ps [''path'', ''op'', ''value'']"
      using only has vals 2 by (elim insertE emptyE; simp add: leaf_fields_def GRAPH_PREDICATE_PRESENCE_OPS_def)
    with 2 q show ?thesis
      by (elim insertE emptyE; simp add: base GRAPH_PREDICATE_PRESENCE_OPS_def del: scalar_of.simps)
  next
    case 3
    with operand obtain xs where xs: "field_of ps ''value'' = JArr xs" "list_all scalar_ok xs"
      "1 \<le> length xs" "length xs \<le> maxPredicateListValues"
      by (cases "field_of ps ''value''") (auto simp: operand_ok_def list_ok_def)
    then have "only_keys ps [''path'', ''op'', ''value'']"
      using only has vals 3 by (simp add: leaf_fields_def GRAPH_PREDICATE_PRESENCE_OPS_def)
    moreover have "\<not> list_ex (\<lambda>x. scalar_of x = None) xs"
      using xs(2) scalar_ok_scalar by (auto simp: list_all_iff list_ex_iff)
    ultimately show ?thesis
      using 3 xs by (auto simp: base GRAPH_PREDICATE_PRESENCE_OPS_def boundedArray_def)
  next
    case 7
    with operand obtain s k where cmp: "field_of ps ''compare'' = JStr s" "comparison_of s = Some k"
      using comparison_known by (fastforce simp: operand_ok_def)
    from 7 operand obtain q where q: "field_of ps ''value'' = JNum (Fin q)" "safe_integer_number q" "0 \<le> q"
      "q \<le> of_nat maxArtifactItems"
      using number_ok_count by (fastforce simp: operand_ok_def)
    have "only_keys ps [''path'', ''op'', ''compare'', ''value'']"
      using only has vals 7 cmp q by (simp add: leaf_fields_def GRAPH_PREDICATE_PRESENCE_OPS_def)
    with 7 q cmp show ?thesis by (auto simp: base GRAPH_PREDICATE_PRESENCE_OPS_def)
  qed (use only has in \<open>auto simp: base leaf_fields_def GRAPH_PREDICATE_PRESENCE_OPS_def\<close>)
qed

text \<open>
  \<open>accepting\<close>: what checking a node at some level leaves. The errors never shrink; when none was
  added and at most 64 nodes were visited before, the evaluator prepares the same value, having
  counted the same nodes.
\<close>

definition accepting ::
  "(js \<Rightarrow> string \<Rightarrow> collector \<times> nat \<Rightarrow> collector \<times> nat)
    \<Rightarrow> (js \<Rightarrow> string \<Rightarrow> nat \<Rightarrow> eval_error + (prepared \<times> nat)) \<Rightarrow> bool" where
  "accepting chk prep \<longleftrightarrow>
     (\<forall>v p q st. col_count (fst st) \<le> col_count (fst (chk v p st))
        \<and> (js_wf v \<and> snd st \<le> maxPredicateNodes \<and> col_count (fst (chk v p st)) = col_count (fst st) \<longrightarrow>
             snd (chk v p st) \<le> maxPredicateNodes
             \<and> (\<exists>t. prep v q (snd st) = Inr (t, snd (chk v p st)))))"

lemma accepting_children:
  assumes "accepting chk prep"
  shows "col_count (fst st) \<le> col_count (fst (check_children chk p i xs st))
     \<and> (list_all js_wf xs \<and> snd st \<le> maxPredicateNodes
          \<and> col_count (fst (check_children chk p i xs st)) = col_count (fst st) \<longrightarrow>
          snd (check_children chk p i xs st) \<le> maxPredicateNodes
          \<and> (\<exists>ts. prepare_children prep q j xs (snd st) = Inr (ts, snd (check_children chk p i xs st))))"
proof (induction xs arbitrary: st i j)
  case (Cons x xs)
  let ?st = "chk x (joinIndex p i) st"
  have head: "col_count (fst st) \<le> col_count (fst ?st)"
    "\<lbrakk>js_wf x; snd st \<le> maxPredicateNodes; col_count (fst ?st) = col_count (fst st)\<rbrakk> \<Longrightarrow>
       snd ?st \<le> maxPredicateNodes \<and> (\<exists>t. prep x (joinIndex q j) (snd st) = Inr (t, snd ?st))"
    using assms unfolding accepting_def by blast+
  have tail: "col_count (fst ?st) \<le> col_count (fst (check_children chk p (i + 1) xs ?st))"
    "list_all js_wf xs \<and> snd ?st \<le> maxPredicateNodes
       \<and> col_count (fst (check_children chk p (i + 1) xs ?st)) = col_count (fst ?st) \<Longrightarrow>
     snd (check_children chk p (i + 1) xs ?st) \<le> maxPredicateNodes
       \<and> (\<exists>ts. prepare_children prep q (j + 1) xs (snd ?st)
              = Inr (ts, snd (check_children chk p (i + 1) xs ?st)))"
    using Cons.IH [of ?st "i + 1" "j + 1"] by blast+
  show ?case
  proof (intro conjI impI)
    show "col_count (fst st) \<le> col_count (fst (check_children chk p i (x # xs) st))"
      using head(1) tail(1) by simp
  next
    assume a: "list_all js_wf (x # xs) \<and> snd st \<le> maxPredicateNodes
       \<and> col_count (fst (check_children chk p i (x # xs) st)) = col_count (fst st)"
    then have "col_count (fst ?st) = col_count (fst st)" using head(1) tail(1) by simp
    with head(2) a tail(2) show "snd (check_children chk p i (x # xs) st) \<le> maxPredicateNodes"
      and "\<exists>ts. prepare_children prep q j (x # xs) (snd st) = Inr (ts, snd (check_children chk p i (x # xs) st))"
      by auto
  qed
qed simp

lemma leaf_accepting:
  "col_count c \<le> col_count (checkLeaf ps p c)
     \<and> (js_wf (JObj ps) \<and> col_count (checkLeaf ps p c) = col_count c \<longrightarrow>
         plainEntries (JObj ps) 4 = Some ps \<and> (\<exists>t. prepareLeaf ps q = Inr t))"
proof (cases "\<exists>op. obj_get ps ''op'' = Some (JStr op) \<and> op \<in> set GRAPH_PREDICATE_OPS")
  case True
  then obtain op where op: "obj_get ps ''op'' = Some (JStr op)" "op \<in> set GRAPH_PREDICATE_OPS" by blast
  define c1 where "c1 = snd (checkObject (JObj ps) p (leaf_fields op) c)"
  define c2 where "c2 = checkPredicatePath (field_of ps ''path'') (joinKey p ''path'') c1"
  have eq: "checkLeaf ps p c = checkOperand op ps p c2"
    using op by (simp add: checkLeaf_def checkEnum_def c1_def c2_def)
  have le: "col_count c \<le> col_count c1" "col_count c1 \<le> col_count c2"
    "col_count c2 \<le> col_count (checkOperand op ps p c2)"
    using object_le path_count operand_count unfolding c1_def c2_def by blast+
  have "plainEntries (JObj ps) 4 = Some ps \<and> (\<exists>t. prepareLeaf ps q = Inr t)"
    if "js_wf (JObj ps)" "col_count (checkLeaf ps p c) = col_count c"
  proof -
    have e: "col_count c1 = col_count c" "col_count c2 = col_count c1"
      "col_count (checkOperand op ps p c2) = col_count c2"
      using le that(2) eq by simp_all
    obtain s where path: "field_of ps ''path'' = JStr s" "isGraphLeafPath (JStr s)"
      using e(2) path_count [of c1 "field_of ps ''path''" "joinKey p ''path''"] unfolding c2_def by auto
    note sub = object_clean(1) [OF e(1) [unfolded c1_def]]
    have "length ps = card (fst ` set ps)"
      using that(1) distinct_card [of "map fst ps"] by simp
    also have "\<dots> \<le> length (leaf_fields op)"
      using card_mono [OF _ sub] card_length [of "leaf_fields op"] by simp
    also have "\<dots> \<le> 4" by (simp add: leaf_fields_def)
    finally have "plainEntries (JObj ps) 4 = Some ps" by (simp add: plainEntries_def)
    moreover have "\<exists>t. prepareLeaf ps q = Inr t"
      by (rule leaf_accepted) (use that(1) op sub e(3) operand_count path in auto)
    ultimately show ?thesis by blast
  qed
  with le eq show ?thesis by auto
next
  case False
  then show ?thesis
    by (auto simp: checkLeaf_def checkEnum_def split: option.splits js.splits)
qed

text \<open>An object whose only permitted field is the one it has.\<close>

lemma only_field:
  assumes "js_wf (JObj ps)" and "obj_get ps k \<noteq> None"
    and "col_count (snd (checkObject (JObj ps) p [k] c)) = col_count c"
  shows "only_keys ps [k]" and "plainEntries (JObj ps) 4 = Some ps"
proof -
  show "only_keys ps [k]"
    using assms object_clean(1) [OF assms(3)] by (intro only_keysI) auto
  then show "plainEntries (JObj ps) 4 = Some ps" by (simp add: only_keys_def plainEntries_def)
qed

lemma node_list:
  assumes acc: "accepting (checkNode levels) (prepareNode levels)"
    and k: "combinator_of ps = Some k" and below: "snd st < maxPredicateNodes"
  shows "col_count (fst st) \<le> col_count (fst (checkNode (Suc levels) (JObj ps) p st))
     \<and> (js_wf (JObj ps) \<and> col_count (fst (checkNode (Suc levels) (JObj ps) p st)) = col_count (fst st) \<longrightarrow>
         snd (checkNode (Suc levels) (JObj ps) p st) \<le> maxPredicateNodes
         \<and> (\<exists>t. prepareNode (Suc levels) (JObj ps) q (snd st)
                = Inr (t, snd (checkNode (Suc levels) (JObj ps) p st))))"
proof -
  define c where "c = snd (checkObject (JObj ps) p [k] (fst st))"
  have le: "col_count (fst st) \<le> col_count c" unfolding c_def by (rule object_le)
  have has: "obj_get ps k \<noteq> None" using k by (auto simp: combinator_of_def split: if_splits)
  show ?thesis
  proof (cases "list_ok (Some 1) (int maxPredicateNodes) (field_of ps k)")
    case True
    then obtain xs where xs: "field_of ps k = JArr xs" by (cases "field_of ps k") (auto simp: list_ok_def)
    with True have len: "xs \<noteq> []" "length xs \<le> maxPredicateNodes" by (auto simp: list_ok_def)
    define st' where "st' = check_children (checkNode levels) (joinKey p k) 0 xs (c, snd st + 1)"
    have list_check: "checkGraphList (field_of ps k) (joinKey p k) (Some 1) (int maxPredicateNodes) False c = (True, c)"
      using list_verdict [of "field_of ps k" "joinKey p k" "Some 1" "int maxPredicateNodes"] True
      by (simp add: verdict_def)
    have eq: "checkNode (Suc levels) (JObj ps) p st = st'"
      using below k list_check
      by (simp add: c_def st'_def xs)
    have children: "col_count c \<le> col_count (fst st')"
      "\<lbrakk>list_all js_wf xs; col_count (fst st') = col_count c\<rbrakk> \<Longrightarrow> snd st' \<le> maxPredicateNodes
         \<and> (\<exists>ts. prepare_children (prepareNode levels) (joinKey q k) 0 xs (snd st + 1) = Inr (ts, snd st'))"
      using accepting_children [OF acc, of "(c, snd st + 1)" "joinKey p k" 0 xs "joinKey q k" 0] below
      unfolding st'_def by auto
    have "snd st' \<le> maxPredicateNodes \<and> (\<exists>t. prepareNode (Suc levels) (JObj ps) q (snd st) = Inr (t, snd st'))"
      if wf: "js_wf (JObj ps)" and same: "col_count (fst st') = col_count (fst st)"
    proof -
      have e: "col_count c = col_count (fst st)" "col_count (fst st') = col_count c"
        using le children(1) same by simp_all
      have "list_all js_wf xs" using js_wf_field [OF wf, of k] by (simp add: xs)
      with children(2) e(2) obtain ts where ts: "snd st' \<le> maxPredicateNodes"
        "prepare_children (prepareNode levels) (joinKey q k) 0 xs (snd st + 1) = Inr (ts, snd st')" by blast
      note one = only_field [OF wf has e(1) [unfolded c_def]]
      have "prepareNode (Suc levels) (JObj ps) q (snd st)
          = Inr (if k = ''all'' then PAll ts else PAny ts, snd st')"
        using below k ts(2) one len
        by (simp add: boundedArray_def xs)
      with ts(1) show ?thesis by blast
    qed
    with le children(1) show ?thesis unfolding eq by auto
  next
    case False
    then obtain r kd m where "checkGraphList (field_of ps k) (joinKey p k) (Some 1) (int maxPredicateNodes) False c
        = (False, col_add r kd m c)"
      using list_verdict [of "field_of ps k" "joinKey p k" "Some 1" "int maxPredicateNodes"]
      unfolding verdict_def by blast
    then have "checkNode (Suc levels) (JObj ps) p st = (col_add r kd m c, snd st + 1)"
      using below k by (simp add: c_def)
    with le show ?thesis by simp
  qed
qed

lemma node_accepting: "accepting (checkNode levels) (prepareNode levels)"
proof (induction levels)
  case 0
  show ?case by (simp add: accepting_def)
next
  case (Suc levels)
  have "col_count (fst st) \<le> col_count (fst (checkNode (Suc levels) v p st))
     \<and> (js_wf v \<and> snd st \<le> maxPredicateNodes
          \<and> col_count (fst (checkNode (Suc levels) v p st)) = col_count (fst st) \<longrightarrow>
         snd (checkNode (Suc levels) v p st) \<le> maxPredicateNodes
         \<and> (\<exists>t. prepareNode (Suc levels) v q (snd st) = Inr (t, snd (checkNode (Suc levels) v p st))))"
    for v p q st
  proof (cases "snd st < maxPredicateNodes")
    case False
    then show ?thesis by (cases "snd st = maxPredicateNodes") (simp_all add: Let_def)
  next
    case below: True
    show ?thesis
    proof (cases "\<exists>ps. v = JObj ps")
      case False
      with below show ?thesis by (cases v) (simp_all add: Let_def)
    next
      case True
      then obtain ps where v: "v = JObj ps" by blast
      consider k where "combinator_of ps = Some k" | "combinator_of ps = None" "obj_get ps ''not'' \<noteq> None"
        | "combinator_of ps = None" "obj_get ps ''not'' = None" by (cases "combinator_of ps") auto
      then show ?thesis
      proof cases
        case 1
        then show ?thesis using node_list [OF Suc.IH 1 below] v by blast
      next
        case 2
        define c where "c = snd (checkObject (JObj ps) p [''not''] (fst st))"
        let ?w = "field_of ps ''not''"
        define st' where "st' = checkNode levels ?w (joinKey p ''not'') (c, snd st + 1)"
        have eq: "checkNode (Suc levels) v p st = st'"
          using 2 below by (simp add: v st'_def c_def)
        have le: "col_count (fst st) \<le> col_count c" unfolding c_def by (rule object_le)
        have child: "col_count c \<le> col_count (fst st')"
          "\<lbrakk>js_wf ?w; col_count (fst st') = col_count c\<rbrakk> \<Longrightarrow> snd st' \<le> maxPredicateNodes
             \<and> (\<exists>t. prepareNode levels ?w (joinKey q ''not'') (snd st + 1) = Inr (t, snd st'))"
          using Suc.IH below unfolding accepting_def st'_def by fastforce+
        have "snd st' \<le> maxPredicateNodes \<and> (\<exists>t. prepareNode (Suc levels) v q (snd st) = Inr (t, snd st'))"
          if wf: "js_wf v" and same: "col_count (fst st') = col_count (fst st)"
        proof -
          have e: "col_count c = col_count (fst st)" "col_count (fst st') = col_count c"
            using le child(1) same by simp_all
          have "js_wf ?w" using wf js_wf_field by (simp add: v)
          with child(2) e(2) obtain t where t: "snd st' \<le> maxPredicateNodes"
            "prepareNode levels ?w (joinKey q ''not'') (snd st + 1) = Inr (t, snd st')" by blast
          have "prepareNode (Suc levels) v q (snd st) = Inr (PNot t, snd st')"
            using below 2 t(2) only_field [OF wf [unfolded v] 2(2) e(1) [unfolded c_def]] by (simp add: v)
          with t(1) show ?thesis by blast
        qed
        with le child(1) show ?thesis unfolding eq by auto
      next
        case 3
        then have eq: "checkNode (Suc levels) v p st = (checkLeaf ps p (fst st), snd st + 1)"
          using below by (simp add: v Let_def)
        have "prepareNode (Suc levels) v q (snd st) = Inr (t, snd st + 1)"
          if "plainEntries v 4 = Some ps" "prepareLeaf ps q = Inr t" for t
          using below 3 that by simp
        then show ?thesis using leaf_accepting [of "fst st" ps p q] below unfolding eq
          by (auto simp: v simp del: prepareNode.simps js_wf.simps)
      qed
    qed
  qed
  then show ?case unfolding accepting_def by blast
qed

section \<open>Properties\<close>

text \<open>C27. A predicate the guard accepts is one the evaluator evaluates: the two grammars, checked
  separately and with separate node and depth budgets, agree on every accepted value, so a stored
  predicate never stops with an evaluation error, whatever values it is evaluated over.\<close>

theorem accepted_predicate_evaluates:
  assumes "js_wf v" and "isGraphPredicate v"
  shows "(\<exists>p. prepare_predicate v = Inr p) \<and> ev_error (evaluateGraphPredicate v env) = None"
proof -
  have present: "v \<noteq> JUndef" and "\<not> col_failed (checkGraphPredicate v [] empty_collector)"
    using assms(2)
    by (auto simp: isGraphPredicate_def validateGraphPredicate_def col_result_def checkGraphPredicate_def
        checkPresent_def col_failed_count split: if_splits)
  then have "col_count (fst (checkNode maxPredicateDepth v [] (empty_collector, 0))) = 0"
    by (simp add: checkGraphPredicate_def checkPresent_def col_failed_count)
  moreover have "col_count empty_collector = 0" by (simp add: empty_collector_def col_count_def)
  ultimately obtain p n where "prepareNode maxPredicateDepth v [] 0 = Inr (p, n)"
    using node_accepting [of maxPredicateDepth] assms(1) unfolding accepting_def
    by (metis fst_conv snd_conv le0)
  then have "prepare_predicate v = Inr p" by (simp add: prepare_predicate_def)
  then show ?thesis
    by (auto simp: evaluateGraphPredicate_def settle_predicate_def case_prod_beta)
qed

definition example_predicate :: js where
  "example_predicate =
     JObj [(''all'', JArr [
       JObj [(''path'', JStr ''review/verify.verdict''), (''op'', JStr ''eq''), (''value'', JStr ''pass'')],
       JObj [(''not'', JObj [(''path'', JStr ''run.findings''), (''op'', JStr ''nonEmpty'')])]])]"

lemma accepted_predicate_evaluates_witness:
  "ev_error (evaluateGraphPredicate example_predicate
     \<lparr>env_values = None, env_params = None, env_run = None\<rparr>) = None"
proof -
  have "js_wf example_predicate" by (simp add: example_predicate_def)
  moreover have "isGraphPredicate example_predicate" by code_simp
  ultimately show ?thesis by (rule accepted_predicate_evaluates [THEN conjunct2])
qed

text \<open>C21. Evaluation is total and is Kleene's three-valued logic: a malformed predicate has the
  error and no truth; any other has the truth Kleene's tables give over the leaf values, its value is
  true only for a definite truth, and an unknown truth names at least one and at most eight distinct
  unknown paths. The early return of \<open>all\<close> and \<open>any\<close> never changes the truth.\<close>

theorem evaluation_is_kleene:
  "case prepare_predicate v of
     Inl e \<Rightarrow> evaluateGraphPredicate v env =
        \<lparr>ev_value = False, ev_truth = None, ev_unknownPaths = [], ev_error = Some e\<rparr>
   | Inr p \<Rightarrow>
       (let r = evaluateGraphPredicate v env
        in ev_error r = None \<and> ev_truth r = kleene (environmentResolver env) p
           \<and> (ev_value r \<longleftrightarrow> ev_truth r = Some True)
           \<and> (ev_truth r = None \<longrightarrow> ev_unknownPaths r \<noteq> [])
           \<and> distinct (ev_unknownPaths r) \<and> length (ev_unknownPaths r) \<le> 8)"
proof (cases "prepare_predicate v")
  case (Inl e)
  then show ?thesis by (simp add: evaluateGraphPredicate_def settle_predicate_def)
next
  case (Inr p)
  have "paths_ok []" by (simp add: paths_ok_def)
  with Inr evaluate_truth(1) [of "environmentResolver env" p "[]"]
    evaluate_paths(1) [of "[]" "environmentResolver env" p]
  show ?thesis
    by (auto simp: evaluateGraphPredicate_def settle_predicate_def case_prod_beta Let_def paths_ok_def
        GRAPH_PREDICATE_MAX_UNKNOWN_PATHS_def)
qed

lemma evaluation_is_kleene_witness:
  "ev_value (evaluateGraphPredicate example_predicate
     \<lparr>env_values = None, env_params = None, env_run = None\<rparr>) \<longleftrightarrow>
   ev_truth (evaluateGraphPredicate example_predicate
     \<lparr>env_values = None, env_params = None, env_run = None\<rparr>) = Some True"
  using evaluation_is_kleene [of example_predicate "\<lparr>env_values = None, env_params = None, env_run = None\<rparr>"]
  by (simp add: Let_def split: sum.splits)

text \<open>A value that arrives later never overturns a decision: a predicate without \<open>exists\<close>
  that was definitely true (or definitely false) stays so when paths that had no value get one.\<close>

theorem decision_stable:
  assumes "prepare_predicate v = Inr p" and "exists_free p"
    and "\<forall>segs. environmentResolver env segs \<noteq> None \<longrightarrow>
           environmentResolver env' segs = environmentResolver env segs"
    and "ev_truth (evaluateGraphPredicate v env) = Some b"
  shows "ev_truth (evaluateGraphPredicate v env') = Some b
     \<and> ev_value (evaluateGraphPredicate v env') = ev_value (evaluateGraphPredicate v env)"
proof -
  have truth: "ev_truth (evaluateGraphPredicate v e) = kleene (environmentResolver e) p"
    "ev_value (evaluateGraphPredicate v e) \<longleftrightarrow> kleene (environmentResolver e) p = Some True" for e
    using assms(1) evaluate_truth(1) [of "environmentResolver e" p "[]"]
    by (simp_all add: evaluateGraphPredicate_def settle_predicate_def case_prod_beta)
  have "knows_more (environmentResolver env) (environmentResolver env')"
    using assms(3) by (simp add: knows_more_def)
  from kleene_mono [OF this assms(2)] assms(4) truth show ?thesis by simp
qed

text \<open>A run's values that arrive later change no path that resolved.\<close>

lemma environment_more:
  assumes "env_run env = None" and "environmentResolver env segs \<noteq> None"
  shows "environmentResolver (env\<lparr>env_run := Some r\<rparr>) segs = environmentResolver env segs"
proof (cases segs)
  case (Cons first rest)
  have none: "walk None ws = None" for ws by (induction ws) auto
  have dot: "first @ ''.'' @ second \<noteq> ''run''" for second
  proof
    assume "first @ ''.'' @ second = ''run''"
    then have "CHR ''.'' \<in> set ''run''" by (metis Un_iff list.set_intros(1) set_append)
    then show False by simp
  qed
  have "first \<noteq> ''run''" using assms none by (auto simp: environmentResolver_def splitGraphPredicatePath_def rootValue_def Cons)
  then have names: "rootValue (env\<lparr>env_run := Some r\<rparr>) first = rootValue env first"
    "rootValue (env\<lparr>env_run := Some r\<rparr>) ''params'' = rootValue env ''params''"
    by (simp_all add: rootValue_def)
  have joined: "rootValue (env\<lparr>env_run := Some r\<rparr>) (first @ CHR ''.'' # second)
      = rootValue env (first @ CHR ''.'' # second)" for second
    using dot [of second] by (simp add: rootValue_def)
  show ?thesis
  proof (cases rest)
    case Nil
    with names \<open>first \<noteq> ''run''\<close> show ?thesis
      by (simp add: environmentResolver_def splitGraphPredicatePath_def Cons)
  next
    case below: (Cons second more)
    with names joined \<open>first \<noteq> ''run''\<close> show ?thesis
      by (simp add: environmentResolver_def splitGraphPredicatePath_def Cons)
  qed
qed (use assms in \<open>simp add: environmentResolver_def splitGraphPredicatePath_def\<close>)

lemma example_paths: "isGraphLeafPath (JStr ''review/verify.verdict'')" "isGraphLeafPath (JStr ''run.findings'')"
  by code_simp+
lemma example_leaf1: "prepareLeaf [(''path'', JStr ''run.findings''), (''op'', JStr ''nonEmpty'')] q = Inr (PLeaf ''run.findings'' [''run'', ''findings''] OpNonEmpty)"
  by (simp add: prepareLeaf_def example_paths field_of_def only_keys_def GRAPH_PREDICATE_OPS_def
      GRAPH_PREDICATE_COMPARISONS_def GRAPH_PREDICATE_PRESENCE_OPS_def)
lemma example_leaf2: "prepareLeaf [(''path'', JStr ''review/verify.verdict''), (''op'', JStr ''eq''), (''value'', JStr ''pass'')] q = Inr (PLeaf ''review/verify.verdict'' [''review/verify'', ''verdict''] (OpEq (SStr ''pass'')))"
  by (simp add: prepareLeaf_def example_paths field_of_def only_keys_def GRAPH_PREDICATE_OPS_def maxPredicateStringBytes_def utf8_bytes.simps
      GRAPH_PREDICATE_COMPARISONS_def GRAPH_PREDICATE_PRESENCE_OPS_def is_high_surrogate_def unit_bytes_def)
lemma example_prepared: "prepare_predicate example_predicate = Inr (PAll [PLeaf ''review/verify.verdict'' [''review/verify'', ''verdict''] (OpEq (SStr ''pass'')),
               PNot (PLeaf ''run.findings'' [''run'', ''findings''] OpNonEmpty)])"
  by (simp add: prepare_predicate_def example_predicate_def maxPredicateDepth_def eval_nat_numeral maxPredicateNodes_def plainEntries_def
      combinator_of_def only_keys_def field_of_def boundedArray_def example_leaf1 example_leaf2 Let_def)

lemma decision_stable_witness:
  "ev_truth (evaluateGraphPredicate example_predicate
     \<lparr>env_values = Some [(''review/verify'', JObj [(''verdict'', JStr ''fail'')])], env_params = None,
      env_run = Some (JObj [(''findings'', JArr [])])\<rparr>) = Some False"
proof -
  let ?env = "\<lparr>env_values = Some [(''review/verify'', JObj [(''verdict'', JStr ''fail'')])],
    env_params = None, env_run = None\<rparr>"
  let ?p = "PAll [PLeaf ''review/verify.verdict'' [''review/verify'', ''verdict''] (OpEq (SStr ''pass'')),
    PNot (PLeaf ''run.findings'' [''run'', ''findings''] OpNonEmpty)]"
  have "prepare_predicate example_predicate = Inr ?p" by (rule example_prepared)
  moreover have "exists_free ?p" by simp
  moreover have "\<forall>segs. environmentResolver ?env segs \<noteq> None \<longrightarrow>
      environmentResolver (?env\<lparr>env_run := Some (JObj [(''findings'', JArr [])])\<rparr>) segs = environmentResolver ?env segs"
    by (intro allI impI environment_more) simp_all
  moreover have "ev_truth (evaluateGraphPredicate example_predicate ?env) = Some False"
    by (simp add: evaluateGraphPredicate_def example_prepared settle_predicate_def environmentResolver_def
        splitGraphPredicatePath_def rootValue_def ownData_def Let_def)
  ultimately show ?thesis using decision_stable by fastforce
qed

text \<open>Filtering a list keeps exactly the elements the predicate is definitely true of, in their
  order, and accounts for every element once.\<close>

theorem filter_keeps_definite:
  assumes "filterGraphPredicateList (JArr xs) w maxItems = Inr r"
  shows "\<exists>p. prepare_predicate w = Inr p
     \<and> fr_items r = filter (\<lambda>x. kleene (walk (Some x)) p = Some True) xs
     \<and> fr_dropped r = length (filter (\<lambda>x. kleene (walk (Some x)) p = Some False) xs)
     \<and> length (fr_items r) + fr_dropped r + fr_unknown r = length xs"
proof -
  obtain p where p: "prepare_predicate w = Inr p"
    and r: "r = fold (filter_step p) xs \<lparr>fr_items = [], fr_dropped = 0, fr_unknown = 0\<rparr>"
    using assms by (auto simp: filterGraphPredicateList_def boundedArray_def Let_def split: if_splits sum.splits)
  have fold: "fr_items (fold (filter_step p) ys a) = fr_items a @ filter (\<lambda>x. kleene (walk (Some x)) p = Some True) ys
     \<and> fr_dropped (fold (filter_step p) ys a)
         = fr_dropped a + length (filter (\<lambda>x. kleene (walk (Some x)) p = Some False) ys)
     \<and> fr_unknown (fold (filter_step p) ys a)
         = fr_unknown a + length (filter (\<lambda>x. kleene (walk (Some x)) p = None) ys)" for ys a
    by (induction ys arbitrary: a)
      (auto simp: filter_step_def evaluate_truth split: option.splits bool.splits)
  have "length (filter (\<lambda>x. kleene (walk (Some x)) p = Some True) ys)
      + length (filter (\<lambda>x. kleene (walk (Some x)) p = Some False) ys)
      + length (filter (\<lambda>x. kleene (walk (Some x)) p = None) ys) = length ys" for ys
    by (induction ys) (auto, metis (full_types) option.exhaust)
  with p fold [of xs] r show ?thesis by simp
qed

lemma filter_keeps_definite_witness:
  "\<exists>r. filterGraphPredicateList (JArr [JObj [(''n'', JNum (Fin 1))], JNull])
          (JObj [(''path'', JStr ''n''), (''op'', JStr ''exists'')]) None = Inr r
     \<and> fr_dropped r = 1 \<and> length (fr_items r) + fr_dropped r + fr_unknown r = 2"
proof -
  have n_path: "isGraphLeafPath (JStr ''n'')" by code_simp
  let ?xs = "[JObj [(''n'', JNum (Fin 1))], JNull]"
  let ?w = "JObj [(''path'', JStr ''n''), (''op'', JStr ''exists'')]"
  have "filterGraphPredicateList (JArr ?xs) ?w None
      = Inr \<lparr>fr_items = [JObj [(''n'', JNum (Fin 1))]], fr_dropped = 1, fr_unknown = 0\<rparr>"
    
    by (simp add: filterGraphPredicateList_def boundedArray_def maxArtifactItems_def prepare_predicate_def
        maxPredicateDepth_def eval_nat_numeral maxPredicateNodes_def plainEntries_def combinator_of_def
        prepareLeaf_def field_of_def only_keys_def GRAPH_PREDICATE_OPS_def GRAPH_PREDICATE_COMPARISONS_def
        GRAPH_PREDICATE_PRESENCE_OPS_def n_path filter_step_def ownData_def Let_def)
  with filter_keeps_definite [OF this] show ?thesis by simp
qed

end
