(* ===== verification/Graph_Identity.thy ===== *)
theory Graph_Identity
  imports Field_Checks Graph_Model
begin

text \<open>
  Names and identities of runs, activations and artifact files
  (\<^verbatim>\<open>packages/protocol/src/graphs/run-identity.ts\<close>): the identifier patterns, activation keys
  with their parser, and the paths of reference artifacts with theirs. A thrown error is \<open>Inl\<close> with
  its message. The counters of an activation key are integers: a number that is no safe integer is
  refused by the same test.
\<close>

section \<open>Patterns\<close>

definition run_id_char :: "char \<Rightarrow> bool" where
  "run_id_char c \<longleftrightarrow> is_alnum c \<or> c \<in> {CHR ''_'', CHR ''-''}"

definition branch_char :: "char \<Rightarrow> bool" where
  "branch_char c \<longleftrightarrow> is_alnum c \<or> c \<in> {CHR ''.'', CHR ''_'', CHR ''+'', CHR '':'', CHR ''-''}"

definition hex_char :: "char \<Rightarrow> bool" where
  "hex_char c \<longleftrightarrow> is_digit c \<or> (97 \<le> (of_char c :: nat) \<and> of_char c \<le> (102 :: nat))"

definition GRAPH_RUN_ID_PATTERN :: "string \<Rightarrow> bool" where
  "GRAPH_RUN_ID_PATTERN s =
     (case s of [] \<Rightarrow> False | c # cs \<Rightarrow> is_alnum c \<and> list_all run_id_char cs \<and> length cs \<le> 127)"

definition GRAPH_BRANCH_KEY_PATTERN :: "string \<Rightarrow> bool" where
  "GRAPH_BRANCH_KEY_PATTERN s =
     (case s of [] \<Rightarrow> False | c # cs \<Rightarrow> is_alnum c \<and> list_all branch_char cs \<and> length cs \<le> 95)"

definition GRAPH_SHA256_PATTERN :: "string \<Rightarrow> bool" where
  "GRAPH_SHA256_PATTERN s \<longleftrightarrow> length s = 64 \<and> list_all hex_char s"

definition GRAPH_COMMIT_PATTERN :: "string \<Rightarrow> bool" where
  "GRAPH_COMMIT_PATTERN s \<longleftrightarrow> (length s = 40 \<or> length s = 64) \<and> list_all hex_char s"

definition GRAPH_ARTIFACT_EXTENSION_PATTERN :: "string \<Rightarrow> bool" where
  "GRAPH_ARTIFACT_EXTENSION_PATTERN s \<longleftrightarrow> 1 \<le> length s \<and> length s \<le> 8 \<and> list_all lower_digit s"

definition GRAPH_ARTIFACT_DIRECTORY :: string where
  "GRAPH_ARTIFACT_DIRECTORY = ''.orkestrator/graph-artifacts''"

definition isGraphRunId :: "js \<Rightarrow> bool" where
  "isGraphRunId v = (case js_string v of None \<Rightarrow> False | Some s \<Rightarrow> GRAPH_RUN_ID_PATTERN s)"

definition isGraphBranchKey :: "js \<Rightarrow> bool" where
  "isGraphBranchKey v = (case js_string v of None \<Rightarrow> False | Some s \<Rightarrow> GRAPH_BRANCH_KEY_PATTERN s)"

section \<open>Activation keys\<close>

record key_parts =
  kp_nodeId :: string
  kp_iteration :: int
  kp_branchKey :: "string option"
  kp_attempt :: int

definition maxIteration :: int where "maxIteration = 10"

definition validCounter :: "int \<Rightarrow> int \<Rightarrow> bool" where
  "validCounter v mx \<longleftrightarrow> isSafeInteger v \<and> v \<ge> 1 \<and> v \<le> mx"

definition branch_text :: "string option \<Rightarrow> string" where
  "branch_text b = (case b of None \<Rightarrow> [] | Some k \<Rightarrow> ''#branch='' @ k)"

definition graphActivationKey :: "key_parts \<Rightarrow> string + string" where
  "graphActivationKey p =
     (if \<not> isGraphPlanId (JStr (kp_nodeId p)) then Inl ''Activation node id must be a plan node id''
      else if \<not> validCounter (kp_iteration p) maxIteration
      then Inl (''Activation iteration must be 1..'' @ show_int maxIteration)
      else if \<not> validCounter (kp_attempt p) maxAttempt
      then Inl (''Activation attempt must be 1..'' @ show_int maxAttempt)
      else if (case kp_branchKey p of None \<Rightarrow> False | Some b \<Rightarrow> \<not> isGraphBranchKey (JStr b))
      then Inl ''Activation branch key has unsupported characters''
      else Inr (kp_nodeId p @ ''#iter='' @ show_int (kp_iteration p) @ branch_text (kp_branchKey p)
                @ ''#attempt='' @ show_int (kp_attempt p)))"

text \<open>
  The key pattern. None of its groups matches a \<open>#\<close>, so a match is a split at \<open>#\<close> into three or
  four segments, each of which is matched on its own.
\<close>

definition after_prefix :: "string \<Rightarrow> string \<Rightarrow> string option" where
  "after_prefix p s = (if starts_with p s then Some (drop (length p) s) else None)"

definition counter_text :: "string option \<Rightarrow> string option" where
  "counter_text m =
     (case m of None \<Rightarrow> None
      | Some ds \<Rightarrow> if ds \<noteq> [] \<and> list_all is_digit ds \<and> hd ds \<noteq> CHR ''0'' then Some ds else None)"

definition match_key :: "string \<Rightarrow> (string \<times> string \<times> string option \<times> string) option" where
  "match_key key =
     (let with_branch = (\<lambda>n i b a.
        if \<not> GRAPH_PLAN_ID_PATTERN n then None
        else (case counter_text (after_prefix ''iter='' i) of None \<Rightarrow> None
              | Some i' \<Rightarrow> (case counter_text (after_prefix ''attempt='' a) of None \<Rightarrow> None
                            | Some a' \<Rightarrow> Some (n, i', b, a'))))
      in (case split_on CHR ''#'' key of
            [n, i, a] \<Rightarrow> with_branch n i None a
          | [n, i, b, a] \<Rightarrow>
              (case after_prefix ''branch='' b of
                 None \<Rightarrow> None
               | Some k \<Rightarrow> if k \<noteq> [] \<and> is_alnum (hd k) \<and> list_all branch_char (tl k)
                            then with_branch n i (Some k) a else None)
          | _ \<Rightarrow> None))"

definition parseGraphActivationKey :: "js \<Rightarrow> key_parts option" where
  "parseGraphActivationKey v =
     (case js_string v of
        None \<Rightarrow> None
      | Some key \<Rightarrow>
          if length key > maxActivationKeyChars then None
          else (case match_key key of
                  None \<Rightarrow> None
                | Some (n, i, b, a) \<Rightarrow>
                    (let parts = \<lparr>kp_nodeId = n, kp_iteration = int (number_of_digits i),
                                  kp_branchKey = b, kp_attempt = int (number_of_digits a)\<rparr>
                     in if graphActivationKey parts = Inr key then Some parts else None)))"

text \<open>The slot leaves the attempt out; it does not check its parts.\<close>

definition graphActivationSlot :: "string \<Rightarrow> int \<Rightarrow> string option \<Rightarrow> string" where
  "graphActivationSlot n i b = n @ ''#iter='' @ show_int i @ branch_text b"

section \<open>Artifact files\<close>

definition graphArtifactRunDirectory :: "string \<Rightarrow> string + string" where
  "graphArtifactRunDirectory r =
     (if isGraphRunId (JStr r) then Inr (GRAPH_ARTIFACT_DIRECTORY @ ''/'' @ r)
      else Inl ''Invalid graph run id'')"

definition graphArtifactFilePath :: "string \<Rightarrow> string \<Rightarrow> string option \<Rightarrow> string + string" where
  "graphArtifactFilePath r h e =
     (if \<not> GRAPH_SHA256_PATTERN h then Inl ''Invalid artifact SHA-256''
      else if (case e of None \<Rightarrow> False | Some x \<Rightarrow> \<not> GRAPH_ARTIFACT_EXTENSION_PATTERN x)
      then Inl ''Invalid artifact file extension''
      else (case graphArtifactRunDirectory r of
              Inl m \<Rightarrow> Inl m
            | Inr d \<Rightarrow> Inr (d @ ''/'' @ h
                 @ (case e of None \<Rightarrow> [] | Some x \<Rightarrow> if x = [] then [] else ''.'' @ x))))"

definition parseGraphArtifactFilePath :: "js \<Rightarrow> (string \<times> string \<times> string option) option" where
  "parseGraphArtifactFilePath v =
     (case js_string v of
        None \<Rightarrow> None
      | Some s \<Rightarrow>
          if length s > 512 then None
          else (case after_prefix (GRAPH_ARTIFACT_DIRECTORY @ ''/'') s of
                  None \<Rightarrow> None
                | Some rest \<Rightarrow>
                    (case split_on CHR ''/'' rest of
                       [r, name] \<Rightarrow>
                         if \<not> isGraphRunId (JStr r) then None
                         else (let h = takeWhile (\<lambda>x. x \<noteq> CHR ''.'') name;
                                   e = (if CHR ''.'' \<in> set name then Some (drop (length h + 1) name)
                                        else None)
                               in if \<not> GRAPH_SHA256_PATTERN h then None
                                  else if (case e of None \<Rightarrow> False
                                           | Some x \<Rightarrow> \<not> GRAPH_ARTIFACT_EXTENSION_PATTERN x)
                                  then None
                                  else Some (r, h, e))
                     | _ \<Rightarrow> None)))"

definition GRAPH_RUN_INPUT_PRODUCER :: string where "GRAPH_RUN_INPUT_PRODUCER = ''$input''"

definition isGraphRunInputProducer :: "artifact_producer \<Rightarrow> bool" where
  "isGraphRunInputProducer p \<longleftrightarrow>
     ap_nodeId p = GRAPH_RUN_INPUT_PRODUCER \<and> ap_activation p = GRAPH_RUN_INPUT_PRODUCER"

section \<open>Which characters a name may hold\<close>

lemma not_lower_digit: "lower_digit c \<Longrightarrow> c \<notin> {CHR ''#'', CHR ''/'', CHR ''.''}"
  by (auto simp: lower_digit_def is_lower_def is_digit_def)

lemma id_pattern_set: "GRAPH_ID_PATTERN s \<Longrightarrow> c \<in> set s \<Longrightarrow> lower_digit c \<or> c = CHR ''-''"
proof -
  assume id: "GRAPH_ID_PATTERN s" and "c \<in> set s"
  then have "c \<in> set (join_with ''-'' (split_on CHR ''-'' s))" by simp
  with set_join_with [of "''-''" "split_on CHR ''-'' s"]
  consider "c = CHR ''-''" | w where "w \<in> set (split_on CHR ''-'' s)" "c \<in> set w" by auto
  then show ?thesis
  proof cases
    case (2 w)
    with id have "list_all lower_digit w"
      by (auto simp: GRAPH_ID_PATTERN_def list_all_iff split: list.splits)
    with 2 show ?thesis by (simp add: list_all_iff)
  qed simp
qed

lemma plan_id_set:
  assumes "GRAPH_PLAN_ID_PATTERN s" and "c \<in> set s"
  shows "lower_digit c \<or> c \<in> {CHR ''-'', CHR ''/''}"
proof -
  from assms(2) have "c \<in> set (join_with ''/'' (split_on CHR ''/'' s))" by simp
  with set_join_with [of "''/''" "split_on CHR ''/'' s"]
  consider "c = CHR ''/''" | w where "w \<in> set (split_on CHR ''/'' s)" "c \<in> set w" by auto
  then show ?thesis
  proof cases
    case (2 w)
    with assms(1) have "GRAPH_ID_PATTERN w" by (simp add: GRAPH_PLAN_ID_PATTERN_def list_all_iff)
    with 2(2) id_pattern_set show ?thesis by blast
  qed simp
qed

lemma plan_id_no_hash: "GRAPH_PLAN_ID_PATTERN s \<Longrightarrow> CHR ''#'' \<notin> set s"
  using plan_id_set [of s "CHR ''#''"] by (auto simp: lower_digit_def is_lower_def is_digit_def)

lemma digit_not: "is_digit c \<Longrightarrow> c \<notin> {CHR ''#'', CHR ''/'', CHR ''.''}"
  by (auto simp: is_digit_def)

lemma digits_no_hash: "CHR ''#'' \<notin> set (digits_of_number n)"
  using digits_of_number_digits [of n] by (auto simp: list_all_iff dest: digit_not)

lemma alnum_not: "is_alnum c \<Longrightarrow> c \<notin> {CHR ''#'', CHR ''/'', CHR ''.''}"
  by (auto simp: is_alnum_def is_lower_def is_upper_def is_digit_def)

lemma branch_char_not: "branch_char c \<Longrightarrow> c \<notin> {CHR ''#'', CHR ''/''}"
  by (auto simp: branch_char_def dest: alnum_not)

lemma run_id_char_not: "run_id_char c \<Longrightarrow> c \<notin> {CHR ''#'', CHR ''/'', CHR ''.''}"
  by (auto simp: run_id_char_def dest: alnum_not)

lemma hex_char_not: "hex_char c \<Longrightarrow> c \<notin> {CHR ''#'', CHR ''/'', CHR ''.''}"
  by (auto simp: hex_char_def is_digit_def)

lemma branch_key_chars: "GRAPH_BRANCH_KEY_PATTERN s \<Longrightarrow> CHR ''#'' \<notin> set s \<and> CHR ''/'' \<notin> set s"
  by (auto simp: GRAPH_BRANCH_KEY_PATTERN_def list_all_iff split: list.splits
      dest: alnum_not branch_char_not)

lemma branch_key_shape:
  "GRAPH_BRANCH_KEY_PATTERN s \<Longrightarrow> s \<noteq> [] \<and> is_alnum (hd s) \<and> list_all branch_char (tl s)"
  by (auto simp: GRAPH_BRANCH_KEY_PATTERN_def split: list.splits)

lemma run_id_chars: "GRAPH_RUN_ID_PATTERN s \<Longrightarrow> CHR ''/'' \<notin> set s"
  by (auto simp: GRAPH_RUN_ID_PATTERN_def list_all_iff split: list.splits
      dest: alnum_not run_id_char_not)

lemma isGraphBranchKey_JStr [simp]: "isGraphBranchKey (JStr s) = GRAPH_BRANCH_KEY_PATTERN s"
  by (simp add: isGraphBranchKey_def)

lemma isGraphRunId_JStr [simp]: "isGraphRunId (JStr s) = GRAPH_RUN_ID_PATTERN s"
  by (simp add: isGraphRunId_def)

section \<open>The parsers invert the printers\<close>

lemma after_prefix_append [simp]: "after_prefix p (p @ s) = Some s"
  by (simp add: after_prefix_def)

lemma counter_text_digits:
  assumes "0 < n"
  shows "counter_text (Some (digits_of_number n)) = Some (digits_of_number n)"
proof -
  have "hd (digits_of_number n) \<noteq> CHR ''0''"
    using hd_digits_of_number [OF assms] by (auto simp: digit_value_def)
  then show ?thesis using digits_of_number_digits [of n] by (simp add: counter_text_def)
qed

lemma show_int_pos: "0 < n \<Longrightarrow> show_int n = digits_of_number (nat n)"
  by (simp add: show_int_def)

definition key_ok :: "key_parts \<Rightarrow> bool" where
  "key_ok p \<longleftrightarrow> isGraphPlanId (JStr (kp_nodeId p)) \<and> validCounter (kp_iteration p) maxIteration
     \<and> validCounter (kp_attempt p) maxAttempt
     \<and> (case kp_branchKey p of None \<Rightarrow> True | Some b \<Rightarrow> GRAPH_BRANCH_KEY_PATTERN b)"

lemma graphActivationKey_Inr:
  "graphActivationKey p = Inr key \<longleftrightarrow>
     key_ok p \<and> key = kp_nodeId p @ ''#iter='' @ show_int (kp_iteration p)
       @ branch_text (kp_branchKey p) @ ''#attempt='' @ show_int (kp_attempt p)"
  by (auto simp: graphActivationKey_def key_ok_def split: option.splits)

lemma match_key_printed:
  assumes ok: "key_ok p" and key: "graphActivationKey p = Inr key"
  shows "match_key key = Some (kp_nodeId p, show_int (kp_iteration p), kp_branchKey p,
           show_int (kp_attempt p))"
proof -
  let ?i = "digits_of_number (nat (kp_iteration p))"
    and ?a = "digits_of_number (nat (kp_attempt p))"
  have pos: "0 < kp_iteration p" "0 < kp_attempt p"
    using ok by (simp_all add: key_ok_def validCounter_def)
  have n: "GRAPH_PLAN_ID_PATTERN (kp_nodeId p)" using ok by (simp add: key_ok_def isGraphPlanId_def)
  note sep = plan_id_no_hash [OF n] digits_no_hash
  note split = split_on_append_sep [where c = "CHR ''#''"] split_on_plain
  have c: "counter_text (Some ?i) = Some ?i" "counter_text (Some ?a) = Some ?a"
    using pos by (simp_all add: counter_text_digits)
  have app: "after_prefix ''iter='' (''iter='' @ ?i) = Some ?i"
    "after_prefix ''attempt='' (''attempt='' @ ?a) = Some ?a" by (rule after_prefix_append)+
  show ?thesis
  proof (cases "kp_branchKey p")
    case None
    then have "key = kp_nodeId p @ CHR ''#'' # (''iter='' @ ?i) @ CHR ''#'' # ''attempt='' @ ?a"
      using key pos by (simp add: graphActivationKey_Inr branch_text_def show_int_pos)
    then have "split_on CHR ''#'' key = [kp_nodeId p, ''iter='' @ ?i, ''attempt='' @ ?a]"
      using sep by (simp only:) (subst split, simp, subst split, simp, subst split, simp_all)
    then show ?thesis using n None c app pos by (simp add: match_key_def Let_def show_int_pos)
  next
    case (Some b)
    then have b: "GRAPH_BRANCH_KEY_PATTERN b" using ok by (simp add: key_ok_def)
    from Some have "key = kp_nodeId p @ CHR ''#'' # (''iter='' @ ?i) @ CHR ''#'' # (''branch='' @ b)
        @ CHR ''#'' # ''attempt='' @ ?a"
      using key pos by (simp add: graphActivationKey_Inr branch_text_def show_int_pos)
    then have "split_on CHR ''#'' key =
        [kp_nodeId p, ''iter='' @ ?i, ''branch='' @ b, ''attempt='' @ ?a]"
      using sep branch_key_chars [OF b]
      by (simp only:) (subst split, simp, subst split, simp, subst split, simp, subst split, simp_all)
    moreover have "after_prefix ''branch='' (''branch='' @ b) = Some b" by (rule after_prefix_append)
    ultimately show ?thesis using n Some c app pos branch_key_shape [OF b]
      by (simp add: match_key_def Let_def show_int_pos)
  qed
qed

lemma length_digits_of_number: "0 < k \<Longrightarrow> n < 10 ^ k \<Longrightarrow> length (digits_of_number n) \<le> k"
proof (induction k arbitrary: n)
  case (Suc k)
  show ?case
  proof (cases "n < 10")
    case small: True
    show ?thesis by (simp add: small digits_of_number_small)
  next
    case False
    with Suc.prems have "n div 10 < 10 ^ k" "0 < k" by (cases k; simp add: less_mult_imp_div_less)+
    with Suc.IH [of "n div 10"] False show ?thesis by (subst digits_of_number.simps) simp
  qed
qed simp

lemma key_length:
  assumes "graphActivationKey p = Inr key"
  shows "length key \<le> maxActivationKeyChars"
proof -
  have ok: "key_ok p" and key: "key = kp_nodeId p @ ''#iter='' @ show_int (kp_iteration p)
       @ branch_text (kp_branchKey p) @ ''#attempt='' @ show_int (kp_attempt p)"
    using assms by (simp_all add: graphActivationKey_Inr)
  have "length (kp_nodeId p) \<le> 128"
    using ok by (simp add: key_ok_def isGraphPlanId_def GRAPH_PLAN_ID_MAX_CHARS_def)
  moreover have "length (show_int (kp_iteration p)) \<le> 2" "length (show_int (kp_attempt p)) \<le> 4"
    using ok length_digits_of_number [of 2 "nat (kp_iteration p)"]
      length_digits_of_number [of 4 "nat (kp_attempt p)"]
    by (auto simp: key_ok_def validCounter_def maxIteration_def maxAttempt_def show_int_def)
  moreover have "length (branch_text (kp_branchKey p)) \<le> 104"
    using ok by (auto simp: key_ok_def branch_text_def GRAPH_BRANCH_KEY_PATTERN_def
        split: option.splits list.splits)
  ultimately show ?thesis by (simp add: key maxActivationKeyChars_def)
qed

text \<open>C35. \<open>parseGraphActivationKey\<close> answers parts exactly for the keys \<open>graphActivationKey\<close> prints,
  and the parts it was printed from: no key is lost to the length bound or to the pattern, no other
  string is accepted, and two different parts never print the same key.\<close>

theorem activation_key_round_trip:
  "parseGraphActivationKey (JStr key) = Some parts \<longleftrightarrow> graphActivationKey parts = Inr key"
proof
  assume "parseGraphActivationKey (JStr key) = Some parts"
  then show "graphActivationKey parts = Inr key"
    by (auto simp: parseGraphActivationKey_def Let_def split: if_splits option.splits prod.splits)
next
  assume key: "graphActivationKey parts = Inr key"
  then have ok: "key_ok parts" by (simp add: graphActivationKey_Inr)
  then have pos: "0 < kp_iteration parts" "0 < kp_attempt parts"
    by (simp_all add: key_ok_def validCounter_def)
  show "parseGraphActivationKey (JStr key) = Some parts"
    using key key_length [OF key] match_key_printed [OF ok key] pos
    by (cases parts) (simp add: parseGraphActivationKey_def show_int_pos)
qed

definition artifact_name :: "string \<Rightarrow> string option \<Rightarrow> string" where
  "artifact_name h e = h @ (case e of None \<Rightarrow> [] | Some x \<Rightarrow> ''.'' @ x)"

lemma name_parts:
  "name = takeWhile (\<lambda>x. x \<noteq> c) name
     @ (if c \<in> set name then c # drop (length (takeWhile (\<lambda>x. x \<noteq> c) name) + 1) name else [])"
  by (induction name) auto

text \<open>A reference artifact's path names its run, its hash and its extension:
  \<open>parseGraphArtifactFilePath\<close> answers them exactly for the paths \<open>graphArtifactFilePath\<close> makes of
  them, so no other stored path is accepted and none leaves the run's directory.\<close>

theorem artifact_path_round_trip:
  "parseGraphArtifactFilePath (JStr path) = Some (r, h, e) \<longleftrightarrow> graphArtifactFilePath r h e = Inr path"
proof
  assume "parseGraphArtifactFilePath (JStr path) = Some (r, h, e)"
  then obtain rest name where
    "after_prefix (GRAPH_ARTIFACT_DIRECTORY @ ''/'') path = Some rest"
    and two: "split_on CHR ''/'' rest = [r, name]" and r: "GRAPH_RUN_ID_PATTERN r"
    and h: "h = takeWhile (\<lambda>x. x \<noteq> CHR ''.'') name" "GRAPH_SHA256_PATTERN h"
    and e: "e = (if CHR ''.'' \<in> set name then Some (drop (length h + 1) name) else None)"
    and x: "case e of None \<Rightarrow> True | Some x \<Rightarrow> GRAPH_ARTIFACT_EXTENSION_PATTERN x"
    by (auto simp: parseGraphArtifactFilePath_def Let_def split: if_splits option.splits list.splits)
  then have path: "path = GRAPH_ARTIFACT_DIRECTORY @ ''/'' @ rest"
    by (auto simp: after_prefix_def starts_with_iff split: if_splits)
  have rest: "rest = r @ ''/'' @ name" using join_split [of "CHR ''/''" rest] two by simp
  have name: "name = h @ (case e of None \<Rightarrow> [] | Some x \<Rightarrow> ''.'' @ x)"
    using name_parts [of name "CHR ''.''"] e h(1) by (auto simp del: takeWhile_eq_all_conv)
  from path rest name r h(2) x show "graphArtifactFilePath r h e = Inr path"
    by (auto simp: graphArtifactFilePath_def graphArtifactRunDirectory_def
        GRAPH_ARTIFACT_EXTENSION_PATTERN_def split: option.splits)
next
  assume "graphArtifactFilePath r h e = Inr path"
  then have h: "GRAPH_SHA256_PATTERN h" and r: "GRAPH_RUN_ID_PATTERN r"
    and x: "case e of None \<Rightarrow> True | Some x \<Rightarrow> GRAPH_ARTIFACT_EXTENSION_PATTERN x"
    and path: "path = (GRAPH_ARTIFACT_DIRECTORY @ ''/'') @ (r @ ''/'' @ artifact_name h e)"
    by (auto simp: graphArtifactFilePath_def graphArtifactRunDirectory_def artifact_name_def
        GRAPH_ARTIFACT_EXTENSION_PATTERN_def split: if_splits option.splits)
  have no: "CHR ''.'' \<notin> set h" "CHR ''/'' \<notin> set h"
    using h hex_char_not by (auto simp: GRAPH_SHA256_PATTERN_def list_all_iff)
  have "CHR ''/'' \<notin> set (artifact_name h e)"
    using no x not_lower_digit by (auto simp: artifact_name_def GRAPH_ARTIFACT_EXTENSION_PATTERN_def
        list_all_iff split: option.splits)
  then have "split_on CHR ''/'' (r @ ''/'' @ artifact_name h e) = [r, artifact_name h e]"
    using run_id_chars [OF r] by (simp add: split_on_append_sep split_on_plain)
  moreover have "takeWhile (\<lambda>x. x \<noteq> CHR ''.'') (artifact_name h e) = h"
    using no(1) by (cases e) (auto simp: artifact_name_def takeWhile_eq_all_conv)
  moreover have "(if CHR ''.'' \<in> set (artifact_name h e)
      then Some (drop (length h + 1) (artifact_name h e)) else None) = e"
    using no(1) by (cases e) (simp_all add: artifact_name_def)
  moreover have "length path \<le> 512"
    using h r x by (auto simp: path GRAPH_SHA256_PATTERN_def GRAPH_RUN_ID_PATTERN_def
        artifact_name_def GRAPH_ARTIFACT_EXTENSION_PATTERN_def GRAPH_ARTIFACT_DIRECTORY_def
        split: list.splits option.splits)
  moreover have "after_prefix (GRAPH_ARTIFACT_DIRECTORY @ ''/'') path = Some (r @ ''/'' @ artifact_name h e)"
    unfolding path by (rule after_prefix_append)
  ultimately show "parseGraphArtifactFilePath (JStr path) = Some (r, h, e)"
    using h r x by (auto simp: parseGraphArtifactFilePath_def Let_def split: option.splits if_splits)
qed

end
