(* ===== verification/Graph_Isolation.thy ===== *)
theory Graph_Isolation
  imports Graph_Identity
begin

text \<open>
  Isolated branch worktrees (\<^verbatim>\<open>packages/protocol/src/graphs/isolation.ts\<close>): which nodes are
  isolated and what they hold on the run's workspace, the paths and Git branches of their
  worktrees with the path parser, and the choice of a candidate by a select node.
\<close>

section \<open>Isolation\<close>

definition isolationMaxBranches :: nat where "isolationMaxBranches = 8"
definition maxLiveWorktreesPerEnvironment :: nat where "maxLiveWorktreesPerEnvironment = 16"

definition GRAPH_BRANCH_WORKTREE_DIRECTORY :: string where
  "GRAPH_BRANCH_WORKTREE_DIRECTORY = ''.orkestrator/graph-branches''"

definition GRAPH_BRANCH_REF_PREFIX :: string where
  "GRAPH_BRANCH_REF_PREFIX = ''orkestrator-graph''"

definition graphNodeIsolated :: "plan_node \<Rightarrow> bool" where
  "graphNodeIsolated n \<longleftrightarrow> pn_kind n = KAgent \<and> pn_isolation n = Some ''worktree''"

definition graphMainWorkspaceAccess :: "plan_node \<Rightarrow> ws_access" where
  "graphMainWorkspaceAccess n =
     (if graphNodeIsolated n \<and> pn_workspaceAccess n = AccWrite then AccRead else pn_workspaceAccess n)"

section \<open>Paths and branches\<close>

record branch_position =
  bp_nodeId :: string
  bp_iteration :: int
  bp_branchKey :: string

definition branchSegment :: "string \<Rightarrow> string" where
  "branchSegment k = map (\<lambda>c. if c = CHR '':'' then CHR ''_'' else c) k"

definition slash_to_dashes :: "string \<Rightarrow> string" where
  "slash_to_dashes s = concat (map (\<lambda>c. if c = CHR ''/'' then ''--'' else [c]) s)"

definition graphBranchNodeSegment :: "string \<Rightarrow> string + string" where
  "graphBranchNodeSegment n =
     (if isGraphPlanId (JStr n) then Inr (slash_to_dashes n) else Inl ''Invalid graph node id'')"

definition leaf :: "branch_position \<Rightarrow> string + string" where
  "leaf p =
     (case graphBranchNodeSegment (bp_nodeId p) of
        Inl m \<Rightarrow> Inl m
      | Inr node \<Rightarrow>
          if \<not> isSafeInteger (bp_iteration p) \<or> bp_iteration p < 1 then Inl ''Invalid loop iteration''
          else if \<not> isGraphBranchKey (JStr (bp_branchKey p)) then Inl ''Invalid branch key''
          else Inr (node @ ''/i'' @ show_int (bp_iteration p) @ ''/'' @ branchSegment (bp_branchKey p)))"

definition graphRunBranchWorktreeDirectory :: "string \<Rightarrow> string + string" where
  "graphRunBranchWorktreeDirectory r =
     (if isGraphRunId (JStr r) then Inr (GRAPH_BRANCH_WORKTREE_DIRECTORY @ ''/'' @ r)
      else Inl ''Invalid graph run id'')"

definition graphRunBranchRefPrefix :: "string \<Rightarrow> string + string" where
  "graphRunBranchRefPrefix r =
     (if isGraphRunId (JStr r) then Inr (GRAPH_BRANCH_REF_PREFIX @ ''/'' @ r @ ''/'')
      else Inl ''Invalid graph run id'')"

definition graphBranchWorktreePath :: "string \<Rightarrow> branch_position \<Rightarrow> string + string" where
  "graphBranchWorktreePath r p =
     (case graphRunBranchWorktreeDirectory r of
        Inl m \<Rightarrow> Inl m
      | Inr d \<Rightarrow> (case leaf p of Inl m \<Rightarrow> Inl m | Inr l \<Rightarrow> Inr (d @ ''/'' @ l)))"

definition graphBranchWorktreeRef :: "string \<Rightarrow> branch_position \<Rightarrow> string + string" where
  "graphBranchWorktreeRef r p =
     (case graphRunBranchRefPrefix r of
        Inl m \<Rightarrow> Inl m
      | Inr d \<Rightarrow> (case leaf p of Inl m \<Rightarrow> Inl m | Inr l \<Rightarrow> Inr (d @ l)))"

text \<open>\<open>replaceAll("--", "/")\<close>: the leftmost occurrences, none overlapping.\<close>

fun dashes_to_slash :: "string \<Rightarrow> string" where
  "dashes_to_slash (a # b # s) =
     (if a = CHR ''-'' \<and> b = CHR ''-'' then CHR ''/'' # dashes_to_slash s
      else a # dashes_to_slash (b # s))"
| "dashes_to_slash s = s"

definition iteration_segment :: "string \<Rightarrow> bool" where
  "iteration_segment s =
     (case s of
        i # d # ds \<Rightarrow> i = CHR ''i'' \<and> is_digit d \<and> d \<noteq> CHR ''0'' \<and> list_all is_digit ds \<and> length ds \<le> 3
      | _ \<Rightarrow> False)"

definition segment_char :: "char \<Rightarrow> bool" where
  "segment_char c \<longleftrightarrow> is_alnum c \<or> c \<in> {CHR ''.'', CHR ''_'', CHR ''+'', CHR ''-''}"

definition branch_path_segment :: "string \<Rightarrow> bool" where
  "branch_path_segment s =
     (case s of [] \<Rightarrow> False | c # cs \<Rightarrow> is_alnum c \<and> list_all segment_char cs \<and> length cs \<le> 95)"

definition parseGraphBranchWorktreePath :: "js \<Rightarrow> string option" where
  "parseGraphBranchWorktreePath v =
     (case js_string v of
        None \<Rightarrow> None
      | Some s \<Rightarrow>
          if length s > 512 then None
          else (case after_prefix (GRAPH_BRANCH_WORKTREE_DIRECTORY @ ''/'') s of
                  None \<Rightarrow> None
                | Some rest \<Rightarrow>
                    (case split_on CHR ''/'' rest of
                       [r, n, i, b] \<Rightarrow>
                         if \<not> isGraphRunId (JStr r) \<or> \<not> isGraphPlanId (JStr (dashes_to_slash n)) then None
                         else if \<not> iteration_segment i \<or> \<not> branch_path_segment b then None
                         else Some r
                     | _ \<Rightarrow> None)))"

section \<open>Select\<close>

record select_candidate =
  sc_branchKey :: "string option"
  sc_branch :: string
  sc_headRef :: string
  sc_usable :: bool

datatype select_match = ByChoice | ByFallback

datatype select_fallback = FallbackFail | FallbackFirst

definition lastPart :: "string \<Rightarrow> string" where
  "lastPart k =
     (let axis = last (split_on CHR ''+'' k)
      in if CHR ''.'' \<in> set axis then tl (dropWhile (\<lambda>c. c \<noteq> CHR ''.'') axis) else axis)"

definition fall_back ::
  "select_candidate list \<Rightarrow> select_fallback \<Rightarrow> string \<Rightarrow> string + nat \<times> select_match" where
  "fall_back cs fb message =
     (case fb of
        FallbackFirst \<Rightarrow>
          (case find_index sc_usable cs of
             Some i \<Rightarrow> Inr (i, ByFallback)
           | None \<Rightarrow> Inl ''No candidate branch succeeded'')
      | FallbackFail \<Rightarrow> Inl message)"

text \<open>A quote character, written as its code.\<close>

definition quoted :: "string \<Rightarrow> string" where
  "quoted s = [CHR 0x22] @ s @ [CHR 0x22]"

definition part_matches :: "select_candidate list \<Rightarrow> string \<Rightarrow> nat list" where
  "part_matches cs choice =
     filter (\<lambda>i. case sc_branchKey (cs ! i) of None \<Rightarrow> False | Some k \<Rightarrow> lastPart k = choice)
       [0..<length cs]"

definition resolveGraphSelectChoice ::
  "select_candidate list \<Rightarrow> js \<Rightarrow> select_fallback \<Rightarrow> string + nat \<times> select_match" where
  "resolveGraphSelectChoice cs choice_arg fb =
     (case js_string choice_arg of
        None \<Rightarrow> fall_back cs fb ''The decision names no branch''
      | Some choice \<Rightarrow>
          if choice = [] then fall_back cs fb ''The decision names no branch''
          else
            (let settle = (\<lambda>index. case index of
                   None \<Rightarrow> fall_back cs fb (''The choice '' @ quoted (take 96 choice) @ '' names no candidate branch'')
                 | Some i \<Rightarrow>
                     if \<not> sc_usable (cs ! i)
                     then fall_back cs fb
                            (''The chosen branch '' @ quoted (take 96 choice) @ '' did not produce a commit'')
                     else Inr (i, ByChoice))
             in (case find_index (\<lambda>c. sc_branchKey c = Some choice) cs of
                   Some i \<Rightarrow> settle (Some i)
                 | None \<Rightarrow>
                     (case part_matches cs choice of
                        [] \<Rightarrow> settle (find_index (\<lambda>c. sc_branch c = choice) cs)
                      | [i] \<Rightarrow> settle (Some i)
                      | _ \<Rightarrow> fall_back cs fb
                               (''The choice '' @ quoted (take 96 choice) @ '' names more than one branch'')))))"

section \<open>Paths name their node\<close>

lemma dashes_to_slash_Cons: "c \<noteq> CHR ''-'' \<Longrightarrow> dashes_to_slash (c # s) = c # dashes_to_slash s"
  by (cases s) simp_all

text \<open>No two hyphens in a row, none at an end and none beside a slash: the shape of a plan id.\<close>

fun single_hyphens :: "string \<Rightarrow> bool" where
  "single_hyphens (a # b # s) \<longleftrightarrow>
     (a = CHR ''-'' \<longrightarrow> b \<noteq> CHR ''-'' \<and> b \<noteq> CHR ''/'')
     \<and> (a = CHR ''/'' \<longrightarrow> b \<noteq> CHR ''-'') \<and> single_hyphens (b # s)"
| "single_hyphens s \<longleftrightarrow> s \<noteq> ''-''"

lemma slash_to_dashes_simps [simp]:
  "slash_to_dashes [] = []"
  "slash_to_dashes (c # s) = (if c = CHR ''/'' then ''--'' else [c]) @ slash_to_dashes s"
  by (simp_all add: slash_to_dashes_def)

lemma dashes_slash_inverse: "single_hyphens s \<Longrightarrow> dashes_to_slash (slash_to_dashes s) = s"
proof (induction s rule: single_hyphens.induct)
  case (1 a b s)
  then show ?case by (cases "a = CHR ''-''"; cases "a = CHR ''/''") (auto simp: dashes_to_slash_Cons)
qed (auto simp: dashes_to_slash_Cons)

lemma single_hyphens_append:
  "single_hyphens u \<Longrightarrow> single_hyphens v \<Longrightarrow> u \<noteq> [] \<Longrightarrow> v \<noteq> [] \<Longrightarrow> last u \<noteq> CHR ''-'' \<Longrightarrow>
    hd v \<noteq> CHR ''-'' \<Longrightarrow> hd v \<noteq> CHR ''/'' \<Longrightarrow> c \<in> {CHR ''-'', CHR ''/''} \<Longrightarrow> last u \<noteq> CHR ''/'' \<Longrightarrow>
    single_hyphens (u @ c # v)"
  by (induction u rule: single_hyphens.induct) (cases v; auto)+

definition word_ends :: "string \<Rightarrow> bool" where
  "word_ends s \<longleftrightarrow> s \<noteq> [] \<and> hd s \<notin> {CHR ''-'', CHR ''/''} \<and> last s \<notin> {CHR ''-'', CHR ''/''}"

definition good_word :: "string \<Rightarrow> bool" where
  "good_word s \<longleftrightarrow> single_hyphens s \<and> word_ends s"

lemma good_join:
  assumes "ws \<noteq> []" and "list_all good_word ws" and "c \<in> {CHR ''-'', CHR ''/''}"
  shows "good_word (join_with [c] ws)"
  using assms
proof (induction "[c]" ws rule: join_with.induct)
  case (3 w v ws)
  then have w: "good_word w" and r: "good_word (join_with [c] (v # ws))" by simp_all
  then have "single_hyphens (w @ c # join_with [c] (v # ws))"
    using 3(4) by (intro single_hyphens_append) (auto simp: good_word_def word_ends_def)
  with w r show ?case by (auto simp: good_word_def word_ends_def)
qed simp_all

lemma single_hyphens_plain: "CHR ''-'' \<notin> set s \<Longrightarrow> single_hyphens s"
  by (induction s rule: single_hyphens.induct) auto

lemma lower_digit_sep: "lower_digit c \<Longrightarrow> c \<notin> {CHR ''-'', CHR ''/''}"
  by (auto simp: lower_digit_def is_lower_def is_digit_def)

lemma good_lower_word: "w \<noteq> [] \<Longrightarrow> list_all lower_digit w \<Longrightarrow> good_word w"
  using lower_digit_sep
  by (auto simp: good_word_def word_ends_def list_all_iff intro!: single_hyphens_plain)

lemma good_id: "GRAPH_ID_PATTERN s \<Longrightarrow> good_word s"
proof -
  assume "GRAPH_ID_PATTERN s"
  then have "list_all good_word (split_on CHR ''-'' s)"
    by (auto simp: GRAPH_ID_PATTERN_def list_all_iff good_lower_word split: list.splits)
  then have "good_word (join_with ''-'' (split_on CHR ''-'' s))" by (intro good_join) simp_all
  then show ?thesis by simp
qed

lemma good_plan_id: "GRAPH_PLAN_ID_PATTERN s \<Longrightarrow> good_word s"
proof -
  assume "GRAPH_PLAN_ID_PATTERN s"
  then have "list_all good_word (split_on CHR ''/'' s)"
    by (auto simp: GRAPH_PLAN_ID_PATTERN_def list_all_iff good_id)
  then have "good_word (join_with ''/'' (split_on CHR ''/'' s))" by (intro good_join) simp_all
  then show ?thesis by simp
qed

lemma slash_to_dashes_no_slash: "CHR ''/'' \<notin> set (slash_to_dashes s)"
  by (induction s) auto

lemma length_join_with:
  "ws \<noteq> [] \<Longrightarrow> [] \<notin> set ws \<Longrightarrow> 2 * length ws \<le> length (join_with [c] ws) + 1"
proof (induction "[c]" ws rule: join_with.induct)
  case (3 w v ws)
  then show ?case by (cases w) auto
next
  case (2 w)
  then show ?case by (cases w) auto
qed simp

lemma length_slash_split:
  "length (slash_to_dashes s) + 1 = length s + length (split_on CHR ''/'' s)"
  by (induction s) (auto split: list.splits)

lemma length_slash_to_dashes:
  assumes "GRAPH_PLAN_ID_PATTERN s"
  shows "2 * length (slash_to_dashes s) \<le> 3 * length s"
proof -
  have "[] \<notin> set (split_on CHR ''/'' s)"
    using assms by (auto simp: GRAPH_PLAN_ID_PATTERN_def list_all_iff dest!: id_pattern_nonempty)
  then have "2 * length (split_on CHR ''/'' s) \<le> length s + 1"
    using length_join_with [of "split_on CHR ''/'' s" "CHR ''/''"] by simp
  then show ?thesis using length_slash_split [of s] by linarith
qed

lemma node_segment_inverse:
  "graphBranchNodeSegment n = Inr s \<Longrightarrow> dashes_to_slash s = n \<and> CHR ''/'' \<notin> set s \<and> length s \<le> 192"
  using good_plan_id [of n] dashes_slash_inverse [of n] slash_to_dashes_no_slash [of n]
    length_slash_to_dashes [of n]
  by (auto simp: graphBranchNodeSegment_def isGraphPlanId_def good_word_def GRAPH_PLAN_ID_MAX_CHARS_def
      split: if_splits)

text \<open>The four segments of a worktree path below the directory of all of them.\<close>

lemma branchSegment_path:
  assumes "GRAPH_BRANCH_KEY_PATTERN k"
  shows "branch_path_segment (branchSegment k) \<and> CHR ''/'' \<notin> set (branchSegment k)"
proof -
  have "segment_char c" if "branch_char c" "c \<noteq> CHR '':''" for c
    using that by (auto simp: segment_char_def branch_char_def)
  moreover have "segment_char CHR ''_''" by (simp add: segment_char_def)
  moreover have "is_alnum c \<Longrightarrow> c \<noteq> CHR '':''" for c
    by (auto simp: is_alnum_def is_lower_def is_upper_def is_digit_def)
  ultimately show ?thesis
    using assms branch_key_chars [OF assms]
    by (auto simp: GRAPH_BRANCH_KEY_PATTERN_def branch_path_segment_def branchSegment_def list_all_iff
        split: list.splits)
qed

lemma path_Inr:
  assumes "graphBranchWorktreePath r p = Inr path"
  obtains node where "GRAPH_RUN_ID_PATTERN r" and "graphBranchNodeSegment (bp_nodeId p) = Inr node"
    and "isSafeInteger (bp_iteration p)" and "1 \<le> bp_iteration p"
    and "GRAPH_BRANCH_KEY_PATTERN (bp_branchKey p)"
    and "path = (GRAPH_BRANCH_WORKTREE_DIRECTORY @ ''/'') @ r @ CHR ''/'' # node @ CHR ''/''
      # (CHR ''i'' # show_int (bp_iteration p)) @ CHR ''/'' # branchSegment (bp_branchKey p)"
    and "split_on CHR ''/'' (r @ CHR ''/'' # node @ CHR ''/''
      # (CHR ''i'' # show_int (bp_iteration p)) @ CHR ''/'' # branchSegment (bp_branchKey p))
      = [r, node, CHR ''i'' # show_int (bp_iteration p), branchSegment (bp_branchKey p)]"
proof -
  obtain node where f: "GRAPH_RUN_ID_PATTERN r" "graphBranchNodeSegment (bp_nodeId p) = Inr node"
    "isSafeInteger (bp_iteration p)" "1 \<le> bp_iteration p" "GRAPH_BRANCH_KEY_PATTERN (bp_branchKey p)"
    "path = (GRAPH_BRANCH_WORKTREE_DIRECTORY @ ''/'') @ r @ CHR ''/'' # node @ CHR ''/''
      # (CHR ''i'' # show_int (bp_iteration p)) @ CHR ''/'' # branchSegment (bp_branchKey p)"
    using assms by (auto simp: graphBranchWorktreePath_def graphRunBranchWorktreeDirectory_def leaf_def
        split: if_splits sum.splits)
  have "CHR ''/'' \<notin> set (show_int (bp_iteration p))"
    using digits_of_number_digits f(4) by (auto simp: show_int_def list_all_iff dest!: digit_not)
  then have "CHR ''/'' \<notin> set (CHR ''i'' # show_int (bp_iteration p))" by simp
  then have "split_on CHR ''/'' (r @ CHR ''/'' # node @ CHR ''/''
      # (CHR ''i'' # show_int (bp_iteration p)) @ CHR ''/'' # branchSegment (bp_branchKey p))
      = [r, node, CHR ''i'' # show_int (bp_iteration p), branchSegment (bp_branchKey p)]"
    using run_id_chars [OF f(1)] node_segment_inverse [OF f(2)] branchSegment_path [OF f(5)]
    by (simp only: split_on_append_sep split_on_plain not_False_eq_True simp_thms)
  with f that show thesis by blast
qed

lemma iteration_segment_show:
  assumes "1 \<le> n" and "n \<le> 9999"
  shows "iteration_segment (CHR ''i'' # show_int n)"
proof -
  obtain d ds where ds: "show_int n = d # ds"
    using assms(1) by (cases "digits_of_number (nat n)") (auto simp: show_int_def)
  have "d \<noteq> CHR ''0''"
    using hd_digits_of_number [of "nat n"] assms(1) ds by (auto simp: show_int_def digit_value_def)
  moreover have "list_all is_digit (d # ds)"
    using digits_of_number_digits [of "nat n"] assms(1) ds by (simp add: show_int_def)
  moreover have "length (d # ds) \<le> 4"
    using length_digits_of_number [of 4 "nat n"] assms ds by (simp add: show_int_def)
  ultimately show ?thesis by (simp add: iteration_segment_def ds)
qed

lemma path_length:
  assumes "path = (GRAPH_BRANCH_WORKTREE_DIRECTORY @ ''/'') @ r @ CHR ''/'' # node @ CHR ''/''
      # (CHR ''i'' # show_int i) @ CHR ''/'' # branchSegment k"
    and "GRAPH_RUN_ID_PATTERN r" and "graphBranchNodeSegment n = Inr node" and "1 \<le> i"
    and "i \<le> maxIteration" and "GRAPH_BRANCH_KEY_PATTERN k"
  shows "length path \<le> 512"
proof -
  have "length r \<le> 128" using assms(2) by (auto simp: GRAPH_RUN_ID_PATTERN_def split: list.splits)
  moreover have "length node \<le> 192" using node_segment_inverse [OF assms(3)] by simp
  moreover have "length (show_int i) \<le> 2"
    using length_digits_of_number [of 2 "nat i"] assms(4,5) by (simp add: show_int_def maxIteration_def)
  moreover have "length (branchSegment k) \<le> 96"
    using assms(6) by (auto simp: GRAPH_BRANCH_KEY_PATTERN_def branchSegment_def split: list.splits)
  ultimately show ?thesis by (simp add: assms(1) GRAPH_BRANCH_WORKTREE_DIRECTORY_def)
qed

lemma show_int_inj: "0 < m \<Longrightarrow> 0 < n \<Longrightarrow> show_int m = show_int n \<Longrightarrow> m = n"
  by (metis nat_0_le nat_eq_iff2 number_of_digits_digits order_less_imp_le show_int_pos)

text \<open>A branch worktree's path is of the run's own directory, is recognised as the run's by
  \<open>parseGraphBranchWorktreePath\<close>, and names its node and iteration, and its branch up to the letter
  that replaced a colon: two positions of any two runs that have the same path are of the same run,
  node and iteration.\<close>

theorem worktree_path_names_position:
  assumes "graphBranchWorktreePath r p = Inr path" and "bp_iteration p \<le> maxIteration"
    and "graphBranchWorktreePath r' p' = Inr path"
  shows "parseGraphBranchWorktreePath (JStr path) = Some r \<and> r' = r \<and> bp_nodeId p' = bp_nodeId p
    \<and> bp_iteration p' = bp_iteration p
    \<and> branchSegment (bp_branchKey p') = branchSegment (bp_branchKey p)"
proof -
  from assms(1) obtain node where f: "GRAPH_RUN_ID_PATTERN r"
    "graphBranchNodeSegment (bp_nodeId p) = Inr node" "1 \<le> bp_iteration p"
    "GRAPH_BRANCH_KEY_PATTERN (bp_branchKey p)"
    and path: "path = (GRAPH_BRANCH_WORKTREE_DIRECTORY @ ''/'') @ r @ CHR ''/'' # node @ CHR ''/''
      # (CHR ''i'' # show_int (bp_iteration p)) @ CHR ''/'' # branchSegment (bp_branchKey p)"
    and split: "split_on CHR ''/'' (r @ CHR ''/'' # node @ CHR ''/''
      # (CHR ''i'' # show_int (bp_iteration p)) @ CHR ''/'' # branchSegment (bp_branchKey p))
      = [r, node, CHR ''i'' # show_int (bp_iteration p), branchSegment (bp_branchKey p)]"
    by (rule path_Inr)
  from assms(3) obtain node' where f': "graphBranchNodeSegment (bp_nodeId p') = Inr node'"
    "1 \<le> bp_iteration p'"
    and path': "path = (GRAPH_BRANCH_WORKTREE_DIRECTORY @ ''/'') @ r' @ CHR ''/'' # node' @ CHR ''/''
      # (CHR ''i'' # show_int (bp_iteration p')) @ CHR ''/'' # branchSegment (bp_branchKey p')"
    and split': "split_on CHR ''/'' (r' @ CHR ''/'' # node' @ CHR ''/''
      # (CHR ''i'' # show_int (bp_iteration p')) @ CHR ''/'' # branchSegment (bp_branchKey p'))
      = [r', node', CHR ''i'' # show_int (bp_iteration p'), branchSegment (bp_branchKey p')]"
    by (rule path_Inr)
  from path path' split split' have same: "r' = r" "node' = node"
    "show_int (bp_iteration p') = show_int (bp_iteration p)"
    "branchSegment (bp_branchKey p') = branchSegment (bp_branchKey p)" by auto
  have "bp_iteration p' = bp_iteration p" using f(3) f'(2) same(3) by (intro show_int_inj) simp_all
  moreover have "bp_nodeId p' = bp_nodeId p"
    using node_segment_inverse [OF f(2)] node_segment_inverse [OF f'(1)] same(2) by simp
  moreover have "parseGraphBranchWorktreePath (JStr path) = Some r"
  proof -
    have seg: "iteration_segment (CHR ''i'' # show_int (bp_iteration p))"
      by (rule iteration_segment_show) (use f(3) assms(2) in \<open>simp_all add: maxIteration_def\<close>)
    have bs: "branch_path_segment (branchSegment (bp_branchKey p))"
      using branchSegment_path [OF f(4)] by simp
    have "isGraphPlanId (JStr (dashes_to_slash node))"
      using node_segment_inverse [OF f(2)] f(2) by (simp add: graphBranchNodeSegment_def split: if_splits)
    moreover have "length path \<le> 512"
      by (rule path_length) (use path f assms(2) in simp_all)
    moreover have "after_prefix (GRAPH_BRANCH_WORKTREE_DIRECTORY @ ''/'') path =
        Some (r @ CHR ''/'' # node @ CHR ''/''
          # (CHR ''i'' # show_int (bp_iteration p)) @ CHR ''/'' # branchSegment (bp_branchKey p))"
      unfolding path by (rule after_prefix_append)
    ultimately show ?thesis
      using f(1) seg bs split by (simp add: parseGraphBranchWorktreePath_def)
  qed
  ultimately show ?thesis using same by simp
qed

theorem worktree_path_names_position_witness:
  "parseGraphBranchWorktreePath (JStr ''.orkestrator/graph-branches/r1/review--fix/i2/item.a_b'') = Some ''r1''"
proof -
  let ?p = "\<lparr>bp_nodeId = ''review/fix'', bp_iteration = 2, bp_branchKey = ''item.a:b''\<rparr>"
  have "graphBranchWorktreePath ''r1'' ?p = Inr ''.orkestrator/graph-branches/r1/review--fix/i2/item.a_b''"
    by code_simp
  moreover have "bp_iteration ?p \<le> maxIteration" by (simp add: maxIteration_def)
  ultimately show ?thesis using worktree_path_names_position by blast
qed

text \<open>
  The letter that replaces a colon may stand in a branch key already: the branches of the items
  \<open>a/b\<close> and \<open>a+b\<close> (keys \<open>item.a:b\<close> and \<open>item.a_b\<close>) of one position have one worktree path.
\<close>

lemma worktree_path_collision:
  "\<exists>p p'. p \<noteq> p' \<and> (\<exists>path. graphBranchWorktreePath ''r'' p = Inr path \<and> graphBranchWorktreePath ''r'' p' = Inr path)"
proof (intro exI conjI)
  let ?p = "\<lparr>bp_nodeId = ''fix'', bp_iteration = 1, bp_branchKey = ''item.a:b''\<rparr>"
  let ?p' = "\<lparr>bp_nodeId = ''fix'', bp_iteration = 1, bp_branchKey = ''item.a_b''\<rparr>"
  show "?p \<noteq> ?p'" by simp
  show "graphBranchWorktreePath ''r'' ?p = Inr ''.orkestrator/graph-branches/r/fix/i1/item.a_b''" by code_simp
  show "graphBranchWorktreePath ''r'' ?p' = Inr ''.orkestrator/graph-branches/r/fix/i1/item.a_b''" by code_simp
qed

section \<open>The choice of a candidate\<close>

lemma fall_back_Inr:
  "fall_back cs fb m = Inr (i, b) \<Longrightarrow>
    b = ByFallback \<and> fb = FallbackFirst \<and> find_index sc_usable cs = Some i"
  by (auto simp: fall_back_def split: select_fallback.splits option.splits)

lemma resolve_cases:
  assumes "resolveGraphSelectChoice cs v fb = Inr (i, b)"
  shows "b = ByFallback \<and> fb = FallbackFirst \<and> find_index sc_usable cs = Some i
    \<or> b = ByChoice \<and> sc_usable (cs ! i) \<and> (\<exists>choice. v = JStr choice
        \<and> (find_index (\<lambda>c. sc_branchKey c = Some choice) cs = Some i
          \<or> find_index (\<lambda>c. sc_branchKey c = Some choice) cs = None
            \<and> (part_matches cs choice = [i]
              \<or> part_matches cs choice = [] \<and> find_index (\<lambda>c. sc_branch c = choice) cs = Some i)))"
  using assms
  by (auto simp: resolveGraphSelectChoice_def Let_def simp del: find_index_None
      split: option.splits if_splits list.splits dest!: fall_back_Inr)



end
