(* ===== verification/Sha256.thy ===== *)
theory Sha256
  imports Prelude "HOL-Library.Word"
begin

text \<open>
  The synchronous SHA-256 of the graph modules (\<^verbatim>\<open>packages/protocol/src/graphs/sha256.ts\<close>)
  on 32-bit words, and its equivalence with the definitions of FIPS 180-4.

  Array buffers are lists of bytes. The source's sums of 32-bit words are exact doubles that
  \<^verbatim>\<open>>>> 0\<close> or a typed array reduces modulo \<open>2 ^ 32\<close>; its signed intermediates are only
  combined bitwise and reduced the same way.
\<close>

unbundle bit_operations_syntax

section \<open>The source\<close>

text \<open>The constants, four words to a row.\<close>

definition SHA_K :: "32 word list" where
  "SHA_K = concat [
    [0x428a2f98, 0x71374491, 0xb5c0fbcf, 0xe9b5dba5],
    [0x3956c25b, 0x59f111f1, 0x923f82a4, 0xab1c5ed5],
    [0xd807aa98, 0x12835b01, 0x243185be, 0x550c7dc3],
    [0x72be5d74, 0x80deb1fe, 0x9bdc06a7, 0xc19bf174],
    [0xe49b69c1, 0xefbe4786, 0x0fc19dc6, 0x240ca1cc],
    [0x2de92c6f, 0x4a7484aa, 0x5cb0a9dc, 0x76f988da],
    [0x983e5152, 0xa831c66d, 0xb00327c8, 0xbf597fc7],
    [0xc6e00bf3, 0xd5a79147, 0x06ca6351, 0x14292967],
    [0x27b70a85, 0x2e1b2138, 0x4d2c6dfc, 0x53380d13],
    [0x650a7354, 0x766a0abb, 0x81c2c92e, 0x92722c85],
    [0xa2bfe8a1, 0xa81a664b, 0xc24b8b70, 0xc76c51a3],
    [0xd192e819, 0xd6990624, 0xf40e3585, 0x106aa070],
    [0x19a4c116, 0x1e376c08, 0x2748774c, 0x34b0bcb5],
    [0x391c0cb3, 0x4ed8aa4a, 0x5b9cca4f, 0x682e6ff3],
    [0x748f82ee, 0x78a5636f, 0x84c87814, 0x8cc70208],
    [0x90befffa, 0xa4506ceb, 0xbef9a3f7, 0xc67178f2]]"

definition INITIAL :: "32 word list" where
  "INITIAL = concat [
    [0x6a09e667, 0xbb67ae85, 0x3c6ef372, 0xa54ff53a],
    [0x510e527f, 0x9b05688c, 0x1f83d9ab, 0x5be0cd19]]"

definition rotr :: "32 word \<Rightarrow> nat \<Rightarrow> 32 word" where
  "rotr x bits = drop_bit bits x OR push_bit (32 - bits) x"

text \<open>\<open>setUint32\<close> and \<open>getUint32\<close> of a \<open>DataView\<close>, big-endian.\<close>

definition be32 :: "32 word \<Rightarrow> 8 word list" where
  "be32 w = [ucast (drop_bit 24 w), ucast (drop_bit 16 w), ucast (drop_bit 8 w), ucast w]"

definition set_uint32 :: "nat \<Rightarrow> 32 word \<Rightarrow> 8 word list \<Rightarrow> 8 word list" where
  "set_uint32 off w buf = take off buf @ be32 w @ drop (off + 4) buf"

definition get_uint32 :: "8 word list \<Rightarrow> nat \<Rightarrow> 32 word" where
  "get_uint32 buf off =
     push_bit 24 (ucast (buf ! off)) OR push_bit 16 (ucast (buf ! (off + 1)))
       OR push_bit 8 (ucast (buf ! (off + 2))) OR ucast (buf ! (off + 3))"

text \<open>\<open>Math.ceil((length + 9) / 64)\<close>.\<close>

definition block_count :: "nat \<Rightarrow> nat" where
  "block_count n = (n + 9 + 63) div 64"

definition padded_message :: "8 word list \<Rightarrow> 8 word list" where
  "padded_message bytes =
     (let n = length bytes;
          size = block_count n * 64;
          padded = bytes @ replicate (size - n) 0;
          padded = padded[n := 0x80];
          bits = n * 8;
          padded = set_uint32 (size - 8) (of_nat (bits div 2 ^ 32)) padded
      in set_uint32 (size - 4) (of_nat bits) padded)"

definition schedule_step :: "32 word list \<Rightarrow> nat \<Rightarrow> 32 word list" where
  "schedule_step w i =
     (let a = w ! (i - 15);
          b = w ! (i - 2);
          s0 = rotr a 7 XOR rotr a 18 XOR drop_bit 3 a;
          s1 = rotr b 17 XOR rotr b 19 XOR drop_bit 10 b
      in w[i := w ! (i - 16) + s0 + w ! (i - 7) + s1])"

definition schedule :: "8 word list \<Rightarrow> nat \<Rightarrow> 32 word list" where
  "schedule buf off =
     foldl schedule_step (map (\<lambda>i. get_uint32 buf (off + i * 4)) [0..<16] @ replicate 48 0) [16..<64]"

record sha_vars =
  sv_a :: "32 word"
  sv_b :: "32 word"
  sv_c :: "32 word"
  sv_d :: "32 word"
  sv_e :: "32 word"
  sv_f :: "32 word"
  sv_g :: "32 word"
  sv_h :: "32 word"

definition sha_round :: "32 word list \<Rightarrow> sha_vars \<Rightarrow> nat \<Rightarrow> sha_vars" where
  "sha_round w v i =
     (let s1 = rotr (sv_e v) 6 XOR rotr (sv_e v) 11 XOR rotr (sv_e v) 25;
          choice = (sv_e v AND sv_f v) XOR (NOT (sv_e v) AND sv_g v);
          t1 = sv_h v + s1 + choice + SHA_K ! i + w ! i;
          s0 = rotr (sv_a v) 2 XOR rotr (sv_a v) 13 XOR rotr (sv_a v) 22;
          majority = (sv_a v AND sv_b v) XOR (sv_a v AND sv_c v) XOR (sv_b v AND sv_c v);
          t2 = s0 + majority
      in \<lparr>sv_a = t1 + t2, sv_b = sv_a v, sv_c = sv_b v, sv_d = sv_c v,
          sv_e = sv_d v + t1, sv_f = sv_e v, sv_g = sv_f v, sv_h = sv_g v\<rparr>)"

definition sha_block :: "8 word list \<Rightarrow> 32 word list \<Rightarrow> nat \<Rightarrow> 32 word list" where
  "sha_block buf hash block =
     (let w = schedule buf (block * 64);
          v = foldl (sha_round w)
                \<lparr>sv_a = hash ! 0, sv_b = hash ! 1, sv_c = hash ! 2, sv_d = hash ! 3,
                 sv_e = hash ! 4, sv_f = hash ! 5, sv_g = hash ! 6, sv_h = hash ! 7\<rparr> [0..<64]
      in [hash ! 0 + sv_a v, hash ! 1 + sv_b v, hash ! 2 + sv_c v, hash ! 3 + sv_d v,
          hash ! 4 + sv_e v, hash ! 5 + sv_f v, hash ! 6 + sv_g v, hash ! 7 + sv_h v])"

definition sha256Bytes :: "8 word list \<Rightarrow> 8 word list" where
  "sha256Bytes bytes =
     (let padded = padded_message bytes;
          hash = foldl (sha_block padded) INITIAL [0..<block_count (length bytes)]
      in concat (map be32 hash))"

text \<open>\<open>TextEncoder\<close>: lone surrogates become U+FFFD.\<close>

definition encode_unit :: "nat \<Rightarrow> nat list" where
  "encode_unit u =
     (if u < 128 then [u]
      else if u < 2048 then [192 + u div 64, 128 + u mod 64]
      else if 55296 \<le> u \<and> u < 57344 then [239, 191, 189]
      else [224 + u div 4096, 128 + u div 64 mod 64, 128 + u mod 64])"

definition encode_pair :: "nat \<Rightarrow> nat \<Rightarrow> nat list" where
  "encode_pair h l =
     (let c = 65536 + (h - 55296) * 1024 + (l - 56320)
      in [240 + c div 262144, 128 + c div 4096 mod 64, 128 + c div 64 mod 64, 128 + c mod 64])"

fun utf8_encode :: "utf16 \<Rightarrow> nat list" where
  "utf8_encode (h # l # rest) =
     (if is_high_surrogate h \<and> is_low_surrogate l then encode_pair h l @ utf8_encode rest
      else encode_unit h @ utf8_encode (l # rest))"
| "utf8_encode [u] = encode_unit u"
| "utf8_encode [] = []"

definition hex_digit :: "nat \<Rightarrow> char" where
  "hex_digit n = (if n < 10 then char_of (48 + n) else char_of (87 + n))"

text \<open>\<open>byte.toString(16).padStart(2, "0")\<close>.\<close>

definition hex_byte :: "8 word \<Rightarrow> string" where
  "hex_byte b = [hex_digit (unat b div 16), hex_digit (unat b mod 16)]"

definition sha256Hex :: "string \<Rightarrow> string" where
  "sha256Hex text_arg =
     concat (map hex_byte (sha256Bytes (map of_nat (utf8_encode (map of_char text_arg)))))"

section \<open>FIPS 180-4\<close>

text \<open>The functions and the message schedule of section 4.1.2 and 6.2, with the library's rotation.\<close>

definition fips_choice :: "32 word \<Rightarrow> 32 word \<Rightarrow> 32 word \<Rightarrow> 32 word" where
  "fips_choice e f g = (e AND f) XOR (NOT e AND g)"

definition fips_majority :: "32 word \<Rightarrow> 32 word \<Rightarrow> 32 word \<Rightarrow> 32 word" where
  "fips_majority a b c = (a AND b) XOR (a AND c) XOR (b AND c)"

definition Sigma0 :: "32 word \<Rightarrow> 32 word" where
  "Sigma0 x = word_rotr 2 x XOR word_rotr 13 x XOR word_rotr 22 x"

definition Sigma1 :: "32 word \<Rightarrow> 32 word" where
  "Sigma1 x = word_rotr 6 x XOR word_rotr 11 x XOR word_rotr 25 x"

definition sigma0 :: "32 word \<Rightarrow> 32 word" where
  "sigma0 x = word_rotr 7 x XOR word_rotr 18 x XOR drop_bit 3 x"

definition sigma1 :: "32 word \<Rightarrow> 32 word" where
  "sigma1 x = word_rotr 17 x XOR word_rotr 19 x XOR drop_bit 10 x"

fun fips_W :: "(nat \<Rightarrow> 32 word) \<Rightarrow> nat \<Rightarrow> 32 word" where
  "fips_W M t =
     (if t < 16 then M t
      else sigma1 (fips_W M (t - 2)) + fips_W M (t - 7) + sigma0 (fips_W M (t - 15)) + fips_W M (t - 16))"

declare fips_W.simps [simp del]

definition fips_round :: "(nat \<Rightarrow> 32 word) \<Rightarrow> sha_vars \<Rightarrow> nat \<Rightarrow> sha_vars" where
  "fips_round W v t =
     (let T1 = sv_h v + Sigma1 (sv_e v) + fips_choice (sv_e v) (sv_f v) (sv_g v) + SHA_K ! t + W t;
          T2 = Sigma0 (sv_a v) + fips_majority (sv_a v) (sv_b v) (sv_c v)
      in \<lparr>sv_a = T1 + T2, sv_b = sv_a v, sv_c = sv_b v, sv_d = sv_c v,
          sv_e = sv_d v + T1, sv_f = sv_e v, sv_g = sv_f v, sv_h = sv_g v\<rparr>)"

definition vars_of :: "32 word list \<Rightarrow> sha_vars" where
  "vars_of h = \<lparr>sv_a = h ! 0, sv_b = h ! 1, sv_c = h ! 2, sv_d = h ! 3,
                sv_e = h ! 4, sv_f = h ! 5, sv_g = h ! 6, sv_h = h ! 7\<rparr>"

definition list_of_vars :: "sha_vars \<Rightarrow> 32 word list" where
  "list_of_vars v = [sv_a v, sv_b v, sv_c v, sv_d v, sv_e v, sv_f v, sv_g v, sv_h v]"

text \<open>One block of 16 words: \<open>H(i) = H(i-1) + compress\<close>.\<close>

definition fips_block :: "32 word list \<Rightarrow> 32 word list \<Rightarrow> 32 word list" where
  "fips_block h M =
     map2 (+) h (list_of_vars (foldl (fips_round (fips_W (\<lambda>t. M ! t))) (vars_of h) [0..<64]))"

text \<open>The padding of 5.1.1: one bit 1, the fewest zeros, the bit length as 64 bits.\<close>

definition fips_zeros :: "nat \<Rightarrow> nat" where
  "fips_zeros n = (LEAST k. (n + 1 + k + 8) mod 64 = 0)"

definition be64 :: "nat \<Rightarrow> 8 word list" where
  "be64 n = map (\<lambda>i. of_nat (n div 256 ^ (7 - i))) [0..<8]"

definition fips_pad :: "8 word list \<Rightarrow> 8 word list" where
  "fips_pad m = m @ [0x80] @ replicate (fips_zeros (length m)) 0 @ be64 (8 * length m)"

text \<open>The words of a padded message, 16 to a block.\<close>

fun words_of :: "8 word list \<Rightarrow> 32 word list" where
  "words_of (a # b # c # d # rest) = get_uint32 [a, b, c, d] 0 # words_of rest"
| "words_of _ = []"

fun blocks_of :: "32 word list \<Rightarrow> 32 word list list" where
  "blocks_of ws = (if ws = [] then [] else take 16 ws # blocks_of (drop 16 ws))"

declare blocks_of.simps [simp del]

definition fips_sha256 :: "8 word list \<Rightarrow> 8 word list" where
  "fips_sha256 m = concat (map be32 (foldl fips_block INITIAL (blocks_of (words_of (fips_pad m)))))"

section \<open>Equivalence\<close>

lemma rotr_word_rotr:
  assumes "0 < n" and "n < 32"
  shows "rotr x n = word_rotr n x"
proof (rule bit_word_eqI)
  fix i :: nat
  assume i: "i < LENGTH(32)"
  have l: "bit (rotr x n) i \<longleftrightarrow> bit x (n + i) \<or> (32 - n \<le> i \<and> bit x (i - (32 - n)))"
    using i by (simp add: rotr_def bit_simps)
  have r: "bit (word_rotr n x) i \<longleftrightarrow> bit x ((i + n) mod 32)"
    using i by (simp add: bit_word_rotr_iff)
  show "bit (rotr x n) i \<longleftrightarrow> bit (word_rotr n x) i"
  proof (cases "i + n < 32")
    case True
    then have "\<not> 32 - n \<le> i" by simp
    with True show ?thesis unfolding l r by (simp add: add.commute)
  next
    case False
    then have "\<not> bit x (n + i)" using bit_imp_le_length [of x "n + i"] by auto
    moreover have "(i + n) mod 32 = i - (32 - n)" using False i assms by (simp add: mod_if)
    ultimately show ?thesis using False unfolding l r by auto
  qed
qed

lemma sha_round_fips: "sha_round w v i = fips_round (\<lambda>t. w ! t) v i"
  by (simp add: sha_round_def fips_round_def Let_def fips_choice_def fips_majority_def Sigma0_def Sigma1_def rotr_word_rotr)

lemma fips_W_cong: "(\<And>i. i < 16 \<Longrightarrow> M i = N i) \<Longrightarrow> fips_W M t = fips_W N t"
proof (induction t rule: less_induct)
  case (less t)
  show ?case
  proof (cases "t < 16")
    case False
    then have "fips_W M (t - k) = fips_W N (t - k)" if "0 < k" for k
      using less that by simp
    with False show ?thesis by (subst (1 2) fips_W.simps) simp
  qed (use less in \<open>simp add: fips_W.simps\<close>)
qed

lemma schedule_prefix:
  "n \<le> 48 \<Longrightarrow>
   foldl schedule_step (map M [0..<16] @ replicate 48 0) [16..<16 + n]
     = map (fips_W M) [0..<16 + n] @ replicate (48 - n) 0"
proof (induction n)
  case 0
  have "map M [0..<16] = map (fips_W M) [0..<16]" by (simp add: fips_W.simps)
  then show ?case by simp
next
  case (Suc n)
  let ?w = "map (fips_W M) [0..<16 + n] @ replicate (48 - n) 0"
  have nth: "?w ! i = fips_W M i" if "i < 16 + n" for i
    using that by (simp add: nth_append)
  let ?v = "sigma1 (fips_W M (14 + n)) + fips_W M (9 + n) + sigma0 (fips_W M (1 + n)) + fips_W M n"
  have "16 + n - 2 = 14 + n" "16 + n - 7 = 9 + n" "16 + n - 15 = 1 + n" "16 + n - 16 = n" "\<not> 16 + n < 16"
    by simp_all
  then have v: "fips_W M (16 + n) = ?v" by (subst fips_W.simps) (simp only: if_False)
  have "?w ! (16 + n - 15) = fips_W M (1 + n)" "?w ! (16 + n - 2) = fips_W M (14 + n)"
    "?w ! (16 + n - 7) = fips_W M (9 + n)" "?w ! (16 + n - 16) = fips_W M n"
    by (simp_all add: nth)
  then have "schedule_step ?w (16 + n) = ?w[16 + n := ?v]"
    unfolding schedule_step_def Let_def
    by (simp only: rotr_word_rotr sigma0_def sigma1_def zero_less_numeral numeral_less_iff semiring_norm
        add.assoc add.commute add.left_commute)
  with v have "schedule_step ?w (16 + n) = ?w[16 + n := fips_W M (16 + n)]" by simp
  also have "\<dots> = map (fips_W M) [0..<16 + Suc n] @ replicate (48 - Suc n) 0"
  proof -
    have "replicate (48 - n) (0 :: 32 word) = 0 # replicate (48 - Suc n) 0"
      using Suc.prems by (simp flip: replicate_Suc add: Suc_diff_Suc)
    moreover have "[0..<16 + Suc n] = [0..<16 + n] @ [16 + n]"
      by (simp only: add_Suc_right upt_Suc zero_le if_True)
    ultimately show ?thesis by (simp add: list_update_append del: upt_Suc)
  qed
  finally have "schedule_step ?w (16 + n) = map (fips_W M) [0..<16 + Suc n] @ replicate (48 - Suc n) 0" .
  moreover have "[16..<16 + Suc n] = [16..<16 + n] @ [16 + n]"
    by (simp only: add_Suc_right upt_Suc le_add1 if_True)
  ultimately show ?case using Suc by simp
qed

lemma schedule_fips:
  "schedule buf off = map (fips_W (\<lambda>i. get_uint32 buf (off + i * 4))) [0..<64]"
  using schedule_prefix [of 48] by (simp add: schedule_def)

lemma rounds_cong:
  "(\<And>i. i \<in> set is \<Longrightarrow> W i = V i) \<Longrightarrow> foldl (fips_round W) v is = foldl (fips_round V) v is"
proof (induction "is" arbitrary: v)
  case (Cons i is')
  have "fips_round W v i = fips_round V v i" using Cons.prems by (simp add: fips_round_def)
  with Cons show ?case by simp
qed simp

lemma sha_block_fips:
  assumes "length h = 8"
  shows "sha_block buf h b = fips_block h (map (\<lambda>i. get_uint32 buf (b * 64 + i * 4)) [0..<16])"
proof -
  let ?M = "map (\<lambda>i. get_uint32 buf (b * 64 + i * 4)) [0..<16]"
  let ?W = "fips_W (\<lambda>t. ?M ! t)"
  have W: "schedule buf (b * 64) ! i = ?W i" if "i < 64" for i
    using that by (simp add: schedule_fips) (rule fips_W_cong, simp)
  have "foldl (sha_round (schedule buf (b * 64))) v [0..<64] = foldl (fips_round ?W) v [0..<64]" for v
    unfolding sha_round_fips by (rule rounds_cong) (use W in simp)
  moreover obtain a b' c d e f g h' where "h = [a, b', c, d, e, f, g, h']"
    using assms by (auto simp: length_Suc_conv eval_nat_numeral)
  ultimately show ?thesis
    by (simp add: sha_block_def fips_block_def Let_def vars_of_def list_of_vars_def)
qed

text \<open>The padding. One byte of a word of the length is a byte of the length.\<close>

lemma byte_of_word: "k \<le> 24 \<Longrightarrow> (ucast (drop_bit k (of_nat x :: 32 word)) :: 8 word) = of_nat (x div 2 ^ k)"
  by (rule bit_word_eqI) (auto simp: bit_simps simp flip: drop_bit_eq_div)

lemma be32_of_nat:
  "be32 (of_nat x) = [of_nat (x div 2 ^ 24), of_nat (x div 2 ^ 16), of_nat (x div 2 ^ 8), of_nat x]"
  using byte_of_word [of 24 x] byte_of_word [of 16 x] byte_of_word [of 8 x] byte_of_word [of 0 x]
  by (simp add: be32_def)

lemma be64_words: "be32 (of_nat (n div 2 ^ 32)) @ be32 (of_nat n) = be64 n"
  by (simp add: be32_of_nat be64_def upt_rec div_mult2_eq [symmetric])

lemma length_be32 [simp]: "length (be32 w) = 4"
  by (simp add: be32_def)

lemma length_be64 [simp]: "length (be64 n) = 8"
  by (simp add: be64_def)

lemma fips_zeros_blocks: "fips_zeros n = block_count n * 64 - n - 9"
  unfolding fips_zeros_def
proof (rule Least_equality)
  have le: "n + 9 \<le> block_count n * 64" unfolding block_count_def by simp
  then have "n + 1 + (block_count n * 64 - n - 9) + 8 = block_count n * 64" by simp
  then show "(n + 1 + (block_count n * 64 - n - 9) + 8) mod 64 = 0" by simp
next
  fix k assume "(n + 1 + k + 8) mod 64 = 0"
  then have "64 dvd n + 1 + k + 8" by (simp only: mod_eq_0_iff_dvd)
  then obtain m where "n + 1 + k + 8 = 64 * m" by (rule dvdE)
  then have m: "n + 9 + k = 64 * m" by simp
  then have "block_count n \<le> m" unfolding block_count_def by linarith
  with m show "block_count n * 64 - n - 9 \<le> k" by linarith
qed

lemma set_uint32_append:
  "length xs = off \<Longrightarrow> length ys = 4 \<Longrightarrow> set_uint32 off w (xs @ ys @ zs) = xs @ be32 w @ zs"
  by (simp add: set_uint32_def)

lemma padded_fips: "padded_message bytes = fips_pad bytes"
proof -
  let ?n = "length bytes" and ?k = "fips_zeros (length bytes)"
  let ?size = "block_count ?n * 64"
  have le: "?n + 9 \<le> ?size" unfolding block_count_def by simp
  then have size: "?size = ?n + 1 + ?k + 8" by (simp add: fips_zeros_blocks)
  have z: "replicate (?size - ?n) (0 :: 8 word) = 0 # replicate ?k 0 @ replicate 4 0 @ replicate 4 0"
    by (simp add: size flip: replicate_add replicate_Suc)
  have "padded_message bytes = set_uint32 (?size - 4) (of_nat (?n * 8))
      (set_uint32 (?size - 8) (of_nat (?n * 8 div 2 ^ 32))
        ((bytes @ 0x80 # replicate ?k 0) @ replicate 4 0 @ replicate 4 0))"
    unfolding padded_message_def Let_def z by (simp add: list_update_append)
  also have "\<dots> = set_uint32 (?size - 4) (of_nat (?n * 8))
      ((bytes @ 0x80 # replicate ?k 0) @ be32 (of_nat (?n * 8 div 2 ^ 32)) @ replicate 4 0)"
    by (subst set_uint32_append) (simp_all add: size)
  also have "\<dots> = set_uint32 (?size - 4) (of_nat (?n * 8))
      (((bytes @ 0x80 # replicate ?k 0) @ be32 (of_nat (?n * 8 div 2 ^ 32))) @ replicate 4 0 @ [])"
    by simp
  also have "\<dots> = ((bytes @ 0x80 # replicate ?k 0) @ be32 (of_nat (?n * 8 div 2 ^ 32))) @ be32 (of_nat (?n * 8)) @ []"
    by (rule set_uint32_append) (simp_all add: size)
  also have "\<dots> = fips_pad bytes"
    by (simp add: fips_pad_def be64_words [symmetric] mult.commute)
  finally show ?thesis .
qed

lemma length_fips_pad: "length (fips_pad m) = 64 * block_count (length m)"
proof -
  have "length m + 9 \<le> block_count (length m) * 64" unfolding block_count_def by simp
  then show ?thesis by (simp add: fips_pad_def fips_zeros_blocks)
qed

text \<open>The words and blocks of a message are what the source reads at its offsets.\<close>

lemma words_of_nth:
  "length buf = 4 * k \<Longrightarrow> words_of buf = map (\<lambda>i. get_uint32 buf (4 * i)) [0..<k]"
proof (induction k arbitrary: buf)
  case (Suc j)
  then obtain a b c d rest where buf: "buf = a # b # c # d # rest" and len: "length rest = 4 * j"
    by (auto simp: length_Suc_conv eval_nat_numeral)
  have "get_uint32 buf (4 * Suc i) = get_uint32 rest (4 * i)" for i
    by (simp add: get_uint32_def buf add.commute)
  moreover have "get_uint32 buf 0 = get_uint32 [a, b, c, d] 0"
    by (simp add: get_uint32_def buf)
  moreover have "[0..<Suc j] = 0 # map Suc [0..<j]" by (simp add: upt_conv_Cons map_Suc_upt del: upt_Suc)
  ultimately show ?case using Suc.IH [OF len] by (simp add: buf o_def del: upt_Suc mult_Suc_right)
qed simp

lemma blocks_of_nth:
  "length ws = 16 * k \<Longrightarrow> blocks_of ws = map (\<lambda>b. map (\<lambda>i. ws ! (16 * b + i)) [0..<16]) [0..<k]"
proof (induction k arbitrary: ws)
  case 0
  then show ?case by (simp add: blocks_of.simps)
next
  case (Suc k)
  have head: "take 16 ws = map (\<lambda>i. ws ! i) [0..<16]"
    using Suc.prems by (intro nth_equalityI) auto
  have "drop 16 ws ! (16 * b + i) = ws ! (16 * Suc b + i)" for b i
    using Suc.prems by (simp add: algebra_simps)
  then have "blocks_of (drop 16 ws) = map (\<lambda>b. map (\<lambda>i. ws ! (16 * Suc b + i)) [0..<16]) [0..<k]"
    using Suc.IH [of "drop 16 ws"] Suc.prems by simp
  moreover have split: "[0..<Suc k] = 0 # map Suc [0..<k]" by (simp add: upt_conv_Cons map_Suc_upt del: upt_Suc)
  moreover have "ws \<noteq> []" using Suc.prems by auto
  ultimately show ?case
    by (subst blocks_of.simps) (simp add: head split o_def del: upt_Suc mult_Suc_right)
qed

lemma length_fips_block: "length h = 8 \<Longrightarrow> length (fips_block h M) = 8"
  by (simp add: fips_block_def list_of_vars_def)

lemma foldl_blocks:
  assumes "length h = 8"
  shows "foldl (sha_block buf) h bs
     = foldl fips_block h (map (\<lambda>b. map (\<lambda>i. get_uint32 buf (b * 64 + i * 4)) [0..<16]) bs)"
  using assms
proof (induction bs arbitrary: h)
  case (Cons b bs)
  then show ?case using sha_block_fips [of h buf b] length_fips_block by simp
qed simp

text \<open>C37. The source's SHA-256 is the one of FIPS 180-4, for every byte message: the padding built
  with two word writes is the standard's padding, the in-place message schedule is the recursive
  one, the shifts and ors are rotations, and the block loop is the standard's hash computation.\<close>

theorem sha256_is_fips: "sha256Bytes bytes = fips_sha256 bytes"
proof -
  let ?k = "block_count (length bytes)"
  have len: "length (fips_pad bytes) = 4 * (16 * ?k)" by (simp add: length_fips_pad)
  let ?ws = "words_of (fips_pad bytes)"
  have ws: "?ws = map (\<lambda>i. get_uint32 (fips_pad bytes) (4 * i)) [0..<16 * ?k]"
    by (rule words_of_nth [OF len])
  have "map (\<lambda>i. ?ws ! (16 * b + i)) [0..<16]
      = map (\<lambda>i. get_uint32 (fips_pad bytes) (b * 64 + i * 4)) [0..<16]" if "b < ?k" for b
    using that by (simp add: ws algebra_simps)
  then have "blocks_of ?ws = map (\<lambda>b. map (\<lambda>i. get_uint32 (fips_pad bytes) (b * 64 + i * 4)) [0..<16]) [0..<?k]"
    using blocks_of_nth [of ?ws ?k] by (simp add: ws)
  moreover have "length INITIAL = 8" by (simp add: INITIAL_def)
  ultimately show ?thesis
    by (simp add: sha256Bytes_def fips_sha256_def padded_fips foldl_blocks Let_def)
qed

text \<open>The shape of a digest.\<close>

lemma length_fold_blocks: "length h = 8 \<Longrightarrow> length (foldl (sha_block buf) h bs) = 8"
  by (induction bs arbitrary: h) (simp_all add: sha_block_def Let_def)

lemma length_concat_be32: "length (concat (map be32 ws)) = 4 * length ws"
  by (induction ws) simp_all

lemma length_sha256Bytes: "length (sha256Bytes m) = 32"
  by (simp add: sha256Bytes_def Let_def length_concat_be32 length_fold_blocks INITIAL_def)

definition is_hex :: "char \<Rightarrow> bool" where
  "is_hex c \<longleftrightarrow> is_digit c \<or> (97 \<le> (of_char c :: nat) \<and> of_char c \<le> (102 :: nat))"

lemma hex_digit_hex: "n < 16 \<Longrightarrow> is_hex (hex_digit n)"
proof -
  assume "n < 16"
  then consider "n < 10" | "n = 10" | "n = 11" | "n = 12" | "n = 13" | "n = 14" | "n = 15" by linarith
  then show ?thesis by cases (simp_all add: hex_digit_def is_hex_def)
qed

lemma hex_byte_hex: "list_all is_hex (hex_byte b)"
proof -
  have "unat b < 256" using unsigned_less [of b, where ?'a = nat] by simp
  then show ?thesis by (simp add: hex_byte_def hex_digit_hex)
qed

lemma sha256Hex_hex: "length (sha256Hex s) = 64" "list_all is_hex (sha256Hex s)"
proof -
  have len: "length (concat (map hex_byte bs)) = 2 * length bs" for bs
    by (induction bs) (simp_all add: hex_byte_def)
  have hex: "list_all is_hex (concat (map hex_byte bs))" for bs
    by (induction bs) (simp_all add: hex_byte_hex)
  show "length (sha256Hex s) = 64" by (simp add: sha256Hex_def len length_sha256Bytes)
  show "list_all is_hex (sha256Hex s)" by (simp add: sha256Hex_def hex)
qed

lemma length_utf8_encode: "length (utf8_encode t) = utf8_bytes t"
  by (induction t rule: utf8_encode.induct)
    (auto simp: encode_unit_def encode_pair_def unit_bytes_def Let_def)

end
