(* ===== verification/Graph_Branches.thy ===== *)
theory Graph_Branches
  imports Graph_Identity Sha256
begin

text \<open>
  Replication: the stable ids of list items (\<^verbatim>\<open>graphs/run-items.ts\<close>), the branches of a replicated
  node (\<^verbatim>\<open>run-branches.ts\<close>) and the fan-out over items (\<^verbatim>\<open>run-fanout.ts\<close>), all under
  \<^verbatim>\<open>packages/protocol/src\<close>. Role bindings and fan-outs are read as own properties. A thrown
  \<open>GraphBranchError\<close> is \<open>Inl\<close> with its message. Counts and indices are integers or naturals, as the
  code makes them.
\<close>

section \<open>Item ids\<close>

definition maxItemIdChars :: nat where "maxItemIdChars = 128"

record item_owner =
  io_nodeId :: string
  io_iteration :: int
  io_branchKey :: "string option"

definition suffixChars :: "string \<Rightarrow> nat \<Rightarrow> nat" where
  "suffixChars idPrefix count = 1 + length idPrefix + 1 + length (show_nat (max 1 count))"

text \<open>\<open>full.length <= room\<close> with a room that may be negative.\<close>

definition graphItemIdLabel :: "item_owner \<Rightarrow> string \<Rightarrow> nat \<Rightarrow> string" where
  "graphItemIdLabel ow idPrefix count =
     (let head = io_nodeId ow # (if io_iteration ow > 1 then [''iter-'' @ show_int (io_iteration ow)] else []);
          fits = (\<lambda>s. length s + suffixChars idPrefix count \<le> maxItemIdChars);
          full = join_with ''/'' (head @ (case io_branchKey ow of None \<Rightarrow> [] | Some b \<Rightarrow> [b]));
          hashed = take 16 (sha256Hex full)
      in if fits full then full
         else (case io_branchKey ow of
                 None \<Rightarrow> hashed
               | Some b \<Rightarrow>
                   (let short = join_with ''/'' (head @ [''b-'' @ take 12 (sha256Hex b)])
                    in if fits short then short else hashed)))"

definition graphItemIds :: "item_owner \<Rightarrow> string \<Rightarrow> nat \<Rightarrow> string list" where
  "graphItemIds ow idPrefix count =
     (let label = graphItemIdLabel ow idPrefix count
      in map (\<lambda>i. label @ ''/'' @ idPrefix @ ''-'' @ show_nat (i + 1)) [0..<count])"

record type_items =
  ti_path :: string
  ti_idPrefix :: string

definition js_field :: "js \<Rightarrow> string \<Rightarrow> js" where
  "js_field v k = (case v of JObj ps \<Rightarrow> (case obj_get ps k of None \<Rightarrow> JUndef | Some x \<Rightarrow> x) | _ \<Rightarrow> JUndef)"

definition graphItemList :: "type_items \<Rightarrow> js \<Rightarrow> js list option" where
  "graphItemList items v =
     (case fold (\<lambda>seg l. js_field l seg) (split_on CHR ''.'' (ti_path items)) v of
        JArr xs \<Rightarrow> Some xs | _ \<Rightarrow> None)"

definition graphItemIdOwner :: "artifact_producer \<Rightarrow> item_owner" where
  "graphItemIdOwner p =
     (if isGraphRunInputProducer p
      then \<lparr>io_nodeId = GRAPH_RUN_INPUT_PRODUCER @ ''/'' @ ap_port p, io_iteration = 1, io_branchKey = None\<rparr>
      else (case parseGraphActivationKey (JStr (ap_activation p)) of
              None \<Rightarrow> \<lparr>io_nodeId = ap_nodeId p, io_iteration = 1, io_branchKey = None\<rparr>
            | Some k \<Rightarrow> \<lparr>io_nodeId = kp_nodeId k, io_iteration = kp_iteration k,
                        io_branchKey = kp_branchKey k\<rparr>))"

definition graphArtifactItemIds ::
  "artifact_producer \<Rightarrow> string list option \<Rightarrow> type_items option \<Rightarrow> js \<Rightarrow> nat option \<Rightarrow> string list" where
  "graphArtifactItemIds producer itemIds items v count_arg =
     (case items of
        None \<Rightarrow> []
      | Some it \<Rightarrow>
          (let count = (case count_arg of
                          Some n \<Rightarrow> n
                        | None \<Rightarrow> (case graphItemList it v of None \<Rightarrow> 0 | Some l \<Rightarrow> length l))
           in if count = 0 then []
              else (case itemIds of
                      Some ids \<Rightarrow> if length ids = count then ids
                                  else graphItemIds (graphItemIdOwner producer) (ti_idPrefix it) count
                    | None \<Rightarrow> graphItemIds (graphItemIdOwner producer) (ti_idPrefix it) count)))"

definition graphAcceptedItemIds :: "type_items option \<Rightarrow> js \<Rightarrow> item_owner \<Rightarrow> string list option" where
  "graphAcceptedItemIds items v ow =
     (case items of
        None \<Rightarrow> None
      | Some it \<Rightarrow>
          (case graphItemList it v of
             None \<Rightarrow> None
           | Some l \<Rightarrow> if l = [] then None else Some (graphItemIds ow (ti_idPrefix it) (length l))))"

section \<open>Branches of a node\<close>

record graph_branch =
  gb_key :: string
  gb_panelIndex :: "nat option"
  gb_lens :: "string option"
  gb_sample :: "int option"
  gb_item :: "fan_out_item option"
  gb_role :: string

definition maxBranches :: nat where "maxBranches = 32"

definition boundModels :: "(string \<times> role_binding) list \<Rightarrow> string \<Rightarrow> nat" where
  "boundModels bindings role =
     (case obj_get bindings role of
        None \<Rightarrow> 0
      | Some (PanelModels ms) \<Rightarrow> length ms
      | Some (OneModel m) \<Rightarrow> 1)"

definition join_key :: "graph_branch \<Rightarrow> string \<Rightarrow> string" where
  "join_key b part = (if gb_key b = [] then part else gb_key b @ ''+'' @ part)"

text \<open>The branches one axis makes of one branch. An \<open>items\<close> axis without items throws.\<close>

fun axis_branches ::
  "(string \<times> role_binding) list \<Rightarrow> fan_out_item list \<Rightarrow> replicate_axis \<Rightarrow> graph_branch \<Rightarrow> graph_branch list" where
  "axis_branches bindings items (OverPanel role) b =
     map (\<lambda>i. b\<lparr>gb_key := join_key b (''panel.'' @ show_nat (i + 1)), gb_panelIndex := Some i, gb_role := role\<rparr>)
       [0..<boundModels bindings role]"
| "axis_branches bindings items (OverLenses lenses) b =
     map (\<lambda>l. b\<lparr>gb_key := join_key b (''lens.'' @ ln_key l), gb_lens := Some (ln_key l),
                gb_role := (if gb_panelIndex b = None then ln_role l else gb_role b)\<rparr>) lenses"
| "axis_branches bindings items (OverSamples n) b =
     map (\<lambda>s. b\<lparr>gb_key := join_key b (''sample.'' @ show_int s), gb_sample := Some s\<rparr>) [1..n]"
| "axis_branches bindings items (OverItems inp mx tr) b =
     map (\<lambda>it. b\<lparr>gb_key := join_key b (fi_key it), gb_item := Some it\<rparr>) items"

definition is_items_axis :: "replicate_axis \<Rightarrow> bool" where
  "is_items_axis a = (case a of OverItems _ _ _ \<Rightarrow> True | _ \<Rightarrow> False)"

fun expand_axes ::
  "string \<Rightarrow> (string \<times> role_binding) list \<Rightarrow> fan_out_item list option \<Rightarrow> replicate_axis list
    \<Rightarrow> graph_branch list \<Rightarrow> string + graph_branch list" where
  "expand_axes nid bindings items [] bs = Inr bs"
| "expand_axes nid bindings items (a # as) bs =
     (if is_items_axis a \<and> items = None \<and> bs \<noteq> []
      then Inl (nid @ '' replicates over items, which are known only once it expands'')
      else
        (let next = concat (map (axis_branches bindings (case items of None \<Rightarrow> [] | Some its \<Rightarrow> its) a) bs)
         in if length next > maxBranches
            then Inl (nid @ '' would run '' @ show_nat (length next) @ '' branches; a node runs at most ''
                      @ show_nat maxBranches)
            else expand_axes nid bindings items as next))"

definition node_replicate :: "plan_node \<Rightarrow> replicate_axis list option" where
  "node_replicate n = (if pn_kind n \<in> {KAgent, KSubgraph} then pn_replicate n else None)"

definition first_branch :: "plan_node \<Rightarrow> graph_branch" where
  "first_branch n =
     \<lparr>gb_key = [], gb_panelIndex = None, gb_lens = None, gb_sample = None, gb_item = None,
      gb_role = (if pn_kind n = KAgent then pn_role n else [])\<rparr>"

definition graphNodeBranches ::
  "plan_node \<Rightarrow> (string \<times> role_binding) list \<Rightarrow> fan_out_item list option
    \<Rightarrow> string + graph_branch list option" where
  "graphNodeBranches n bindings items =
     (case node_replicate n of
        None \<Rightarrow> Inr None
      | Some axes \<Rightarrow>
          (case expand_axes (pn_id n) bindings items axes [first_branch n] of
             Inl m \<Rightarrow> Inl m
           | Inr bs \<Rightarrow>
               if list_all (\<lambda>b. isGraphBranchKey (JStr (gb_key b))) bs then Inr (Some bs)
               else Inl ''A branch key is outside the branch key grammar''))"

definition graphBranchBinding ::
  "(string \<times> role_binding) list \<Rightarrow> string \<Rightarrow> graph_branch option \<Rightarrow> js option" where
  "graphBranchBinding bindings role branch =
     (case obj_get bindings role of
        None \<Rightarrow> None
      | Some (OneModel m) \<Rightarrow> Some m
      | Some (PanelModels ms) \<Rightarrow>
          (let i = (case branch of None \<Rightarrow> 0
                    | Some b \<Rightarrow> (case gb_panelIndex b of None \<Rightarrow> 0 | Some i \<Rightarrow> i))
           in if i < length ms then Some (ms ! i) else None))"

text \<open>A map keeps the last of two entries with one key; plan node ids are unique.\<close>

fun graphPlanBranches ::
  "plan_node list \<Rightarrow> (string \<times> role_binding) list \<Rightarrow> string + (string \<times> graph_branch list option) list" where
  "graphPlanBranches [] bindings = Inr []"
| "graphPlanBranches (n # ns) bindings =
     (case graphNodeBranches n bindings None of
        Inl m \<Rightarrow> Inl m
      | Inr bs \<Rightarrow> (case graphPlanBranches ns bindings of
                     Inl m \<Rightarrow> Inl m
                   | Inr rest \<Rightarrow> Inr ((pn_id n, bs) # rest)))"

section \<open>Fan-out over items\<close>

definition GRAPH_ITEM_BRANCH_PREFIX :: string where "GRAPH_ITEM_BRANCH_PREFIX = ''item.''"
definition encodedMaxChars :: nat where "encodedMaxChars = 64"

record items_axis =
  ia_input :: string
  ia_maxBranches :: int
  ia_truncate :: items_truncate

definition graphNodeItemsAxis :: "plan_node \<Rightarrow> items_axis option" where
  "graphNodeItemsAxis n =
     (case node_replicate n of
        None \<Rightarrow> None
      | Some axes \<Rightarrow>
          (case find is_items_axis axes of
             Some (OverItems inp mx tr) \<Rightarrow> Some \<lparr>ia_input = inp, ia_maxBranches = mx, ia_truncate = tr\<rparr>
           | _ \<Rightarrow> None))"

definition encode_char :: "char \<Rightarrow> char" where
  "encode_char c =
     (if c = CHR ''/'' then CHR '':'' else if c = CHR ''+'' then CHR ''_''
      else if is_alnum c \<or> c \<in> {CHR ''.'', CHR ''_'', CHR '':'', CHR ''-''} then c else CHR ''-'')"

definition graphItemBranchSegment :: "string \<Rightarrow> string" where
  "graphItemBranchSegment i =
     (let encoded = map encode_char (filter (\<lambda>c. c \<noteq> CHR ''$'') i)
      in if encoded = [] \<or> length encoded > encodedMaxChars
         then GRAPH_ITEM_BRANCH_PREFIX @ ''h-'' @ take 16 (sha256Hex i)
         else GRAPH_ITEM_BRANCH_PREFIX @ encoded)"

record item_source =
  is_id :: string
  is_producer :: artifact_producer
  is_itemIds :: "string list option"
  is_sourceItem :: "string option"

record item_candidate =
  ic_id :: string
  ic_artifact :: string

text \<open>The labels of the elements without a source item, how often each occurs, and the occurrence
  counter of each, kept over the list.\<close>

definition candidate_label :: "item_source \<Rightarrow> string option" where
  "candidate_label e =
     (if is_sourceItem e = None then Some (graphItemIdLabel (graphItemIdOwner (is_producer e)) ''item'' 1)
      else None)"

definition count_labels :: "string option list \<Rightarrow> (string \<times> nat) list" where
  "count_labels ls =
     fold (\<lambda>l m. case l of None \<Rightarrow> m
             | Some s \<Rightarrow> obj_set s ((case obj_get m s of None \<Rightarrow> 0 | Some k \<Rightarrow> k) + 1) m) ls []"

fun list_candidates ::
  "(string \<times> nat) list \<Rightarrow> (string \<times> nat) list \<Rightarrow> item_source list \<Rightarrow> item_candidate list" where
  "list_candidates shared seen [] = []"
| "list_candidates shared seen (e # es) =
     (case candidate_label e of
        None \<Rightarrow> \<lparr>ic_id = (case is_sourceItem e of None \<Rightarrow> [] | Some s \<Rightarrow> s), ic_artifact = is_id e\<rparr>
                # list_candidates shared seen es
      | Some l \<Rightarrow>
          if obj_get shared l = Some 1
          then \<lparr>ic_id = l, ic_artifact = is_id e\<rparr> # list_candidates shared seen es
          else (let k = (case obj_get seen l of None \<Rightarrow> 0 | Some k \<Rightarrow> k) + 1
                in \<lparr>ic_id = l @ ''/item-'' @ show_nat k, ic_artifact = is_id e\<rparr>
                   # list_candidates shared (obj_set l k seen) es))"

definition graphListItemCandidates :: "item_source list \<Rightarrow> item_candidate list" where
  "graphListItemCandidates es = list_candidates (count_labels (map candidate_label es)) [] es"

definition graphTypedItemCandidates :: "item_source \<Rightarrow> type_items \<Rightarrow> js \<Rightarrow> item_candidate list" where
  "graphTypedItemCandidates a items v =
     map (\<lambda>i. \<lparr>ic_id = i, ic_artifact = is_id a\<rparr>)
       (graphArtifactItemIds (is_producer a) (is_itemIds a) (Some items) v None)"

text \<open>\<open>for (suffix = 2; used.has(key); suffix++) key = base.suffix\<close>.\<close>

definition suffixed :: "string \<Rightarrow> nat \<Rightarrow> string" where
  "suffixed base n = base @ ''.'' @ show_nat n"

lemma suffixed_inj [simp]: "suffixed base m = suffixed base n \<longleftrightarrow> m = n"
  by (metis number_of_digits_digits same_append_eq show_nat_def suffixed_def)

definition suffixes_used :: "string list \<Rightarrow> string \<Rightarrow> nat \<Rightarrow> nat set" where
  "suffixes_used used base n = {k. n \<le> k \<and> suffixed base k \<in> set used}"

lemma finite_suffixes_used: "finite (suffixes_used used base n)"
proof -
  have "suffixed base ` suffixes_used used base n \<subseteq> set used" by (auto simp: suffixes_used_def)
  then have "finite (suffixed base ` suffixes_used used base n)" by (rule finite_subset) simp
  then show ?thesis by (rule finite_imageD) (simp add: inj_on_def)
qed

lemma suffixes_used_Suc:
  "suffixes_used used base n =
     (if suffixed base n \<in> set used then insert n (suffixes_used used base (Suc n))
      else suffixes_used used base (Suc n))"
  by (auto simp: suffixes_used_def Suc_le_eq le_less)

definition suffix_work :: "string list \<Rightarrow> string \<Rightarrow> string \<Rightarrow> nat \<Rightarrow> nat" where
  "suffix_work used base key n = (if key \<in> set used then 1 else 0) + card (suffixes_used used base n)"

lemma suffix_work_decreases:
  "key \<in> set used \<Longrightarrow> suffix_work used base key n = Suc (suffix_work used base (suffixed base n) (Suc n))"
proof -
  have "n \<notin> suffixes_used used base (Suc n)" by (simp add: suffixes_used_def)
  moreover assume "key \<in> set used"
  ultimately show ?thesis
    using finite_suffixes_used [of used base "Suc n"]
    by (simp add: suffix_work_def suffixes_used_Suc [of used base n])
qed

function suffix_loop :: "string list \<Rightarrow> string \<Rightarrow> string \<Rightarrow> nat \<Rightarrow> string" where
  "suffix_loop used base key n =
     (if key \<in> set used then suffix_loop used base (suffixed base n) (n + 1) else key)"
  by pat_completeness auto
termination
  by (relation "measure (\<lambda>(used, base, key, n). suffix_work used base key n)")
    (simp_all add: suffix_work_decreases)

declare suffix_loop.simps [simp del]

fun key_items :: "string list \<Rightarrow> nat \<Rightarrow> item_candidate list \<Rightarrow> fan_out_item list" where
  "key_items used i [] = []"
| "key_items used i (c # cs) =
     (let base = graphItemBranchSegment (ic_id c);
          key = suffix_loop used base base 2
      in \<lparr>fi_key = key, fi_index = int i + 1, fi_id = ic_id c, fi_artifact = ic_artifact c\<rparr>
         # key_items (used @ [key]) (i + 1) cs)"

record fan_out_items =
  fx_items :: "fan_out_item list"
  fx_total :: nat
  fx_truncatedIds :: "string list"

definition graphItemFanOutItems :: "item_candidate list \<Rightarrow> int \<Rightarrow> fan_out_items" where
  "graphItemFanOutItems cs mx =
     (let running = take (nat mx) cs
      in \<lparr>fx_items = key_items [] 0 running, fx_total = length cs,
          fx_truncatedIds = map ic_id (take maxTruncatedItemIds (drop (length running) cs))\<rparr>)"

definition graphLiveItemFanOut :: "graph_run \<Rightarrow> string \<Rightarrow> int \<Rightarrow> item_fan_out option" where
  "graphLiveItemFanOut run n i =
     (case run_fanOuts run of
        None \<Rightarrow> None
      | Some fs \<Rightarrow> find (\<lambda>f. fo_nodeId f = n \<and> fo_iteration f = i \<and> fo_supersededBy f = None) fs)"

datatype node_branches = Unbranched | NotExpanded | Branches "graph_branch list"

definition branches_or_null :: "graph_branch list option \<Rightarrow> node_branches" where
  "branches_or_null b = (case b of None \<Rightarrow> Unbranched | Some bs \<Rightarrow> Branches bs)"

definition graphRunNodeBranches :: "graph_run \<Rightarrow> plan_node \<Rightarrow> int \<Rightarrow> string + node_branches" where
  "graphRunNodeBranches run n i =
     (let read = (\<lambda>items. case graphNodeBranches n (rb_roles (run_bindings run)) items of
                    Inl m \<Rightarrow> Inl m | Inr b \<Rightarrow> Inr (branches_or_null b))
      in if graphNodeItemsAxis n = None then read None
         else (case graphLiveItemFanOut run (pn_id n) i of
                 None \<Rightarrow> Inr NotExpanded
               | Some f \<Rightarrow> if fo_items f = [] then Inr NotExpanded else read (Some (fo_items f))))"

definition graphActivationBranch :: "graph_run \<Rightarrow> plan_node \<Rightarrow> activation \<Rightarrow> string + graph_branch option" where
  "graphActivationBranch run n a =
     (case act_branchKey a of
        None \<Rightarrow> Inr None
      | Some k \<Rightarrow>
          (case graphRunNodeBranches run n (act_iteration a) of
             Inl m \<Rightarrow> Inl m
           | Inr (Branches bs) \<Rightarrow> Inr (find (\<lambda>b. gb_key b = k) bs)
           | Inr _ \<Rightarrow> Inr None))"

section \<open>The suffix loop\<close>

lemma suffix_loop_fresh: "suffix_loop used base key n \<notin> set used"
  by (induction used base key n rule: suffix_loop.induct) (simp add: suffix_loop.simps)

lemma suffix_loop_shape:
  "suffix_loop used base key n = key
   \<or> (\<exists>k. n \<le> k \<and> k < n + suffix_work used base key n \<and> suffix_loop used base key n = suffixed base k)"
proof (induction used base key n rule: suffix_loop.induct)
  case (1 used base key n)
  show ?case
  proof (cases "key \<in> set used")
    case True
    note work = suffix_work_decreases [OF True, of base n]
    from True have step: "suffix_loop used base key n = suffix_loop used base (suffixed base n) (n + 1)"
      by (simp add: suffix_loop.simps [of used base key])
    from "1.IH" [OF True] show ?thesis
    proof (elim disjE exE conjE)
      assume "suffix_loop used base (suffixed base n) (n + 1) = suffixed base n"
      then show ?thesis using step work by (intro disjI2 exI [of _ n]) simp
    next
      fix k
      assume "n + 1 \<le> k" "k < n + 1 + suffix_work used base (suffixed base n) (n + 1)"
        "suffix_loop used base (suffixed base n) (n + 1) = suffixed base k"
      then show ?thesis using step work by (intro disjI2 exI [of _ k]) simp
    qed
  qed (simp add: suffix_loop.simps [of used base key])
qed

lemma suffix_work_le: "suffix_work used base base n \<le> Suc (length used)"
proof -
  have "card (suffixes_used used base n) = card (suffixed base ` suffixes_used used base n)"
    by (rule card_image [symmetric]) (simp add: inj_on_def)
  also have "\<dots> \<le> card (set used)" by (rule card_mono) (auto simp: suffixes_used_def)
  also have "\<dots> \<le> length used" by (rule card_length)
  finally show ?thesis by (simp add: suffix_work_def)
qed

lemma key_items_keys:
  "distinct (map fi_key (key_items used i cs)) \<and> set used \<inter> fi_key ` set (key_items used i cs) = {}"
proof (induction used i cs rule: key_items.induct)
  case (2 used i c cs)
  then show ?case
    using suffix_loop_fresh [of used "graphItemBranchSegment (ic_id c)" "graphItemBranchSegment (ic_id c)" 2]
    by (auto simp: Let_def)
qed simp

lemma key_items_ids:
  "map (\<lambda>it. (fi_id it, fi_artifact it)) (key_items used i cs) = map (\<lambda>c. (ic_id c, ic_artifact c)) cs"
  by (induction used i cs rule: key_items.induct) (simp_all add: Let_def)

lemma key_items_index: "map fi_index (key_items used i cs) = map (\<lambda>k. int k + 1) [i..<i + length cs]"
  by (induction used i cs rule: key_items.induct) (simp_all add: Let_def upt_conv_Cons del: upt_Suc)

lemma length_key_items [simp]: "length (key_items used i cs) = length cs"
  by (induction used i cs rule: key_items.induct) (simp_all add: Let_def)

lemma encode_char_branch: "branch_char (encode_char c)"
  by (auto simp: encode_char_def branch_char_def)

lemma hex_branch_char: "is_hex c \<Longrightarrow> branch_char c"
  by (auto simp: is_hex_def branch_char_def is_alnum_def is_digit_def is_lower_def)

lemma segment_shape:
  "\<exists>t. graphItemBranchSegment i = ''item.'' @ t \<and> list_all branch_char t \<and> t \<noteq> [] \<and> length t \<le> 64"
proof -
  let ?e = "map encode_char (filter (\<lambda>c. c \<noteq> CHR ''$'') i)"
  have "list_all branch_char ?e" by (simp add: list_all_iff encode_char_branch)
  moreover have "list_all branch_char (''h-'' @ take 16 (sha256Hex i))"
  proof -
    have "set (take 16 (sha256Hex i)) \<subseteq> set (sha256Hex i)" by (rule set_take_subset)
    then have "list_all branch_char (take 16 (sha256Hex i))"
      using sha256Hex_hex [of i] hex_branch_char by (auto simp: list_all_iff)
    moreover have "list_all branch_char ''h-''"
      by (simp add: branch_char_def is_alnum_def is_lower_def)
    ultimately show ?thesis by simp
  qed
  ultimately show ?thesis
    by (auto simp: graphItemBranchSegment_def Let_def GRAPH_ITEM_BRANCH_PREFIX_def encodedMaxChars_def)
qed

lemma digits_branch_char: "list_all branch_char (digits_of_number n)"
  using digits_of_number_digits [of n] by (auto simp: list_all_iff branch_char_def is_alnum_def)

lemma segment_pattern:
  assumes "n < 10 ^ 20"
  shows "GRAPH_BRANCH_KEY_PATTERN (graphItemBranchSegment i)"
    and "GRAPH_BRANCH_KEY_PATTERN (suffixed (graphItemBranchSegment i) n)"
proof -
  obtain t where t: "graphItemBranchSegment i = ''item.'' @ t" "list_all branch_char t" "length t \<le> 64"
    using segment_shape by blast
  have item: "is_alnum CHR ''i''" "list_all branch_char ''tem.''" "branch_char CHR ''.''"
    by (simp_all add: branch_char_def is_alnum_def is_lower_def)
  have "length (show_nat n) \<le> 20"
    unfolding show_nat_def by (rule length_digits_of_number) (use assms in simp_all)
  then show "GRAPH_BRANCH_KEY_PATTERN (graphItemBranchSegment i)"
    "GRAPH_BRANCH_KEY_PATTERN (suffixed (graphItemBranchSegment i) n)"
    using t item digits_branch_char [of n]
    by (simp_all add: GRAPH_BRANCH_KEY_PATTERN_def suffixed_def show_nat_def)
qed

lemma segment_no_plus: "CHR ''+'' \<notin> set (graphItemBranchSegment i)"
proof -
  have "CHR ''+'' \<noteq> encode_char c" for c by (auto simp: encode_char_def is_alnum_def is_digit_def is_lower_def is_upper_def)
  then have "CHR ''+'' \<notin> set (map encode_char s)" for s by (simp add: image_iff)
  moreover have "CHR ''+'' \<notin> set (take 16 (sha256Hex i))"
    using sha256Hex_hex(2) [of i] by (auto simp: list_all_iff is_hex_def is_digit_def dest!: in_set_takeD)
  ultimately show ?thesis
    by (auto simp: graphItemBranchSegment_def Let_def GRAPH_ITEM_BRANCH_PREFIX_def)
qed

lemma digits_no_plus: "CHR ''+'' \<notin> set (digits_of_number n)"
  using digits_of_number_digits [of n] by (auto simp: list_all_iff is_digit_def)

lemma key_items_pattern:
  assumes "length used + length cs < 10 ^ 19" and "it \<in> set (key_items used i cs)"
  shows "GRAPH_BRANCH_KEY_PATTERN (fi_key it) \<and> CHR ''+'' \<notin> set (fi_key it)"
  using assms
proof (induction used i cs rule: key_items.induct)
  case (2 used i c cs)
  let ?base = "graphItemBranchSegment (ic_id c)"
  have "GRAPH_BRANCH_KEY_PATTERN (suffix_loop used ?base ?base 2) \<and> CHR ''+'' \<notin> set (suffix_loop used ?base ?base 2)"
    using suffix_loop_shape [of used ?base ?base 2]
  proof (elim disjE exE conjE)
    assume "suffix_loop used ?base ?base 2 = ?base"
    then show ?thesis using segment_pattern(1) [of 0] segment_no_plus by simp
  next
    fix k
    assume k: "k < 2 + suffix_work used ?base ?base 2" "suffix_loop used ?base ?base 2 = suffixed ?base k"
    then have "k < 10 ^ 20" using suffix_work_le [of used ?base 2] "2.prems"(1) by simp
    then show ?thesis
      using k(2) segment_pattern(2) [of k] segment_no_plus [of "ic_id c"] digits_no_plus [of k]
      by (simp add: suffixed_def show_nat_def)
  qed
  with "2" show ?case by (auto simp: Let_def)
qed simp

text \<open>C25. A fan-out over items runs the first \<open>maxBranches\<close> candidates in order, numbered from one,
  each under a key of its own that the branch key grammar accepts, whatever the ids are: ids that
  encode to the same text, or to a text another id's suffix makes, still get different keys, since
  the suffix loop ends at a key no earlier item has. The total and the ids left out are exact.\<close>

theorem fan_out_items_keyed:
  assumes "mx \<le> int maxBranches"
  shows "distinct (map fi_key (fx_items (graphItemFanOutItems cs mx)))
    \<and> list_all (\<lambda>it. GRAPH_BRANCH_KEY_PATTERN (fi_key it)) (fx_items (graphItemFanOutItems cs mx))
    \<and> map (\<lambda>it. (fi_id it, fi_artifact it)) (fx_items (graphItemFanOutItems cs mx)) =
        map (\<lambda>c. (ic_id c, ic_artifact c)) (take (nat mx) cs)
    \<and> map fi_index (fx_items (graphItemFanOutItems cs mx)) =
        map (\<lambda>k. int k + 1) [0..<min (nat mx) (length cs)]
    \<and> fx_total (graphItemFanOutItems cs mx) = length cs
    \<and> fx_truncatedIds (graphItemFanOutItems cs mx) =
        take maxTruncatedItemIds (map ic_id (drop (nat mx) cs))"
proof -
  let ?run = "take (nat mx) cs"
  have "length ?run \<le> 32" using assms by (simp add: maxBranches_def)
  then have "length [] + length ?run < 10 ^ 19" by simp
  from key_items_pattern [OF this]
  have "list_all (\<lambda>it. GRAPH_BRANCH_KEY_PATTERN (fi_key it)) (key_items [] 0 ?run)"
    by (auto simp: list_all_iff)
  moreover have "drop (length ?run) cs = drop (nat mx) cs" by (cases "nat mx \<le> length cs") simp_all
  ultimately show ?thesis
    using key_items_keys [of "[]" 0 ?run] key_items_index [of "[]" 0 ?run]
    by (simp add: graphItemFanOutItems_def Let_def key_items_ids take_map min.commute)
qed

theorem fan_out_items_keyed_witness:
  "distinct (map fi_key (fx_items (graphItemFanOutItems
     [\<lparr>ic_id = ''a/b'', ic_artifact = ''x''\<rparr>, \<lparr>ic_id = ''a:b'', ic_artifact = ''y''\<rparr>] 8)))"
proof -
  have "(8::int) \<le> int maxBranches" by (simp add: maxBranches_def)
  from fan_out_items_keyed [OF this] show ?thesis by blast
qed

section \<open>Distinct branches\<close>

fun axis_parts ::
  "(string \<times> role_binding) list \<Rightarrow> fan_out_item list \<Rightarrow> replicate_axis \<Rightarrow> string list" where
  "axis_parts bindings items (OverPanel role) = map (\<lambda>i. ''panel.'' @ show_nat (i + 1)) [0..<boundModels bindings role]"
| "axis_parts bindings items (OverLenses lenses) = map (\<lambda>l. ''lens.'' @ ln_key l) lenses"
| "axis_parts bindings items (OverSamples n) = map (\<lambda>s. ''sample.'' @ show_int s) [1..n]"
| "axis_parts bindings items (OverItems inp mx tr) = map fi_key items"

definition axis_ok :: "replicate_axis \<Rightarrow> bool" where
  "axis_ok a = (case a of
     OverLenses ls \<Rightarrow> distinct (map ln_key ls) \<and> list_all (\<lambda>l. CHR ''+'' \<notin> set (ln_key l)) ls
   | _ \<Rightarrow> True)"

definition items_ok :: "fan_out_item list \<Rightarrow> bool" where
  "items_ok its \<longleftrightarrow> distinct (map fi_key its)
     \<and> list_all (\<lambda>it. fi_key it \<noteq> [] \<and> CHR ''+'' \<notin> set (fi_key it)) its"

lemma axis_branches_keys:
  "map gb_key (axis_branches bindings items a b) = map (join_key b) (axis_parts bindings items a)"
  by (cases a) simp_all

lemma digits_inj [simp]: "digits_of_number m = digits_of_number n \<longleftrightarrow> m = n"
  by (metis number_of_digits_digits)

lemma show_nat_inj [simp]: "show_nat m = show_nat n \<longleftrightarrow> m = n"
  by (metis number_of_digits_digits show_nat_def)

lemma axis_parts_ok:
  assumes "axis_ok a" and "items_ok items"
  shows "distinct (axis_parts bindings items a)
    \<and> (\<forall>p\<in>set (axis_parts bindings items a). p \<noteq> [] \<and> CHR ''+'' \<notin> set p)"
proof (cases a)
  case (OverPanel role)
  then show ?thesis by (auto simp: distinct_map inj_on_def show_nat_def digits_no_plus)
next
  case (OverLenses ls)
  then show ?thesis using assms(1) by (auto simp: axis_ok_def distinct_map inj_on_def list_all_iff)
next
  case (OverSamples n)
  have "inj_on (\<lambda>s. ''sample.'' @ show_int s) {1..n}"
    by (auto simp: inj_on_def show_int_pos eq_nat_nat_iff)
  then show ?thesis using OverSamples by (auto simp: distinct_map show_int_pos digits_no_plus)
next
  case (OverItems inp mx tr)
  then show ?thesis using assms(2) by (auto simp: items_ok_def list_all_iff)
qed

lemma last_separator:
  "x @ s # p = y @ s # q \<Longrightarrow> s \<notin> set p \<Longrightarrow> s \<notin> set q \<Longrightarrow> x = y \<and> p = q"
  by (auto simp: append_eq_append_conv2 append_eq_Cons_conv Cons_eq_append_conv)

definition keys_ok :: "graph_branch list \<Rightarrow> bool" where
  "keys_ok bs \<longleftrightarrow> distinct (map gb_key bs) \<and> (length bs = 1 \<or> (\<forall>b\<in>set bs. gb_key b \<noteq> []))"

lemma join_key_inj:
  assumes "keys_ok bs" and "b \<in> set bs" and "c \<in> set bs" and "CHR ''+'' \<notin> set p"
    and "CHR ''+'' \<notin> set q" and "join_key b p = join_key c q"
  shows "gb_key b = gb_key c \<and> p = q"
proof (cases "gb_key b = [] \<or> gb_key c = []")
  case True
  then have "length bs = 1" using assms(1-3) by (auto simp: keys_ok_def)
  then have "b = c" using assms(2,3) by (cases bs) auto
  then show ?thesis using assms(6) by (auto simp: join_key_def split: if_splits)
next
  case False
  then show ?thesis using assms(4-6) last_separator [of "gb_key b" "CHR ''+''" p "gb_key c" q]
    by (simp add: join_key_def)
qed


lemma distinct_concat_map:
  assumes "distinct xs" and "\<And>x. x \<in> set xs \<Longrightarrow> distinct (f x)"
    and "\<And>x y z. x \<in> set xs \<Longrightarrow> y \<in> set xs \<Longrightarrow> z \<in> set (f x) \<Longrightarrow> z \<in> set (f y) \<Longrightarrow> x = y"
  shows "distinct (concat (map f xs))"
  using assms
proof (induction xs)
  case (Cons x xs)
  have "set (f x) \<inter> (\<Union>y\<in>set xs. set (f y)) = {}"
    using Cons.prems(1) Cons.prems(3) [of x] by fastforce
  moreover have "distinct (concat (map f xs))"
    using Cons.prems by (intro Cons.IH) auto
  ultimately show ?case using Cons.prems(2) by simp
qed simp

lemma axis_keeps_keys:
  assumes ok: "keys_ok bs" and a: "axis_ok a" "items_ok items"
  shows "keys_ok (concat (map (axis_branches bindings items a) bs))"
proof -
  note parts = axis_parts_ok [OF a, of bindings]
  have keys: "map gb_key (concat (map (axis_branches bindings items a) bs)) =
      concat (map (\<lambda>b. map (join_key b) (axis_parts bindings items a)) bs)"
    by (simp add: map_concat axis_branches_keys comp_def)
  let ?next = "concat (map (axis_branches bindings items a) bs)"
  have "distinct (concat (map (\<lambda>b. map (join_key b) (axis_parts bindings items a)) bs))"
  proof (rule distinct_concat_map)
    show "distinct bs" using ok by (simp add: keys_ok_def distinct_map)
  next
    fix b assume b: "b \<in> set bs"
    then show "distinct (map (join_key b) (axis_parts bindings items a))"
      using parts join_key_inj [OF ok b b] by (auto simp: distinct_map inj_on_def)
  next
    fix b c k
    assume b: "b \<in> set bs" and c: "c \<in> set bs"
      and "k \<in> set (map (join_key b) (axis_parts bindings items a))"
      and "k \<in> set (map (join_key c) (axis_parts bindings items a))"
    then have "gb_key b = gb_key c" using parts join_key_inj [OF ok b c] by fastforce
    then show "b = c" using ok b c by (auto simp: keys_ok_def distinct_map inj_on_def)
  qed
  then have "distinct (map gb_key ?next)" by (simp only: keys)
  moreover have "\<forall>k\<in>set (map gb_key ?next). k \<noteq> []"
    unfolding keys using parts by (auto simp: join_key_def)
  then have "\<forall>b\<in>set ?next. gb_key b \<noteq> []" by (simp only: set_map ball_simps)
  ultimately show ?thesis unfolding keys_ok_def by blast
qed

lemma expand_axes_ok:
  assumes "expand_axes nid bindings items as bs = Inr bs'" and "keys_ok bs" and "list_all axis_ok as"
    and "case items of None \<Rightarrow> True | Some its \<Rightarrow> items_ok its" and "length bs \<le> maxBranches"
  shows "keys_ok bs' \<and> length bs' \<le> maxBranches"
  using assms
proof (induction nid bindings items as bs rule: expand_axes.induct)
  case (2 nid bindings items a as bs)
  let ?its = "case items of None \<Rightarrow> [] | Some its \<Rightarrow> its"
  let ?next = "concat (map (axis_branches bindings ?its a) bs)"
  have "items_ok ?its" using "2.prems"(4) by (auto simp: items_ok_def split: option.splits)
  then have ok': "keys_ok ?next" using axis_keeps_keys "2.prems"(2,3) by simp
  from "2.prems"(1) have go: "\<not> (is_items_axis a \<and> items = None \<and> bs \<noteq> [])" "\<not> length ?next > maxBranches"
    "expand_axes nid bindings items as ?next = Inr bs'"
    by (auto simp: Let_def split: if_splits)
  show ?case by (rule "2.IH" [OF go(1) refl go(2,3) ok']) (use "2.prems" go(2) in simp_all)
qed simp

text \<open>C33. The branches of a replicated node: at most 32, each under a key of its own that the branch
  key grammar accepts, for every plan whose lenses have distinct keys without a \<open>+\<close> and every set of
  items a fan-out keyed. So a branch key names one branch of its position.\<close>

theorem node_branches_keyed:
  assumes "graphNodeBranches n bindings (Some (fx_items (graphItemFanOutItems cs mx))) = Inr (Some bs)"
    and "pn_replicate n = Some axes" and "list_all axis_ok axes" and "mx \<le> int maxBranches"
  shows "distinct (map gb_key bs) \<and> length bs \<le> maxBranches
    \<and> list_all (\<lambda>b. GRAPH_BRANCH_KEY_PATTERN (gb_key b)) bs"
proof -
  let ?its = "fx_items (graphItemFanOutItems cs mx)"
  have "length [] + length (take (nat mx) cs) < 10 ^ 19" using assms(4) by (simp add: maxBranches_def)
  note key_items_pattern [OF this]
  then have "\<forall>it\<in>set ?its. GRAPH_BRANCH_KEY_PATTERN (fi_key it) \<and> CHR ''+'' \<notin> set (fi_key it)"
    by (simp add: graphItemFanOutItems_def Let_def)
  moreover have "distinct (map fi_key ?its)"
    using key_items_keys by (simp add: graphItemFanOutItems_def Let_def)
  ultimately have its: "items_ok ?its" by (auto simp: items_ok_def list_all_iff dest: branch_key_shape)
  from assms(1,2) have e: "expand_axes (pn_id n) bindings (Some ?its) axes [first_branch n] = Inr bs"
    and "list_all (\<lambda>b. GRAPH_BRANCH_KEY_PATTERN (gb_key b)) bs"
    by (auto simp: graphNodeBranches_def node_replicate_def split: option.splits sum.splits if_splits)
  moreover have "keys_ok bs \<and> length bs \<le> maxBranches"
    by (rule expand_axes_ok [OF e]) (use its assms(3) in \<open>simp_all add: keys_ok_def maxBranches_def\<close>)
  ultimately show ?thesis by (simp add: keys_ok_def)
qed


definition example_node :: plan_node where
  "example_node =
     \<lparr>pn_id = ''review'', pn_kind = KAgent, pn_subgraph = None, pn_loop = None, pn_inputs = [],
      pn_when = None, pn_workspaceAccess = AccRead, pn_onFailure = FailRun, pn_retryAttempts = 0,
      pn_retryOn = [], pn_isolation = None, pn_role = ''reviewer'',
      pn_replicate = Some [OverPanel ''reviewer'', OverItems ''issues'' 2 TruncFirst], pn_strategy = [],
      pn_timeoutMs = None\<rparr>"

definition example_roles :: "(string \<times> role_binding) list" where
  "example_roles = [(''reviewer'', PanelModels [JNull, JNull])]"

definition example_candidates :: "item_candidate list" where
  "example_candidates = [\<lparr>ic_id = ''a/b'', ic_artifact = ''x''\<rparr>, \<lparr>ic_id = ''a:b'', ic_artifact = ''y''\<rparr>]"

definition example_items :: "fan_out_item list" where
  "example_items =
     [\<lparr>fi_key = ''item.a:b'', fi_index = 1, fi_id = ''a/b'', fi_artifact = ''x''\<rparr>,
      \<lparr>fi_key = ''item.a:b.2'', fi_index = 2, fi_id = ''a:b'', fi_artifact = ''y''\<rparr>]"

lemma example_fan_out: "fx_items (graphItemFanOutItems example_candidates 2) = example_items"
proof -
  have "graphItemBranchSegment ''a/b'' = ''item.a:b''" "graphItemBranchSegment ''a:b'' = ''item.a:b''"
    "show_nat 2 = ''2''" by code_simp+
  then show ?thesis
    by (simp add: graphItemFanOutItems_def example_candidates_def example_items_def Let_def
        suffix_loop.simps suffixed_def)
qed

lemma example_branches:
  "map_option (map_option (map gb_key)) (case graphNodeBranches example_node example_roles
       (Some example_items) of Inl m \<Rightarrow> None | Inr b \<Rightarrow> Some b) =
     Some (Some [''panel.1+item.a:b'', ''panel.1+item.a:b.2'', ''panel.2+item.a:b'', ''panel.2+item.a:b.2''])"
  by code_simp

theorem node_branches_keyed_witness:
  "\<exists>bs. graphNodeBranches example_node example_roles
      (Some (fx_items (graphItemFanOutItems example_candidates 2))) = Inr (Some bs)
    \<and> map gb_key bs = [''panel.1+item.a:b'', ''panel.1+item.a:b.2'', ''panel.2+item.a:b'', ''panel.2+item.a:b.2'']
    \<and> distinct (map gb_key bs)"
proof -
  obtain bs where bs: "graphNodeBranches example_node example_roles
      (Some (fx_items (graphItemFanOutItems example_candidates 2))) = Inr (Some bs)"
    and keys: "map gb_key bs = [''panel.1+item.a:b'', ''panel.1+item.a:b.2'', ''panel.2+item.a:b'', ''panel.2+item.a:b.2'']"
    using example_branches by (auto simp: example_fan_out split: sum.splits)
  have axes: "pn_replicate example_node = Some [OverPanel ''reviewer'', OverItems ''issues'' 2 TruncFirst]"
    by (simp add: example_node_def)
  have ok: "list_all axis_ok [OverPanel ''reviewer'', OverItems ''issues'' 2 TruncFirst]"
    by (simp add: axis_ok_def)
  have mx: "(2::int) \<le> int maxBranches" by (simp add: maxBranches_def)
  from node_branches_keyed [OF bs axes ok mx] have "distinct (map gb_key bs)" by (rule conjunct1)
  with bs keys show ?thesis by (intro exI [of _ bs] conjI)
qed

section \<open>Ids fit their bound\<close>

lemma length_digits_mono: "m \<le> n \<Longrightarrow> length (digits_of_number m) \<le> length (digits_of_number n)"
proof (induction n arbitrary: m rule: digits_of_number.induct)
  case (1 n)
  show ?case
  proof (cases "m < 10")
    case True
    then show ?thesis
      using digits_of_number_nonempty [of n] by (simp add: digits_of_number_small Suc_le_eq)
  next
    case False
    with 1(2) have n: "\<not> n < 10" by simp
    have "length (digits_of_number (m div 10)) \<le> length (digits_of_number (n div 10))"
      using n 1(2) by (intro "1.IH") (simp_all add: div_le_mono)
    then show ?thesis using False n by (simp add: digits_of_number.simps [of m] digits_of_number.simps [of n])
  qed
qed

lemma label_fits:
  assumes "suffixChars idPrefix count \<le> 112"
  shows "length (graphItemIdLabel ow idPrefix count) + suffixChars idPrefix count \<le> maxItemIdChars"
  using assms by (simp add: graphItemIdLabel_def Let_def maxItemIdChars_def sha256Hex_hex split: option.splits)

text \<open>The ids an accepted list's items get are as many as the items, pairwise different, and at most
  128 characters each: a label too long for them is shortened, down to sixteen characters of its hash.\<close>

theorem item_ids_fit:
  assumes "length idPrefix \<le> 64" and "count < 10 ^ 40"
  shows "length (graphItemIds ow idPrefix count) = count \<and> distinct (graphItemIds ow idPrefix count)
    \<and> list_all (\<lambda>s. length s \<le> maxItemIdChars) (graphItemIds ow idPrefix count)"
proof -
  have "length (show_nat (max 1 count)) \<le> 40"
    unfolding show_nat_def by (rule length_digits_of_number) (use assms(2) in simp_all)
  then have "suffixChars idPrefix count \<le> 112" using assms(1) by (simp add: suffixChars_def)
  from label_fits [OF this, of ow]
  have "length (graphItemIdLabel ow idPrefix count) + length idPrefix
      + length (show_nat (max 1 count)) + 2 \<le> maxItemIdChars" by (simp add: suffixChars_def)
  moreover have "length (show_nat (i + 1)) \<le> length (show_nat (max 1 count))" if "i < count" for i
    unfolding show_nat_def by (rule length_digits_mono) (use that in simp)
  ultimately have "list_all (\<lambda>s. length s \<le> maxItemIdChars) (graphItemIds ow idPrefix count)"
    by (fastforce simp: graphItemIds_def list_all_iff)
  then show ?thesis by (simp add: graphItemIds_def Let_def distinct_map inj_on_def)
qed

theorem item_ids_fit_witness:
  "length (graphItemIds \<lparr>io_nodeId = ''review'', io_iteration = 2, io_branchKey = Some ''panel.2''\<rparr> ''issue'' 3) = 3"
proof -
  have "length ''issue'' \<le> 64" "(3::nat) < 10 ^ 40" by simp_all
  from item_ids_fit [OF this] show ?thesis by blast
qed

end
