(* ===== verification/Run_View.thy ===== *)
theory Run_View
  imports Graph_Branches Graph_Lineage "HOL-Library.Monad_Syntax"
begin

text \<open>
  The scheduler's indexed view of one run (\<^verbatim>\<open>apps/backend/src/core/graph-run-view.ts\<close>) and the
  parameter scopes of inlined sub-graphs (\<^verbatim>\<open>packages/protocol/src/graphs/subgraphs.ts\<close>).

  The view's maps are association lists in insertion order, as JavaScript's maps iterate. Its memo of
  a position's branches is left out: it holds what \<open>branchesAt\<close> computes again, and a new fan-out
  clears it. An answer None of a function whose code may throw stands for the thrown internal error;
  \<open>do\<close> blocks pass it on.

  The plan's type library and the built-in adapters are an argument, \<open>type_library\<close>, read where the
  code resolves a type, checks a budget or runs an adapter.
\<close>

section \<open>Values, requests and outcomes\<close>

record type_definition =
  td_ref :: string
  td_items :: "type_items option"
  td_value_storage :: bool
  td_budget_issues :: "js \<Rightarrow> (string \<times> string) list"

record type_adapter =
  ad_id :: string
  ad_to :: string
  ad_apply :: "js \<Rightarrow> js option"

record type_library =
  tl_definition :: "string \<Rightarrow> type_definition option"
  tl_adapter :: "string \<Rightarrow> type_adapter option"

record loaded_artifact =
  la_type :: string
  la_producer :: artifact_producer
  la_itemIds :: "string list option"
  la_sourceItem :: "string option"

record loaded_value =
  lv_value :: js
  lv_artifact :: "loaded_artifact option"

datatype request_purpose = ForDelivery | ForError

text \<open>A requested value: an edge's, or the \<open>error@1\<close> value of a routed failure, whose message is
  counted in code units.\<close>

record routed_error =
  re_node :: string
  re_cause :: string
  re_code :: string
  re_message :: utf16
  re_attempts :: nat
  re_retryable :: bool

datatype request_value = JsValue js | RoutedError routed_error

record artifact_request =
  aq_key :: string
  aq_purpose :: request_purpose
  aq_producer :: artifact_producer
  aq_type :: string
  aq_values :: "request_value list"
  aq_inputs :: "string list"
  aq_sourceItems :: "string option list option"
  aq_edgeId :: "string option"
  aq_port :: "string option"

text \<open>What became of a request: the stored ids, or the message and cause of the failure.\<close>

datatype outcome = Stored "string list" | Unstorable string string

section \<open>Scopes of inlined sub-graphs\<close>

definition graphPlanSubgraph :: "graph_plan \<Rightarrow> string option \<Rightarrow> plan_subgraph option" where
  "graphPlanSubgraph plan sid =
     (case sid of
        None \<Rightarrow> None
      | Some i \<Rightarrow> (case plan_subgraphs plan of None \<Rightarrow> None | Some ss \<Rightarrow> find (\<lambda>s. ps_id s = i) ss))"

definition param_value :: "(string \<times> js) list \<Rightarrow> param_source \<Rightarrow> js option" where
  "param_value runParams src = (case src of ParamValue v \<Rightarrow> Some v | ParamRef p \<Rightarrow> obj_get runParams p)"

definition graphPlanScopeParams ::
  "graph_plan \<Rightarrow> string option \<Rightarrow> (string \<times> js) list \<Rightarrow> (string \<times> js) list" where
  "graphPlanScopeParams plan sid runParams =
     (case graphPlanSubgraph plan sid of
        None \<Rightarrow> runParams
      | Some s \<Rightarrow> fold (\<lambda>(k, src) vs. case param_value runParams src of
                     None \<Rightarrow> vs | Some v \<Rightarrow> if v = JUndef then vs else obj_set k v vs) (ps_params s) [])"

definition graphPlanNodeParams ::
  "graph_plan \<Rightarrow> string \<Rightarrow> (string \<times> js) list \<Rightarrow> (string \<times> js) list" where
  "graphPlanNodeParams plan nid runParams =
     graphPlanScopeParams plan
       (case find (\<lambda>n. pn_id n = nid) (plan_nodes plan) of None \<Rightarrow> None | Some n \<Rightarrow> pn_subgraph n) runParams"

definition graphPlanLoopParams ::
  "graph_plan \<Rightarrow> string \<Rightarrow> (string \<times> js) list \<Rightarrow> (string \<times> js) list" where
  "graphPlanLoopParams plan lid runParams =
     graphPlanScopeParams plan
       (case find (\<lambda>l. pl_id l = lid) (plan_loops plan) of None \<Rightarrow> None | Some l \<Rightarrow> pl_subgraph l) runParams"

section \<open>The view\<close>

record run_view =
  vw_run :: graph_run
  vw_values :: "(string \<times> loaded_value) list"
  vw_outcomes :: "(string \<times> outcome) list"
  vw_fanOuts :: "(string \<times> item_fan_out) list"
  vw_latest :: "(string \<times> activation) list"
  vw_liveCount :: "(string \<times> nat) list"
  vw_maxAttempt :: "(string \<times> int) list"
  vw_requests :: "(string \<times> artifact_request) list"
  vw_missing :: "string list"

definition position_key :: "string \<Rightarrow> int \<Rightarrow> string" where
  "position_key n i = n @ ''#iter='' @ show_int i"

definition get_or :: "'v \<Rightarrow> 'v option \<Rightarrow> 'v" where
  "get_or d x = (case x of None \<Rightarrow> d | Some v \<Rightarrow> v)"

definition act_slot :: "activation \<Rightarrow> string" where
  "act_slot a = graphActivationSlot (act_nodeId a) (act_iteration a) (act_branchKey a)"

definition index_activation :: "activation \<Rightarrow> run_view \<Rightarrow> run_view" where
  "index_activation a v =
     (let slot = act_slot a;
          v = v\<lparr>vw_maxAttempt := obj_set slot (max (get_or 0 (obj_get (vw_maxAttempt v) slot)) (act_attempt a))
                (vw_maxAttempt v)\<rparr>
      in if act_state a = Superseded then v
         else (let v = v\<lparr>vw_liveCount := obj_set slot (get_or 0 (obj_get (vw_liveCount v) slot) + 1)
                         (vw_liveCount v)\<rparr>
               in (case obj_get (vw_latest v) slot of
                     None \<Rightarrow> v\<lparr>vw_latest := obj_set slot a (vw_latest v)\<rparr>
                   | Some cur \<Rightarrow> if act_attempt a > act_attempt cur
                                 then v\<lparr>vw_latest := obj_set slot a (vw_latest v)\<rparr> else v)))"

definition view_add :: "activation \<Rightarrow> run_view \<Rightarrow> run_view" where
  "view_add a v = index_activation a v"

definition addFanOut :: "item_fan_out \<Rightarrow> run_view \<Rightarrow> run_view" where
  "addFanOut f v = v\<lparr>vw_fanOuts := obj_set (position_key (fo_nodeId f) (fo_iteration f)) f (vw_fanOuts v)\<rparr>"

definition new_view ::
  "graph_run \<Rightarrow> (string \<times> loaded_value) list \<Rightarrow> (string \<times> outcome) list \<Rightarrow> run_view" where
  "new_view run loaded outcomes =
     fold (\<lambda>f v. if fo_supersededBy f = None then addFanOut f v else v)
       (get_or [] (run_fanOuts run))
       (fold index_activation (run_activations run)
          \<lparr>vw_run = run, vw_values = loaded, vw_outcomes = outcomes, vw_fanOuts = [], vw_latest = [],
           vw_liveCount = [], vw_maxAttempt = [], vw_requests = [], vw_missing = []\<rparr>)"

abbreviation vw_plan :: "run_view \<Rightarrow> graph_plan" where "vw_plan v \<equiv> run_plan (vw_run v)"

text \<open>The maps of nodes, edges and loops by id: the last entry with an id is the one kept.\<close>

definition view_node :: "run_view \<Rightarrow> string \<Rightarrow> plan_node option" where
  "view_node v i = find (\<lambda>n. pn_id n = i) (rev (plan_nodes (vw_plan v)))"

definition view_edge :: "run_view \<Rightarrow> string \<Rightarrow> plan_edge option" where
  "view_edge v i = find (\<lambda>e. pe_id e = i) (rev (plan_edges (vw_plan v)))"

definition view_loop :: "run_view \<Rightarrow> string \<Rightarrow> plan_loop option" where
  "view_loop v i = find (\<lambda>l. pl_id l = i) (rev (plan_loops (vw_plan v)))"

text \<open>\<open><loopId>#<index>\<close>; an index that is no decimal numeral is taken as unknown.\<close>

definition view_carry :: "run_view \<Rightarrow> string \<Rightarrow> (plan_loop \<times> loop_carry) option" where
  "view_carry v cid =
     (let parts = split_on CHR ''#'' cid; ds = last parts; i = number_of_digits ds
      in do {
        l \<leftarrow> view_loop v (join_with ''#'' (butlast parts));
        (if ds \<noteq> [] \<and> list_all is_digit ds \<and> i < length (pl_carry l) then Some (l, pl_carry l ! i) else None)
      })"

definition view_inputPort :: "run_view \<Rightarrow> string \<Rightarrow> string \<Rightarrow> input_port option option" where
  "view_inputPort v n p = do { node \<leftarrow> view_node v n; Some (find (\<lambda>ip. ip_name ip = p) (pn_inputs node)) }"

definition fanOutAt :: "run_view \<Rightarrow> string \<Rightarrow> int \<Rightarrow> item_fan_out option" where
  "fanOutAt v n i = obj_get (vw_fanOuts v) (position_key n i)"

definition branches_or_throw :: "string + 'a \<Rightarrow> 'a option" where
  "branches_or_throw r = (case r of Inl m \<Rightarrow> None | Inr b \<Rightarrow> Some b)"

definition branchesAt :: "run_view \<Rightarrow> plan_node \<Rightarrow> int \<Rightarrow> graph_branch list option option" where
  "branchesAt v n i =
     (let roles = rb_roles (run_bindings (vw_run v))
      in if graphNodeItemsAxis n \<noteq> None
         then (case fanOutAt v (pn_id n) i of
                 None \<Rightarrow> Some None
               | Some f \<Rightarrow> if fo_items f = [] then Some None
                           else branches_or_throw (graphNodeBranches n roles (Some (fo_items f))))
         else branches_or_throw (graphNodeBranches n roles None))"

definition branchKeysAt :: "run_view \<Rightarrow> plan_node \<Rightarrow> int \<Rightarrow> string option list option" where
  "branchKeysAt v n i =
     do { b \<leftarrow> branchesAt v n i;
          Some (case b of None \<Rightarrow> [None] | Some bs \<Rightarrow> map (\<lambda>x. Some (gb_key x)) bs) }"

definition branchAt :: "run_view \<Rightarrow> plan_node \<Rightarrow> int \<Rightarrow> string \<Rightarrow> graph_branch option option" where
  "branchAt v n i k =
     do { b \<leftarrow> branchesAt v n i;
          Some (case b of None \<Rightarrow> None | Some bs \<Rightarrow> find (\<lambda>x. gb_key x = k) bs) }"

definition view_iteration :: "run_view \<Rightarrow> string \<Rightarrow> int" where
  "view_iteration v l = get_or 1 (obj_get (run_loopIterations (vw_run v)) l)"

definition nodeIteration :: "run_view \<Rightarrow> plan_node \<Rightarrow> int" where
  "nodeIteration v n =
     (case pn_loop n of None \<Rightarrow> 1 | Some l \<Rightarrow> if l = [] then 1 else view_iteration v l)"

definition latestAt :: "run_view \<Rightarrow> string \<Rightarrow> int \<Rightarrow> string option \<Rightarrow> activation option" where
  "latestAt v n i b = obj_get (vw_latest v) (graphActivationSlot n i b)"

definition liveAttempts :: "run_view \<Rightarrow> activation \<Rightarrow> nat" where
  "liveAttempts v a = get_or 0 (obj_get (vw_liveCount v) (act_slot a))"

definition nextAttempt :: "run_view \<Rightarrow> string \<Rightarrow> int \<Rightarrow> string option \<Rightarrow> int" where
  "nextAttempt v n i b = get_or 0 (obj_get (vw_maxAttempt v) (graphActivationSlot n i b)) + 1"

definition latestActivations :: "run_view \<Rightarrow> activation list" where
  "latestActivations v = map snd (vw_latest v)"

end
