(* ===== verification/Edge_Transforms.thy ===== *)
theory Edge_Transforms
  imports Run_View Predicates "HOL-Library.Sublist"
begin

text \<open>
  Edge transforms on the values an edge delivers (\<^verbatim>\<open>apps/backend/src/core/graph-edge-transforms.ts\<close>):
  pick, filter, limit, flatten and adapt over a chain of entries, and what a port receives from one
  edge. References to values are the values themselves: equal elements get equal verdicts, so the
  alignment of filtered elements by \<open>Object.is\<close> keeps the same entries. Property values are data
  properties; a value that is no plain record has no own field to read.
\<close>

definition transformMaxElements :: nat where "transformMaxElements = maxArtifactItems"
definition maxPortArtifacts :: nat where "maxPortArtifacts = 256"

record item_ids =
  ii_path :: string
  ii_ids :: "string list"

record chain_entry =
  en_value :: js
  en_from :: "string option"
  en_items :: "item_ids option"
  en_sourceItem :: "string option"

definition plain_entry :: "js \<Rightarrow> chain_entry" where
  "plain_entry v = \<lparr>en_value = v, en_from = None, en_items = None, en_sourceItem = None\<rparr>"

text \<open>A failed chain: its code, the transform's index and the message.\<close>

datatype transform_error = RequiresList | TooManyElements | UnknownAdapter | FilterFailed | AdapterFailed

record chain_failure =
  cf_code :: transform_error
  cf_index :: nat
  cf_message :: string

type_synonym chain = "chain_failure + bool \<times> chain_entry list"

section \<open>Pick\<close>

definition ownField :: "js \<Rightarrow> string \<Rightarrow> js" where
  "ownField v k = (case v of JObj ps \<Rightarrow> (case obj_get ps k of None \<Rightarrow> JUndef | Some x \<Rightarrow> x) | _ \<Rightarrow> JUndef)"

definition valueAtPath :: "js \<Rightarrow> string \<Rightarrow> js" where
  "valueAtPath v path =
     fold (\<lambda>seg cur. if cur = JNull \<or> cur = JUndef then JUndef else ownField cur seg)
       (split_on CHR ''.'' path) v"

datatype pick_tree = PickAll | PickSome "(string \<times> pick_tree) list"

text \<open>
  One field path added to a tree, segment by segment. A whole replaces its parts. Under a picked whole
  the code leaves only the callback of that segment, so the next segments are added where they are.
\<close>

fun pick_add :: "string list \<Rightarrow> (string \<times> pick_tree) list \<Rightarrow> (string \<times> pick_tree) list" where
  "pick_add [] node = node"
| "pick_add [seg] node = obj_set seg PickAll node"
| "pick_add (seg # segs) node =
     (case obj_get node seg of
        Some PickAll \<Rightarrow> pick_add segs node
      | Some (PickSome sub) \<Rightarrow> obj_set seg (PickSome (pick_add segs sub)) node
      | None \<Rightarrow> obj_set seg (PickSome (pick_add segs [])) node)"

definition pickTree :: "string list \<Rightarrow> (string \<times> pick_tree) list" where
  "pickTree fields_arg = fold (\<lambda>f node. pick_add (split_on CHR ''.'' f) node) fields_arg []"

fun pick_build :: "pick_tree \<Rightarrow> js \<Rightarrow> js"
  and pick_fields :: "(string \<times> pick_tree) list \<Rightarrow> js \<Rightarrow> (string \<times> js) list \<Rightarrow> (string \<times> js) list" where
  "pick_build PickAll v = v"
| "pick_build (PickSome picks) v = (case v of JObj _ \<Rightarrow> JObj (pick_fields picks v []) | _ \<Rightarrow> v)"
| "pick_fields [] v out = out"
| "pick_fields ((k, sub) # picks) v out =
     (let child = ownField v k
      in if child = JUndef then pick_fields picks v out
         else pick_fields picks v
                (obj_set k (if child = JNull then child else pick_build sub child) out))"

definition pickGraphValue :: "js \<Rightarrow> string list \<Rightarrow> js" where
  "pickGraphValue v fields_arg = pick_build (PickSome (pickTree fields_arg)) v"

section \<open>One transform\<close>

definition too_many :: "nat \<Rightarrow> nat \<Rightarrow> chain_failure" where
  "too_many index count =
     \<lparr>cf_code = TooManyElements, cf_index = index,
      cf_message = ''Transform '' @ show_nat index @ '' would hold '' @ show_nat count
        @ '' elements; at most '' @ show_nat transformMaxElements @ '' are allowed''\<rparr>"

definition requiresList :: "string \<Rightarrow> nat \<Rightarrow> chain_failure" where
  "requiresList op index =
     \<lparr>cf_code = RequiresList, cf_index = index,
      cf_message = ''Transform '' @ show_nat index @ '' ('' @ op @ '') applies to a list''\<rparr>"

text \<open>The alignment of the filtered elements with their entries.\<close>

fun align :: "js list \<Rightarrow> chain_entry list \<Rightarrow> chain_entry list" where
  "align kept [] = []"
| "align [] (e # es) = []"
| "align (k # ks) (e # es) = (if k = en_value e then e # align ks es else align (k # ks) es)"

fun failure_code :: "filter_failure \<Rightarrow> string" where
  "failure_code NotAList = ''not_a_list''"
| "failure_code (TooManyItems n) = ''too_many_items''"
| "failure_code (FilterEval e) =
     (case ee_code e of
        TooDeep \<Rightarrow> ''too_deep'' | TooManyNodes \<Rightarrow> ''too_many_nodes'' | Malformed \<Rightarrow> ''malformed''
      | Internal \<Rightarrow> ''internal'')"

text \<open>The elements cut from one entry: those of the type's own item list keep their item's id.\<close>

definition cut_entries :: "string \<Rightarrow> chain_entry \<Rightarrow> js list \<Rightarrow> chain_entry list" where
  "cut_entries path e nested =
     (let ids = (case en_items e of
                   None \<Rightarrow> None
                 | Some it \<Rightarrow> if ii_path it = path \<and> length (ii_ids it) = length nested
                             then Some (ii_ids it) else None)
      in map (\<lambda>p. (plain_entry (nested ! p))\<lparr>en_sourceItem := map_option (\<lambda>xs. xs ! p) ids\<rparr>)
           [0..<length nested])"

fun flatten_entries :: "string \<Rightarrow> nat \<Rightarrow> chain_entry list \<Rightarrow> chain_entry list \<Rightarrow> chain" where
  "flatten_entries path index [] out = Inr (True, out)"
| "flatten_entries path index (e # es) out =
     (case valueAtPath (en_value e) path of
        JArr nested \<Rightarrow>
          (if length out + length nested > transformMaxElements
           then Inl (too_many index (length out + length nested))
           else flatten_entries path index es (out @ cut_entries path e nested))
      | _ \<Rightarrow> flatten_entries path index es out)"

text \<open>What an adapter made of one entry: a list adapter's elements, or one value that keeps its item.\<close>

definition adapted_entries :: "type_adapter \<Rightarrow> chain_entry \<Rightarrow> js \<Rightarrow> chain_entry list" where
  "adapted_entries ad e result =
     (let toList = starts_with ''list<'' (ad_to ad);
          produced = (case result of JArr xs \<Rightarrow> if toList then xs else [result] | _ \<Rightarrow> [result]);
          keep = (if toList then None else en_sourceItem e)
      in map (\<lambda>v. (plain_entry v)\<lparr>en_sourceItem := keep\<rparr>) produced)"

fun adapt_entries :: "type_adapter \<Rightarrow> nat \<Rightarrow> chain_entry list \<Rightarrow> chain_entry list \<Rightarrow> chain_failure + chain_entry list"
where
  "adapt_entries ad index [] out = Inr out"
| "adapt_entries ad index (e # es) out =
     (case ad_apply ad (en_value e) of
        None \<Rightarrow> Inl \<lparr>cf_code = AdapterFailed, cf_index = index,
                     cf_message = ''Transform '' @ show_nat index @ '': adapter '' @ ad_id ad
                       @ '' could not adapt the value''\<rparr>
      | Some result \<Rightarrow>
          (let made = adapted_entries ad e result
           in if length out + length made > transformMaxElements
              then Inl (too_many index (length out + length made))
              else adapt_entries ad index es (out @ made)))"

fun applyOne :: "type_library \<Rightarrow> nat \<Rightarrow> edge_transform \<Rightarrow> bool \<Rightarrow> chain_entry list \<Rightarrow> chain" where
  "applyOne lib index (TFilter where_pred) lst entries =
     (if \<not> lst then Inl (requiresList ''filter'' index)
      else (case filterGraphPredicateList (JArr (map en_value entries)) where_pred (Some transformMaxElements) of
              Inl err \<Rightarrow>
                Inl \<lparr>cf_code = FilterFailed, cf_index = index,
                     cf_message = ''Transform '' @ show_nat index @ '' (filter) failed: '' @ failure_code err\<rparr>
            | Inr r \<Rightarrow> Inr (lst, align (fr_items r) entries)))"
| "applyOne lib index (TLimit count) lst entries =
     (if \<not> lst then Inl (requiresList ''limit'' index) else Inr (lst, take (nat count) entries))"
| "applyOne lib index (TPick fields_arg) lst entries =
     Inr (lst, map (\<lambda>e. (plain_entry (pickGraphValue (en_value e) fields_arg))
                        \<lparr>en_sourceItem := en_sourceItem e\<rparr>) entries)"
| "applyOne lib index (TFlatten path) lst entries = flatten_entries path index entries []"
| "applyOne lib index (TAdapt aid) lst entries =
     (case tl_adapter lib aid of
        None \<Rightarrow> Inl \<lparr>cf_code = UnknownAdapter, cf_index = index,
                     cf_message = ''Transform '' @ show_nat index @ '': unknown adapter '' @ aid\<rparr>
      | Some ad \<Rightarrow>
          (case adapt_entries ad index entries [] of
             Inl f \<Rightarrow> Inl f
           | Inr out \<Rightarrow> Inr (lst \<or> starts_with ''list<'' (ad_to ad), out)))"

fun run_transforms ::
  "type_library \<Rightarrow> nat \<Rightarrow> edge_transform list \<Rightarrow> bool \<Rightarrow> chain_entry list \<Rightarrow> chain" where
  "run_transforms lib index [] lst entries = Inr (lst, entries)"
| "run_transforms lib index (t # ts) lst entries =
     (case applyOne lib index t lst entries of
        Inl f \<Rightarrow> Inl f
      | Inr (lst', entries') \<Rightarrow> run_transforms lib (index + 1) ts lst' entries')"

definition runChain :: "type_library \<Rightarrow> chain_entry list \<Rightarrow> bool \<Rightarrow> edge_transform list \<Rightarrow> chain" where
  "runChain lib entries lst ts =
     (if length entries > transformMaxElements then Inl (too_many 0 (length entries))
      else run_transforms lib 0 ts lst entries)"

definition applyGraphEdgeTransforms ::
  "type_library \<Rightarrow> js \<Rightarrow> edge_transform list \<Rightarrow> bool \<Rightarrow> chain_failure + js \<times> bool" where
  "applyGraphEdgeTransforms lib v ts lst =
     (let run = (\<lambda>entries. case runChain lib entries lst ts of
                   Inl f \<Rightarrow> Inl f
                 | Inr (lst', es) \<Rightarrow>
                     Inr (if lst' then JArr (map en_value es)
                          else (case es of [] \<Rightarrow> JUndef | e # _ \<Rightarrow> en_value e), lst'))
      in if lst
         then (case v of
                 JArr xs \<Rightarrow> run (map plain_entry xs)
               | _ \<Rightarrow> Inl \<lparr>cf_code = RequiresList, cf_index = 0, cf_message = ''The source is not a list''\<rparr>)
         else run [plain_entry v])"

section \<open>Delivery\<close>

record delivery_source =
  ds_id :: string
  ds_value :: js
  ds_items :: "item_ids option"

datatype edge_delivery =
    Forward "string list"
  | StoreValues string "js list" "string list" "string option list option"
  | DeliveryFailed string string

definition graphEdgeNeedsDelivery :: "plan_edge \<Rightarrow> bool" where
  "graphEdgeNeedsDelivery e \<longleftrightarrow> pe_transform e \<noteq> [] \<or> pe_budgetCheck e"

definition ends_with :: "string \<Rightarrow> string \<Rightarrow> bool" where
  "ends_with p s = starts_with (rev p) (rev s)"

text \<open>\<open>[...new Set(xs)]\<close>: the first occurrences, in order.\<close>

definition remdups_first :: "'a list \<Rightarrow> 'a list" where
  "remdups_first xs = rev (remdups (rev xs))"

text \<open>\<open>slice(5, -1)\<close>.\<close>

definition elementRef :: "string \<Rightarrow> string" where
  "elementRef t = (if starts_with ''list<'' t \<and> ends_with ''>'' t then butlast (drop 5 t) else t)"

definition is_list_port :: "input_port \<Rightarrow> bool" where
  "is_list_port p \<longleftrightarrow> ip_fanIn p \<or> starts_with ''list<'' (ip_type p)"

definition budget_failure :: "string" where "budget_failure = ''budget-exceeded''"
definition system_failure :: "string" where "system_failure = ''system-error''"

text \<open>The first value over the budgets, its index counted from the given one.\<close>

fun budgetFailure ::
  "plan_edge \<Rightarrow> input_port \<Rightarrow> type_definition \<Rightarrow> bool \<Rightarrow> nat \<Rightarrow> js list \<Rightarrow> edge_delivery option" where
  "budgetFailure e p def several i [] = None"
| "budgetFailure e p def several i (v # vs) =
     (case td_budget_issues def v of
        [] \<Rightarrow> budgetFailure e p def several (i + 1) vs
      | (code, path) # _ \<Rightarrow>
          Some (DeliveryFailed budget_failure
            (''Input '' @ ip_name p @ '': edge '' @ pe_id e @ '' delivers a value''
             @ (if several then '' (element '' @ show_nat i @ '')'' else [])
             @ '' over '' @ td_ref def @ [CHR 0x27] @ ''s budgets ('' @ code @ '' at '' @ path @ '')'')))"

definition source_entry :: "delivery_source \<Rightarrow> chain_entry" where
  "source_entry s =
     \<lparr>en_value = ds_value s, en_from = Some (ds_id s), en_items = ds_items s, en_sourceItem = None\<rparr>"

definition edge_list :: "plan_edge \<Rightarrow> delivery_source list \<Rightarrow> bool" where
  "edge_list e sources = (case pe_sourceList e of Some l \<Rightarrow> l | None \<Rightarrow> length sources \<noteq> 1)"

definition store_or_forward ::
  "input_port \<Rightarrow> type_definition \<Rightarrow> delivery_source list \<Rightarrow> chain_entry list \<Rightarrow> edge_delivery" where
  "store_or_forward p def sources entries =
     (if list_all (\<lambda>en. en_from en \<noteq> None) entries
      then Forward (map (\<lambda>en. get_or [] (en_from en)) entries)
      else if \<not> td_value_storage def
      then DeliveryFailed system_failure
             (''Input '' @ ip_name p @ '': a transform cannot make a '' @ td_ref def @ '' file artifact'')
      else
        (let sourceItems = map en_sourceItem entries
         in StoreValues (td_ref def) (map en_value entries) (remdups_first (map ds_id sources))
              (if list_ex (\<lambda>i. i \<noteq> None) sourceItems then Some sourceItems else None)))"

text \<open>The checks on the transformed entries, in the code's order.\<close>

definition finish_delivery ::
  "type_library \<Rightarrow> plan_edge \<Rightarrow> input_port \<Rightarrow> delivery_source list \<Rightarrow> bool \<Rightarrow> chain_entry list \<Rightarrow> edge_delivery" where
  "finish_delivery lib e p sources lst entries =
     (let input = ''Input '' @ ip_name p; targetRef = elementRef (ip_type p) in
      case tl_definition lib targetRef of
        None \<Rightarrow> DeliveryFailed system_failure (input @ '': '' @ targetRef @ '' is not a type of this run'')
      | Some def \<Rightarrow>
          if lst \<and> \<not> is_list_port p
          then DeliveryFailed system_failure
                 (input @ '' takes one value but edge '' @ pe_id e @ '' delivers a list'')
          else if length entries > maxPortArtifacts
          then DeliveryFailed budget_failure
                 (input @ '': edge '' @ pe_id e @ '' delivers '' @ show_nat (length entries)
                  @ '' elements; a port takes at most '' @ show_nat maxPortArtifacts
                  @ '' (add a limit transform)'')
          else
            (case budgetFailure e p def (length entries > 1) 0 (map en_value entries) of
               Some failure \<Rightarrow> failure
             | None \<Rightarrow> store_or_forward p def sources entries))"

definition planGraphEdgeDelivery ::
  "type_library \<Rightarrow> plan_edge \<Rightarrow> input_port \<Rightarrow> delivery_source list \<Rightarrow> edge_delivery" where
  "planGraphEdgeDelivery lib e p sources =
     (let lst = edge_list e sources;
          input = ''Input '' @ ip_name p
      in if \<not> lst \<and> length sources \<noteq> 1
         then DeliveryFailed system_failure
                (input @ '': edge '' @ pe_id e @ '' delivers '' @ show_nat (length sources)
                 @ '' artifacts where one is expected'')
         else
           (case runChain lib (map source_entry sources) lst (pe_transform e) of
              Inl f \<Rightarrow> DeliveryFailed system_failure (input @ '': edge '' @ pe_id e @ '': '' @ cf_message f)
            | Inr (lst', entries) \<Rightarrow> finish_delivery lib e p sources lst' entries))"

section \<open>What filter and limit keep\<close>

definition verdict_true :: "prepared \<Rightarrow> js \<Rightarrow> bool" where
  "verdict_true p v \<longleftrightarrow> kleene (walk (Some v)) p = Some True"

lemma filter_step_items:
  "fr_items (fold (filter_step p) xs r) = fr_items r @ filter (verdict_true p) xs"
  by (induction xs arbitrary: r)
    (auto simp: filter_step_def verdict_true_def evaluate_truth split: option.splits bool.splits)

lemma align_filter: "align (filter P (map en_value es)) es = filter (\<lambda>e. P (en_value e)) es"
proof (induction es)
  case (Cons e es)
  show ?case
  proof (cases "P (en_value e)")
    case False
    show ?thesis
    proof (cases "filter P (map en_value es)")
      case Nil
      then have "filter (\<lambda>e. P (en_value e)) es = []" by (simp add: filter_empty_conv)
      then show ?thesis using False Nil by simp
    next
      case (Cons k ks)
      then have "P k" by (metis filter_eq_ConsD)
      then show ?thesis using False Cons Cons.IH by auto
    qed
  qed (use Cons.IH in simp)
qed simp

lemma filter_keeps_entries:
  assumes "filterGraphPredicateList (JArr (map en_value es)) w mx = Inr r"
  shows "\<exists>p. prepare_predicate w = Inr p
    \<and> align (fr_items r) es = filter (\<lambda>e. verdict_true p (en_value e)) es"
proof -
  from assms obtain n elements p where "boundedArray (JArr (map en_value es)) n = Some elements"
    and p: "prepare_predicate w = Inr p"
    and r: "r = fold (filter_step p) elements \<lparr>fr_items = [], fr_dropped = 0, fr_unknown = 0\<rparr>"
    by (auto simp: filterGraphPredicateList_def Let_def split: option.splits sum.splits)
  then have "elements = map en_value es" by (auto simp: boundedArray_def split: if_splits)
  then have "fr_items r = filter (verdict_true p) (map en_value es)" by (simp add: r filter_step_items)
  with p show ?thesis by (simp add: align_filter)
qed

section \<open>Chains are bounded, and forward only what they were given\<close>

definition fresh_entries :: "chain_entry list \<Rightarrow> bool" where
  "fresh_entries es \<longleftrightarrow> list_all (\<lambda>e. en_from e = None) es"

lemma fresh_cut: "fresh_entries (cut_entries path e nested)" "length (cut_entries path e nested) = length nested"
  by (simp_all add: cut_entries_def Let_def fresh_entries_def plain_entry_def list_all_iff)

lemma fresh_adapted: "fresh_entries (adapted_entries ad e result)"
  by (simp add: adapted_entries_def Let_def fresh_entries_def plain_entry_def list_all_iff)

lemma fresh_append [simp]: "fresh_entries (xs @ ys) \<longleftrightarrow> fresh_entries xs \<and> fresh_entries ys"
  by (simp add: fresh_entries_def)

lemma flatten_bounded:
  "flatten_entries path i es out = Inr (l, es') \<Longrightarrow> length out \<le> transformMaxElements \<Longrightarrow> fresh_entries out \<Longrightarrow>
    length es' \<le> transformMaxElements \<and> fresh_entries es'"
proof (induction path i es out rule: flatten_entries.induct)
  case (2 path i e es out)
  show ?case
  proof (cases "valueAtPath (en_value e) path")
    case (JArr nested)
    with "2.prems" show ?thesis
      by (intro "2.IH"(6) [OF JArr]) (simp_all add: fresh_cut split: if_splits)
  qed (use "2.prems" "2.IH" in simp_all)
qed simp

lemma adapt_bounded:
  "adapt_entries ad i es out = Inr es' \<Longrightarrow> length out \<le> transformMaxElements \<Longrightarrow> fresh_entries out \<Longrightarrow>
    length es' \<le> transformMaxElements \<and> fresh_entries es'"
proof (induction ad i es out rule: adapt_entries.induct)
  case (2 ad i e es out)
  then show ?case
  proof (cases "ad_apply ad (en_value e)")
    case (Some result)
    with "2.prems" show ?thesis
      by (intro "2.IH" [OF Some refl]) (simp_all add: fresh_adapted Let_def split: if_splits)
  qed simp
qed simp

lemma applyOne_entries:
  assumes "applyOne lib i t lst es = Inr (lst', es')" and "length es \<le> transformMaxElements"
  shows "length es' \<le> transformMaxElements \<and> (subseq es' es \<or> fresh_entries es')"
proof (cases t)
  case (TFilter w)
  from assms(1) obtain r where r: "filterGraphPredicateList (JArr (map en_value es)) w (Some transformMaxElements) = Inr r"
    "es' = align (fr_items r) es"
    by (auto simp: TFilter split: if_splits sum.splits)
  from filter_keeps_entries [OF r(1)] obtain p where "es' = filter (\<lambda>e. verdict_true p (en_value e)) es"
    using r(2) by blast
  then show ?thesis using assms(2) le_trans [OF length_filter_le] by (auto simp: subseq_filter_left)
next
  case (TLimit n)
  then have "es' = take (nat n) es" using assms(1) by (auto split: if_splits)
  then show ?thesis using assms(2) by (auto intro: prefix_imp_subseq take_is_prefix)
next
  case (TPick fs)
  then show ?thesis using assms by (auto simp: fresh_entries_def plain_entry_def list_all_iff)
next
  case (TFlatten path)
  have "flatten_entries path i es [] = Inr (lst', es')" using assms(1) by (simp add: TFlatten)
  from flatten_bounded [OF this] show ?thesis by (simp add: fresh_entries_def)
next
  case (TAdapt a)
  from assms(1) obtain ad where "adapt_entries ad i es [] = Inr es'"
    by (auto simp: TAdapt split: option.splits sum.splits)
  from adapt_bounded [OF this] show ?thesis by (simp add: fresh_entries_def)
qed

lemma fresh_subseq: "subseq xs ys \<Longrightarrow> fresh_entries ys \<Longrightarrow> fresh_entries xs"
  by (induction rule: list_emb.induct) (auto simp: fresh_entries_def)

lemma run_transforms_entries:
  "run_transforms lib i ts lst es = Inr (lst', es') \<Longrightarrow> length es \<le> transformMaxElements \<Longrightarrow>
    length es' \<le> transformMaxElements \<and> (subseq es' es \<or> fresh_entries es')"
proof (induction lib i ts lst es rule: run_transforms.induct)
  case (2 lib i t ts lst es)
  from "2.prems"(1) obtain l1 es1 where one: "applyOne lib i t lst es = Inr (l1, es1)"
    and rest: "run_transforms lib (i + 1) ts l1 es1 = Inr (lst', es')"
    by (auto split: sum.splits)
  note e1 = applyOne_entries [OF one "2.prems"(2)]
  have "length es' \<le> transformMaxElements \<and> (subseq es' es1 \<or> fresh_entries es')"
    by (rule "2.IH" [OF one refl rest]) (use e1 in simp)
  with e1 show ?case using subseq_order.order_trans fresh_subseq by blast
qed simp

lemma applyOne_single:
  assumes "applyOne lib i t lst es = Inr (False, es')"
  shows "\<not> lst \<and> (length es = 1 \<longrightarrow> length es' = 1)"
proof (cases t)
  case (TAdapt a)
  with assms obtain ad where ad: "\<not> lst" "\<not> starts_with ''list<'' (ad_to ad)" "adapt_entries ad i es [] = Inr es'"
    by (auto split: option.splits sum.splits)
  moreover have "length es' = 1" if "length es = 1"
  proof -
    from that obtain e where "es = [e]" by (cases es) auto
    with ad show ?thesis
      by (auto simp: Let_def adapted_entries_def split: option.splits if_splits js.splits)
  qed
  ultimately show ?thesis by simp
next
  case (TFlatten path)
  have "flatten_entries path i es out = Inr (l, es') \<Longrightarrow> l" for l out
    by (induction path i es out rule: flatten_entries.induct) (auto split: js.splits if_splits)
  then show ?thesis using assms TFlatten by fastforce
qed (use assms in \<open>auto split: if_splits sum.splits\<close>)

lemma run_transforms_single:
  "run_transforms lib i ts lst es = Inr (False, es') \<Longrightarrow> \<not> lst \<and> (length es = 1 \<longrightarrow> length es' = 1)"
proof (induction lib i ts lst es rule: run_transforms.induct)
  case (2 lib i t ts lst es)
  from "2.prems" obtain l1 es1 where one: "applyOne lib i t lst es = Inr (l1, es1)"
    and rest: "run_transforms lib (i + 1) ts l1 es1 = Inr (False, es')"
    by (auto split: sum.splits)
  from "2.IH" [OF one refl rest] applyOne_single [of lib i t lst es es1] one show ?case by simp
qed simp

lemma budgetFailure_None:
  "budgetFailure e p def several i vs = None \<longleftrightarrow> (\<forall>v\<in>set vs. td_budget_issues def v = [])"
  by (induction e p def several i vs rule: budgetFailure.induct) (auto split: list.splits)

lemma budgetFailure_Some:
  "budgetFailure e p def several i vs = Some d \<Longrightarrow> \<exists>m. d = DeliveryFailed budget_failure m"
  by (induction e p def several i vs rule: budgetFailure.induct) (auto split: list.splits)

lemma subseq_map_source:
  "subseq es (map source_entry sources) \<Longrightarrow> \<exists>picked. subseq picked sources \<and> es = map source_entry picked"
proof (induction sources arbitrary: es)
  case (Cons s sources)
  show ?case
  proof (cases "subseq es (map source_entry sources)")
    case True
    then show ?thesis using Cons.IH by (meson list_emb_Cons)
  next
    case False
    with Cons.prems obtain es' where "es = source_entry s # es'" "subseq es' (map source_entry sources)"
      by (cases es) (auto split: if_splits)
    then obtain picked where "subseq picked sources" "es = map source_entry (s # picked)"
      using Cons.IH by fastforce
    then show ?thesis by (intro exI [of _ "s # picked"]) simp
  qed
qed (auto dest: list_emb_Nil2)

definition delivery_ok :: "type_library \<Rightarrow> input_port \<Rightarrow> delivery_source list \<Rightarrow> edge_delivery \<Rightarrow> bool" where
  "delivery_ok lib p sources d \<longleftrightarrow> (case d of
     Forward ids \<Rightarrow> length ids \<le> maxPortArtifacts \<and> (\<not> is_list_port p \<longrightarrow> length ids = 1)
       \<and> (\<exists>def picked. tl_definition lib (elementRef (ip_type p)) = Some def \<and> subseq picked sources
            \<and> ids = map ds_id picked \<and> (\<forall>s\<in>set picked. td_budget_issues def (ds_value s) = []))
   | StoreValues t vs inputs items \<Rightarrow> length vs \<le> maxPortArtifacts \<and> (\<not> is_list_port p \<longrightarrow> length vs = 1)
       \<and> (\<exists>def. tl_definition lib (elementRef (ip_type p)) = Some def \<and> t = td_ref def
            \<and> td_value_storage def \<and> (\<forall>v\<in>set vs. td_budget_issues def v = []))
       \<and> distinct inputs \<and> set inputs = ds_id ` set sources
   | DeliveryFailed cause message \<Rightarrow> cause \<in> {budget_failure, system_failure})"

lemma delivery_ok_failed [simp]:
  "delivery_ok lib p sources (DeliveryFailed c m) \<longleftrightarrow> c \<in> {budget_failure, system_failure}"
  by (simp add: delivery_ok_def)

lemma set_remdups_first [simp]: "set (remdups_first xs) = set xs" "distinct (remdups_first xs)"
  by (simp_all add: remdups_first_def)

lemma store_or_forward_ok:
  assumes def: "tl_definition lib (elementRef (ip_type p)) = Some def"
    and len: "length entries \<le> maxPortArtifacts" and one: "\<not> is_list_port p \<longrightarrow> length entries = 1"
    and budget: "\<forall>en\<in>set entries. td_budget_issues def (en_value en) = []"
    and sub: "subseq entries (map source_entry sources) \<or> fresh_entries entries"
  shows "delivery_ok lib p sources (store_or_forward p def sources entries)"
proof (cases "list_all (\<lambda>en. en_from en \<noteq> None) entries")
  case True
  have "subseq entries (map source_entry sources)"
    using sub True by (cases entries) (auto simp: fresh_entries_def)
  then obtain picked where picked: "subseq picked sources" "entries = map source_entry picked"
    using subseq_map_source by blast
  have "map (\<lambda>en. get_or [] (en_from en)) entries = map ds_id picked"
    by (simp add: picked(2) source_entry_def get_or_def)
  moreover have "\<forall>s\<in>set picked. td_budget_issues def (ds_value s) = []"
    using budget by (auto simp: picked(2) source_entry_def)
  moreover have "length (map ds_id picked) = length entries" by (simp add: picked(2))
  ultimately show ?thesis
    unfolding store_or_forward_def delivery_ok_def using True def len one picked(1)
    by (simp only: if_True edge_delivery.case) blast
next
  case False
  then show ?thesis
    using def len one budget by (simp add: store_or_forward_def delivery_ok_def Let_def)
qed

lemma finish_delivery_ok:
  assumes "lst \<or> length entries = 1"
    and sub: "subseq entries (map source_entry sources) \<or> fresh_entries entries"
  shows "delivery_ok lib p sources (finish_delivery lib e p sources lst entries)"
proof (cases "tl_definition lib (elementRef (ip_type p))")
  case (Some def)
  show ?thesis
  proof (cases "(lst \<and> \<not> is_list_port p) \<or> length entries > maxPortArtifacts")
    case True
    then show ?thesis by (auto simp: finish_delivery_def Let_def Some)
  next
    case False
    show ?thesis
    proof (cases "budgetFailure e p def (length entries > 1) 0 (map en_value entries)")
      case None
      then have "\<forall>en\<in>set entries. td_budget_issues def (en_value en) = []"
        by (simp add: budgetFailure_None)
      then have "delivery_ok lib p sources (store_or_forward p def sources entries)"
        using False assms by (intro store_or_forward_ok [OF Some]) auto
      then show ?thesis using False None by (simp add: finish_delivery_def Let_def Some)
    next
      case f: (Some f)
      then show ?thesis using False budgetFailure_Some [OF f] by (auto simp: finish_delivery_def Let_def Some)
    qed
  qed
qed (simp add: finish_delivery_def Let_def)

text \<open>C34. What a port receives from an edge: a forwarded delivery is a subset of the edge's own
  artifacts in order, a stored one makes values of the port's element type; either way at most 256,
  exactly one on a port that takes one value, and none over the type's budgets. New artifacts carry
  the ids of all sources, each once, as their lineage. A refused delivery names a budget or a system
  error.\<close>

theorem edge_delivery_sound:
  "case planGraphEdgeDelivery lib e p sources of
     Forward ids \<Rightarrow> length ids \<le> maxPortArtifacts \<and> (\<not> is_list_port p \<longrightarrow> length ids = 1)
       \<and> (\<exists>def picked. tl_definition lib (elementRef (ip_type p)) = Some def \<and> subseq picked sources
            \<and> ids = map ds_id picked \<and> (\<forall>s\<in>set picked. td_budget_issues def (ds_value s) = []))
   | StoreValues t vs inputs items \<Rightarrow> length vs \<le> maxPortArtifacts \<and> (\<not> is_list_port p \<longrightarrow> length vs = 1)
       \<and> (\<exists>def. tl_definition lib (elementRef (ip_type p)) = Some def \<and> t = td_ref def
            \<and> td_value_storage def \<and> (\<forall>v\<in>set vs. td_budget_issues def v = []))
       \<and> distinct inputs \<and> set inputs = ds_id ` set sources
   | DeliveryFailed cause message \<Rightarrow> cause \<in> {budget_failure, system_failure}"
proof -
  have "delivery_ok lib p sources (planGraphEdgeDelivery lib e p sources)"
  proof (cases "\<not> edge_list e sources \<and> length sources \<noteq> 1")
    case False
    show ?thesis
    proof (cases "runChain lib (map source_entry sources) (edge_list e sources) (pe_transform e)")
      case (Inr r)
      obtain lst entries where r: "r = (lst, entries)" by (cases r)
      from Inr r have n: "length (map source_entry sources) \<le> transformMaxElements"
        and t: "run_transforms lib 0 (pe_transform e) (edge_list e sources) (map source_entry sources) = Inr (lst, entries)"
        by (simp_all add: runChain_def split: if_splits)
      have "lst \<or> length entries = 1"
        using False t run_transforms_single [of lib 0 "pe_transform e"] by (cases lst) auto
      moreover have "subseq entries (map source_entry sources) \<or> fresh_entries entries"
        using run_transforms_entries [OF t n] by blast
      ultimately have "delivery_ok lib p sources (finish_delivery lib e p sources lst entries)"
        by (rule finish_delivery_ok)
      then show ?thesis using False Inr r by (auto simp: planGraphEdgeDelivery_def Let_def)
    qed (use False in \<open>auto simp: planGraphEdgeDelivery_def Let_def\<close>)
  qed (auto simp: planGraphEdgeDelivery_def Let_def)
  then show ?thesis by (simp only: delivery_ok_def)
qed

definition example_library :: type_library where
  "example_library =
     \<lparr>tl_definition = (\<lambda>r. Some \<lparr>td_ref = r, td_items = None, td_value_storage = True,
        td_budget_issues = (\<lambda>v. if v = JNull then [(''too_big'', ''$'')] else [])\<rparr>),
      tl_adapter = (\<lambda>_. None)\<rparr>"

definition example_port :: input_port where
  "example_port = \<lparr>ip_name = ''issues'', ip_type = ''list<issue@1>'', ip_required = True, ip_collect = None,
     ip_fanIn = False, ip_edges = [''e''], ip_carries = []\<rparr>"

definition example_edge :: "edge_transform list \<Rightarrow> plan_edge" where
  "example_edge ts = \<lparr>pe_id = ''e'', pe_from = FromRunInput ''x'', pe_to = (''n'', ''issues''),
     pe_transform = ts, pe_zip = False, pe_iterations = AllIterations, pe_sourceList = Some True,
     pe_budgetCheck = True, pe_fanIn = False\<rparr>"

definition example_sources :: "delivery_source list" where
  "example_sources =
     [\<lparr>ds_id = ''a'', ds_value = JObj [(''x'', JBool True)], ds_items = None\<rparr>,
      \<lparr>ds_id = ''b'', ds_value = JObj [(''x'', JBool False)], ds_items = None\<rparr>]"

lemma example_delivery:
  "planGraphEdgeDelivery example_library (example_edge [TLimit 1]) example_port example_sources = Forward [''a'']"
  by (simp add: planGraphEdgeDelivery_def Let_def edge_list_def example_edge_def example_sources_def
      runChain_def transformMaxElements_def maxArtifactItems_def source_entry_def finish_delivery_def
      example_library_def is_list_port_def example_port_def maxPortArtifacts_def store_or_forward_def get_or_def)

theorem edge_delivery_sound_witness:
  "\<exists>picked. subseq picked example_sources \<and> [''a''] = map ds_id picked
     \<and> planGraphEdgeDelivery example_library (example_edge [TLimit 1]) example_port example_sources = Forward [''a'']"
proof -
  have "length [''a''] \<le> maxPortArtifacts \<and> (\<not> is_list_port example_port \<longrightarrow> length [''a''] = 1)
    \<and> (\<exists>def picked. tl_definition example_library (elementRef (ip_type example_port)) = Some def
         \<and> subseq picked example_sources \<and> [''a''] = map ds_id picked
         \<and> (\<forall>s\<in>set picked. td_budget_issues def (ds_value s) = []))"
    using edge_delivery_sound [where lib = example_library and e = "example_edge [TLimit 1]"
        and p = example_port and sources = example_sources]
    unfolding example_delivery edge_delivery.case .
  then obtain picked where "subseq picked example_sources" "[''a''] = map ds_id picked"
    by (elim conjE exE)
  then show ?thesis by (intro exI [of _ picked] conjI example_delivery)
qed

text \<open>\<open>filter\<close> keeps exactly the entries its predicate definitely holds for, in order and with
  their artifacts: the alignment of the filtered values with the entries loses none and adds none,
  equal values included. An unknown verdict drops the element.\<close>

theorem filter_transform_exact:
  assumes "applyOne lib i (TFilter w) lst es = Inr (lst', es')"
  shows "lst \<and> lst' \<and> (\<exists>p. prepare_predicate w = Inr p
    \<and> es' = filter (\<lambda>e. kleene (walk (Some (en_value e))) p = Some True) es)"
proof -
  from assms obtain r where "lst" "lst'"
    and r: "filterGraphPredicateList (JArr (map en_value es)) w (Some transformMaxElements) = Inr r"
      "es' = align (fr_items r) es"
    by (auto split: if_splits sum.splits)
  with filter_keeps_entries [OF r(1)] show ?thesis by (auto simp: verdict_true_def)
qed

definition example_filter :: js where
  "example_filter = JObj [(''path'', JStr ''x''), (''op'', JStr ''exists'')]"

definition example_entries :: "chain_entry list" where
  "example_entries = [plain_entry (JObj [(''x'', JBool True)]), plain_entry JNull]"

theorem filter_transform_exact_witness:
  "\<exists>p. prepare_predicate example_filter = Inr p \<and> take 1 example_entries =
     filter (\<lambda>e. kleene (walk (Some (en_value e))) p = Some True) example_entries"
proof -
  have x_path: "isGraphLeafPath (JStr ''x'')" by code_simp
  have "filterGraphPredicateList (JArr (map en_value example_entries)) example_filter (Some transformMaxElements)
      = Inr \<lparr>fr_items = [JObj [(''x'', JBool True)]], fr_dropped = 1, fr_unknown = 0\<rparr>"
    by (simp add: filterGraphPredicateList_def boundedArray_def maxArtifactItems_def prepare_predicate_def
        maxPredicateDepth_def eval_nat_numeral maxPredicateNodes_def plainEntries_def combinator_of_def
        prepareLeaf_def field_of_def only_keys_def GRAPH_PREDICATE_OPS_def GRAPH_PREDICATE_COMPARISONS_def
        GRAPH_PREDICATE_PRESENCE_OPS_def x_path filter_step_def ownData_def Let_def
        transformMaxElements_def example_filter_def example_entries_def plain_entry_def)
  then have "applyOne example_library 0 (TFilter example_filter) True example_entries =
      Inr (True, take 1 example_entries)"
    by (simp add: example_entries_def plain_entry_def)
  from filter_transform_exact [OF this] show ?thesis by (elim conjE)
qed

text \<open>
  A field below a field that is picked whole is added at the top: picking \<open>a\<close> and \<open>a.b\<close> also
  keeps an unrelated top-level \<open>b\<close>.
\<close>

lemma pick_leaks_sibling:
  "pickGraphValue (JObj [(''a'', JObj [(''b'', JNull)]), (''b'', JBool True)]) [''a'', ''a.b''] =
     JObj [(''a'', JObj [(''b'', JNull)]), (''b'', JBool True)]"
  by code_simp

end
