(* ===== verification/Ready_Set.thy ===== *)
theory Ready_Set
  imports Edge_Transforms "HOL-Library.Product_Lexorder"
begin

text \<open>
  The ready set (\<^verbatim>\<open>apps/backend/src/core/graph-run-ready-set.ts\<close>) and the expansion of an items
  fan-out (\<^verbatim>\<open>graph-run-fanout.ts\<close>): what a producer delivers, how a fan-in collects branches, how an
  input port and a node position resolve, and the activations one planning round creates.

  What reads the view only is a function of it; what stores requests, outcomes or missing values
  in it, or adds to it, answers the view too. None stands for a thrown internal error. Finish
  times are the fixed-width texts of \<open>toISOString\<close>, on which \<open>localeCompare\<close> is the
  lexicographic order. A resolution without markers has none.
\<close>

section \<open>Resolutions\<close>

datatype resolution =
    RPending
  | RLive "string list" "string list"
  | RAbsent
  | RFailedPort string "string option"

definition GRAPH_ERROR_PORT :: string where "GRAPH_ERROR_PORT = ''error''"

datatype skip_reason = InputAbsent | WhenFalse | NoItems

definition deliversOn :: "plan_edge \<Rightarrow> int \<Rightarrow> bool" where
  "deliversOn e i \<longleftrightarrow> pe_iterations e = AllIterations \<or> (pe_iterations e = FirstIteration \<and> i = 1)
     \<or> (pe_iterations e = LaterIterations \<and> i > 1)"

definition liveIds :: "port_input option \<Rightarrow> resolution" where
  "liveIds b = (case b of None \<Rightarrow> RAbsent | Some (OneId i) \<Rightarrow> RLive [i] [] | Some (ManyIds is) \<Rightarrow> RLive is [])"

definition output_of :: "activation \<Rightarrow> string \<Rightarrow> port_input option" where
  "output_of a p = map_option OneId (obj_get (act_outputs a) p)"

definition graphActivationDelivery ::
  "activation option \<Rightarrow> string \<Rightarrow> string option \<Rightarrow> plan_node option \<Rightarrow> resolution" where
  "graphActivationDelivery act port outlet producer =
     (case act of
        None \<Rightarrow> RPending
      | Some a \<Rightarrow>
          (case act_state a of
             Complete \<Rightarrow>
               (if outlet \<noteq> None
                then (if act_outlet a \<noteq> outlet then RAbsent
                      else liveIds (case output_of a port of
                                      Some b \<Rightarrow> Some b | None \<Rightarrow> obj_get (act_inputs a) port))
                else (case producer of
                        Some n \<Rightarrow>
                          (if pn_kind n = KMerge \<and> pn_strategy n = ''collect''
                           then (case pn_inputs n of
                                   [] \<Rightarrow> RAbsent
                                 | ip # _ \<Rightarrow> liveIds (Some (get_or (ManyIds []) (obj_get (act_inputs a) (ip_name ip)))))
                           else liveIds (output_of a port))
                      | None \<Rightarrow> liveIds (output_of a port)))
           | Failed \<Rightarrow>
               (if outlet \<noteq> None \<or> port \<noteq> GRAPH_ERROR_PORT then RAbsent
                else (case obj_get (act_outputs a) port of
                        Some i \<Rightarrow> RLive [i] []
                      | None \<Rightarrow> (case producer of
                                   Some n \<Rightarrow> if pn_onFailure n = RouteFailure then RPending else RAbsent
                                 | None \<Rightarrow> RAbsent)))
           | Skipped \<Rightarrow> RAbsent
           | Cancelled \<Rightarrow> RAbsent
           | Superseded \<Rightarrow> RAbsent
           | _ \<Rightarrow> RPending))"

definition in_loop :: "plan_node \<Rightarrow> string option" where
  "in_loop n = (if pn_loop n = Some [] then None else pn_loop n)"

definition producerIteration ::
  "run_view \<Rightarrow> plan_node \<Rightarrow> plan_node option \<Rightarrow> int \<Rightarrow> (string \<Rightarrow> bool) \<Rightarrow> int option" where
  "producerIteration v producer consumer i loopDone =
     (case in_loop producer of
        None \<Rightarrow> Some 1
      | Some l \<Rightarrow>
          if (case consumer of None \<Rightarrow> False | Some c \<Rightarrow> pn_loop c = Some l) then Some i
          else if loopDone l then Some (view_iteration v l) else None)"

section \<open>Collect policies\<close>

definition GRAPH_DEFAULT_COLLECT_POLICY :: collect_policy where
  "GRAPH_DEFAULT_COLLECT_POLICY =
     \<lparr>cp_wait = AllSettled, cp_count = None, cp_minSuccessful = 1, cp_includeFailures = True\<rparr>"

definition graphCollectPolicy :: "input_port option \<Rightarrow> collect_policy" where
  "graphCollectPolicy p =
     (case p of None \<Rightarrow> GRAPH_DEFAULT_COLLECT_POLICY | Some ip \<Rightarrow> get_or GRAPH_DEFAULT_COLLECT_POLICY (ip_collect ip))"

definition target_port :: "graph_plan \<Rightarrow> string \<times> string \<Rightarrow> input_port option" where
  "target_port plan t =
     (case find (\<lambda>n. pn_id n = fst t) (plan_nodes plan) of
        None \<Rightarrow> None | Some n \<Rightarrow> find (\<lambda>ip. ip_name ip = snd t) (pn_inputs n))"

definition from_node :: "edge_source \<Rightarrow> string \<Rightarrow> bool" where
  "from_node src n = (case src of FromNode p \<Rightarrow> pf_node p = n | FromRunInput _ \<Rightarrow> False)"

definition source_outlet :: "edge_source \<Rightarrow> string option" where
  "source_outlet src = (case src of FromNode p \<Rightarrow> pf_outlet p | FromRunInput _ \<Rightarrow> None)"

definition graphFailureMarkersWanted :: "graph_plan \<Rightarrow> string \<Rightarrow> bool" where
  "graphFailureMarkersWanted plan n =
     (let wants = (\<lambda>t. cp_includeFailures (graphCollectPolicy (target_port plan t)))
      in list_ex (\<lambda>e. from_node (pe_from e) n \<and> source_outlet (pe_from e) = None \<and> \<not> pe_zip e \<and> wants (pe_to e))
           (plan_edges plan)
         \<or> list_ex (\<lambda>l. list_ex (\<lambda>c. pf_node (lc_from c) = n \<and> wants (lc_to c)) (pl_carry l)) (plan_loops plan))"

record branch_success =
  su_index :: nat
  su_ids :: "string list"
  su_finishedAt :: string

record branch_tally =
  ta_successes :: "branch_success list"
  ta_markers :: "(nat \<times> string) list"
  ta_pending :: nat
  ta_pendingMarkers :: nat
  ta_skipped :: nat

definition no_tally :: branch_tally where
  "no_tally = \<lparr>ta_successes = [], ta_markers = [], ta_pending = 0, ta_pendingMarkers = 0, ta_skipped = 0\<rparr>"

definition is_state :: "act_state \<Rightarrow> activation option \<Rightarrow> bool" where
  "is_state s a = (case a of None \<Rightarrow> False | Some x \<Rightarrow> act_state x = s)"

definition tally_branch ::
  "run_view \<Rightarrow> plan_node \<Rightarrow> port_ref \<Rightarrow> bool \<Rightarrow> nat \<Rightarrow> activation option \<Rightarrow> branch_tally \<Rightarrow> branch_tally" where
  "tally_branch v producer source includeFailures index latest t =
     (let t = (if is_state Skipped latest then t\<lparr>ta_skipped := ta_skipped t + 1\<rparr> else t)
      in (case graphActivationDelivery latest (pf_port source) (pf_outlet source) (Some producer) of
            RLive ids ms \<Rightarrow>
              t\<lparr>ta_successes := ta_successes t @ [\<lparr>su_index = index, su_ids = ids,
                 su_finishedAt = (case latest of None \<Rightarrow> [] | Some a \<Rightarrow> get_or [] (act_finishedAt a))\<rparr>]\<rparr>
          | RPending \<Rightarrow> t\<lparr>ta_pending := ta_pending t + 1\<rparr>
          | _ \<Rightarrow>
              if includeFailures \<and> is_state Failed latest
              then (case (case latest of None \<Rightarrow> None | Some a \<Rightarrow> obj_get (act_outputs a) GRAPH_ERROR_PORT) of
                      Some m \<Rightarrow> t\<lparr>ta_markers := ta_markers t @ [(index, m)]\<rparr>
                    | None \<Rightarrow>
                        if pn_onFailure producer = RouteFailure
                           \<or> graphFailureMarkersWanted (vw_plan v) (pn_id producer)
                        then t\<lparr>ta_pendingMarkers := ta_pendingMarkers t + 1\<rparr> else t)
              else t))"

fun tally_branches ::
  "run_view \<Rightarrow> plan_node \<Rightarrow> int \<Rightarrow> port_ref \<Rightarrow> bool \<Rightarrow> nat \<Rightarrow> string option list \<Rightarrow> branch_tally \<Rightarrow> branch_tally" where
  "tally_branches v producer i source inc index [] t = t"
| "tally_branches v producer i source inc index (b # bs) t =
     tally_branches v producer i source inc (index + 1) bs
       (tally_branch v producer source inc index (latestAt v (pn_id producer) i b) t)"

text \<open>What a met policy delivers: the taken successes and the markers, in branch order.\<close>

definition deliver_branches :: "branch_tally \<Rightarrow> branch_success list \<Rightarrow> resolution" where
  "deliver_branches t taken =
     (let entries = sort_key fst (map (\<lambda>s. (su_index s, su_ids s, False)) taken
                      @ map (\<lambda>(i, m). (i, [m], True)) (ta_markers t))
      in RLive (concat (map (\<lambda>(i, ids, m). ids) entries))
           (concat (map (\<lambda>(i, ids, m). ids) (filter (\<lambda>(i, ids, m). m) entries))))"

definition collectFailure :: "input_port option \<Rightarrow> nat \<Rightarrow> nat \<Rightarrow> int \<Rightarrow> resolution" where
  "collectFailure p succeeded branches required =
     RFailedPort (''Input '' @ (case p of None \<Rightarrow> ''output'' | Some ip \<Rightarrow> ip_name ip) @ '': ''
       @ show_nat succeeded @ '' of '' @ show_nat branches @ '' branches succeeded; at least ''
       @ show_int required @ '' are required'') None"

definition collect_target :: "collect_policy \<Rightarrow> nat \<Rightarrow> int" where
  "collect_target policy n = max (min (get_or 1 (cp_count policy)) (int n)) (cp_minSuccessful policy)"

definition earliest :: "branch_success list \<Rightarrow> branch_success list" where
  "earliest ss = sort_key (\<lambda>s. (su_finishedAt s, su_index s)) ss"

definition collect_tally :: "input_port option \<Rightarrow> nat \<Rightarrow> branch_tally \<Rightarrow> resolution" where
  "collect_tally p n t =
     (let policy = graphCollectPolicy p;
          succeeded = length (ta_successes t);
          target = collect_target policy n
      in if n > 0 \<and> ta_skipped t = n then RAbsent
         else if cp_wait policy \<noteq> AllSettled \<and> int succeeded \<ge> target
         then (if cp_wait policy = Quorum then deliver_branches t (ta_successes t)
               else deliver_branches t (take (nat target) (earliest (ta_successes t))))
         else if ta_pending t > 0
         then (if int (succeeded + ta_pending t) < cp_minSuccessful policy
               then collectFailure p succeeded n (cp_minSuccessful policy) else RPending)
         else if int succeeded < cp_minSuccessful policy
         then collectFailure p succeeded n (cp_minSuccessful policy)
         else if ta_pendingMarkers t > 0 then RPending
         else deliver_branches t (ta_successes t))"

definition collectGraphBranches ::
  "run_view \<Rightarrow> plan_node \<Rightarrow> int \<Rightarrow> port_ref \<Rightarrow> input_port option \<Rightarrow> resolution option" where
  "collectGraphBranches v producer i source p =
     do {
       branches \<leftarrow> branchKeysAt v producer i;
       (let inc = (p \<noteq> None \<and> cp_includeFailures (graphCollectPolicy p) \<and> pf_outlet source = None)
        in Some (collect_tally p (length branches) (tally_branches v producer i source inc 0 branches no_tally)))
     }"

text \<open>One source of an edge, for a consumer position; a run output has no consumer.\<close>

definition resolveGraphEdgeSource ::
  "run_view \<Rightarrow> edge_source \<Rightarrow> plan_node option \<Rightarrow> input_port option \<Rightarrow> int \<Rightarrow> string option \<Rightarrow> bool
    \<Rightarrow> (string \<Rightarrow> bool) \<Rightarrow> resolution option" where
  "resolveGraphEdgeSource v source consumer p i branchKey zip_edge loopDone =
     (case source of
        FromRunInput name \<Rightarrow>
          Some (case obj_get (rb_inputs (run_bindings (vw_run v))) name of
                  None \<Rightarrow> RAbsent | Some k \<Rightarrow> RLive [k] [])
      | FromNode ref \<Rightarrow>
          do {
            producer \<leftarrow> view_node v (pf_node ref);
            (case producerIteration v producer consumer i loopDone of
               None \<Rightarrow> Some RPending
             | Some n \<Rightarrow>
                 do {
                   branches \<leftarrow> branchesAt v producer n;
                   (case branches of
                      None \<Rightarrow> Some (graphActivationDelivery (latestAt v (pn_id producer) n None)
                                (pf_port ref) (pf_outlet ref) (Some producer))
                    | Some bs \<Rightarrow>
                        if zip_edge \<and> branchKey \<noteq> None
                        then (if \<not> list_ex (\<lambda>b. Some (gb_key b) = branchKey) bs then Some RAbsent
                              else Some (graphActivationDelivery (latestAt v (pn_id producer) n branchKey)
                                     (pf_port ref) (pf_outlet ref) (Some producer)))
                        else collectGraphBranches v producer n ref p)
                 })
          })"

section \<open>Deliveries through an edge\<close>

definition add_new :: "'a \<Rightarrow> 'a list \<Rightarrow> 'a list" where
  "add_new x xs = (if x \<in> set xs then xs else xs @ [x])"

definition loadedItemList :: "type_library \<Rightarrow> loaded_value \<Rightarrow> item_ids option" where
  "loadedItemList lib l =
     do {
       a \<leftarrow> lv_artifact l;
       def \<leftarrow> tl_definition lib (la_type a);
       items \<leftarrow> td_items def;
       (let ids = graphArtifactItemIds (la_producer a) (la_itemIds a) (Some items) (lv_value l) None
        in if ids = [] then None else Some \<lparr>ii_path = ti_path items, ii_ids = ids\<rparr>)
     }"

text \<open>The loaded sources in order; an id without a value is noted as missing.\<close>

fun delivery_sources ::
  "type_library \<Rightarrow> string list \<Rightarrow> run_view \<Rightarrow> delivery_source list \<times> run_view" where
  "delivery_sources lib [] v = ([], v)"
| "delivery_sources lib (i # is) v =
     (case obj_get (vw_values v) i of
        None \<Rightarrow> delivery_sources lib is (v\<lparr>vw_missing := add_new i (vw_missing v)\<rparr>)
      | Some l \<Rightarrow>
          (case delivery_sources lib is v of
             (ss, v') \<Rightarrow>
               (\<lparr>ds_id = i, ds_value = lv_value l, ds_items = loadedItemList lib l\<rparr> # ss, v')))"

definition delivery_key :: "string \<Rightarrow> string \<Rightarrow> string list \<Rightarrow> string" where
  "delivery_key consumer edgeId ids =
     ''delivery'' @ [CHR 0x00] @ consumer @ [CHR 0x00] @ edgeId @ [CHR 0x00] @ join_with '','' ids"

definition remember :: "string \<Rightarrow> outcome \<Rightarrow> run_view \<Rightarrow> run_view" where
  "remember k out v = v\<lparr>vw_outcomes := obj_set k out (vw_outcomes v)\<rparr>"

definition deliverThroughEdge ::
  "type_library \<Rightarrow> run_view \<Rightarrow> string \<Rightarrow> string \<Rightarrow> input_port \<Rightarrow> string \<Rightarrow> string list
    \<Rightarrow> (resolution \<times> run_view) option" where
  "deliverThroughEdge lib v nodeId consumerKey p edgeId ids =
     (let key = delivery_key consumerKey edgeId ids in
      case obj_get (vw_outcomes v) key of
        Some (Stored stored) \<Rightarrow> Some (RLive stored [], v)
      | Some (Unstorable m c) \<Rightarrow> Some (RFailedPort m (Some c), v)
      | None \<Rightarrow>
          (case delivery_sources lib ids v of
             (sources, v) \<Rightarrow>
               if length sources < length ids then Some (RPending, v)
               else
                 do {
                   e \<leftarrow> view_edge v edgeId;
                   (case planGraphEdgeDelivery lib e p sources of
                      Forward out \<Rightarrow> Some (RLive out [], remember key (Stored out) v)
                    | DeliveryFailed c m \<Rightarrow> Some (RFailedPort m (Some c), remember key (Unstorable m c) v)
                    | StoreValues t vs inputs sourceItems \<Rightarrow>
                        if vs = [] then Some (RLive [] [], remember key (Stored []) v)
                        else Some (RPending, v\<lparr>vw_requests := obj_set key
                          \<lparr>aq_key = key, aq_purpose = ForDelivery,
                           aq_producer = \<lparr>ap_nodeId = nodeId, ap_activation = consumerKey, ap_port = ip_name p\<rparr>,
                           aq_type = t, aq_values = map JsValue vs, aq_inputs = inputs, aq_sourceItems = sourceItems,
                           aq_edgeId = Some edgeId, aq_port = Some (ip_name p)\<rparr> (vw_requests v)\<rparr>))
                 }))"

section \<open>Input ports\<close>

text \<open>One edge of a port: its source, then, with a delivery key, what the edge delivers of it.\<close>

definition resolve_edge ::
  "type_library \<Rightarrow> run_view \<Rightarrow> plan_node \<Rightarrow> input_port \<Rightarrow> int \<Rightarrow> string option \<Rightarrow> (string \<Rightarrow> bool)
    \<Rightarrow> string option \<Rightarrow> plan_edge \<Rightarrow> (resolution \<times> run_view) option" where
  "resolve_edge lib v node p i branchKey loopDone deliver e =
     do {
       resolved \<leftarrow> resolveGraphEdgeSource v (pe_from e) (Some node) (Some p) i branchKey (pe_zip e) loopDone;
       (case (deliver, resolved) of
          (Some key, RLive ids markers) \<Rightarrow>
            if graphEdgeNeedsDelivery e
            then
              do {
                (delivered, v) \<leftarrow> deliverThroughEdge lib v (pn_id node) key p (pe_id e)
                                   (filter (\<lambda>x. x \<notin> set markers) ids);
                (case delivered of
                   RLive out ms \<Rightarrow> if markers \<noteq> [] then Some (RLive (out @ markers) markers, v)
                                   else Some (delivered, v)
                 | _ \<Rightarrow> Some (delivered, v))
              }
            else Some (resolved, v)
        | _ \<Rightarrow> Some (resolved, v))
     }"

fun resolve_edges ::
  "type_library \<Rightarrow> plan_node \<Rightarrow> input_port \<Rightarrow> int \<Rightarrow> string option \<Rightarrow> (string \<Rightarrow> bool)
    \<Rightarrow> string option \<Rightarrow> string list \<Rightarrow> run_view \<Rightarrow> (resolution list \<times> run_view) option" where
  "resolve_edges lib node p i branchKey loopDone deliver [] v = Some ([], v)"
| "resolve_edges lib node p i branchKey loopDone deliver (eid # eids) v =
     do {
       e \<leftarrow> view_edge v eid;
       (if \<not> deliversOn e i then resolve_edges lib node p i branchKey loopDone deliver eids v
        else
          do {
            (r, v) \<leftarrow> resolve_edge lib v node p i branchKey loopDone deliver e;
            (rs, v) \<leftarrow> resolve_edges lib node p i branchKey loopDone deliver eids v;
            Some (r # rs, v)
          })
     }"

fun resolve_carries :: "run_view \<Rightarrow> input_port \<Rightarrow> int \<Rightarrow> string list \<Rightarrow> resolution list option" where
  "resolve_carries v p i [] = Some []"
| "resolve_carries v p i (cid # cids) =
     do {
       (l, carry) \<leftarrow> view_carry v cid;
       producer \<leftarrow> view_node v (pf_node (lc_from carry));
       branches \<leftarrow> branchesAt v producer (i - 1);
       r \<leftarrow> (if branches = None
              then Some (graphActivationDelivery (latestAt v (pn_id producer) (i - 1) None)
                     (pf_port (lc_from carry)) (pf_outlet (lc_from carry)) (Some producer))
              else collectGraphBranches v producer (i - 1) (lc_from carry) (Some p));
       rs \<leftarrow> resolve_carries v p i cids;
       Some (r # rs)
     }"

fun is_failed :: "resolution \<Rightarrow> bool" where
  "is_failed (RFailedPort m c) = True" | "is_failed _ = False"
fun is_live :: "resolution \<Rightarrow> bool" where
  "is_live (RLive ids ms) = True" | "is_live _ = False"
fun live_of :: "resolution \<Rightarrow> string list" where
  "live_of (RLive ids ms) = ids" | "live_of _ = []"
fun markers_of :: "resolution \<Rightarrow> string list" where
  "markers_of (RLive ids ms) = ms" | "markers_of _ = []"

definition combine_list :: "resolution list \<Rightarrow> resolution" where
  "combine_list rs =
     (case find is_failed rs of
        Some f \<Rightarrow> f
      | None \<Rightarrow>
          if RPending \<in> set rs then RPending
          else (let live = filter is_live rs
                in if live = [] then RAbsent
                   else RLive (concat (map live_of live)) (concat (map markers_of live))))"

definition combine_single :: "resolution list \<Rightarrow> resolution" where
  "combine_single rs =
     (case find (\<lambda>r. is_live r \<and> live_of r \<noteq> []) rs of
        Some r \<Rightarrow> RLive [hd (live_of r)] []
      | None \<Rightarrow>
          if RPending \<in> set rs then RPending else get_or RAbsent (find is_failed rs))"

definition resolveGraphInputPort ::
  "type_library \<Rightarrow> run_view \<Rightarrow> plan_node \<Rightarrow> input_port \<Rightarrow> int \<Rightarrow> string option \<Rightarrow> (string \<Rightarrow> bool)
    \<Rightarrow> string option \<Rightarrow> (resolution \<times> run_view) option" where
  "resolveGraphInputPort lib v node p i branchKey loopDone deliver =
     do {
       (rs, v) \<leftarrow> resolve_edges lib node p i branchKey loopDone deliver (ip_edges p) v;
       cs \<leftarrow> (if i > 1 then resolve_carries v p i (ip_carries p) else Some []);
       (let sources = rs @ cs
        in Some (if sources = [] then RAbsent
                 else if is_list_port p then combine_list sources else combine_single sources, v))
     }"

section \<open>Conditions\<close>

lemma obj_get_size: "obj_get ps k = Some x \<Longrightarrow> size x < size (JObj ps)"
proof (induction ps)
  case (Cons p ps)
  then show ?case by (cases p) (auto split: if_splits)
qed simp

text \<open>The paths a predicate reads, left to right.\<close>

function predicate_paths :: "js \<Rightarrow> string list option"
  and predicates_paths :: "js list \<Rightarrow> string list option" where
  "predicate_paths v =
     (case v of
        JObj ps \<Rightarrow>
          (case obj_get ps ''all'' of
             Some x \<Rightarrow> (case x of JArr xs \<Rightarrow> predicates_paths xs | _ \<Rightarrow> None)
           | None \<Rightarrow>
               (case obj_get ps ''any'' of
                  Some x \<Rightarrow> (case x of JArr xs \<Rightarrow> predicates_paths xs | _ \<Rightarrow> None)
                | None \<Rightarrow>
                    (case obj_get ps ''not'' of
                       Some x \<Rightarrow> predicate_paths x
                     | None \<Rightarrow> (case obj_get ps ''path'' of Some (JStr s) \<Rightarrow> Some [s] | _ \<Rightarrow> None))))
      | _ \<Rightarrow> None)"
| "predicates_paths [] = Some []"
| "predicates_paths (x # xs) = do { a \<leftarrow> predicate_paths x; b \<leftarrow> predicates_paths xs; Some (a @ b) }"
  by pat_completeness auto
termination
  by (relation "measure (\<lambda>s. case s of Inl v \<Rightarrow> 2 * size v | Inr vs \<Rightarrow> 1 + 2 * size_list size vs)")
    (auto dest!: obj_get_size)

declare predicate_paths.simps [simp del]

definition graphPredicatePaths :: "js \<Rightarrow> string list option" where
  "graphPredicatePaths p = predicate_paths p"

definition path_root :: "string \<Rightarrow> string" where
  "path_root path = takeWhile (\<lambda>c. c \<noteq> CHR ''.'') path"

text \<open>The values a \<open>when\<close> reads, or the ids still to load; a port whose ids are not all loaded, or
  that comes after one, gets no value.\<close>

fun when_values ::
  "(string \<times> loaded_value) list \<Rightarrow> string list \<Rightarrow> (string \<times> port_input) list
    \<Rightarrow> (string \<times> js) list \<times> string list \<Rightarrow> (string \<times> js) list \<times> string list" where
  "when_values loaded roots [] acc = acc"
| "when_values loaded roots ((port, bound) # ps) (vals, missing) =
     (if port \<notin> set roots then when_values loaded roots ps (vals, missing)
      else
        (let ids = port_ids bound;
             missing = missing @ filter (\<lambda>i. obj_get loaded i = None) ids;
             got = (\<lambda>i. case obj_get loaded i of None \<Rightarrow> JUndef | Some l \<Rightarrow> lv_value l)
         in if missing \<noteq> [] then when_values loaded roots ps (vals, missing)
            else when_values loaded roots ps
                   (obj_set port (case bound of OneId i \<Rightarrow> got i | ManyIds is \<Rightarrow> JArr (map got is)) vals,
                    missing)))"

datatype when_decision = WhenMissing "string list" | WhenDecided bool

definition run_scope :: "int \<Rightarrow> js" where
  "run_scope i = JObj [(''iteration'', JNum (Fin (of_int i)))]"

definition decideWhen ::
  "run_view \<Rightarrow> plan_node \<Rightarrow> js \<Rightarrow> (string \<times> port_input) list \<Rightarrow> int \<Rightarrow> when_decision option" where
  "decideWhen v node cond inputs i =
     do {
       paths \<leftarrow> graphPredicatePaths cond;
       (case when_values (vw_values v) (map path_root paths) inputs ([], []) of
          (vals, missing) \<Rightarrow>
            if missing \<noteq> [] then Some (WhenMissing missing)
            else Some (WhenDecided (ev_value (evaluateGraphPredicate cond
              \<lparr>env_values = Some vals,
               env_params = Some (JObj (graphPlanScopeParams (vw_plan v) (pn_subgraph node)
                                          (rb_params (run_bindings (vw_run v))))),
               env_run = Some (run_scope i)\<rparr>))))
     }"

section \<open>Node positions\<close>

text \<open>Texts of errors are counted in code units.\<close>

definition units :: "string \<Rightarrow> utf16" where "units s = map of_char s"

definition activation_parts :: "string \<Rightarrow> int \<Rightarrow> string option \<Rightarrow> int \<Rightarrow> key_parts" where
  "activation_parts n i b k = \<lparr>kp_nodeId = n, kp_iteration = i, kp_branchKey = b, kp_attempt = k\<rparr>"

definition key_or_throw :: "key_parts \<Rightarrow> string option" where
  "key_or_throw p = (case graphActivationKey p of Inl m \<Rightarrow> None | Inr k \<Rightarrow> Some k)"

definition blank_activation ::
  "string \<Rightarrow> key_parts \<Rightarrow> act_state \<Rightarrow> (string \<times> port_input) list \<Rightarrow> string \<Rightarrow> activation" where
  "blank_activation key p s inputs now =
     \<lparr>act_key = key, act_nodeId = kp_nodeId p, act_iteration = kp_iteration p,
      act_branchKey = kp_branchKey p, act_attempt = kp_attempt p, act_state = s, act_inputs = inputs,
      act_outputs = [], act_outlet = None, act_session = None, act_human = None, act_policy = None,
      act_enforcement = None, act_enforcementReason = None, act_baseline = None, act_worktree = None,
      act_guards = None, act_blocked = None, act_error = None, act_errorCause = None,
      act_createdAt = now, act_startedAt = None, act_finishedAt = None, act_supersededBy = None\<rparr>"

definition position_activation ::
  "run_view \<Rightarrow> plan_node \<Rightarrow> int \<Rightarrow> string option \<Rightarrow> act_state \<Rightarrow> (string \<times> port_input) list \<Rightarrow> string
    \<Rightarrow> (string \<times> string) option \<Rightarrow> activation option" where
  "position_activation v node i branchKey s inputs now failure =
     (let p = activation_parts (pn_id node) i branchKey (nextAttempt v (pn_id node) i branchKey)
      in do {
        key \<leftarrow> key_or_throw p;
        Some ((blank_activation key p s inputs now)
                \<lparr>act_finishedAt := (if s = Ready then None else Some now),
                 act_error := map_option (\<lambda>f. units (fst f)) failure,
                 act_errorCause := map_option snd failure\<rparr>)
      })"

record position_ports =
  pp_inputs :: "(string \<times> port_input) list"
  pp_markers :: "(string \<times> string list) list"
  pp_pending :: bool
  pp_absent :: bool
  pp_failure :: "(string \<times> string) option"

definition no_ports :: position_ports where
  "no_ports = \<lparr>pp_inputs = [], pp_markers = [], pp_pending = False, pp_absent = False, pp_failure = None\<rparr>"

text \<open>The item of an items branch with the port it is bound to, and whether zip inputs are left out.\<close>

record port_options =
  po_item :: "fan_out_item option"
  po_itemsPort :: string
  po_skipZip :: bool

definition note_port :: "input_port \<Rightarrow> resolution \<Rightarrow> position_ports \<Rightarrow> position_ports" where
  "note_port p r ports =
     (case r of
        RPending \<Rightarrow> ports\<lparr>pp_pending := True\<rparr>
      | RFailedPort m c \<Rightarrow>
          if ip_required p
          then ports\<lparr>pp_failure := (case pp_failure ports of
                 None \<Rightarrow> Some (m, get_or system_failure c) | Some f \<Rightarrow> Some f)\<rparr>
          else ports
      | RAbsent \<Rightarrow> if ip_required p then ports\<lparr>pp_absent := True\<rparr> else ports
      | RLive ids ms \<Rightarrow>
          (let ports = ports\<lparr>pp_inputs := obj_set (ip_name p)
                 (if is_list_port p then ManyIds ids else OneId (hd ids)) (pp_inputs ports)\<rparr>
           in if ms = [] then ports
              else ports\<lparr>pp_markers := obj_set (ip_name p) ms (pp_markers ports)\<rparr>))"

definition item_port :: "port_options \<Rightarrow> input_port \<Rightarrow> bool" where
  "item_port opts p \<longleftrightarrow> po_item opts \<noteq> None \<and> ip_name p = po_itemsPort opts"

fun some_edge :: "run_view \<Rightarrow> (plan_edge \<Rightarrow> bool) \<Rightarrow> string list \<Rightarrow> bool option" where
  "some_edge v P [] = Some False"
| "some_edge v P (i # is) = do { e \<leftarrow> view_edge v i; (if P e then Some True else some_edge v P is) }"

fun resolve_ports ::
  "type_library \<Rightarrow> plan_node \<Rightarrow> int \<Rightarrow> string option \<Rightarrow> (string \<Rightarrow> bool) \<Rightarrow> port_options \<Rightarrow> string option
    \<Rightarrow> input_port list \<Rightarrow> position_ports \<Rightarrow> run_view \<Rightarrow> (position_ports \<times> run_view) option" where
  "resolve_ports lib node i branchKey loopDone opts deliver [] ports v = Some (ports, v)"
| "resolve_ports lib node i branchKey loopDone opts deliver (p # ps) ports v =
     (case (if item_port opts p then po_item opts else None) of
        Some item \<Rightarrow>
          resolve_ports lib node i branchKey loopDone opts deliver ps
            (ports\<lparr>pp_inputs := obj_set (ip_name p) (OneId (fi_artifact item)) (pp_inputs ports)\<rparr>) v
      | None \<Rightarrow>
          do {
            skip \<leftarrow> (if po_skipZip opts then some_edge v pe_zip (ip_edges p) else Some False);
            (if skip then resolve_ports lib node i branchKey loopDone opts deliver ps ports v
             else
               do {
                 (r, v) \<leftarrow> resolveGraphInputPort lib v node p i branchKey loopDone deliver;
                 resolve_ports lib node i branchKey loopDone opts deliver ps (note_port p r ports) v
               })
          })"

definition resolvePositionPorts ::
  "type_library \<Rightarrow> run_view \<Rightarrow> plan_node \<Rightarrow> int \<Rightarrow> string option \<Rightarrow> (string \<Rightarrow> bool) \<Rightarrow> port_options
    \<Rightarrow> string option \<Rightarrow> (position_ports \<times> run_view) option" where
  "resolvePositionPorts lib v node i branchKey loopDone opts deliver =
     resolve_ports lib node i branchKey loopDone opts deliver (pn_inputs node) no_ports v"

fun some_port :: "run_view \<Rightarrow> port_options \<Rightarrow> input_port list \<Rightarrow> bool option" where
  "some_port v opts [] = Some False"
| "some_port v opts (p # ps) =
     do {
       needs \<leftarrow> (if item_port opts p then Some False else some_edge v graphEdgeNeedsDelivery (ip_edges p));
       (if needs then Some True else some_port v opts ps)
     }"

text \<open>Judged on raw sources first; delivered through the edges only when nothing is pending, absent
  or failed and some edge needs it.\<close>

definition deliveredPositionPorts ::
  "type_library \<Rightarrow> run_view \<Rightarrow> plan_node \<Rightarrow> int \<Rightarrow> string option \<Rightarrow> (string \<Rightarrow> bool) \<Rightarrow> port_options
    \<Rightarrow> (position_ports \<times> run_view) option" where
  "deliveredPositionPorts lib v node i branchKey loopDone opts =
     do {
       (ports, v) \<leftarrow> resolvePositionPorts lib v node i branchKey loopDone opts None;
       (if pp_absent ports \<or> pp_pending ports \<or> pp_failure ports \<noteq> None then Some (ports, v)
        else
          do {
            needs \<leftarrow> some_port v opts (pn_inputs node);
            (if \<not> needs then Some (ports, v)
             else
               do {
                 key \<leftarrow> key_or_throw (activation_parts (pn_id node) i branchKey
                                        (nextAttempt v (pn_id node) i branchKey));
                 resolvePositionPorts lib v node i branchKey loopDone opts (Some key)
               })
          })
     }"

section \<open>Expanding items\<close>

datatype items_expansion =
    ExpandPending "string list"
  | ExpandFailed string string
  | Expanded item_fan_out

definition item_source_of :: "string \<Rightarrow> loaded_artifact \<Rightarrow> item_source" where
  "item_source_of i a =
     \<lparr>is_id = i, is_producer = la_producer a, is_itemIds = la_itemIds a, is_sourceItem = la_sourceItem a\<rparr>"

definition loaded_facts :: "run_view \<Rightarrow> string \<Rightarrow> loaded_artifact option" where
  "loaded_facts v i = do { l \<leftarrow> obj_get (vw_values v) i; lv_artifact l }"

definition list_items :: "run_view \<Rightarrow> string list \<Rightarrow> string list + item_candidate list" where
  "list_items v ids =
     (let missing = filter (\<lambda>i. loaded_facts v i = None) ids
      in if missing \<noteq> [] then Inl missing
         else Inr (graphListItemCandidates
                (concat (map (\<lambda>i. case loaded_facts v i of None \<Rightarrow> [] | Some a \<Rightarrow> [item_source_of i a]) ids))))"

definition fan_out_of ::
  "items_axis \<Rightarrow> plan_node \<Rightarrow> input_port \<Rightarrow> int \<Rightarrow> string list \<Rightarrow> string \<Rightarrow> item_candidate list \<Rightarrow> items_expansion" where
  "fan_out_of ax node p i ids now cs =
     (let fx = graphItemFanOutItems cs (ia_maxBranches ax)
      in if int (fx_total fx) > ia_maxBranches ax \<and> ia_truncate ax = TruncFail
         then ExpandFailed (''Input '' @ ip_name p @ '' holds '' @ show_nat (fx_total fx) @ '' items; ''
                @ pn_id node @ '' runs at most '' @ show_int (ia_maxBranches ax) @ '' (truncate: fail)'')
                budget_failure
         else Expanded \<lparr>fo_nodeId = pn_id node, fo_iteration = i, fo_sources = remdups_first ids,
                fo_items = fx_items fx, fo_total = int (fx_total fx),
                fo_truncatedIds = (if fx_truncatedIds fx = [] then None else Some (fx_truncatedIds fx)),
                fo_createdAt = now, fo_supersededBy = None\<rparr>)"

definition expandGraphItems ::
  "type_library \<Rightarrow> run_view \<Rightarrow> plan_node \<Rightarrow> int \<Rightarrow> string list \<Rightarrow> string \<Rightarrow> items_expansion" where
  "expandGraphItems lib v node i ids now =
     (case (case graphNodeItemsAxis node of
              None \<Rightarrow> None
            | Some ax \<Rightarrow> map_option (Pair ax) (find (\<lambda>p. ip_name p = ia_input ax) (pn_inputs node))) of
        None \<Rightarrow> ExpandFailed (pn_id node @ '' has no items input to replicate over'') system_failure
      | Some (ax, p) \<Rightarrow>
          if is_list_port p
          then (case list_items v ids of
                  Inl missing \<Rightarrow> ExpandPending missing
                | Inr cs \<Rightarrow> fan_out_of ax node p i ids now cs)
          else (case ids of
                  [] \<Rightarrow> fan_out_of ax node p i ids now []
                | k # _ \<Rightarrow>
                    (case obj_get (vw_values v) k of
                       None \<Rightarrow> ExpandPending [k]
                     | Some l \<Rightarrow>
                         (case lv_artifact l of
                            None \<Rightarrow> ExpandPending [k]
                          | Some a \<Rightarrow>
                              (case (do { def \<leftarrow> tl_definition lib (la_type a); td_items def }) of
                                 None \<Rightarrow> ExpandFailed (''Input '' @ ip_name p @ '' of '' @ pn_id node @ '' is a ''
                                           @ la_type a @ '', which declares no items'') system_failure
                               | Some items \<Rightarrow>
                                   fan_out_of ax node p i ids now
                                     (graphTypedItemCandidates (item_source_of k a) items (lv_value l)))))))"

section \<open>The round\<close>

record ready_state =
  rs_view :: run_view
  rs_created :: "activation list"
  rs_fanOuts :: "item_fan_out list"
  rs_skipReasons :: "(string \<times> skip_reason) list"
  rs_needValues :: "string list"
  rs_waiting :: nat

definition record_activation :: "activation \<Rightarrow> skip_reason option \<Rightarrow> ready_state \<Rightarrow> ready_state" where
  "record_activation a reason st =
     st\<lparr>rs_created := rs_created st @ [a], rs_view := view_add a (rs_view st),
        rs_skipReasons := (case reason of None \<Rightarrow> rs_skipReasons st
                           | Some r \<Rightarrow> obj_set (act_key a) r (rs_skipReasons st))\<rparr>"

definition need_and_wait :: "string list \<Rightarrow> ready_state \<Rightarrow> ready_state" where
  "need_and_wait ids st =
     st\<lparr>rs_needValues := fold add_new ids (rs_needValues st), rs_waiting := rs_waiting st + 1\<rparr>"

text \<open>Settling an items position as one unbranched activation.\<close>

definition settle_position ::
  "plan_node \<Rightarrow> int \<Rightarrow> string \<Rightarrow> act_state \<Rightarrow> (string \<times> port_input) list \<Rightarrow> (string \<times> string) option
    \<Rightarrow> skip_reason option \<Rightarrow> ready_state \<Rightarrow> ready_state option" where
  "settle_position node i now s inputs failure reason st =
     do { a \<leftarrow> position_activation (rs_view st) node i None s inputs now failure;
          Some (record_activation a reason st) }"

text \<open>The condition of a position: what was decided, or the ids still to load.\<close>

definition when_of ::
  "run_view \<Rightarrow> plan_node \<Rightarrow> (string \<times> port_input) list \<Rightarrow> int \<Rightarrow> when_decision option" where
  "when_of v node inputs i =
     (case pn_when node of None \<Rightarrow> Some (WhenDecided True) | Some c \<Rightarrow> decideWhen v node c inputs i)"

definition bound_ids :: "items_axis \<Rightarrow> position_ports \<Rightarrow> string list" where
  "bound_ids ax ports =
     filter (\<lambda>k. k \<notin> set (get_or [] (obj_get (pp_markers ports) (ia_input ax))))
       (case obj_get (pp_inputs ports) (ia_input ax) of None \<Rightarrow> [] | Some b \<Rightarrow> port_ids b)"

text \<open>An items position before it expands: True when its branches may be created now.\<close>

definition expand_position ::
  "type_library \<Rightarrow> string \<Rightarrow> (string \<Rightarrow> bool) \<Rightarrow> plan_node \<Rightarrow> int \<Rightarrow> items_axis \<Rightarrow> ready_state
    \<Rightarrow> (bool \<times> ready_state) option" where
  "expand_position lib now loopDone node i ax st =
     do {
       (ports, v) \<leftarrow> deliveredPositionPorts lib (rs_view st) node i None loopDone
                        \<lparr>po_item = None, po_itemsPort = [], po_skipZip = True\<rparr>;
       (let st = st\<lparr>rs_view := v\<rparr>;
            stop = (\<lambda>r. do { st \<leftarrow> r; Some (False, st) })
        in if pp_absent ports then stop (settle_position node i now Skipped [] None (Some InputAbsent) st)
           else if pp_pending ports then Some (False, st\<lparr>rs_waiting := rs_waiting st + 1\<rparr>)
           else if pp_failure ports \<noteq> None
           then stop (settle_position node i now Failed (pp_inputs ports) (pp_failure ports) None st)
           else
             do {
               decision \<leftarrow> when_of v node (pp_inputs ports) i;
               (case decision of
                  WhenMissing ids \<Rightarrow> Some (False, need_and_wait ids st)
                | WhenDecided False \<Rightarrow> stop (settle_position node i now Skipped [] None (Some WhenFalse) st)
                | WhenDecided True \<Rightarrow>
                    (case expandGraphItems lib v node i (bound_ids ax ports) now of
                       ExpandPending missing \<Rightarrow> Some (False, need_and_wait missing st)
                     | ExpandFailed m c \<Rightarrow>
                         stop (settle_position node i now Failed (pp_inputs ports) (Some (m, c)) None st)
                     | Expanded f \<Rightarrow>
                         (let st = st\<lparr>rs_fanOuts := rs_fanOuts st @ [f], rs_view := addFanOut f v\<rparr>
                          in if fo_items f = []
                             then stop (settle_position node i now Skipped [] None (Some NoItems) st)
                             else Some (True, st))))
             })
     }"

text \<open>One branch of a position.\<close>

definition create_branch ::
  "type_library \<Rightarrow> string \<Rightarrow> (string \<Rightarrow> bool) \<Rightarrow> plan_node \<Rightarrow> int \<Rightarrow> items_axis option \<Rightarrow> string option
    \<Rightarrow> ready_state \<Rightarrow> ready_state option" where
  "create_branch lib now loopDone node i ax branchKey st =
     (if latestAt (rs_view st) (pn_id node) i branchKey \<noteq> None then Some st
      else
        do {
          item \<leftarrow> (case (ax, branchKey) of
                      (Some _, Some k) \<Rightarrow>
                        do { b \<leftarrow> branchAt (rs_view st) node i k;
                             Some (case b of None \<Rightarrow> None | Some x \<Rightarrow> gb_item x) }
                    | _ \<Rightarrow> Some None);
          (ports, v) \<leftarrow> deliveredPositionPorts lib (rs_view st) node i branchKey loopDone
             \<lparr>po_item = item, po_itemsPort = (case ax of None \<Rightarrow> [] | Some x \<Rightarrow> ia_input x), po_skipZip = False\<rparr>;
          (let st = st\<lparr>rs_view := v\<rparr>;
               create = (\<lambda>s inputs failure reason.
                 do { a \<leftarrow> position_activation v node i branchKey s inputs now failure;
                      Some (record_activation a reason st) })
           in if pp_absent ports then create Skipped [] None (Some InputAbsent)
              else if pp_pending ports then Some (st\<lparr>rs_waiting := rs_waiting st + 1\<rparr>)
              else if pp_failure ports \<noteq> None then create Failed (pp_inputs ports) (pp_failure ports) None
              else
                do {
                  decision \<leftarrow> (if ax = None then when_of v node (pp_inputs ports) i else Some (WhenDecided True));
                  (case decision of
                     WhenMissing ids \<Rightarrow> Some (need_and_wait ids st)
                   | WhenDecided True \<Rightarrow> create Ready (pp_inputs ports) None None
                   | WhenDecided False \<Rightarrow> create Skipped [] None (Some WhenFalse))
                })
        })"

fun create_branches ::
  "type_library \<Rightarrow> string \<Rightarrow> (string \<Rightarrow> bool) \<Rightarrow> plan_node \<Rightarrow> int \<Rightarrow> items_axis option \<Rightarrow> string option list
    \<Rightarrow> ready_state \<Rightarrow> ready_state option" where
  "create_branches lib now loopDone node i ax [] st = Some st"
| "create_branches lib now loopDone node i ax (b # bs) st =
     do { st \<leftarrow> create_branch lib now loopDone node i ax b st;
          create_branches lib now loopDone node i ax bs st }"

definition ready_node ::
  "type_library \<Rightarrow> string \<Rightarrow> (string \<Rightarrow> bool) \<Rightarrow> plan_node \<Rightarrow> ready_state \<Rightarrow> ready_state option" where
  "ready_node lib now loopDone node st =
     (let i = nodeIteration (rs_view st) node; ax = graphNodeItemsAxis node
      in do {
        (go, st) \<leftarrow> (case ax of
           None \<Rightarrow> Some (True, st)
         | Some x \<Rightarrow>
             if fanOutAt (rs_view st) (pn_id node) i = None \<and> latestAt (rs_view st) (pn_id node) i None = None
             then expand_position lib now loopDone node i x st else Some (True, st));
        (if \<not> go then Some st
         else do { bs \<leftarrow> branchKeysAt (rs_view st) node i; create_branches lib now loopDone node i ax bs st })
      })"

fun ready_nodes ::
  "type_library \<Rightarrow> string \<Rightarrow> (string \<Rightarrow> bool) \<Rightarrow> plan_node list \<Rightarrow> ready_state \<Rightarrow> ready_state option" where
  "ready_nodes lib now loopDone [] st = Some st"
| "ready_nodes lib now loopDone (n # ns) st =
     do { st \<leftarrow> ready_node lib now loopDone n st; ready_nodes lib now loopDone ns st }"

definition computeGraphReadySet ::
  "type_library \<Rightarrow> run_view \<Rightarrow> string \<Rightarrow> (string \<Rightarrow> bool) \<Rightarrow> ready_state option" where
  "computeGraphReadySet lib v now loopDone =
     do {
       st \<leftarrow> ready_nodes lib now loopDone (plan_nodes (vw_plan v))
         \<lparr>rs_view = v, rs_created = [], rs_fanOuts = [], rs_skipReasons = [], rs_needValues = [], rs_waiting = 0\<rparr>;
       Some (st\<lparr>rs_needValues := fold add_new (vw_missing (rs_view st)) (rs_needValues st)\<rparr>)
     }"

end
