(* ===== verification/Collect.thy ===== *)
theory Collect
  imports Ready_Set
begin

text \<open>
  What a fan-in collects from the branches of a replicated node (\<^verbatim>\<open>collectGraphBranches\<close> of
  \<^verbatim>\<open>apps/backend/src/core/graph-run-ready-set.ts\<close>), against the state of each branch: the code tallies
  the branches in one pass, the statements here read them one by one.
\<close>

section \<open>The branches one by one\<close>

definition delivery_at :: "run_view \<Rightarrow> plan_node \<Rightarrow> int \<Rightarrow> port_ref \<Rightarrow> string option \<Rightarrow> resolution" where
  "delivery_at v producer i ref b =
     graphActivationDelivery (latestAt v (pn_id producer) i b) (pf_port ref) (pf_outlet ref) (Some producer)"

text \<open>The failure marker a branch contributes, where failures are included.\<close>

definition marker_at :: "run_view \<Rightarrow> plan_node \<Rightarrow> int \<Rightarrow> port_ref \<Rightarrow> bool \<Rightarrow> string option \<Rightarrow> string list" where
  "marker_at v producer i ref inc b =
     (case delivery_at v producer i ref b of
        RLive ids ms \<Rightarrow> [] | RPending \<Rightarrow> []
      | _ \<Rightarrow> if inc \<and> is_state Failed (latestAt v (pn_id producer) i b)
             then (case (case latestAt v (pn_id producer) i b of
                           None \<Rightarrow> None | Some a \<Rightarrow> obj_get (act_outputs a) GRAPH_ERROR_PORT) of
                     Some m \<Rightarrow> [m] | None \<Rightarrow> [])
             else [])"

definition live_at :: "run_view \<Rightarrow> plan_node \<Rightarrow> int \<Rightarrow> port_ref \<Rightarrow> string option \<Rightarrow> string list option" where
  "live_at v producer i ref b =
     (case delivery_at v producer i ref b of RLive ids ms \<Rightarrow> Some ids | _ \<Rightarrow> None)"

definition success_at :: "run_view \<Rightarrow> plan_node \<Rightarrow> int \<Rightarrow> port_ref \<Rightarrow> nat \<Rightarrow> string option \<Rightarrow> branch_success list" where
  "success_at v producer i ref j b =
     (case live_at v producer i ref b of
        None \<Rightarrow> []
      | Some ids \<Rightarrow> [\<lparr>su_index = j, su_ids = ids, su_finishedAt =
          (case latestAt v (pn_id producer) i b of None \<Rightarrow> [] | Some a \<Rightarrow> get_or [] (act_finishedAt a))\<rparr>])"

lemma tally_branch_parts:
  "tally_branch v producer ref inc j (latestAt v (pn_id producer) i b) t = t' \<Longrightarrow>
     ta_successes t' = ta_successes t @ success_at v producer i ref j b
     \<and> ta_markers t' = ta_markers t @ map (Pair j) (marker_at v producer i ref inc b)
     \<and> ta_pending t' = ta_pending t + (if delivery_at v producer i ref b = RPending then 1 else 0)
     \<and> ta_skipped t' = ta_skipped t + (if is_state Skipped (latestAt v (pn_id producer) i b) then 1 else 0)"
  by (drule sym)
    (auto simp: tally_branch_def Let_def success_at_def live_at_def marker_at_def delivery_at_def
      split: resolution.split option.split)

lemma tally_branches_parts:
  "ta_successes (tally_branches v producer i ref inc k bs t) =
     ta_successes t @ concat (map (\<lambda>(j, b). success_at v producer i ref j b) (enumerate k bs))"
  "ta_markers (tally_branches v producer i ref inc k bs t) =
     ta_markers t @ concat (map (\<lambda>(j, b). map (Pair j) (marker_at v producer i ref inc b)) (enumerate k bs))"
  "ta_pending (tally_branches v producer i ref inc k bs t) =
     ta_pending t + length (filter (\<lambda>b. delivery_at v producer i ref b = RPending) bs)"
  "ta_skipped (tally_branches v producer i ref inc k bs t) =
     ta_skipped t + length (filter (\<lambda>b. is_state Skipped (latestAt v (pn_id producer) i b)) bs)"
  by (induction bs arbitrary: k t) (simp_all add: tally_branch_parts [OF refl])

lemma success_count:
  "length (concat (map (\<lambda>(j, b). success_at v producer i ref j b) (enumerate k bs))) =
     length (filter (\<lambda>b. live_at v producer i ref b \<noteq> None) bs)"
  by (induction bs arbitrary: k) (auto simp: success_at_def split: option.split)

section \<open>Branch order\<close>

text \<open>Entries with distinct indices below \<open>n\<close>, sorted by index, are the branches in order.\<close>

lemma concat_filter_nil: "(\<And>x. x \<in> set xs \<Longrightarrow> \<not> P x \<Longrightarrow> f x = []) \<Longrightarrow> concat (map f xs) = concat (map f (filter P xs))"
  by (induction xs) auto

lemma sorted_entries:
  fixes es :: "(nat \<times> 'a) list"
  assumes "distinct (map fst es)" and "\<And>e. e \<in> set es \<Longrightarrow> fst e < n"
    and "\<And>e. e \<in> set es \<Longrightarrow> g e = h (fst e)" and "\<And>j. j < n \<Longrightarrow> j \<notin> fst ` set es \<Longrightarrow> h j = []"
  shows "concat (map g (sort_key fst es)) = concat (map h [0..<n])"
proof -
  have "map fst (sort_key fst es) = filter (\<lambda>j. j \<in> fst ` set es) [0..<n]"
  proof (rule sorted_distinct_set_unique)
    show "sorted (map fst (sort_key fst es))" by simp
    show "distinct (map fst (sort_key fst es))"
      using assms(1) by (metis distinct_map distinct_sort set_sort)
    show "set (map fst (sort_key fst es)) = set (filter (\<lambda>j. j \<in> fst ` set es) [0..<n])"
      using assms(2) by auto
    show "sorted (filter (\<lambda>j. j \<in> fst ` set es) [0..<n])" by (rule sorted_wrt_filter) simp
  qed simp
  moreover have "map g (sort_key fst es) = map h (map fst (sort_key fst es))" using assms(3) by simp
  ultimately have "concat (map g (sort_key fst es)) = concat (map h (filter (\<lambda>j. j \<in> fst ` set es) [0..<n]))"
    by simp
  also have "\<dots> = concat (map h [0..<n])"
    by (rule concat_filter_nil [symmetric]) (use assms(4) in simp)
  finally show ?thesis .
qed

lemma success_indices:
  "map su_index (concat (map (\<lambda>(j, b). success_at v producer i ref j b) (enumerate k bs))) =
     map fst (filter (\<lambda>(j, b). live_at v producer i ref b \<noteq> None) (enumerate k bs))"
  by (induction bs arbitrary: k) (auto simp: success_at_def split: option.split)

lemma marker_at_cases: "marker_at v producer i ref inc b = [] \<or> (\<exists>m. marker_at v producer i ref inc b = [m])"
  by (auto simp: marker_at_def split: resolution.split option.split)

lemma marker_indices:
  "map fst (concat (map (\<lambda>(j, b). map (Pair j) (marker_at v producer i ref inc b)) (enumerate k bs))) =
     map fst (filter (\<lambda>(j, b). marker_at v producer i ref inc b \<noteq> []) (enumerate k bs))"
proof (induction bs arbitrary: k)
  case (Cons b bs)
  then show ?case using marker_at_cases [of v producer i ref inc b] by auto
qed simp

lemma marker_not_live: "live_at v producer i ref b \<noteq> None \<Longrightarrow> marker_at v producer i ref inc b = []"
  by (auto simp: live_at_def marker_at_def split: resolution.splits)

lemma success_at_mem:
  "s \<in> set (success_at v producer i ref j b) \<longleftrightarrow> [s] = success_at v producer i ref j b \<and> su_index s = j"
  by (auto simp: success_at_def split: option.splits)

definition finished_at :: "run_view \<Rightarrow> plan_node \<Rightarrow> int \<Rightarrow> string option \<Rightarrow> string" where
  "finished_at v producer i b =
     (case latestAt v (pn_id producer) i b of None \<Rightarrow> [] | Some a \<Rightarrow> get_or [] (act_finishedAt a))"

lemma success_at_ids:
  "[s] = success_at v producer i ref j b \<Longrightarrow> live_at v producer i ref b = Some (su_ids s)"
  "[s] = success_at v producer i ref j b \<Longrightarrow> su_finishedAt s = finished_at v producer i b"
  by (auto simp: success_at_def finished_at_def split: option.splits)

lemma successes_at:
  "s \<in> set (concat (map (\<lambda>(j, b). success_at v producer i ref j b) (enumerate 0 bs))) \<longleftrightarrow>
     su_index s < length bs \<and> [s] = success_at v producer i ref (su_index s) (bs ! su_index s)"
proof -
  have "s \<in> set (concat (map (\<lambda>(j, b). success_at v producer i ref j b) (enumerate 0 bs))) \<longleftrightarrow>
      (\<exists>j<length bs. s \<in> set (success_at v producer i ref j (bs ! j)))"
    by (force simp: in_set_enumerate_eq)
  then show ?thesis unfolding success_at_mem by auto
qed

lemma markers_at:
  "(j, m) \<in> set (concat (map (\<lambda>(j, b). map (Pair j) (marker_at v producer i ref inc b)) (enumerate 0 bs))) \<longleftrightarrow>
     j < length bs \<and> m \<in> set (marker_at v producer i ref inc (bs ! j))"
  by (fastforce simp: in_set_enumerate_eq)

section \<open>What is delivered\<close>

lemma take_sorted_le:
  "sorted (map f xs) \<Longrightarrow> x \<in> set (take k xs) \<Longrightarrow> y \<in> set (drop k xs) \<Longrightarrow> f x \<le> f y"
proof -
  assume a: "sorted (map f xs)" "x \<in> set (take k xs)" "y \<in> set (drop k xs)"
  have "sorted (map f (take k xs) @ map f (drop k xs))" using a(1) by (metis append_take_drop_id map_append)
  then show "f x \<le> f y" using a(2,3) by (simp add: sorted_append)
qed

text \<open>Delivering a choice of the successes: every branch contributes its ids, where it is chosen, or its
  marker, in branch order.\<close>

lemma deliver_in_order:
  fixes v producer i ref inc bs
  defines "t \<equiv> tally_branches v producer i ref inc 0 bs no_tally"
  assumes "set taken \<subseteq> set (ta_successes t)" and "distinct (map su_index taken)"
  shows "deliver_branches t taken =
    RLive (concat (map (\<lambda>j. (if j \<in> su_index ` set taken then get_or [] (live_at v producer i ref (bs ! j)) else [])
                           @ marker_at v producer i ref inc (bs ! j)) [0..<length bs]))
          (concat (map (\<lambda>j. marker_at v producer i ref inc (bs ! j)) [0..<length bs]))"
proof -
  let ?es = "map (\<lambda>s. (su_index s, su_ids s, False)) taken @ map (\<lambda>(i, m). (i, [m], True)) (ta_markers t)"
  let ?S = "concat (map (\<lambda>(j, b). success_at v producer i ref j b) (enumerate 0 bs))"
  let ?M = "concat (map (\<lambda>(j, b). map (Pair j) (marker_at v producer i ref inc b)) (enumerate 0 bs))"
  have parts: "ta_successes t = ?S" "ta_markers t = ?M"
    by (simp_all only: t_def tally_branches_parts no_tally_def branch_tally.select_convs append_Nil)
  have taken: "su_index s < length bs" "[s] = success_at v producer i ref (su_index s) (bs ! su_index s)"
    if "s \<in> set taken" for s
    using that assms(2) successes_at [of s] unfolding parts by blast+
  have live: "live_at v producer i ref (bs ! su_index s) = Some (su_ids s)" if "s \<in> set taken" for s
    by (rule success_at_ids [OF taken(2) [OF that]])
  have unmarked: "marker_at v producer i ref inc (bs ! su_index s) = []" if "s \<in> set taken" for s
    by (rule marker_not_live) (simp add: live [OF that])
  have mark: "j < length bs \<and> marker_at v producer i ref inc (bs ! j) = [m]" if "(j, m) \<in> set ?M" for j m
    using that unfolding markers_at using marker_at_cases [of v producer i ref inc "bs ! j"] by auto
  have keys: "fst ` set ?M = {j. j < length bs \<and> marker_at v producer i ref inc (bs ! j) \<noteq> []}"
  proof -
    have "fst ` set ?M = set (map fst ?M)" by (simp only: set_map)
    also have "\<dots> = {j. j < length bs \<and> marker_at v producer i ref inc (bs ! j) \<noteq> []}"
      unfolding marker_indices by (force simp: in_set_enumerate_eq)
    finally show ?thesis .
  qed
  have dist: "distinct (map fst ?es)"
  proof -
    have "distinct (map fst ?M)"
      unfolding marker_indices by (rule distinct_map_filter) simp
    moreover have "su_index ` set taken \<inter> fst ` set ?M = {}"
      unfolding keys using unmarked by auto
    ultimately show ?thesis
      using assms(3) by (simp add: parts(2) comp_def case_prod_beta del: set_concat)
  qed
  have bound: "fst e < length bs" if "e \<in> set ?es" for e
    using that taken(1) mark by (auto simp: parts(2) simp del: set_concat)
  have entry: "(\<exists>s\<in>set taken. e = (su_index s, su_ids s, False)) \<or> (\<exists>j m. (j, m) \<in> set ?M \<and> e = (j, [m], True))"
    if "e \<in> set ?es" for e
    using that by (auto simp: parts(2) simp del: set_concat)
  have other: "j \<notin> su_index ` set taken \<and> marker_at v producer i ref inc (bs ! j) = []"
    if "j < length bs" "j \<notin> fst ` set ?es" for j
  proof -
    have "fst ` set ?es = su_index ` set taken \<union> fst ` set ?M"
      by (simp only: parts(2) set_append set_map image_Un image_image fst_conv case_prod_beta)
    then show ?thesis using that unfolding keys by blast
  qed
  let ?h = "\<lambda>j. (if j \<in> su_index ` set taken then get_or [] (live_at v producer i ref (bs ! j)) else [])
    @ marker_at v producer i ref inc (bs ! j)"
  have ids: "concat (map (\<lambda>(i, ids, m). ids) (sort_key fst ?es)) = concat (map ?h [0..<length bs])"
  proof (rule sorted_entries [OF dist bound])
    fix e assume "e \<in> set ?es"
    then consider s where "s \<in> set taken" "e = (su_index s, su_ids s, False)"
      | j m where "(j, m) \<in> set ?M" "e = (j, [m], True)" using entry by blast
    then show "(\<lambda>(i, ids, m). ids) e = ?h (fst e)"
    proof cases
      case 1
      then show ?thesis using live [OF 1(1)] marker_not_live [of v producer i ref "bs ! su_index s"]
        by (simp add: get_or_def)
    next
      case 2
      have "j \<notin> su_index ` set taken" using mark [OF 2(1)] unmarked by auto
      then show ?thesis using 2 mark [OF 2(1)] by simp
    qed
  qed (use other in simp_all)
  have "concat (map (\<lambda>(i, ids, m). ids) (filter (\<lambda>(i, ids, m). m) es)) =
      concat (map (\<lambda>(i, ids, m). if m then ids else []) es)" for es :: "(nat \<times> string list \<times> bool) list"
    by (induction es) auto
  then have "concat (map (\<lambda>(i, ids, m). ids) (filter (\<lambda>(i, ids, m). m) (sort_key fst ?es))) =
      concat (map (\<lambda>(i, ids, m). if m then ids else []) (sort_key fst ?es))" by blast
  also have "\<dots> = concat (map (\<lambda>j. marker_at v producer i ref inc (bs ! j)) [0..<length bs])"
  proof (rule sorted_entries [OF dist bound])
    fix e assume "e \<in> set ?es"
    then consider s where "s \<in> set taken" "e = (su_index s, su_ids s, False)"
      | j m where "(j, m) \<in> set ?M" "e = (j, [m], True)" using entry by blast
    then show "(\<lambda>(i, ids, m). if m then ids else []) e = marker_at v producer i ref inc (bs ! fst e)"
    proof cases
      case 1
      then show ?thesis using live [OF 1(1)] marker_not_live [of v producer i ref "bs ! su_index s"] by simp
    qed (use mark in simp)
  qed (use other in simp_all)
  finally show ?thesis using ids by (simp add: deliver_branches_def Let_def)
qed


text \<open>A port that takes the first of two branches: the first still runs, the second is done.\<close>

definition collect_node :: plan_node where
  "collect_node = example_node\<lparr>pn_replicate := Some [OverPanel ''reviewer'']\<rparr>"

definition collect_run :: graph_run where
  "collect_run =
     (let run = example_run
            [(example_activation ''a1'' ''review'' Running)\<lparr>act_branchKey := Some ''panel.1''\<rparr>,
             (example_activation ''a2'' ''review'' Complete)\<lparr>act_branchKey := Some ''panel.2'',
                act_outputs := [(''out'', ''x'')]\<rparr>]
      in run\<lparr>run_bindings := (run_bindings run)\<lparr>rb_roles := example_roles\<rparr>,
             run_plan := (run_plan run)\<lparr>plan_nodes := [collect_node]\<rparr>\<rparr>)"

definition collect_port :: input_port where
  "collect_port = \<lparr>ip_name = ''all'', ip_type = ''list<review@1>'', ip_required = True, ip_collect = Some
     \<lparr>cp_wait = FirstFinished, cp_count = Some 1, cp_minSuccessful = 1, cp_includeFailures = False\<rparr>,
     ip_fanIn = True, ip_edges = [], ip_carries = []\<rparr>"

definition collect_ref :: port_ref where
  "collect_ref = \<lparr>pf_node = ''review'', pf_port = ''out'', pf_outlet = None\<rparr>"

lemma collect_example:
  "collectGraphBranches (new_view collect_run [] []) collect_node 1 collect_ref (Some collect_port) = Some (RLive [''x''] [])"
  "branchKeysAt (new_view collect_run [] []) collect_node 1 = Some [Some ''panel.1'', Some ''panel.2'']"
  "cp_minSuccessful (graphCollectPolicy (Some collect_port)) = 1"
  by code_simp+


end
