(* ===== verification/Scheduling.thy ===== *)
theory Scheduling
  imports Ready_Set Graph_Transitions Graph_Isolation
begin

text \<open>
  Planning a run to a fixpoint: loop progress (\<^verbatim>\<open>apps/backend/src/core/graph-run-loops.ts\<close>), the
  handling of failed activations and the planning rounds (\<^verbatim>\<open>graph-run-scheduling.ts\<close>).

  The outcomes the pass keeps for its planning calls are read and extended by planning, so the result
  carries them. None stands for a thrown internal error.
\<close>

section \<open>Loop progress\<close>

datatype loop_done = Converged | BoundReached | NotEntered

datatype loop_state =
    LoopRunning
  | LoopDone loop_done int
  | LoopNext int
  | LoopNeeds "string list"

text \<open>The members in order, each over its branches; None in the second component where a position is
  not settled, else whether any member ran.\<close>

fun branches_settled ::
  "run_view \<Rightarrow> string \<Rightarrow> int \<Rightarrow> string option list \<Rightarrow> bool \<Rightarrow> bool option" where
  "branches_settled v m i [] entered = Some entered"
| "branches_settled v m i (b # bs) entered =
     (case latestAt v m i b of
        None \<Rightarrow> None
      | Some a \<Rightarrow> if \<not> isGraphActivationTerminal (act_state a) then None
                  else branches_settled v m i bs (entered \<or> act_state a \<noteq> Skipped))"

fun members_settled :: "run_view \<Rightarrow> int \<Rightarrow> string list \<Rightarrow> bool \<Rightarrow> bool option option" where
  "members_settled v i [] entered = Some (Some entered)"
| "members_settled v i (m # ms) entered =
     do {
       node \<leftarrow> view_node v m;
       bs \<leftarrow> branchKeysAt v node i;
       (case branches_settled v m i bs entered of
          None \<Rightarrow> Some None
        | Some entered \<Rightarrow> members_settled v i ms entered)
     }"

text \<open>The roots \<open>node.port\<close> of the paths that have both.\<close>

definition until_root :: "string \<Rightarrow> (string \<times> string) option" where
  "until_root path = (case split_on CHR ''.'' path of n # p # _ \<Rightarrow> Some (n, p) | _ \<Rightarrow> None)"

definition until_roots :: "string list \<Rightarrow> (string \<times> string) list" where
  "until_roots paths =
     remdups_first (concat (map (\<lambda>p. case until_root p of None \<Rightarrow> [] | Some r \<Rightarrow> [r]) paths))"

text \<open>One branch's value of a root: undefined without an output, or the id of a value to load.\<close>

definition read_root :: "run_view \<Rightarrow> string \<Rightarrow> string \<Rightarrow> int \<Rightarrow> string option \<Rightarrow> string + js" where
  "read_root v n p i b =
     (case (case latestAt v n i b of None \<Rightarrow> None | Some a \<Rightarrow> obj_get (act_outputs a) p) of
        None \<Rightarrow> Inr JUndef
      | Some k \<Rightarrow> (case obj_get (vw_values v) k of None \<Rightarrow> Inl k | Some l \<Rightarrow> Inr (lv_value l)))"

fun read_missing :: "(string + js) list \<Rightarrow> string list" where
  "read_missing [] = []"
| "read_missing (Inl k # rs) = k # read_missing rs"
| "read_missing (Inr x # rs) = read_missing rs"

fun read_values :: "(string + js) list \<Rightarrow> js list" where
  "read_values [] = []"
| "read_values (Inl k # rs) = read_values rs"
| "read_values (Inr x # rs) = (if x = JUndef then read_values rs else x # read_values rs)"

fun until_values ::
  "run_view \<Rightarrow> plan_loop \<Rightarrow> int \<Rightarrow> (string \<times> string) list \<Rightarrow> (string \<times> js) list \<times> string list
    \<Rightarrow> ((string \<times> js) list \<times> string list) option" where
  "until_values v l i [] acc = Some acc"
| "until_values v l i ((n, p) # roots) (vals, missing) =
     (if n \<notin> set (pl_members l) then until_values v l i roots (vals, missing)
      else
        do {
          member \<leftarrow> view_node v n;
          keys \<leftarrow> branchKeysAt v member i;
          branches \<leftarrow> branchesAt v member i;
          (let root_name = n @ ''.'' @ p;
               reads = map (read_root v n p i) (if branches = None then [None] else keys);
               lost = read_missing reads;
               vals = (if lost \<noteq> [] then vals
                       else if branches = None
                       then (case read_values reads of [] \<Rightarrow> vals | x # _ \<Rightarrow> obj_set root_name x vals)
                       else obj_set root_name (JArr (read_values reads)) vals)
           in until_values v l i roots (vals, missing @ lost))
        })"

definition graphLoopState :: "run_view \<Rightarrow> plan_loop \<Rightarrow> loop_state option" where
  "graphLoopState v l =
     (let i = view_iteration v (pl_id l) in
      do {
        settled \<leftarrow> members_settled v i (pl_members l) False;
        (case settled of
           None \<Rightarrow> Some LoopRunning
         | Some False \<Rightarrow> Some (LoopDone NotEntered i)
         | Some True \<Rightarrow>
             do {
               paths \<leftarrow> graphPredicatePaths (pl_until l);
               (vals, missing) \<leftarrow> until_values v l i (until_roots paths) ([], []);
               (if missing \<noteq> [] then Some (LoopNeeds missing)
                else if ev_value (evaluateGraphPredicate (pl_until l)
                  \<lparr>env_values = Some vals,
                   env_params = Some (JObj (graphPlanScopeParams (vw_plan v) (pl_subgraph l)
                                              (rb_params (run_bindings (vw_run v))))),
                   env_run = Some (run_scope i)\<rparr>)
                then Some (LoopDone Converged i)
                else if i \<ge> pl_maxIterations l then Some (LoopDone BoundReached i)
                else Some (LoopNext (i + 1)))
             })
      })"

section \<open>Failed activations\<close>

definition MAX_PLANNING_ROUNDS :: nat where "MAX_PLANNING_ROUNDS = 1000"
definition ERROR_MESSAGE_CHARS :: nat where "ERROR_MESSAGE_CHARS = 1300"
definition maxLineage :: nat where "maxLineage = 256"
definition maxFanOuts :: nat where "maxFanOuts = 500"

definition GRAPH_RETRY_CAUSES :: "string list" where
  "GRAPH_RETRY_CAUSES = [''provider-error'', ''invalid-result'', ''timeout'']"

type_synonym run_failure = "utf16 \<times> string"

definition retryActivation :: "run_view \<Rightarrow> activation \<Rightarrow> string \<Rightarrow> activation option" where
  "retryActivation v a now =
     (let p = activation_parts (act_nodeId a) (act_iteration a) (act_branchKey a)
                (nextAttempt v (act_nodeId a) (act_iteration a) (act_branchKey a))
      in do { key \<leftarrow> key_or_throw p; Some (blank_activation key p Ready (act_inputs a) now) })"

definition graphRoutedErrorValue :: "plan_node \<Rightarrow> activation \<Rightarrow> nat \<Rightarrow> routed_error" where
  "graphRoutedErrorValue node a attempts =
     (let cause = get_or ''system-error'' (act_errorCause a);
          default = units (''Node '' @ pn_id node @ '' failed'');
          message = take ERROR_MESSAGE_CHARS (get_or default (act_error a))
      in \<lparr>re_node = pn_id node, re_cause = cause,
          re_code = map (\<lambda>c. if c = CHR ''-'' then CHR ''_'' else c) cause,
          re_message = (if message \<noteq> [] then message else default),
          re_attempts = max 1 attempts, re_retryable = cause \<in> set GRAPH_RETRY_CAUSES\<rparr>)"

definition errorKey :: "activation \<Rightarrow> string" where
  "errorKey a = ''error'' @ [CHR 0x00] @ act_key a"

record failure_decisions =
  fd_retries :: "activation list"
  fd_routed :: "(string \<times> string) list"
  fd_requests :: "artifact_request list"

definition error_request :: "run_view \<Rightarrow> plan_node \<Rightarrow> activation \<Rightarrow> artifact_request option" where
  "error_request v node a =
     do {
       item \<leftarrow> (case act_branchKey a of
                   None \<Rightarrow> Some None
                 | Some k \<Rightarrow> do { b \<leftarrow> branchAt v node (act_iteration a) k;
                                Some (case b of None \<Rightarrow> None | Some x \<Rightarrow> gb_item x) });
       Some \<lparr>aq_key = errorKey a, aq_purpose = ForError,
             aq_producer = \<lparr>ap_nodeId = pn_id node, ap_activation = act_key a, ap_port = GRAPH_ERROR_PORT\<rparr>,
             aq_type = ''error@1'',
             aq_values = [RoutedError (graphRoutedErrorValue node a (liveAttempts v a))],
             aq_inputs = take maxLineage (remdups_first (concat (map (\<lambda>p. port_ids (snd p)) (act_inputs a)))),
             aq_sourceItems = (case item of None \<Rightarrow> None | Some it \<Rightarrow> Some [Some (fi_id it)]),
             aq_edgeId = None, aq_port = None\<rparr>
     }"

definition wants_error :: "run_view \<Rightarrow> plan_node \<Rightarrow> bool" where
  "wants_error v node \<longleftrightarrow>
     pn_onFailure node = RouteFailure
     \<or> (node_replicate node \<noteq> None \<and> graphFailureMarkersWanted (vw_plan v) (pn_id node))"

text \<open>One failed activation: Inl is the failure of the run.\<close>

definition decide_failed ::
  "run_view \<Rightarrow> string \<Rightarrow> plan_node \<Rightarrow> activation \<Rightarrow> failure_decisions
    \<Rightarrow> (run_failure + failure_decisions) option" where
  "decide_failed v now node a d =
     (if (case act_errorCause a of None \<Rightarrow> False | Some c \<Rightarrow> c \<in> set (pn_retryOn node))
         \<and> int (liveAttempts v a) < pn_retryAttempts node
      then do { r \<leftarrow> retryActivation v a now; Some (Inr (d\<lparr>fd_retries := fd_retries d @ [r]\<rparr>)) }
      else if pn_onFailure node = FailRun
      then Some (Inl (units (''Node '' @ pn_id node @ '' failed'')
             @ (case act_error a of None \<Rightarrow> [] | Some m \<Rightarrow> if m = [] then [] else units '': '' @ m),
             get_or ''system-error'' (act_errorCause a)))
      else if \<not> wants_error v node \<or> obj_get (act_outputs a) GRAPH_ERROR_PORT \<noteq> None then Some (Inr d)
      else
        (case obj_get (vw_outcomes v) (errorKey a) of
           Some (Unstorable m c) \<Rightarrow>
             Some (Inl (units (''Node '' @ pn_id node @ '' failed and its ''
               @ (if pn_onFailure node = RouteFailure then ''error could not be routed''
                  else ''failure marker could not be stored'') @ '': '' @ m), ''system-error''))
         | Some (Stored (k # ks)) \<Rightarrow> Some (Inr (d\<lparr>fd_routed := fd_routed d @ [(act_key a, k)]\<rparr>))
         | _ \<Rightarrow> do { r \<leftarrow> error_request v node a; Some (Inr (d\<lparr>fd_requests := fd_requests d @ [r]\<rparr>)) }))"

fun decide_failures ::
  "run_view \<Rightarrow> string \<Rightarrow> activation list \<Rightarrow> failure_decisions \<Rightarrow> (run_failure + failure_decisions) option" where
  "decide_failures v now [] d = Some (Inr d)"
| "decide_failures v now (a # as) d =
     (if act_state a \<noteq> Failed then decide_failures v now as d
      else
        do {
          node \<leftarrow> view_node v (act_nodeId a);
          r \<leftarrow> decide_failed v now node a d;
          (case r of Inl f \<Rightarrow> Some (Inl f) | Inr d \<Rightarrow> decide_failures v now as d)
        })"

definition failurePolicy :: "run_view \<Rightarrow> string \<Rightarrow> (run_failure + failure_decisions) option" where
  "failurePolicy v now =
     decide_failures v now (latestActivations v) \<lparr>fd_retries = [], fd_routed = [], fd_requests = []\<rparr>"

definition append_activation :: "graph_run \<Rightarrow> activation \<Rightarrow> run_failure + graph_run" where
  "append_activation run a =
     (case appendGraphActivation run a of
        Inl (c, m) \<Rightarrow> Inl (units m, ''budget-exceeded'')
      | Inr run \<Rightarrow> Inr run)"

section \<open>Planning\<close>

record planning =
  gp_run :: graph_run
  gp_created :: nat
  gp_skipped :: nat
  gp_retried :: nat
  gp_loopsAdvanced :: nat
  gp_fanOuts :: nat
  gp_needValues :: "string list"
  gp_needArtifacts :: "(string \<times> artifact_request) list"
  gp_waiting :: nat
  gp_doneLoops :: "string list"
  gp_failure :: "run_failure option"
  gp_outcomes :: "(string \<times> outcome) list"

text \<open>A failure is returned with the counts so far, before any need is written to the result.\<close>

definition with_failure :: "run_failure \<Rightarrow> planning \<Rightarrow> planning" where
  "with_failure f p = p\<lparr>gp_failure := Some f, gp_needValues := [], gp_needArtifacts := []\<rparr>"

text \<open>Appending in order until one is refused: the refusal and the run so far.\<close>

fun append_all :: "activation list \<Rightarrow> graph_run \<Rightarrow> run_failure option \<times> graph_run" where
  "append_all [] run = (None, run)"
| "append_all (a # as) run =
     (case append_activation run a of Inl f \<Rightarrow> (Some f, run) | Inr run' \<Rightarrow> append_all as run')"

definition route_errors :: "(string \<times> string) list \<Rightarrow> graph_run \<Rightarrow> graph_run" where
  "route_errors routed run =
     run\<lparr>run_activations := map (\<lambda>a. case obj_get (rev routed) (act_key a) of
           None \<Rightarrow> a
         | Some k \<Rightarrow> a\<lparr>act_outputs := obj_set GRAPH_ERROR_PORT k (act_outputs a)\<rparr>) (run_activations run)\<rparr>"

record loop_pass =
  lp_done :: "string list"
  lp_needs :: "string list"
  lp_iterations :: "(string \<times> int) list"
  lp_advanced :: nat

fun pass_loops :: "run_view \<Rightarrow> plan_loop list \<Rightarrow> loop_pass \<Rightarrow> loop_pass option" where
  "pass_loops v [] s = Some s"
| "pass_loops v (l # ls) s =
     do {
       st \<leftarrow> graphLoopState v l;
       pass_loops v ls
         (case st of
            LoopRunning \<Rightarrow> s
          | LoopDone r i \<Rightarrow> s\<lparr>lp_done := add_new (pl_id l) (lp_done s)\<rparr>
          | LoopNeeds ids \<Rightarrow> s\<lparr>lp_needs := fold add_new ids (lp_needs s)\<rparr>
          | LoopNext i \<Rightarrow> s\<lparr>lp_iterations := obj_set (pl_id l) i (lp_iterations s),
                           lp_advanced := lp_advanced s + 1\<rparr>)
     }"

fun append_created :: "activation list \<Rightarrow> planning \<Rightarrow> run_failure option \<times> planning" where
  "append_created [] p = (None, p)"
| "append_created (a # as) p =
     (case append_activation (gp_run p) a of
        Inl f \<Rightarrow> (Some f, p)
      | Inr run \<Rightarrow>
          append_created as (p\<lparr>gp_run := run, gp_created := gp_created p + 1,
            gp_skipped := gp_skipped p + (if act_state a = Skipped then 1 else 0)\<rparr>))"

definition request_map :: "artifact_request list \<Rightarrow> (string \<times> artifact_request) list" where
  "request_map rs = fold (\<lambda>r m. obj_set (aq_key r) r m) rs []"

text \<open>The ready set of a round, its fan-outs and its activations recorded; True to plan on.\<close>

definition plan_ready ::
  "type_library \<Rightarrow> run_view \<Rightarrow> string \<Rightarrow> loop_pass \<Rightarrow> planning \<Rightarrow> (bool \<times> planning) option" where
  "plan_ready lib v now lp p =
     do {
       st \<leftarrow> computeGraphReadySet lib v now (\<lambda>l. l \<in> set (lp_done lp));
       (let fans = get_or [] (run_fanOuts (gp_run p)) @ rs_fanOuts st;
            p = p\<lparr>gp_needValues := fold add_new (rs_needValues st) (gp_needValues p),
                  gp_needArtifacts := fold (\<lambda>(k, r) m. obj_set k r m) (vw_requests (rs_view st)) (gp_needArtifacts p),
                  gp_waiting := rs_waiting st, gp_doneLoops := lp_done lp,
                  gp_outcomes := vw_outcomes (rs_view st)\<rparr>
        in if rs_fanOuts st \<noteq> [] \<and> length fans > maxFanOuts
           then Some (False, with_failure (units (''A run records at most '' @ show_nat maxFanOuts
                  @ '' items fan-outs''), ''budget-exceeded'') p)
           else
             (let p = (if rs_fanOuts st = [] then p
                       else p\<lparr>gp_run := (gp_run p)\<lparr>run_fanOuts := Some fans\<rparr>,
                              gp_fanOuts := gp_fanOuts p + length (rs_fanOuts st)\<rparr>)
              in (case append_created (rs_created st) p of
                    (Some f, p) \<Rightarrow> Some (False, with_failure f p)
                  | (None, p) \<Rightarrow> Some (rs_created st \<noteq> [], p))))
     }"

definition plan_round ::
  "type_library \<Rightarrow> (string \<times> loaded_value) list \<Rightarrow> string \<Rightarrow> planning \<Rightarrow> (bool \<times> planning) option" where
  "plan_round lib loaded now p =
     (let run = gp_run p;
          v = new_view run loaded (gp_outcomes p);
          p = p\<lparr>gp_needValues := [], gp_needArtifacts := []\<rparr>
      in do {
        decided \<leftarrow> failurePolicy v now;
        (case decided of
           Inl f \<Rightarrow> Some (False, with_failure f p)
         | Inr d \<Rightarrow>
             if fd_retries d \<noteq> []
             then (case append_all (fd_retries d) run of
                     (Some f, run) \<Rightarrow> Some (False, with_failure f (p\<lparr>gp_run := run\<rparr>))
                   | (None, run) \<Rightarrow>
                       Some (True, p\<lparr>gp_run := run, gp_created := gp_created p + length (fd_retries d),
                                     gp_retried := gp_retried p + length (fd_retries d)\<rparr>))
             else if fd_routed d \<noteq> [] then Some (True, p\<lparr>gp_run := route_errors (fd_routed d) run\<rparr>)
             else
               do {
                 lp \<leftarrow> pass_loops v (plan_loops (run_plan run))
                   \<lparr>lp_done = [], lp_needs = [], lp_iterations = run_loopIterations run, lp_advanced = 0\<rparr>;
                 (let p = p\<lparr>gp_needArtifacts := request_map (fd_requests d), gp_needValues := lp_needs lp\<rparr>
                  in if lp_advanced lp > 0
                     then Some (True, p\<lparr>gp_run := run\<lparr>run_loopIterations := lp_iterations lp\<rparr>,
                                        gp_loopsAdvanced := gp_loopsAdvanced p + lp_advanced lp\<rparr>)
                     else plan_ready lib v now lp p)
               })
      })"

fun plan_rounds ::
  "nat \<Rightarrow> type_library \<Rightarrow> (string \<times> loaded_value) list \<Rightarrow> string \<Rightarrow> planning \<Rightarrow> planning option" where
  "plan_rounds 0 lib loaded now p = Some p"
| "plan_rounds (Suc n) lib loaded now p =
     do { (go, p) \<leftarrow> plan_round lib loaded now p;
          (if go then plan_rounds n lib loaded now p else Some p) }"

definition planning_start :: "graph_run \<Rightarrow> (string \<times> outcome) list \<Rightarrow> planning" where
  "planning_start run outcomes =
     \<lparr>gp_run = run, gp_created = 0, gp_skipped = 0, gp_retried = 0, gp_loopsAdvanced = 0, gp_fanOuts = 0,
      gp_needValues = [], gp_needArtifacts = [], gp_waiting = 0, gp_doneLoops = [], gp_failure = None,
      gp_outcomes = outcomes\<rparr>"

definition planGraphRun ::
  "type_library \<Rightarrow> graph_run \<Rightarrow> string \<Rightarrow> (string \<times> loaded_value) list \<Rightarrow> (string \<times> outcome) list
    \<Rightarrow> planning option" where
  "planGraphRun lib run now loaded outcomes =
     plan_rounds MAX_PLANNING_ROUNDS lib loaded now (planning_start run outcomes)"

section \<open>Surplus branches and missing outputs\<close>

definition slot_group :: "activation \<Rightarrow> string \<times> int" where
  "slot_group a = (act_nodeId a, act_iteration a)"

definition open_branches :: "run_view \<Rightarrow> activation list" where
  "open_branches v = filter (\<lambda>a. act_branchKey a \<noteq> None \<and> \<not> isGraphActivationTerminal (act_state a))
                       (latestActivations v)"

fun until_reads :: "plan_loop list \<Rightarrow> string \<Rightarrow> bool option" where
  "until_reads [] n = Some False"
| "until_reads (l # ls) n =
     (if list_ex (\<lambda>c. pf_node (lc_from c) = n) (pl_carry l) then Some True
      else do { paths \<leftarrow> graphPredicatePaths (pl_until l);
                (if list_ex (\<lambda>p. path_root p = n) paths then Some True else until_reads ls n) })"

definition count_live ::
  "run_view \<Rightarrow> plan_node \<Rightarrow> int \<Rightarrow> port_ref \<Rightarrow> string option list \<Rightarrow> nat" where
  "count_live v node i ref branches =
     length (filter (\<lambda>b. is_live (graphActivationDelivery (latestAt v (pn_id node) i b) (pf_port ref)
                                   (pf_outlet ref) (Some node))) branches)"

text \<open>Whether a fan-in collecting \<open>first\<close> has what it needs; any other reader is never satisfied.\<close>

definition reader_satisfied ::
  "run_view \<Rightarrow> plan_node \<Rightarrow> int \<Rightarrow> string option list \<Rightarrow> plan_edge \<Rightarrow> bool option" where
  "reader_satisfied v node i branches e =
     do {
       p \<leftarrow> view_inputPort v (fst (pe_to e)) (snd (pe_to e));
       (let policy = graphCollectPolicy p
        in if pe_zip e \<or> \<not> pe_fanIn e \<or> cp_wait policy \<noteq> FirstFinished then Some False
           else (case pe_from e of
                   FromRunInput _ \<Rightarrow> Some False
                 | FromNode ref \<Rightarrow>
                     Some (int (count_live v node i ref branches) \<ge> collect_target policy (length branches))))
     }"

fun all_satisfied ::
  "run_view \<Rightarrow> plan_node \<Rightarrow> int \<Rightarrow> string option list \<Rightarrow> plan_edge list \<Rightarrow> bool option" where
  "all_satisfied v node i branches [] = Some True"
| "all_satisfied v node i branches (e # es) =
     do { ok \<leftarrow> reader_satisfied v node i branches e;
          (if ok then all_satisfied v node i branches es else Some False) }"

definition group_surplus :: "run_view \<Rightarrow> string \<times> int \<Rightarrow> bool option" where
  "group_surplus v g =
     do {
       node \<leftarrow> view_node v (fst g);
       branches \<leftarrow> branchKeysAt v node (snd g);
       (let readers = filter (\<lambda>e. from_node (pe_from e) (fst g)) (plan_edges (vw_plan v))
        in if readers = [] then Some False
           else if list_ex (\<lambda>out. pf_node (po_from out) = fst g) (plan_outputs (vw_plan v)) then Some False
           else do { reads \<leftarrow> until_reads (plan_loops (vw_plan v)) (fst g);
                     (if reads then Some False else all_satisfied v node (snd g) branches readers) })
     }"

fun surplus_groups :: "run_view \<Rightarrow> (string \<times> int) list \<Rightarrow> activation list option" where
  "surplus_groups v [] = Some []"
| "surplus_groups v (g # gs) =
     do { s \<leftarrow> group_surplus v g; rest \<leftarrow> surplus_groups v gs;
          Some ((if s then filter (\<lambda>a. slot_group a = g) (open_branches v) else []) @ rest) }"

definition graphSurplusBranches :: "graph_run \<Rightarrow> activation list option" where
  "graphSurplusBranches run =
     (let v = new_view run [] [] in surplus_groups v (remdups_first (map slot_group (open_branches v))))"

fun missing_outputs :: "run_view \<Rightarrow> plan_output list \<Rightarrow> string list option" where
  "missing_outputs v [] = Some []"
| "missing_outputs v (out # outs) =
     do {
       missing \<leftarrow> (if \<not> po_required out then Some False
                    else do { r \<leftarrow> resolveGraphEdgeSource v (FromNode (po_from out)) None None 1 None False (\<lambda>_. True);
                              Some (\<not> is_live r) });
       rest \<leftarrow> missing_outputs v outs;
       Some ((if missing then [po_name out] else []) @ rest)
     }"

definition missingGraphRunOutputs :: "graph_run \<Rightarrow> string list option" where
  "missingGraphRunOutputs run = missing_outputs (new_view run [] []) (plan_outputs (run_plan run))"

section \<open>Run status\<close>

record run_activity =
  ra_admitted :: nat
  ra_awaitingHuman :: nat
  ra_ready :: nat

definition graphRunActivity :: "graph_run \<Rightarrow> run_activity" where
  "graphRunActivity run =
     fold (\<lambda>a x. x\<lparr>ra_admitted := ra_admitted x + (if isGraphActivationAdmitted (act_state a) then 1 else 0),
                   ra_awaitingHuman := ra_awaitingHuman x + (if act_state a = AwaitingHuman then 1 else 0),
                   ra_ready := ra_ready x + (if act_state a = Ready then 1 else 0)\<rparr>)
       (run_activations run) \<lparr>ra_admitted = 0, ra_awaitingHuman = 0, ra_ready = 0\<rparr>"

definition graphRunSettled :: "graph_run \<Rightarrow> planning \<Rightarrow> bool" where
  "graphRunSettled run p \<longleftrightarrow>
     gp_waiting p = 0 \<and> gp_needValues p = [] \<and> gp_needArtifacts p = []
     \<and> list_all (\<lambda>a. isGraphActivationTerminal (act_state a)) (run_activations run)"

end
