(* ===== verification/Planning.thy ===== *)
theory Planning
  imports Scheduling
begin

text \<open>
  What planning does to a run record (\<^verbatim>\<open>planGraphRun\<close> of
  \<^verbatim>\<open>apps/backend/src/core/graph-run-scheduling.ts\<close>): it only appends activations and routes errors of
  failed ones, it keeps the record within its bounds, and it ends by itself within its round limit.
\<close>

section \<open>What a round may do to the activations\<close>

text \<open>An activation as planning creates it.\<close>

definition planned :: "activation \<Rightarrow> bool" where
  "planned a \<longleftrightarrow> act_state a \<in> {Ready, Skipped, Failed}
     \<and> graphActivationKey (activation_parts (act_nodeId a) (act_iteration a) (act_branchKey a) (act_attempt a))
         = Inr (act_key a)
     \<and> act_session a = None \<and> act_startedAt a = None \<and> act_supersededBy a = None"

text \<open>A failed activation without an error output may get one; nothing else of it changes.\<close>

definition routed_from :: "activation \<Rightarrow> activation \<Rightarrow> bool" where
  "routed_from a b \<longleftrightarrow> b = a \<or> act_state a = Failed \<and> obj_get (act_outputs a) GRAPH_ERROR_PORT = None
     \<and> (\<exists>k. b = a\<lparr>act_outputs := obj_set GRAPH_ERROR_PORT k (act_outputs a)\<rparr>)"

lemma routed_from_refl [simp]: "routed_from a a"
  by (simp add: routed_from_def)

lemma routed_from_trans: "routed_from a b \<Longrightarrow> routed_from b c \<Longrightarrow> routed_from a c"
  by (auto simp: routed_from_def)

lemma routed_from_same:
  "routed_from a b \<Longrightarrow> act_key b = act_key a \<and> act_state b = act_state a \<and> act_supersededBy b = act_supersededBy a"
  by (auto simp: routed_from_def)

lemma routed_from_planned: "routed_from a b \<Longrightarrow> planned a \<Longrightarrow> planned b"
  by (auto simp: routed_from_def planned_def)

text \<open>The run a round leaves: the activations before, some of them routed, then planned ones.\<close>

definition plans :: "graph_run \<Rightarrow> graph_run \<Rightarrow> bool" where
  "plans run r \<longleftrightarrow>
     (\<exists>kept new. run_activations r = kept @ new \<and> list_all2 routed_from (run_activations run) kept
        \<and> list_all planned new)
     \<and> r = run\<lparr>run_activations := run_activations r, run_loopIterations := run_loopIterations r,
               run_fanOuts := run_fanOuts r\<rparr>"

lemma plansI:
  "run_activations r = kept @ new \<Longrightarrow> list_all2 routed_from (run_activations run) kept \<Longrightarrow> list_all planned new \<Longrightarrow>
     r = run\<lparr>run_activations := run_activations r, run_loopIterations := run_loopIterations r,
             run_fanOuts := run_fanOuts r\<rparr> \<Longrightarrow> plans run r"
  unfolding plans_def by blast

lemma routed_from_list [simp]: "list_all2 routed_from as as"
  by (simp add: list.rel_refl)

lemma plans_refl: "plans run run"
  by (rule plansI [of _ "run_activations run" "[]"]) simp_all

lemma plans_trans:
  assumes "plans p q" and "plans q r"
  shows "plans p r"
proof -
  obtain kept new where pq: "run_activations q = kept @ new"
      "list_all2 routed_from (run_activations p) kept" "list_all planned new"
    and eq: "q = p\<lparr>run_activations := run_activations q, run_loopIterations := run_loopIterations q, run_fanOuts := run_fanOuts q\<rparr>"
    using assms(1) by (auto simp: plans_def)
  obtain kept' new' where qr: "run_activations r = kept' @ new'"
      "list_all2 routed_from (kept @ new) kept'" "list_all planned new'"
    and er: "r = q\<lparr>run_activations := run_activations r, run_loopIterations := run_loopIterations r, run_fanOuts := run_fanOuts r\<rparr>"
    using assms(2) by (auto simp: plans_def pq(1))
  obtain us vs where split: "kept' = us @ vs" "list_all2 routed_from kept us" "list_all2 routed_from new vs"
    using qr(2) by (auto simp: list_all2_append1)
  have "list_all planned vs"
    using split(3) pq(3) by (induction rule: list_all2_induct) (auto intro: routed_from_planned)
  moreover have "list_all2 routed_from (run_activations p) us"
    by (rule list_all2_trans [OF _ pq(2) split(2)]) (rule routed_from_trans)
  ultimately have acts: "\<exists>kept new. run_activations r = kept @ new
      \<and> list_all2 routed_from (run_activations p) kept \<and> list_all planned new"
    using qr(1,3) split(1) by (intro exI [of _ us] exI [of _ "vs @ new'"]) simp
  have "r = p\<lparr>run_activations := run_activations r, run_loopIterations := run_loopIterations r, run_fanOuts := run_fanOuts r\<rparr>"
    by (subst er, subst eq) simp
  with acts show ?thesis unfolding plans_def by blast
qed

lemma plans_others: "plans run (run\<lparr>run_loopIterations := its\<rparr>)" "plans run (run\<lparr>run_fanOuts := fs\<rparr>)"
  by (rule plansI [of _ "run_activations run" "[]"]; simp)+

lemma plans_frame:
  assumes "plans run r"
  shows "run_plan r = run_plan run" "run_rewinds r = run_rewinds run" "run_error r = run_error run"
proof -
  have eq: "r = run\<lparr>run_activations := run_activations r, run_loopIterations := run_loopIterations r,
      run_fanOuts := run_fanOuts r\<rparr>" using assms by (simp add: plans_def)
  show "run_plan r = run_plan run" "run_rewinds r = run_rewinds run" "run_error r = run_error run"
    by (subst eq, simp)+
qed

section \<open>Appending\<close>

lemma append_activation_Inr:
  "append_activation run a = Inr r \<Longrightarrow> r = run\<lparr>run_activations := run_activations run @ [a]\<rparr>
     \<and> act_key a \<notin> act_key ` set (run_activations run)
     \<and> length (run_activations run) < maxActivationHistory
     \<and> (act_state a \<noteq> Superseded \<longrightarrow> length (liveGraphActivations run) < maxActivations)"
  by (auto simp: append_activation_def appendGraphActivation_def graphRunActivation_None split: if_splits)

lemma plans_append: "append_activation run a = Inr r \<Longrightarrow> planned a \<Longrightarrow> plans run r"
  by (drule append_activation_Inr) (rule plansI [of _ "run_activations run" "[a]"]; simp)

lemma plans_append_all:
  "list_all planned as \<Longrightarrow> plans run (snd (append_all as run))"
proof (induction as arbitrary: run)
  case (Cons a as)
  show ?case
  proof (cases "append_activation run a")
    case (Inr r)
    have "plans run r" using plans_append [OF Inr] Cons.prems by simp
    moreover have "plans r (snd (append_all as r))" using Cons.IH Cons.prems by simp
    ultimately show ?thesis using Inr plans_trans by simp
  qed (simp add: plans_refl)
qed (simp add: plans_refl)

text \<open>The created activations are appended the same way, with their counts.\<close>

lemma append_created_run:
  "gp_run (snd (append_created as p)) = snd (append_all as (gp_run p))"
  "fst (append_created as p) = fst (append_all as (gp_run p))"
  by (induction as arbitrary: p) (simp_all split: sum.split)

section \<open>The ready set creates planned activations\<close>

lemma key_or_throw_Some: "key_or_throw p = Some k \<longleftrightarrow> graphActivationKey p = Inr k"
  by (simp add: key_or_throw_def split: sum.split)

lemma blank_activation_planned:
  "graphActivationKey p = Inr k \<Longrightarrow> s \<in> {Ready, Skipped, Failed} \<Longrightarrow> planned (blank_activation k p s inputs now)"
  by (cases p) (auto simp: planned_def blank_activation_def activation_parts_def)

lemma position_activation_planned:
  "position_activation v n i b s inputs now f = Some a \<Longrightarrow> s \<in> {Ready, Skipped, Failed} \<Longrightarrow> planned a"
  by (auto simp: position_activation_def Let_def bind_eq_Some_conv key_or_throw_Some planned_def blank_activation_def
      activation_parts_def)

lemma when_case_Some:
  "(case d of WhenMissing ids \<Rightarrow> m ids | WhenDecided b \<Rightarrow> (case b of True \<Rightarrow> t | False \<Rightarrow> f)) = Some x \<longleftrightarrow>
     (\<exists>ids. d = WhenMissing ids \<and> m ids = Some x) \<or> d = WhenDecided True \<and> t = Some x
       \<or> d = WhenDecided False \<and> f = Some x"
  by (auto split: when_decision.split bool.split)

lemma expansion_case_Some:
  "(case e of ExpandPending ids \<Rightarrow> m ids | ExpandFailed t c \<Rightarrow> f t c | Expanded fo \<Rightarrow> g fo) = Some x \<longleftrightarrow>
     (\<exists>ids. e = ExpandPending ids \<and> m ids = Some x) \<or> (\<exists>t c. e = ExpandFailed t c \<and> f t c = Some x)
       \<or> (\<exists>fo. e = Expanded fo \<and> g fo = Some x)"
  by (cases e) auto

definition created_ok :: "ready_state \<Rightarrow> bool" where
  "created_ok st \<longleftrightarrow> list_all planned (rs_created st)"

lemma created_ok_simps [simp]:
  "created_ok (st\<lparr>rs_view := v\<rparr>) = created_ok st" "created_ok (st\<lparr>rs_waiting := w\<rparr>) = created_ok st"
  "created_ok (st\<lparr>rs_fanOuts := fs\<rparr>) = created_ok st" "created_ok (need_and_wait ids st) = created_ok st"
  "created_ok (record_activation a r st) \<longleftrightarrow> created_ok st \<and> planned a"
  by (auto simp: created_ok_def need_and_wait_def record_activation_def)

lemma settle_position_ok:
  "settle_position node i now s inputs f r st = Some st' \<Longrightarrow> s \<in> {Skipped, Failed} \<Longrightarrow> created_ok st \<Longrightarrow> created_ok st'"
  by (auto simp: settle_position_def bind_eq_Some_conv intro: position_activation_planned)

lemma create_branch_ok:
  assumes "create_branch lib now fin n i ax b st = Some st'" and "created_ok st"
  shows "created_ok st'"
  using assms
  by (auto simp: create_branch_def Let_def bind_eq_Some_conv when_case_Some split: if_splits dest: position_activation_planned)

lemma create_branches_ok:
  "create_branches lib now fin n i ax bs st = Some st' \<Longrightarrow> created_ok st \<Longrightarrow> created_ok st'"
  by (induction bs arbitrary: st) (auto simp: bind_eq_Some_conv dest: create_branch_ok)

lemma expand_position_ok:
  assumes "expand_position lib now fin n i ax st = Some (go, st')" and "created_ok st"
  shows "created_ok st'"
  using assms
  by (auto simp: expand_position_def Let_def bind_eq_Some_conv when_case_Some expansion_case_Some
      split: if_splits dest: settle_position_ok)

lemma ready_node_ok:
  "ready_node lib now fin n st = Some st' \<Longrightarrow> created_ok st \<Longrightarrow> created_ok st'"
  by (auto simp: ready_node_def Let_def bind_eq_Some_conv split: option.splits if_splits
      dest: expand_position_ok create_branches_ok)

lemma ready_nodes_ok:
  "ready_nodes lib now fin ns st = Some st' \<Longrightarrow> created_ok st \<Longrightarrow> created_ok st'"
  by (induction ns arbitrary: st) (auto simp: bind_eq_Some_conv dest: ready_node_ok)

lemma ready_set_planned:
  assumes "computeGraphReadySet lib v now fin = Some st"
  shows "list_all planned (rs_created st)"
proof -
  obtain st0 where "ready_nodes lib now fin (plan_nodes (vw_plan v))
      \<lparr>rs_view = v, rs_created = [], rs_fanOuts = [], rs_skipReasons = [], rs_needValues = [], rs_waiting = 0\<rparr> = Some st0"
    and "rs_created st = rs_created st0"
    using assms by (auto simp: computeGraphReadySet_def bind_eq_Some_conv)
  then show ?thesis using ready_nodes_ok by (fastforce simp: created_ok_def)
qed

section \<open>Counts and keys\<close>

text \<open>What every consumer of the record relies on: keys name one activation, the counts are bounded and
  a superseded activation says which rewind superseded it.\<close>

definition record_shape :: "graph_run \<Rightarrow> bool" where
  "record_shape run \<longleftrightarrow> distinct (map act_key (run_activations run))
     \<and> length (run_activations run) \<le> maxActivationHistory
     \<and> length (liveGraphActivations run) \<le> maxActivations
     \<and> (\<forall>a\<in>set (run_activations run). (act_state a = Superseded \<longleftrightarrow> act_supersededBy a \<noteq> None)
          \<and> set_option (act_supersededBy a) \<subseteq> rewind_ids run)"

lemma run_inv_shape: "run_inv run \<Longrightarrow> record_shape run"
  by (auto simp: run_inv_def record_shape_def activation_ok_def)

lemma record_shape_cong:
  "run_activations r = run_activations s \<Longrightarrow> run_rewinds r = run_rewinds s \<Longrightarrow> record_shape r = record_shape s"
  by (simp add: record_shape_def liveGraphActivations_def rewind_ids_def)

lemma shape_append:
  "append_activation run a = Inr r \<Longrightarrow> planned a \<Longrightarrow> record_shape run \<Longrightarrow> record_shape r"
  by (drule append_activation_Inr) (auto simp: record_shape_def liveGraphActivations_def rewind_ids_def planned_def)

lemma shape_append_all: "list_all planned as \<Longrightarrow> record_shape run \<Longrightarrow> record_shape (snd (append_all as run))"
  by (induction as arbitrary: run) (auto split: sum.split intro: shape_append)

definition live_count :: "graph_run \<Rightarrow> nat" where
  "live_count run = length (liveGraphActivations run)"

definition unrouted :: "graph_run \<Rightarrow> nat" where
  "unrouted run = length (filter (\<lambda>a. act_state a = Failed \<and> obj_get (act_outputs a) GRAPH_ERROR_PORT = None)
     (run_activations run))"

lemma unrouted_le_live: "unrouted run \<le> live_count run"
proof -
  have "length (filter (\<lambda>a. act_state a = Failed \<and> P a) as) \<le> length (filter (\<lambda>a. act_state a \<noteq> Superseded) as)"
    for P and as :: "activation list"
    by (induction as) auto
  then show ?thesis by (simp add: unrouted_def live_count_def liveGraphActivations_def)
qed

lemma append_activation_counts:
  assumes "append_activation run a = Inr r" and "planned a"
  shows "live_count r = live_count run + 1" "live_count run < maxActivations" "unrouted r \<le> unrouted run + 1"
  using append_activation_Inr [OF assms(1)] assms(2)
  by (auto simp: live_count_def unrouted_def liveGraphActivations_def planned_def)

text \<open>Appending at least one activation, none of them refused, leaves less to append.\<close>

lemma append_all_counts:
  assumes "append_all as run = (None, r)" and "list_all planned as"
  shows "live_count r = live_count run + length as" "as \<noteq> [] \<Longrightarrow> live_count r \<le> maxActivations"
    "unrouted r \<le> unrouted run + length as" "run_plan r = run_plan run"
    "run_loopIterations r = run_loopIterations run"
proof -
  have "live_count r = live_count run + length as \<and> (as \<noteq> [] \<longrightarrow> live_count r \<le> maxActivations)
      \<and> unrouted r \<le> unrouted run + length as \<and> run_plan r = run_plan run
      \<and> run_loopIterations r = run_loopIterations run"
    using assms
  proof (induction as arbitrary: run)
    case (Cons a as)
    then obtain q where q: "append_activation run a = Inr q" "append_all as q = (None, r)" by (auto split: sum.splits)
    have "planned a" "list_all planned as" using Cons.prems(2) by simp_all
    then show ?case
      using Cons.IH [OF q(2)] append_activation_counts [OF q(1)] append_activation_Inr [OF q(1)] q(2)
      by (cases "as = []") auto
  qed simp
  then show "live_count r = live_count run + length as" "as \<noteq> [] \<Longrightarrow> live_count r \<le> maxActivations"
    "unrouted r \<le> unrouted run + length as" "run_plan r = run_plan run"
    "run_loopIterations r = run_loopIterations run" by blast+
qed

section \<open>Routed errors\<close>

lemma values_obj_set: "x \<in> snd ` set (obj_set k v ps) \<Longrightarrow> x = v \<or> x \<in> snd ` set ps"
  by (induction k v ps rule: obj_set.induct) (auto split: if_splits)

lemma index_activation_latest:
  assumes "x \<in> snd ` set (vw_latest (index_activation a v))"
  shows "x = a \<and> act_state a \<noteq> Superseded \<or> x \<in> snd ` set (vw_latest v)"
  using assms values_obj_set [of x "act_slot a" a "vw_latest v"]
  by (auto simp: index_activation_def Let_def split: option.splits if_splits)

lemma fold_index_latest:
  "x \<in> snd ` set (vw_latest (fold index_activation as v)) \<Longrightarrow>
     x \<in> set as \<and> act_state x \<noteq> Superseded \<or> x \<in> snd ` set (vw_latest v)"
proof (induction as arbitrary: v)
  case (Cons a as)
  then have "x \<in> set as \<and> act_state x \<noteq> Superseded \<or> x \<in> snd ` set (vw_latest (index_activation a v))" by simp
  then show ?case using index_activation_latest [of x a v] by auto
qed simp

lemma fold_fans_view:
  "vw_latest (fold (\<lambda>f v. if fo_supersededBy f = None then addFanOut f v else v) fs v) = vw_latest v"
  "vw_run (fold (\<lambda>f v. if fo_supersededBy f = None then addFanOut f v else v) fs v) = vw_run v"
  by (induction fs arbitrary: v) (simp_all add: addFanOut_def)

lemma index_activation_run: "vw_run (index_activation a v) = vw_run v"
  by (auto simp: index_activation_def Let_def split: option.split)

lemma fold_index_run: "vw_run (fold index_activation as v) = vw_run v"
  by (induction as arbitrary: v) (simp_all add: index_activation_run)

lemma new_view_run [simp]: "vw_run (new_view run loaded outcomes) = run"
  by (simp add: new_view_def fold_fans_view fold_index_run)

lemma latest_live:
  "set (latestActivations (new_view run loaded outcomes)) \<subseteq> {a \<in> set (run_activations run). act_state a \<noteq> Superseded}"
proof -
  have "vw_latest (new_view run loaded outcomes) = vw_latest (fold index_activation (run_activations run)
      \<lparr>vw_run = run, vw_values = loaded, vw_outcomes = outcomes, vw_fanOuts = [], vw_latest = [],
       vw_liveCount = [], vw_maxAttempt = [], vw_requests = [], vw_missing = []\<rparr>)"
    by (simp add: new_view_def fold_fans_view)
  then show ?thesis using fold_index_latest by (fastforce simp: latestActivations_def)
qed

lemma retry_planned: "retryActivation v a now = Some r \<Longrightarrow> planned r"
  by (auto simp: retryActivation_def Let_def bind_eq_Some_conv key_or_throw_Some intro!: blank_activation_planned)

text \<open>The decisions name activations that failed and have no error output yet.\<close>

definition decisions_ok :: "activation set \<Rightarrow> failure_decisions \<Rightarrow> bool" where
  "decisions_ok A d \<longleftrightarrow> list_all planned (fd_retries d)
     \<and> (\<forall>(k, i)\<in>set (fd_routed d). \<exists>a\<in>A. act_key a = k \<and> act_state a = Failed
          \<and> obj_get (act_outputs a) GRAPH_ERROR_PORT = None)"

lemma decide_failed_ok:
  assumes "decide_failed v now n a d = Some (Inr d')" and "a \<in> A" and "act_state a = Failed" and "decisions_ok A d"
  shows "decisions_ok A d'"
  using assms
  by (auto simp: decide_failed_def decisions_ok_def bind_eq_Some_conv split: if_splits option.splits outcome.splits list.splits
      dest: retry_planned)

lemma sum_case_Some:
  "(case r of Inl f \<Rightarrow> Some (Inl f) | Inr d \<Rightarrow> g d) = Some (Inr x) \<longleftrightarrow> (\<exists>d. r = Inr d \<and> g d = Some (Inr x))"
  by (cases r) auto

lemma decide_failures_ok:
  "decide_failures v now as d = Some (Inr d') \<Longrightarrow> set as \<subseteq> A \<Longrightarrow> decisions_ok A d \<Longrightarrow> decisions_ok A d'"
proof (induction as arbitrary: d)
  case (Cons a as)
  show ?case
  proof (cases "act_state a = Failed")
    case True
    then obtain n r where nr: "decide_failed v now n a d = Some (Inr r)" "decide_failures v now as r = Some (Inr d')"
      using Cons.prems(1) by (auto simp: bind_eq_Some_conv sum_case_Some)
    show ?thesis using Cons.IH [OF nr(2)] decide_failed_ok [OF nr(1) _ True Cons.prems(3)] Cons.prems(2) by simp
  qed (use Cons in simp)
qed simp

lemma failure_policy_ok:
  assumes "failurePolicy (new_view run loaded outcomes) now = Some (Inr d)"
  shows "decisions_ok (set (run_activations run)) d"
proof (rule decide_failures_ok [OF assms [unfolded failurePolicy_def]])
  show "set (latestActivations (new_view run loaded outcomes)) \<subseteq> set (run_activations run)"
    using latest_live by blast
qed (simp add: decisions_ok_def)

definition routes :: "(string \<times> string) list \<Rightarrow> activation \<Rightarrow> activation" where
  "routes routed a = (case obj_get (rev routed) (act_key a) of
     None \<Rightarrow> a | Some k \<Rightarrow> a\<lparr>act_outputs := obj_set GRAPH_ERROR_PORT k (act_outputs a)\<rparr>)"

lemma route_errors_routes: "route_errors routed run = run\<lparr>run_activations := map (routes routed) (run_activations run)\<rparr>"
  by (simp add: route_errors_def routes_def [abs_def])

lemma routes_same [simp]:
  "act_key (routes routed a) = act_key a" "act_state (routes routed a) = act_state a"
  "act_supersededBy (routes routed a) = act_supersededBy a"
  by (auto simp: routes_def split: option.split)

lemma routes_from:
  assumes "decisions_ok (set (run_activations run)) d" and "distinct (map act_key (run_activations run))"
    and "a \<in> set (run_activations run)"
  shows "routed_from a (routes (fd_routed d) a)"
proof (cases "obj_get (rev (fd_routed d)) (act_key a)")
  case (Some i)
  then have "(act_key a, i) \<in> set (fd_routed d)" by (auto simp: obj_get_def dest: map_of_SomeD)
  then obtain b where b: "b \<in> set (run_activations run)" "act_key b = act_key a" "act_state b = Failed"
      "obj_get (act_outputs b) GRAPH_ERROR_PORT = None"
    using assms(1) by (fastforce simp: decisions_ok_def)
  then have "b = a" using assms(2,3) by (auto simp: distinct_map inj_on_def)
  then show ?thesis using b Some by (auto simp: routes_def routed_from_def)
qed (simp add: routes_def)

lemma plans_route_errors:
  assumes "decisions_ok (set (run_activations run)) d" and "distinct (map act_key (run_activations run))"
  shows "plans run (route_errors (fd_routed d) run)"
proof (rule plansI [of _ "map (routes (fd_routed d)) (run_activations run)" "[]"])
  show "list_all2 routed_from (run_activations run) (map (routes (fd_routed d)) (run_activations run))"
    using routes_from [OF assms] by (simp add: list_all2_map2 list.rel_refl_strong)
qed (simp_all add: route_errors_routes)

lemma shape_route_errors: "record_shape run \<Longrightarrow> record_shape (route_errors routed run)"
  by (auto simp: record_shape_def route_errors_routes liveGraphActivations_def rewind_ids_def filter_map o_def)

lemma filter_fewer:
  assumes "\<And>x. Q x \<Longrightarrow> P x" and "a \<in> set as" and "P a" and "\<not> Q a"
  shows "length (filter Q as) < length (filter P as)"
proof -
  have "filter Q as = filter Q (filter P as)" using assms(1) by (auto intro: filter_cong)
  also have "length \<dots> < length (filter P as)" using assms(2-4) by (intro length_filter_less [of a]) simp_all
  finally show ?thesis .
qed

text \<open>Routing at least one error leaves fewer failed activations without an error output.\<close>

lemma route_errors_fewer:
  assumes "decisions_ok (set (run_activations run)) d" and "distinct (map act_key (run_activations run))"
    and "fd_routed d \<noteq> []"
  shows "unrouted (route_errors (fd_routed d) run) < unrouted run"
    "live_count (route_errors (fd_routed d) run) = live_count run"
proof -
  let ?open = "\<lambda>a. act_state a = Failed \<and> obj_get (act_outputs a) GRAPH_ERROR_PORT = None"
  let ?r = "routes (fd_routed d)"
  have sub: "?open a" if "?open (?r a)" for a
    using that by (auto simp: routes_def split: option.splits if_splits)
  obtain k i where ki: "(k, i) \<in> set (fd_routed d)" using assms(3) by (cases "fd_routed d") auto
  then obtain a where a: "a \<in> set (run_activations run)" "act_key a = k" "?open a"
    using assms(1) by (fastforce simp: decisions_ok_def)
  have "obj_get (rev (fd_routed d)) (act_key a) \<noteq> None" using ki a(2)
    unfolding obj_get_None_iff by (metis fst_conv imageI set_rev)
  then have na: "\<not> ?open (?r a)" by (auto simp: routes_def)
  have "length (filter (\<lambda>a. ?open (?r a)) (run_activations run)) < length (filter ?open (run_activations run))"
    by (rule filter_fewer [where P = ?open and Q = "\<lambda>a. ?open (?r a)"]) (use sub a(1,3) na in blast)+
  then show "unrouted (route_errors (fd_routed d) run) < unrouted run"
    by (simp add: unrouted_def route_errors_routes filter_map o_def)
  show "live_count (route_errors (fd_routed d) run) = live_count run"
    by (simp add: live_count_def liveGraphActivations_def route_errors_routes filter_map o_def)
qed

section \<open>Loops\<close>

definition loop_at :: "graph_run \<Rightarrow> string \<Rightarrow> int" where
  "loop_at run l = get_or 1 (obj_get (run_loopIterations run) l)"

definition loops_left :: "graph_run \<Rightarrow> nat" where
  "loops_left run = sum_list (map (\<lambda>l. nat (pl_maxIterations l - loop_at run (pl_id l))) (plan_loops (run_plan run)))"

lemma loop_next:
  assumes "graphLoopState v l = Some (LoopNext i)"
  shows "i = loop_at (vw_run v) (pl_id l) + 1 \<and> loop_at (vw_run v) (pl_id l) < pl_maxIterations l"
  using assms
  by (auto simp: graphLoopState_def Let_def bind_eq_Some_conv loop_at_def view_iteration_def
      split: if_splits option.splits bool.splits)

text \<open>A pass over the loops starts the next iteration of some of them, and of nothing else.\<close>

definition pass_at :: "loop_pass \<Rightarrow> string \<Rightarrow> int" where
  "pass_at s l = get_or 1 (obj_get (lp_iterations s) l)"

definition pass_ok :: "graph_run \<Rightarrow> plan_loop set \<Rightarrow> loop_pass \<Rightarrow> bool" where
  "pass_ok run L s \<longleftrightarrow> (\<forall>i. pass_at s i = loop_at run i \<or> pass_at s i = loop_at run i + 1)
     \<and> (lp_advanced s > 0 \<longrightarrow> (\<exists>l\<in>L. loop_at run (pl_id l) < pl_maxIterations l
           \<and> pass_at s (pl_id l) = loop_at run (pl_id l) + 1))"

lemma pass_ok_advance:
  assumes "pass_ok run L s" and "l \<in> L" and "loop_at run (pl_id l) < pl_maxIterations l"
  shows "pass_ok run L (s\<lparr>lp_iterations := obj_set (pl_id l) (loop_at run (pl_id l) + 1) (lp_iterations s),
    lp_advanced := Suc (lp_advanced s)\<rparr>)"
proof -
  let ?s = "s\<lparr>lp_iterations := obj_set (pl_id l) (loop_at run (pl_id l) + 1) (lp_iterations s),
    lp_advanced := Suc (lp_advanced s)\<rparr>"
  have at: "pass_at ?s i = (if i = pl_id l then loop_at run (pl_id l) + 1 else pass_at s i)" for i
    by (simp add: pass_at_def get_or_def)
  show ?thesis unfolding pass_ok_def at using assms by (auto simp: pass_ok_def)
qed

lemma pass_ok_other [simp]:
  "pass_ok run L (s\<lparr>lp_done := x\<rparr>) = pass_ok run L s" "pass_ok run L (s\<lparr>lp_needs := y\<rparr>) = pass_ok run L s"
  by (simp_all add: pass_ok_def pass_at_def)

lemma pass_loops_ok:
  "pass_loops v ls s = Some s' \<Longrightarrow> set ls \<subseteq> L \<Longrightarrow> pass_ok (vw_run v) L s \<Longrightarrow> pass_ok (vw_run v) L s'"
proof (induction ls arbitrary: s)
  case (Cons l ls)
  from Cons.prems(1) obtain st where st: "graphLoopState v l = Some st"
    and rest: "pass_loops v ls (case st of LoopRunning \<Rightarrow> s
          | LoopDone r i \<Rightarrow> s\<lparr>lp_done := add_new (pl_id l) (lp_done s)\<rparr>
          | LoopNeeds ids \<Rightarrow> s\<lparr>lp_needs := fold add_new ids (lp_needs s)\<rparr>
          | LoopNext i \<Rightarrow> s\<lparr>lp_iterations := obj_set (pl_id l) i (lp_iterations s),
                           lp_advanced := lp_advanced s + 1\<rparr>) = Some s'"
    by (auto simp: bind_eq_Some_conv)
  show ?case
    by (rule Cons.IH [OF rest])
      (use Cons.prems(2,3) st in \<open>auto split: loop_state.split dest!: loop_next intro!: pass_ok_advance\<close>)
qed simp

lemma sum_list_less:
  "(\<And>x. x \<in> set xs \<Longrightarrow> (f x :: nat) \<le> g x) \<Longrightarrow> y \<in> set xs \<Longrightarrow> f y < g y \<Longrightarrow> sum_list (map f xs) < sum_list (map g xs)"
proof (induction xs)
  case (Cons x xs)
  have "sum_list (map f xs) \<le> sum_list (map g xs)" using Cons.prems(1) by (intro sum_list_mono) simp
  moreover have "f x \<le> g x" using Cons.prems(1) by simp
  ultimately show ?case using Cons by (cases "y = x") (auto simp: add_le_less_mono add_less_le_mono)
qed simp

lemma loops_left_less:
  assumes "pass_ok run (set (plan_loops (run_plan run))) s" and "lp_advanced s > 0"
  shows "loops_left (run\<lparr>run_loopIterations := lp_iterations s\<rparr>) < loops_left run"
proof -
  have at: "loop_at (run\<lparr>run_loopIterations := lp_iterations s\<rparr>) i = pass_at s i" for i
    by (simp add: loop_at_def pass_at_def)
  obtain l where l: "l \<in> set (plan_loops (run_plan run))" "loop_at run (pl_id l) < pl_maxIterations l"
      "pass_at s (pl_id l) = loop_at run (pl_id l) + 1"
    using assms by (auto simp: pass_ok_def)
  have grow: "loop_at run i \<le> pass_at s i" for i
    using assms(1) unfolding pass_ok_def by (metis order_refl zle_add1_eq_le zless_add1_eq)
  show ?thesis
    unfolding loops_left_def at
    by (simp, rule sum_list_less [OF _ l(1)]) (use l grow in \<open>auto intro: nat_mono diff_left_mono\<close>)
qed

section \<open>Rounds\<close>

lemma append_all_cases:
  obtains f where "append_all as run = (Some f, snd (append_all as run))"
  | "append_all as run = (None, snd (append_all as run))"
  by (metis option.exhaust prod.collapse)

lemma plan_ready_run:
  assumes "plan_ready lib v now lp p = Some (go, p')"
  obtains as fs where "gp_run p' = snd (append_all as ((gp_run p)\<lparr>run_fanOuts := fs\<rparr>))"
    and "list_all planned as" and "go \<Longrightarrow> as \<noteq> [] \<and> fst (append_all as ((gp_run p)\<lparr>run_fanOuts := fs\<rparr>)) = None"
proof -
  obtain st where st: "computeGraphReadySet lib v now (\<lambda>l. l \<in> set (lp_done lp)) = Some st"
    using assms by (auto simp: plan_ready_def bind_eq_Some_conv)
  have pl: "list_all planned (rs_created st)" by (rule ready_set_planned [OF st])
  let ?fans = "get_or [] (run_fanOuts (gp_run p)) @ rs_fanOuts st"
  let ?p = "p\<lparr>gp_needValues := fold add_new (rs_needValues st) (gp_needValues p),
      gp_needArtifacts := fold (\<lambda>(k, r) m. obj_set k r m) (vw_requests (rs_view st)) (gp_needArtifacts p),
      gp_waiting := rs_waiting st, gp_doneLoops := lp_done lp, gp_outcomes := vw_outcomes (rs_view st)\<rparr>"
  let ?q = "if rs_fanOuts st = [] then ?p
      else ?p\<lparr>gp_run := (gp_run ?p)\<lparr>run_fanOuts := Some ?fans\<rparr>, gp_fanOuts := gp_fanOuts ?p + length (rs_fanOuts st)\<rparr>"
  let ?f = "if rs_fanOuts st = [] then run_fanOuts (gp_run p) else Some ?fans"
  have q: "gp_run ?q = (gp_run p)\<lparr>run_fanOuts := ?f\<rparr>" by simp
  show thesis
  proof (cases "rs_fanOuts st \<noteq> [] \<and> length ?fans > maxFanOuts")
    case True
    then have "\<not> go" "gp_run p' = gp_run p"
      using assms st by (auto simp: plan_ready_def Let_def with_failure_def)
    then show thesis using that [of "[]" "run_fanOuts (gp_run p)"] by simp
  next
    case False
    then have "(case append_created (rs_created st) ?q of (Some f, p) \<Rightarrow> Some (False, with_failure f p)
        | (None, p) \<Rightarrow> Some (rs_created st \<noteq> [], p)) = Some (go, p')"
      using assms unfolding plan_ready_def Let_def by (simp only: st Option.bind_lunit if_not_P [OF False] if_False)
    then have "gp_run p' = gp_run (snd (append_created (rs_created st) ?q))"
      "go \<Longrightarrow> rs_created st \<noteq> [] \<and> fst (append_created (rs_created st) ?q) = None"
      by (auto simp: with_failure_def split: prod.splits option.splits)
    then show thesis
      using that [OF _ pl, of ?f] unfolding append_created_run q by blast
  qed
qed

definition planning_left :: "graph_run \<Rightarrow> nat" where
  "planning_left run = 2 * (maxActivations - live_count run) + unrouted run + loops_left run"

lemma loops_left_cong:
  "run_plan r = run_plan s \<Longrightarrow> run_loopIterations r = run_loopIterations s \<Longrightarrow> loops_left r = loops_left s"
  by (simp add: loops_left_def loop_at_def)

lemma planning_left_append:
  assumes "append_all as run = (None, r)" and "list_all planned as" and "as \<noteq> []"
  shows "planning_left r < planning_left run"
proof -
  have "length as > 0" using assms(3) by simp
  moreover have "loops_left r = loops_left run" using append_all_counts(4,5) [OF assms(1,2)] by (rule loops_left_cong)
  ultimately show ?thesis
    unfolding planning_left_def using append_all_counts(1-3) [OF assms(1,2)] assms(3) by linarith
qed

lemma planning_left_fans: "planning_left (run\<lparr>run_fanOuts := fs\<rparr>) = planning_left run"
  by (simp add: planning_left_def live_count_def unrouted_def liveGraphActivations_def loops_left_def loop_at_def)

text \<open>One round: it plans, keeps the shape, and when planning goes on there is less left to plan.\<close>

lemma plan_round_steps:
  assumes "plan_round lib loaded now p = Some (go, p')" and "record_shape (gp_run p)"
  shows "plans (gp_run p) (gp_run p') \<and> record_shape (gp_run p')
    \<and> (go \<longrightarrow> planning_left (gp_run p') < planning_left (gp_run p))"
proof -
  let ?run = "gp_run p"
  let ?v = "new_view ?run loaded (gp_outcomes p)"
  let ?p = "p\<lparr>gp_needValues := [], gp_needArtifacts := []\<rparr>"
  have dist: "distinct (map act_key (run_activations ?run))" using assms(2) by (simp add: record_shape_def)
  note step = assms(1) [unfolded plan_round_def Let_def]
  from step obtain r where r: "failurePolicy ?v now = Some r" by (auto simp: bind_eq_Some_conv)
  show ?thesis
  proof (cases r)
    case (Inl f)
    then have "\<not> go" "gp_run p' = ?run" using step r by (auto simp: with_failure_def)
    then show ?thesis using assms(2) plans_refl by simp
  next
    case (Inr d)
    have d: "decisions_ok (set (run_activations ?run)) d" using failure_policy_ok r Inr by blast
    then have retries: "list_all planned (fd_retries d)" by (simp add: decisions_ok_def)
    consider (retry) "fd_retries d \<noteq> []" | (route) "fd_retries d = []" "fd_routed d \<noteq> []"
      | (other) "fd_retries d = []" "fd_routed d = []" by blast
    then show ?thesis
    proof cases
      case retry
      have run: "gp_run p' = snd (append_all (fd_retries d) ?run)"
        and go: "go \<longrightarrow> append_all (fd_retries d) ?run = (None, gp_run p')"
        using step r Inr retry by (auto simp: with_failure_def split: prod.splits option.splits)
      show ?thesis
        using plans_append_all [OF retries] shape_append_all [OF retries assms(2)] go
          planning_left_append [OF _ retries retry] unfolding run by blast
    next
      case route
      have run: "gp_run p' = route_errors (fd_routed d) ?run" using step r Inr route by auto
      have "planning_left (route_errors (fd_routed d) ?run) < planning_left ?run"
        using route_errors_fewer [OF d dist route(2)] loops_left_cong [of "route_errors (fd_routed d) ?run" ?run]
        by (simp add: planning_left_def route_errors_routes)
      then show ?thesis
        unfolding run using plans_route_errors [OF d dist] shape_route_errors [OF assms(2)] by blast
    next
      case other
      from step r Inr other obtain lp where lp: "pass_loops ?v (plan_loops (run_plan ?run))
          \<lparr>lp_done = [], lp_needs = [], lp_iterations = run_loopIterations ?run, lp_advanced = 0\<rparr> = Some lp"
        by (auto simp: bind_eq_Some_conv)
      have ok: "pass_ok ?run (set (plan_loops (run_plan ?run))) lp"
        using pass_loops_ok [OF lp order_refl] by (simp add: pass_ok_def pass_at_def loop_at_def)
      let ?q = "?p\<lparr>gp_needArtifacts := request_map (fd_requests d), gp_needValues := lp_needs lp\<rparr>"
      show ?thesis
      proof (cases "lp_advanced lp > 0")
        case True
        then have run: "gp_run p' = ?run\<lparr>run_loopIterations := lp_iterations lp\<rparr>"
          using step r Inr other lp by auto
        have "planning_left (gp_run p') < planning_left ?run"
          using loops_left_less [OF ok True]
          by (simp add: run planning_left_def live_count_def unrouted_def liveGraphActivations_def)
        moreover have "record_shape (gp_run p')" using assms(2) by (subst record_shape_cong [of _ ?run]) (simp_all add: run)
        ultimately show ?thesis unfolding run using plans_others(1) by blast
      next
        case False
        then have ready: "plan_ready lib ?v now lp ?q = Some (go, p')"
          using step r Inr other lp by auto
        obtain as fs where as: "gp_run p' = snd (append_all as (?run\<lparr>run_fanOuts := fs\<rparr>))" "list_all planned as"
            "go \<Longrightarrow> as \<noteq> [] \<and> fst (append_all as (?run\<lparr>run_fanOuts := fs\<rparr>)) = None"
          using plan_ready_run [OF ready] by auto
        have "plans ?run (gp_run p')"
          unfolding as(1) using plans_others(2) plans_append_all [OF as(2)] by (rule plans_trans)
        moreover have "record_shape (?run\<lparr>run_fanOuts := fs\<rparr>)"
          using assms(2) by (subst record_shape_cong [of _ ?run]) simp_all
        then have "record_shape (gp_run p')" unfolding as(1) by (rule shape_append_all [OF as(2)])
        moreover have "planning_left (gp_run p') < planning_left ?run" if go
          using planning_left_append [OF _ as(2), of "?run\<lparr>run_fanOuts := fs\<rparr>" "gp_run p'"] as(1,3) that
          by (metis planning_left_fans prod.collapse)
        ultimately show ?thesis by blast
      qed
    qed
  qed
qed

section \<open>Planning to a fixpoint\<close>

lemma plan_rounds_steps:
  "plan_rounds n lib loaded now p = Some q \<Longrightarrow> record_shape (gp_run p) \<Longrightarrow>
     plans (gp_run p) (gp_run q) \<and> record_shape (gp_run q)"
proof (induction n arbitrary: p)
  case (Suc n)
  from Suc.prems(1) obtain go r where r: "plan_round lib loaded now p = Some (go, r)"
    and rest: "(if go then plan_rounds n lib loaded now r else Some r) = Some q"
    by (auto simp: bind_eq_Some_conv)
  have step: "plans (gp_run p) (gp_run r)" "record_shape (gp_run r)"
    using plan_round_steps [OF r Suc.prems(2)] by blast+
  show ?case
  proof (cases go)
    case True
    then show ?thesis using Suc.IH [of r] rest step plans_trans by auto
  qed (use rest step in simp)
qed (simp add: plans_refl)

lemma plan_rounds_end:
  "planning_left (gp_run p) < n \<Longrightarrow> record_shape (gp_run p) \<Longrightarrow> plan_rounds n lib loaded now p = Some q \<Longrightarrow>
     \<exists>r. plan_round lib loaded now r = Some (False, q)"
proof (induction n arbitrary: p)
  case (Suc n)
  from Suc.prems(3) obtain go r where r: "plan_round lib loaded now p = Some (go, r)"
    and rest: "(if go then plan_rounds n lib loaded now r else Some r) = Some q"
    by (auto simp: bind_eq_Some_conv)
  show ?case
  proof (cases go)
    case True
    then have "planning_left (gp_run r) < n" "record_shape (gp_run r)"
      using plan_round_steps [OF r Suc.prems(2)] Suc.prems(1) by auto
    then show ?thesis using Suc.IH [of r] rest True by simp
  next
    case False
    then show ?thesis using r rest by auto
  qed
qed simp

lemma plan_rounds_more:
  "planning_left (gp_run p) < m \<Longrightarrow> m \<le> n \<Longrightarrow> record_shape (gp_run p) \<Longrightarrow>
     plan_rounds n lib loaded now p = plan_rounds m lib loaded now p"
proof (induction m arbitrary: n p)
  case (Suc m)
  from Suc.prems(2) obtain k where n: "n = Suc k" "m \<le> k" by (cases n) auto
  show ?case
  proof (cases "plan_round lib loaded now p")
    case (Some x)
    obtain go r where x: "x = (go, r)" by (cases x)
    show ?thesis
    proof (cases go)
      case True
      then have "planning_left (gp_run r) < m" "record_shape (gp_run r)"
        using plan_round_steps [OF Some [unfolded x] Suc.prems(3)] Suc.prems(1) by auto
      then show ?thesis using Suc.IH [OF _ n(2), of r] Some x True n(1) by simp
    qed (use Some x n(1) in simp)
  qed (use n(1) in simp)
qed simp

definition maxLoops :: nat where "maxLoops = 4 * 16"

text \<open>What the plan's guard and the record's guard check of loops: at most \<open>maxLoops\<close> of them, each of
  at most \<open>maxIteration\<close> iterations, counted from one.\<close>

definition loops_bounded :: "graph_run \<Rightarrow> bool" where
  "loops_bounded run \<longleftrightarrow> length (plan_loops (run_plan run)) \<le> maxLoops
     \<and> list_all (\<lambda>l. pl_maxIterations l \<le> maxIteration) (plan_loops (run_plan run))
     \<and> list_all (\<lambda>p. 1 \<le> snd p) (run_loopIterations run)"

lemma loop_at_pos: "loops_bounded run \<Longrightarrow> 1 \<le> loop_at run l"
  by (fastforce simp: loops_bounded_def loop_at_def get_or_def obj_get_def list_all_iff dest: map_of_SomeD
      split: option.split)

lemma loops_left_bounded:
  assumes "loops_bounded run"
  shows "loops_left run \<le> 576"
proof -
  have "sum_list (map (\<lambda>l. nat (pl_maxIterations l - loop_at run (pl_id l))) ls) \<le> length ls * 9"
    if "list_all (\<lambda>l. pl_maxIterations l \<le> maxIteration) ls" for ls
    using that
  proof (induction ls)
    case (Cons l ls)
    have "nat (pl_maxIterations l - loop_at run (pl_id l)) \<le> 9"
      using Cons.prems loop_at_pos [OF assms, of "pl_id l"] by (auto simp: maxIteration_def)
    then show ?case using Cons by simp
  qed simp
  then show ?thesis using assms by (force simp: loops_left_def loops_bounded_def maxLoops_def)
qed

lemma planning_left_bounded:
  assumes "record_shape run" and "loops_bounded run"
  shows "planning_left run \<le> 976"
proof -
  have "live_count run \<le> 200" using assms(1) by (simp add: record_shape_def live_count_def maxActivations_def)
  then show ?thesis
    using loops_left_bounded [OF assms(2)] unrouted_le_live [of run]
    by (simp add: planning_left_def maxActivations_def)
qed

text \<open>C2. Planning ends by itself: a run within its bounds is planned to a round that finds nothing more
  to plan, or fails the run, before the round limit, which never cuts it short. A higher limit would
  change no answer.\<close>

theorem planning_ends_itself:
  assumes "run_inv run" and "loops_bounded run"
  shows "(\<forall>p. planGraphRun lib run now loaded outcomes = Some p \<longrightarrow>
        (\<exists>q. plan_round lib loaded now q = Some (False, p)))
    \<and> (\<forall>k. plan_rounds (MAX_PLANNING_ROUNDS + k) lib loaded now (planning_start run outcomes) =
        planGraphRun lib run now loaded outcomes)"
proof -
  have shape: "record_shape (gp_run (planning_start run outcomes))"
    using run_inv_shape [OF assms(1)] by (simp add: planning_start_def)
  have left: "planning_left (gp_run (planning_start run outcomes)) < MAX_PLANNING_ROUNDS"
    using planning_left_bounded [OF run_inv_shape [OF assms(1)] assms(2)]
    by (simp add: planning_start_def MAX_PLANNING_ROUNDS_def)
  show ?thesis
    unfolding planGraphRun_def
    by (intro conjI allI impI plan_rounds_end [OF left shape] plan_rounds_more [OF left _ shape]) simp_all
qed

text \<open>C9. Planning only adds: the activations before stay at their places, unchanged but for an error
  output a failed one may get, and those after them are new ones, ready, skipped or failed, under the
  keys of their positions. Keys stay distinct, and the counts within their bounds.\<close>

theorem planning_only_adds:
  assumes "run_inv run" and "planGraphRun lib run now loaded outcomes = Some p"
  shows "(\<exists>kept new. run_activations (gp_run p) = kept @ new
        \<and> list_all2 routed_from (run_activations run) kept \<and> list_all planned new)
    \<and> record_shape (gp_run p)"
proof -
  have "plans run (gp_run p) \<and> record_shape (gp_run p)"
    using plan_rounds_steps [OF assms(2) [unfolded planGraphRun_def]] run_inv_shape [OF assms(1)]
    by (simp add: planning_start_def)
  then show ?thesis by (simp add: plans_def)
qed

text \<open>A run whose fix timed out with a retry left and whose plan has not started: the first round
  retries, the second starts the plan, the third finds nothing more.\<close>

definition planning_node :: "string \<Rightarrow> plan_node" where
  "planning_node i =
     \<lparr>pn_id = i, pn_kind = KAgent, pn_subgraph = None, pn_loop = None, pn_inputs = [],
      pn_when = None, pn_workspaceAccess = AccRead, pn_onFailure = FailRun, pn_retryAttempts = 2,
      pn_retryOn = [''timeout''], pn_isolation = None, pn_role = [], pn_replicate = None, pn_strategy = [],
      pn_timeoutMs = None\<rparr>"

definition planning_run :: graph_run where
  "planning_run =
     (let run = example_run [(example_activation ''fix#iter=1#attempt=1'' ''fix'' Failed)
                  \<lparr>act_errorCause := Some ''timeout''\<rparr>]
      in run\<lparr>run_plan := (run_plan run)\<lparr>plan_nodes := [planning_node ''plan'', planning_node ''fix'']\<rparr>\<rparr>)"

lemma planning_run_ok: "run_inv planning_run" "loops_bounded planning_run"
  by (simp_all add: planning_run_def run_inv_def example_eval liveGraphActivations_def activation_ok_def rewind_ids_def
      maxActivationHistory_def maxActivations_def maxRewinds_def loops_bounded_def Let_def)

definition outcome_states :: "planning option \<Rightarrow> (string \<times> act_state) list" where
  "outcome_states r = (case r of None \<Rightarrow> [] | Some p \<Rightarrow> map (\<lambda>a. (act_key a, act_state a)) (run_activations (gp_run p)))"

lemma planning_run_planned:
  "outcome_states (planGraphRun example_library planning_run ''t1'' [] []) =
     [(''fix#iter=1#attempt=1'', Failed), (''fix#iter=1#attempt=2'', Ready), (''plan#iter=1#attempt=1'', Ready)]"
  by code_simp

lemma planning_run_result:
  obtains p where "planGraphRun example_library planning_run ''t1'' [] [] = Some p"
    and "map (\<lambda>a. (act_key a, act_state a)) (run_activations (gp_run p)) =
      [(''fix#iter=1#attempt=1'', Failed), (''fix#iter=1#attempt=2'', Ready), (''plan#iter=1#attempt=1'', Ready)]"
  using planning_run_planned
  by (cases "planGraphRun example_library planning_run ''t1'' [] []") (simp_all add: outcome_states_def)

theorem planning_ends_itself_witness:
  "\<exists>p q. planGraphRun example_library planning_run ''t1'' [] [] = Some p
     \<and> plan_round example_library [] ''t1'' q = Some (False, p)
     \<and> map act_state (run_activations (gp_run p)) = [Failed, Ready, Ready]"
proof -
  obtain p where p: "planGraphRun example_library planning_run ''t1'' [] [] = Some p"
    "map (\<lambda>a. (act_key a, act_state a)) (run_activations (gp_run p)) =
      [(''fix#iter=1#attempt=1'', Failed), (''fix#iter=1#attempt=2'', Ready), (''plan#iter=1#attempt=1'', Ready)]"
    by (rule planning_run_result)
  have "map act_state (run_activations (gp_run p)) = map snd (map (\<lambda>a. (act_key a, act_state a)) (run_activations (gp_run p)))"
    by simp
  then show ?thesis
    using planning_ends_itself [OF planning_run_ok, of example_library "''t1''" "[]" "[]"] p by simp
qed

theorem planning_only_adds_witness:
  "\<exists>p. planGraphRun example_library planning_run ''t1'' [] [] = Some p \<and> record_shape (gp_run p)
     \<and> length (run_activations (gp_run p)) = 3"
proof -
  obtain p where p: "planGraphRun example_library planning_run ''t1'' [] [] = Some p"
    "map (\<lambda>a. (act_key a, act_state a)) (run_activations (gp_run p)) =
      [(''fix#iter=1#attempt=1'', Failed), (''fix#iter=1#attempt=2'', Ready), (''plan#iter=1#attempt=1'', Ready)]"
    by (rule planning_run_result)
  have "length (run_activations (gp_run p)) = 3" using arg_cong [OF p(2), of length] by simp
  then show ?thesis using planning_only_adds [OF planning_run_ok(1) p(1)] p(1) by blast
qed

end
