(* ===== verification/Admission.thy ===== *)
theory Admission
  imports Graph_Transitions Graph_Isolation Run_View "HOL-Library.Multiset"
begin

text \<open>
  Workspace locks, admission and the run's meters
  (\<^verbatim>\<open>apps/backend/src/core/graph-run-scheduling.ts\<close>, from the workspace locks on): what admitted
  activations hold, the lock table across runs, which ready activations are admitted, blocked or
  refused for good, and the texts of the refusals.

  An absent count of worktrees is zero. \<open>Date.parse\<close> is an argument: None stands for NaN.
\<close>

section \<open>Holds\<close>

record hold =
  ho_writers :: nat
  ho_readers :: nat
  ho_worktrees :: nat

definition NO_HOLD :: hold where
  "NO_HOLD = \<lparr>ho_writers = 0, ho_readers = 0, ho_worktrees = 0\<rparr>"

definition graphWorkspaceAllows :: "hold \<Rightarrow> ws_access \<Rightarrow> bool" where
  "graphWorkspaceAllows h access =
     (case access of
        AccNone \<Rightarrow> True
      | AccWrite \<Rightarrow> ho_writers h = 0 \<and> ho_readers h = 0
      | AccRead \<Rightarrow> ho_writers h = 0)"

definition addHold :: "hold \<Rightarrow> ws_access \<Rightarrow> bool \<Rightarrow> hold" where
  "addHold h access worktree =
     (let h = (if access = AccWrite then h\<lparr>ho_writers := ho_writers h + 1\<rparr> else h);
          h = (if access = AccRead then h\<lparr>ho_readers := ho_readers h + 1\<rparr> else h)
      in if worktree then h\<lparr>ho_worktrees := ho_worktrees h + 1\<rparr> else h)"

text \<open>The map of nodes by id keeps the last node of an id.\<close>

definition plan_node_of :: "graph_plan \<Rightarrow> string \<Rightarrow> plan_node option" where
  "plan_node_of plan i = find (\<lambda>n. pn_id n = i) (rev (plan_nodes plan))"

definition hold_step :: "graph_plan \<Rightarrow> activation \<Rightarrow> hold \<Rightarrow> hold" where
  "hold_step plan a h =
     (if \<not> isGraphActivationAdmitted (act_state a) then h
      else (case plan_node_of plan (act_nodeId a) of
              None \<Rightarrow> h
            | Some n \<Rightarrow> addHold h (graphMainWorkspaceAccess n) (graphNodeIsolated n)))"

definition graphRunWorkspaceHold :: "graph_run \<Rightarrow> hold" where
  "graphRunWorkspaceHold run = fold (hold_step (run_plan run)) (run_activations run) NO_HOLD"

section \<open>The lock table\<close>

record locks =
  lk_byWorkspace :: "(string \<times> (string \<times> hold) list) list"
  lk_workspaceOf :: "(string \<times> string) list"

definition no_locks :: locks where "no_locks = \<lparr>lk_byWorkspace = [], lk_workspaceOf = []\<rparr>"

definition obj_del :: "string \<Rightarrow> (string \<times> 'v) list \<Rightarrow> (string \<times> 'v) list" where
  "obj_del k ps = filter (\<lambda>p. fst p \<noteq> k) ps"

definition release :: "string \<Rightarrow> locks \<Rightarrow> locks" where
  "release r t =
     (case obj_get (lk_workspaceOf t) r of
        None \<Rightarrow> t
      | Some w \<Rightarrow>
          (let t = t\<lparr>lk_workspaceOf := obj_del r (lk_workspaceOf t)\<rparr>
           in (case obj_get (lk_byWorkspace t) w of
                 None \<Rightarrow> t
               | Some runs \<Rightarrow>
                   (let runs = obj_del r runs
                    in if runs = [] then t\<lparr>lk_byWorkspace := obj_del w (lk_byWorkspace t)\<rparr>
                       else t\<lparr>lk_byWorkspace := obj_set w runs (lk_byWorkspace t)\<rparr>))))"

definition run_hold :: "locks \<Rightarrow> string \<Rightarrow> hold" where
  "run_hold t r =
     (case obj_get (lk_workspaceOf t) r of
        None \<Rightarrow> NO_HOLD
      | Some w \<Rightarrow> (case obj_get (lk_byWorkspace t) w of
                      None \<Rightarrow> NO_HOLD | Some runs \<Rightarrow> get_or NO_HOLD (obj_get runs r)))"

definition holds_nothing :: "hold \<Rightarrow> bool" where
  "holds_nothing h \<longleftrightarrow> ho_writers h = 0 \<and> ho_readers h = 0 \<and> ho_worktrees h = 0"

definition set_hold :: "string \<Rightarrow> string option \<Rightarrow> hold \<Rightarrow> locks \<Rightarrow> bool \<times> locks" where
  "set_hold r workspace h t =
     (let previous = run_hold t r;
          before = obj_get (lk_workspaceOf t) r;
          t = (if before \<noteq> None \<and> before \<noteq> workspace then release r t else t);
          t = (case workspace of
                 None \<Rightarrow> release r t
               | Some w \<Rightarrow>
                   if holds_nothing h then release r t
                   else t\<lparr>lk_byWorkspace := obj_set w (obj_set r h (get_or [] (obj_get (lk_byWorkspace t) w)))
                                              (lk_byWorkspace t),
                          lk_workspaceOf := obj_set r w (lk_workspaceOf t)\<rparr>)
      in (ho_writers h < ho_writers previous \<or> ho_readers h < ho_readers previous
          \<or> ho_worktrees h < ho_worktrees previous, t))"

definition plus_hold :: "hold \<Rightarrow> hold \<Rightarrow> hold" where
  "plus_hold a b = \<lparr>ho_writers = ho_writers a + ho_writers b, ho_readers = ho_readers a + ho_readers b,
                    ho_worktrees = ho_worktrees a + ho_worktrees b\<rparr>"

definition others :: "locks \<Rightarrow> string \<Rightarrow> string \<Rightarrow> hold" where
  "others t workspace r =
     fold (\<lambda>(owner, h) total. if owner = r then total else plus_hold total h)
       (get_or [] (obj_get (lk_byWorkspace t) workspace)) NO_HOLD"

definition locks_size :: "locks \<Rightarrow> nat" where
  "locks_size t = length (lk_byWorkspace t)"

section \<open>Meters\<close>

datatype run_meter = AgentSessions | Tokens

definition graphRunTokensExhausted :: "graph_run \<Rightarrow> bool" where
  "graphRunTokensExhausted run =
     (case li_maxTokens (plan_limits (run_plan run)) of
        None \<Rightarrow> False
      | Some mx \<Rightarrow> \<not> run_mock run \<and> us_tokens (run_usage run) \<ge> mx)"

definition show_opt :: "int option \<Rightarrow> string" where
  "show_opt n = (case n of None \<Rightarrow> ''undefined'' | Some k \<Rightarrow> show_int k)"

definition graphRunMeterError :: "graph_run \<Rightarrow> run_meter \<Rightarrow> string" where
  "graphRunMeterError run m =
     (let li = plan_limits (run_plan run) in
      case m of
        Tokens \<Rightarrow> ''The run reached its token limit (limits.maxTokens '' @ show_opt (li_maxTokens li)
          @ ''; '' @ show_int (us_tokens (run_usage run)) @ '' used), so no further agent session starts''
      | AgentSessions \<Rightarrow> ''The run reached its limit of '' @ show_int (li_maxAgentSessions li)
          @ '' agent sessions (limits.maxAgentSessions)'')"

definition graphRunWallClockDeadline :: "(string \<Rightarrow> int option) \<Rightarrow> graph_run \<Rightarrow> int option" where
  "graphRunWallClockDeadline date_parse run =
     (case li_maxWallClockMs (plan_limits (run_plan run)) of
        None \<Rightarrow> None
      | Some mx \<Rightarrow>
          (case run_startedAt run of
             None \<Rightarrow> None
           | Some s \<Rightarrow> map_option (\<lambda>started. started + mx) (date_parse s)))"

definition graphRunWallClockExceeded :: "(string \<Rightarrow> int option) \<Rightarrow> graph_run \<Rightarrow> int \<Rightarrow> bool" where
  "graphRunWallClockExceeded date_parse run now =
     (case graphRunWallClockDeadline date_parse run of None \<Rightarrow> False | Some d \<Rightarrow> now > d)"

text \<open>Durations are whole, non-negative numbers of milliseconds.\<close>

definition formatGraphDuration :: "int \<Rightarrow> string" where
  "formatGraphDuration ms =
     (if ms mod 3600000 = 0 then show_int (ms div 3600000) @ '' h''
      else if ms mod 60000 = 0 then show_int (ms div 60000) @ '' min''
      else show_int ((ms + 500) div 1000) @ '' s'')"

definition graphRunWallClockError :: "graph_run \<Rightarrow> string" where
  "graphRunWallClockError run =
     ''The run exceeded its wall-clock limit of ''
     @ formatGraphDuration (get_or 0 (li_maxWallClockMs (plan_limits (run_plan run))))
     @ '' (limits.maxWallClockMs)''"

section \<open>Admission\<close>

record admission_candidate =
  ac_key :: string
  ac_node :: plan_node
  ac_agent :: bool

record admission_decision =
  ad_admit :: "admission_candidate list"
  ad_blocked :: "(string \<times> block) list"
  ad_exhausted :: "(string \<times> run_meter) list"

record external_hold =
  eh_hold :: hold
  eh_holder :: "string option"
  eh_access :: "string option"

text \<open>What other engines hold: nothing, not known yet, or a hold.\<close>

datatype external = ExtAbsent | ExtUnknown | ExtHold external_hold

record admission_options =
  ao_others :: hold
  ao_known :: bool
  ao_external :: external

record admission_state =
  as_decision :: admission_decision
  as_mine :: hold
  as_agents :: nat
  as_sessions :: int
  as_writerWaiting :: bool

definition plain_block :: "string \<Rightarrow> block" where
  "plain_block reason = \<lparr>bl_reason = reason, bl_holder = None, bl_holderAccess = None\<rparr>"

definition push_blocked :: "string \<Rightarrow> block \<Rightarrow> admission_state \<Rightarrow> admission_state" where
  "push_blocked key b s =
     s\<lparr>as_decision := (as_decision s)\<lparr>ad_blocked := ad_blocked (as_decision s) @ [(key, b)]\<rparr>\<rparr>"

definition push_exhausted :: "string \<Rightarrow> run_meter \<Rightarrow> admission_state \<Rightarrow> admission_state" where
  "push_exhausted key m s =
     s\<lparr>as_decision := (as_decision s)\<lparr>ad_exhausted := ad_exhausted (as_decision s) @ [(key, m)]\<rparr>\<rparr>"

definition push_admit :: "string \<Rightarrow> plan_node \<Rightarrow> admission_state \<Rightarrow> admission_state" where
  "push_admit key n s =
     (let agent = (pn_kind n = KAgent)
      in s\<lparr>as_decision := (as_decision s)\<lparr>ad_admit := ad_admit (as_decision s)
                 @ [\<lparr>ac_key = key, ac_node = n, ac_agent = agent\<rparr>]\<rparr>,
           as_agents := as_agents s + (if agent then 1 else 0),
           as_sessions := as_sessions s + (if agent then 1 else 0)\<rparr>)"

definition waits :: "ws_access \<Rightarrow> admission_state \<Rightarrow> admission_state" where
  "waits access s = (if access = AccWrite then s\<lparr>as_writerWaiting := True\<rparr> else s)"

text \<open>Why a workspace user waits, if it does; a writer that waits for another holder is not overtaken.\<close>

definition workspace_block ::
  "admission_options \<Rightarrow> ws_access \<Rightarrow> bool \<Rightarrow> admission_state \<Rightarrow> (block \<times> bool) option" where
  "workspace_block opts access worktree s =
     (if \<not> ao_known opts \<or> ao_external opts = ExtUnknown then Some (plain_block ''recovering'', False)
      else if as_writerWaiting s \<or> \<not> graphWorkspaceAllows (plus_hold (as_mine s) (ao_others opts)) access
      then Some (plain_block ''workspace-lock'', True)
      else if (case ao_external opts of ExtHold e \<Rightarrow> \<not> graphWorkspaceAllows (eh_hold e) access | _ \<Rightarrow> False)
      then (case ao_external opts of
              ExtHold e \<Rightarrow> Some (\<lparr>bl_reason = ''external-workflow'', bl_holder = eh_holder e,
                                bl_holderAccess = eh_access e\<rparr>, True)
            | _ \<Rightarrow> None)
      else if worktree \<and> ho_worktrees (as_mine s) + ho_worktrees (ao_others opts) \<ge> maxLiveWorktreesPerEnvironment
      then Some (plain_block ''worktree-limit'', False)
      else None)"

definition admit_node ::
  "admission_options \<Rightarrow> string \<Rightarrow> plan_node \<Rightarrow> admission_state \<Rightarrow> admission_state" where
  "admit_node opts key n s =
     (let access = graphMainWorkspaceAccess n; worktree = graphNodeIsolated n
      in if access = AccNone then push_admit key n s
         else (case workspace_block opts access worktree s of
                 Some (b, keep) \<Rightarrow> (let s = push_blocked key b s in if keep then waits access s else s)
               | None \<Rightarrow> push_admit key n (s\<lparr>as_mine := addHold (as_mine s) access worktree\<rparr>)))"

definition admission_step ::
  "graph_run \<Rightarrow> admission_options \<Rightarrow> activation \<Rightarrow> admission_state \<Rightarrow> admission_state" where
  "admission_step run opts a s =
     (if act_state a \<noteq> Ready then s
      else
        (case plan_node_of (run_plan run) (act_nodeId a) of
           None \<Rightarrow> s
         | Some n \<Rightarrow>
             (let agent = (pn_kind n = KAgent); li = plan_limits (run_plan run) in
              if agent \<and> as_sessions s \<ge> li_maxAgentSessions li then push_exhausted (act_key a) AgentSessions s
              else if agent \<and> graphRunTokensExhausted run
              then (if as_agents s > 0 then push_blocked (act_key a) (plain_block ''token-budget'') s
                    else push_exhausted (act_key a) Tokens s)
              else if agent \<and> int (as_agents s) \<ge> li_maxConcurrentAgents li
              then push_blocked (act_key a) (plain_block ''concurrency'') s
              else admit_node opts (act_key a) n s)))"

definition admitted_agents :: "graph_run \<Rightarrow> nat" where
  "admitted_agents run =
     length (filter (\<lambda>a. isGraphActivationAdmitted (act_state a)
        \<and> (case plan_node_of (run_plan run) (act_nodeId a) of None \<Rightarrow> False | Some n \<Rightarrow> pn_kind n = KAgent))
       (run_activations run))"

definition admission_start :: "graph_run \<Rightarrow> admission_state" where
  "admission_start run =
     \<lparr>as_decision = \<lparr>ad_admit = [], ad_blocked = [], ad_exhausted = []\<rparr>,
      as_mine = graphRunWorkspaceHold run, as_agents = admitted_agents run,
      as_sessions = us_agentSessions (run_usage run), as_writerWaiting = False\<rparr>"

definition admission_pass :: "graph_run \<Rightarrow> admission_options \<Rightarrow> activation list \<Rightarrow> admission_state \<Rightarrow> admission_state" where
  "admission_pass run opts as s = fold (admission_step run opts) as s"

definition selectGraphAdmissions :: "graph_run \<Rightarrow> admission_options \<Rightarrow> admission_decision" where
  "selectGraphAdmissions run opts =
     as_decision (admission_pass run opts (run_activations run) (admission_start run))"

section \<open>What one pass keeps\<close>

definition candidate_access :: "admission_candidate \<Rightarrow> ws_access" where
  "candidate_access c = graphMainWorkspaceAccess (ac_node c)"

text \<open>The hold of a list of candidates on top of another, as admission counts it.\<close>

definition held_after :: "hold \<Rightarrow> admission_candidate list \<Rightarrow> hold" where
  "held_after h cs =
     fold (\<lambda>c h. if candidate_access c = AccNone then h
                 else addHold h (candidate_access c) (graphNodeIsolated (ac_node c))) cs h"

text \<open>One writer and nobody else, or no writer.\<close>

definition exclusive :: "hold \<Rightarrow> bool" where
  "exclusive h \<longleftrightarrow> ho_writers h = 0 \<or> ho_writers h = 1 \<and> ho_readers h = 0"

definition external_part :: "admission_options \<Rightarrow> hold" where
  "external_part opts = (case ao_external opts of ExtHold e \<Rightarrow> eh_hold e | _ \<Rightarrow> NO_HOLD)"

definition total_hold :: "admission_options \<Rightarrow> hold \<Rightarrow> hold" where
  "total_hold opts h = plus_hold (plus_hold h (ao_others opts)) (external_part opts)"

lemma held_after_snoc:
  "held_after h (cs @ [c]) =
     (if candidate_access c = AccNone then held_after h cs
      else addHold (held_after h cs) (candidate_access c) (graphNodeIsolated (ac_node c)))"
  by (simp add: held_after_def)

text \<open>The ways a step goes, as a rule over what it does to the state.\<close>

inductive step_kind :: "graph_run \<Rightarrow> admission_options \<Rightarrow> activation \<Rightarrow> admission_state \<Rightarrow> admission_state \<Rightarrow> bool"
  for run opts a s where
  ignored: "act_state a \<noteq> Ready \<or> plan_node_of (run_plan run) (act_nodeId a) = None \<Longrightarrow> step_kind run opts a s s"
| exhausted: "act_state a = Ready \<Longrightarrow> plan_node_of (run_plan run) (act_nodeId a) = Some n \<Longrightarrow>
    step_kind run opts a s (push_exhausted (act_key a) m s)"
| blocked: "act_state a = Ready \<Longrightarrow> plan_node_of (run_plan run) (act_nodeId a) = Some n \<Longrightarrow>
    (\<not> keep \<or> graphMainWorkspaceAccess n \<noteq> AccWrite \<Longrightarrow> s' = push_blocked (act_key a) b s) \<Longrightarrow>
    (keep \<and> graphMainWorkspaceAccess n = AccWrite \<Longrightarrow>
       s' = (push_blocked (act_key a) b s)\<lparr>as_writerWaiting := True\<rparr>) \<Longrightarrow>
    (\<not> keep \<Longrightarrow> bl_reason b \<notin> {''workspace-lock'', ''external-workflow''}) \<Longrightarrow>
    step_kind run opts a s s'"
| admitted: "act_state a = Ready \<Longrightarrow> plan_node_of (run_plan run) (act_nodeId a) = Some n \<Longrightarrow>
    (pn_kind n = KAgent \<Longrightarrow> as_sessions s < li_maxAgentSessions (plan_limits (run_plan run))
       \<and> \<not> graphRunTokensExhausted run
       \<and> int (as_agents s) < li_maxConcurrentAgents (plan_limits (run_plan run))) \<Longrightarrow>
    graphMainWorkspaceAccess n = AccNone
      \<or> workspace_block opts (graphMainWorkspaceAccess n) (graphNodeIsolated n) s = None \<Longrightarrow>
    s' = push_admit (act_key a) n
      (if graphMainWorkspaceAccess n = AccNone then s
       else s\<lparr>as_mine := addHold (as_mine s) (graphMainWorkspaceAccess n) (graphNodeIsolated n)\<rparr>) \<Longrightarrow>
    step_kind run opts a s s'"

lemma workspace_block_keep:
  "workspace_block opts access w s = Some (b, keep) \<Longrightarrow>
    \<not> keep \<longrightarrow> bl_reason b \<notin> {''workspace-lock'', ''external-workflow''}"
  by (auto simp: workspace_block_def plain_block_def split: if_splits external.splits)

lemma plain_block_reason [simp]: "bl_reason (plain_block r) = r"
  by (simp add: plain_block_def)

lemma admission_step_kind: "step_kind run opts a s (admission_step run opts a s)"
proof (cases "act_state a = Ready")
  case ready: True
  show ?thesis
  proof (cases "plan_node_of (run_plan run) (act_nodeId a)")
    case None
    then show ?thesis using ready by (auto simp: admission_step_def intro: step_kind.ignored)
  next
    case n: (Some n)
    let ?li = "plan_limits (run_plan run)"
    let ?agent = "pn_kind n = KAgent"
    let ?sessions = "?agent \<and> as_sessions s \<ge> li_maxAgentSessions ?li"
      and ?tokens = "?agent \<and> graphRunTokensExhausted run"
      and ?full = "?agent \<and> int (as_agents s) \<ge> li_maxConcurrentAgents ?li"
    note step = admission_step_def [of run opts a s]
    consider (sessions) "?sessions" | (tokens) "\<not> ?sessions" "?tokens"
      | (full) "\<not> ?sessions" "\<not> ?tokens" "?full" | (node) "\<not> ?sessions" "\<not> ?tokens" "\<not> ?full" by blast
    then show ?thesis
    proof cases
      case sessions
      then show ?thesis using step_kind.exhausted [OF ready n] by (simp add: step ready n)
    next
      case tokens
      show ?thesis
      proof (cases "as_agents s > 0")
        case True
        with tokens have "admission_step run opts a s = push_blocked (act_key a) (plain_block ''token-budget'') s"
          by (simp add: step ready n)
        then show ?thesis
          by (intro step_kind.blocked [where keep = False and b = "plain_block ''token-budget''", OF ready n]) simp_all
      next
        case False
        with tokens show ?thesis using step_kind.exhausted [OF ready n] by (simp add: step ready n)
      qed
    next
      case full
      then have "admission_step run opts a s = push_blocked (act_key a) (plain_block ''concurrency'') s"
        by (simp add: step ready n)
      then show ?thesis
        by (intro step_kind.blocked [where keep = False and b = "plain_block ''concurrency''", OF ready n]) simp_all
    next
      case node
      then have eq: "admission_step run opts a s = admit_node opts (act_key a) n s"
        by (simp only: step ready n option.case Let_def simp_thms if_False)
      show ?thesis
      proof (cases "graphMainWorkspaceAccess n = AccNone
          \<or> workspace_block opts (graphMainWorkspaceAccess n) (graphNodeIsolated n) s = None")
        case True
        show ?thesis
        proof (rule step_kind.admitted [OF ready n _ True])
          show "as_sessions s < li_maxAgentSessions ?li \<and> \<not> graphRunTokensExhausted run
              \<and> int (as_agents s) < li_maxConcurrentAgents ?li" if "?agent"
            using that node by (simp add: not_le)
        qed (use True in \<open>auto simp: eq admit_node_def Let_def\<close>)
      next
        case False
        then obtain b keep where wb: "graphMainWorkspaceAccess n \<noteq> AccNone"
          "workspace_block opts (graphMainWorkspaceAccess n) (graphNodeIsolated n) s = Some (b, keep)"
          by force
        from workspace_block_keep [OF wb(2)] wb show ?thesis
          by (intro step_kind.blocked [where keep = keep and b = b, OF ready n])
            (simp_all add: eq admit_node_def waits_def Let_def)
      qed
    qed
  qed
qed (auto simp: admission_step_def intro: step_kind.ignored)

lemmas push_defs = push_exhausted_def push_blocked_def push_admit_def Let_def

text \<open>Admission never breaks the exclusion, counts what it admits, and respects the limits.\<close>

definition admission_inv :: "graph_run \<Rightarrow> admission_options \<Rightarrow> admission_state \<Rightarrow> bool" where
  "admission_inv run opts s \<longleftrightarrow>
     (let admits = ad_admit (as_decision s); li = plan_limits (run_plan run);
          agents = length (filter ac_agent admits)
      in as_mine s = held_after (graphRunWorkspaceHold run) admits
         \<and> (exclusive (total_hold opts (graphRunWorkspaceHold run)) \<longrightarrow> exclusive (total_hold opts (as_mine s)))
         \<and> as_agents s = admitted_agents run + agents
         \<and> as_sessions s = us_agentSessions (run_usage run) + int agents
         \<and> (agents > 0 \<longrightarrow> int (as_agents s) \<le> li_maxConcurrentAgents li
             \<and> as_sessions s \<le> li_maxAgentSessions li \<and> \<not> graphRunTokensExhausted run)
         \<and> (ho_worktrees (as_mine s) > ho_worktrees (graphRunWorkspaceHold run) \<longrightarrow>
             ho_worktrees (as_mine s) + ho_worktrees (ao_others opts) \<le> maxLiveWorktreesPerEnvironment)
         \<and> list_all (\<lambda>c. ac_agent c = (pn_kind (ac_node c) = KAgent)) admits)"

lemma add_exclusive:
  assumes "workspace_block opts access w s = None" and "exclusive (total_hold opts (as_mine s))"
  shows "exclusive (total_hold opts (addHold (as_mine s) access w))"
proof -
  have allowed: "graphWorkspaceAllows (plus_hold (as_mine s) (ao_others opts)) access"
    "graphWorkspaceAllows (external_part opts) access"
    using assms(1) by (auto simp: workspace_block_def external_part_def NO_HOLD_def graphWorkspaceAllows_def
        split: if_splits external.splits ws_access.splits)
  then show ?thesis
    using assms(2)
    by (cases access) (auto simp: graphWorkspaceAllows_def exclusive_def total_hold_def plus_hold_def
        addHold_def Let_def)
qed

lemma push_admit_simps [simp]:
  "ad_admit (as_decision (push_admit k n s)) =
     ad_admit (as_decision s) @ [\<lparr>ac_key = k, ac_node = n, ac_agent = (pn_kind n = KAgent)\<rparr>]"
  "as_mine (push_admit k n s) = as_mine s"
  "as_agents (push_admit k n s) = as_agents s + (if pn_kind n = KAgent then 1 else 0)"
  "as_sessions (push_admit k n s) = as_sessions s + (if pn_kind n = KAgent then 1 else 0)"
  "ad_blocked (as_decision (push_admit k n s)) = ad_blocked (as_decision s)"
  "ad_exhausted (as_decision (push_admit k n s)) = ad_exhausted (as_decision s)"
  "as_writerWaiting (push_admit k n s) = as_writerWaiting s"
  by (simp_all add: push_defs)

lemma admission_inv_cong:
  "ad_admit (as_decision s') = ad_admit (as_decision s) \<Longrightarrow> as_mine s' = as_mine s \<Longrightarrow>
    as_agents s' = as_agents s \<Longrightarrow> as_sessions s' = as_sessions s \<Longrightarrow>
    admission_inv run opts s' = admission_inv run opts s"
  by (simp add: admission_inv_def)

lemma admission_step_inv:
  assumes inv: "admission_inv run opts s"
  shows "admission_inv run opts (admission_step run opts a s)"
  using admission_step_kind [of run opts a s]
proof cases
  case (exhausted n m)
  then show ?thesis using inv admission_inv_cong [of "push_exhausted (act_key a) m s" s]
    by (simp add: push_defs)
next
  case (blocked n keep b)
  let ?s = "admission_step run opts a s"
  have "ad_admit (as_decision ?s) = ad_admit (as_decision s)" "as_mine ?s = as_mine s"
    "as_agents ?s = as_agents s" "as_sessions ?s = as_sessions s"
    using blocked(3,4) by (cases "keep \<and> graphMainWorkspaceAccess n = AccWrite"; simp add: push_defs)+
  from admission_inv_cong [OF this] inv show ?thesis by simp
next
  case (admitted n)
  let ?limits = "plan_limits (run_plan run)" and ?run = "graphRunWorkspaceHold run"
  let ?admits = "ad_admit (as_decision s)"
  let ?mine = "if graphMainWorkspaceAccess n = AccNone then as_mine s
    else addHold (as_mine s) (graphMainWorkspaceAccess n) (graphNodeIsolated n)"
  let ?s = "admission_step run opts a s" and ?c = "\<lparr>ac_key = act_key a, ac_node = n, ac_agent = (pn_kind n = KAgent)\<rparr>"
  have proj: "ad_admit (as_decision ?s) = ?admits @ [?c]" "as_mine ?s = ?mine"
    "as_agents ?s = as_agents s + (if pn_kind n = KAgent then 1 else 0)"
    "as_sessions ?s = as_sessions s + (if pn_kind n = KAgent then 1 else 0)"
    by (simp_all add: admitted(5))
  have held: "?mine = held_after ?run (?admits @ [?c])"
    using inv by (simp add: admission_inv_def Let_def held_after_snoc candidate_access_def)
  have before: "exclusive (total_hold opts ?run) \<longrightarrow> exclusive (total_hold opts (as_mine s))"
    using inv unfolding admission_inv_def Let_def by blast
  have excl: "exclusive (total_hold opts ?run) \<longrightarrow> exclusive (total_hold opts ?mine)"
  proof (cases "graphMainWorkspaceAccess n = AccNone")
    case False
    with admitted(4) have "workspace_block opts (graphMainWorkspaceAccess n) (graphNodeIsolated n) s = None"
      by blast
    from add_exclusive [OF this] before False show ?thesis by (simp only: if_False) blast
  qed (use before in simp)
  have trees: "ho_worktrees ?mine > ho_worktrees ?run \<longrightarrow>
      ho_worktrees ?mine + ho_worktrees (ao_others opts) \<le> maxLiveWorktreesPerEnvironment"
  proof (cases "graphMainWorkspaceAccess n = AccNone \<or> \<not> graphNodeIsolated n")
    case True
    then have "ho_worktrees ?mine = ho_worktrees (as_mine s)" by (auto simp: addHold_def Let_def)
    then show ?thesis using inv unfolding admission_inv_def Let_def by metis
  next
    case False
    then have "ho_worktrees (as_mine s) + ho_worktrees (ao_others opts) < maxLiveWorktreesPerEnvironment"
      using admitted(4) by (auto simp: workspace_block_def split: if_splits external.splits)
    moreover have "ho_worktrees ?mine = Suc (ho_worktrees (as_mine s))"
      using False by (simp add: addHold_def Let_def)
    ultimately show ?thesis by simp
  qed
  have limits: "length (filter ac_agent (?admits @ [?c])) > 0 \<longrightarrow>
      int (as_agents ?s) \<le> li_maxConcurrentAgents ?limits \<and> as_sessions ?s \<le> li_maxAgentSessions ?limits
      \<and> \<not> graphRunTokensExhausted run"
  proof (cases "pn_kind n = KAgent")
    case True
    then show ?thesis using admitted(3) by (simp add: proj)
  next
    case False
    have "length (filter ac_agent ?admits) > 0 \<longrightarrow> int (as_agents s) \<le> li_maxConcurrentAgents ?limits
        \<and> as_sessions s \<le> li_maxAgentSessions ?limits \<and> \<not> graphRunTokensExhausted run"
      using inv unfolding admission_inv_def Let_def by blast
    with False show ?thesis by (simp add: proj)
  qed
  show ?thesis
    unfolding admission_inv_def Let_def
    using held excl trees limits inv
    by (simp only: proj) (simp add: admission_inv_def Let_def)
qed (use inv in simp)

lemma admission_start_inv: "admission_inv run opts (admission_start run)"
  by (simp add: admission_inv_def admission_start_def held_after_def Let_def)

lemma admission_pass_inv:
  "admission_inv run opts s \<Longrightarrow> admission_inv run opts (admission_pass run opts as s)"
  unfolding admission_pass_def
  by (induction as arbitrary: s) (simp_all add: admission_step_inv)

definition admission_node :: "string \<Rightarrow> ws_access \<Rightarrow> plan_node" where
  "admission_node i access =
     \<lparr>pn_id = i, pn_kind = KAgent, pn_subgraph = None, pn_loop = None, pn_inputs = [],
      pn_when = None, pn_workspaceAccess = access, pn_onFailure = FailRun, pn_retryAttempts = 0,
      pn_retryOn = [], pn_isolation = None, pn_role = [], pn_replicate = None, pn_strategy = [],
      pn_timeoutMs = None\<rparr>"

text \<open>A reader runs, a writer is ready behind it, and a node without workspace access is ready last.\<close>

definition admission_run :: graph_run where
  "admission_run =
     (let run = example_run [example_activation ''r'' ''read'' Running, example_activation ''w'' ''write'' Ready,
                             example_activation ''n'' ''none'' Ready]
      in run\<lparr>run_plan := (run_plan run)\<lparr>
           plan_nodes := [admission_node ''read'' AccRead, admission_node ''write'' AccWrite, admission_node ''none'' AccNone],
           plan_limits := \<lparr>li_maxAgentSessions = 10, li_maxConcurrentAgents = 4, li_maxTokens = None, li_maxWallClockMs = None\<rparr>\<rparr>\<rparr>)"

definition free_options :: admission_options where
  "free_options = \<lparr>ao_others = NO_HOLD, ao_known = True, ao_external = ExtAbsent\<rparr>"

lemmas admission_eval = admission_run_def admission_node_def free_options_def example_eval NO_HOLD_def
  graphRunWorkspaceHold_def hold_step_def plan_node_of_def isGraphActivationAdmitted_def addHold_def Let_def
  graphMainWorkspaceAccess_def graphNodeIsolated_def selectGraphAdmissions_def admission_pass_def
  admission_start_def admitted_agents_def admission_step_def graphRunTokensExhausted_def admit_node_def
  workspace_block_def graphWorkspaceAllows_def plus_hold_def push_admit_def push_blocked_def waits_def
  plain_block_def held_after_def candidate_access_def exclusive_def total_hold_def external_part_def

lemma admission_run_admits:
  "selectGraphAdmissions admission_run free_options =
     \<lparr>ad_admit = [\<lparr>ac_key = ''n'', ac_node = admission_node ''none'' AccNone, ac_agent = True\<rparr>],
      ad_blocked = [(''w'', plain_block ''workspace-lock'')], ad_exhausted = []\<rparr>"
  by (simp add: admission_eval)

text \<open>C26. Admission keeps the workspace exclusive (D3): when the run's admitted activations, the other
  runs and the other engines hold at most one writer and no reader beside it, they still do once every
  activation the pass admits holds what its node declares.\<close>

theorem admissions_exclusive:
  assumes "exclusive (total_hold opts (graphRunWorkspaceHold run))"
  shows "exclusive (total_hold opts
    (held_after (graphRunWorkspaceHold run) (ad_admit (selectGraphAdmissions run opts))))"
proof -
  let ?s = "admission_pass run opts (run_activations run) (admission_start run)"
  have "admission_inv run opts ?s" by (rule admission_pass_inv [OF admission_start_inv])
  then have "as_mine ?s = held_after (graphRunWorkspaceHold run) (ad_admit (as_decision ?s))"
    "exclusive (total_hold opts (as_mine ?s))"
    using assms unfolding admission_inv_def Let_def by blast+
  then show ?thesis by (simp only: selectGraphAdmissions_def)
qed

theorem admissions_exclusive_witness:
  "exclusive (total_hold free_options
    (held_after (graphRunWorkspaceHold admission_run) (ad_admit (selectGraphAdmissions admission_run free_options))))"
  by (rule admissions_exclusive) (simp add: admission_eval)

text \<open>C32. Admission respects the run's limits: with an agent admitted, the admitted agents are within
  \<open>maxConcurrentAgents\<close>, the sessions counted at admission within \<open>maxAgentSessions\<close> and the token
  meter is not reached; with a worktree admitted, the environment's worktrees are within their
  bound.\<close>

theorem admissions_within_limits:
  assumes "admits = ad_admit (selectGraphAdmissions run opts)"
    and "agents = length (filter (\<lambda>c. pn_kind (ac_node c) = KAgent) admits)"
    and "after = held_after (graphRunWorkspaceHold run) admits"
  shows "(agents > 0 \<longrightarrow>
      int (admitted_agents run + agents) \<le> li_maxConcurrentAgents (plan_limits (run_plan run))
      \<and> us_agentSessions (run_usage run) + int agents \<le> li_maxAgentSessions (plan_limits (run_plan run))
      \<and> \<not> graphRunTokensExhausted run)
    \<and> (ho_worktrees after > ho_worktrees (graphRunWorkspaceHold run) \<longrightarrow>
      ho_worktrees after + ho_worktrees (ao_others opts) \<le> maxLiveWorktreesPerEnvironment)"
proof -
  let ?s = "admission_pass run opts (run_activations run) (admission_start run)"
  have inv: "admission_inv run opts ?s" by (rule admission_pass_inv [OF admission_start_inv])
  have "filter ac_agent admits = filter (\<lambda>c. pn_kind (ac_node c) = KAgent) admits"
    using inv assms(1) by (intro filter_cong)
      (auto simp: admission_inv_def Let_def selectGraphAdmissions_def list_all_iff)
  then have "agents = length (filter ac_agent (ad_admit (as_decision ?s)))"
    using assms(1,2) by (simp add: selectGraphAdmissions_def)
  moreover have "after = as_mine ?s"
    using inv assms(1,3) unfolding admission_inv_def Let_def selectGraphAdmissions_def by metis
  ultimately show ?thesis using inv unfolding admission_inv_def Let_def by (metis of_nat_add)
qed

theorem admissions_within_limits_witness:
  "int (admitted_agents admission_run + 1) \<le> 4"
  using admissions_within_limits [OF refl refl refl, of admission_run free_options]
  unfolding admission_run_admits by (simp add: admission_eval)

section \<open>Every ready activation is decided once, and writers are not overtaken\<close>

definition decided_keys :: "admission_decision \<Rightarrow> string multiset" where
  "decided_keys d = mset (map ac_key (ad_admit d)) + mset (map fst (ad_blocked d)) + mset (map fst (ad_exhausted d))"

definition decidable :: "graph_run \<Rightarrow> activation \<Rightarrow> bool" where
  "decidable run a \<longleftrightarrow> act_state a = Ready \<and> plan_node_of (run_plan run) (act_nodeId a) \<noteq> None"

lemma step_decides:
  "decided_keys (as_decision (admission_step run opts a s)) =
     decided_keys (as_decision s) + (if decidable run a then {#act_key a#} else {#})"
  using admission_step_kind [of run opts a s]
proof cases
  case (blocked n keep b)
  then have "as_decision (admission_step run opts a s) =
      (as_decision s)\<lparr>ad_blocked := ad_blocked (as_decision s) @ [(act_key a, b)]\<rparr>"
    by (cases "keep \<and> graphMainWorkspaceAccess n = AccWrite") (simp_all add: push_defs)
  then show ?thesis using blocked(1,2) by (simp add: decided_keys_def decidable_def)
next
  case (admitted n)
  then show ?thesis
    by (cases "graphMainWorkspaceAccess n = AccNone") (simp_all add: decided_keys_def decidable_def)
qed (auto simp: decided_keys_def decidable_def push_defs)

lemma pass_decides:
  "decided_keys (as_decision (admission_pass run opts as s)) =
     decided_keys (as_decision s) + mset (map act_key (filter (decidable run) as))"
  unfolding admission_pass_def
  by (induction as arbitrary: s) (simp_all add: step_decides)

text \<open>Every ready activation of a plan node is decided exactly once: admitted, blocked with a
  reason, or refused for good. Nothing else is.\<close>

theorem admissions_decide_all:
  "decided_keys (selectGraphAdmissions run opts) =
     mset (map act_key (filter (\<lambda>a. act_state a = Ready
       \<and> plan_node_of (run_plan run) (act_nodeId a) \<noteq> None) (run_activations run)))"
  by (simp add: selectGraphAdmissions_def pass_decides decidable_def [abs_def])
    (simp add: admission_start_def decided_keys_def)

lemma step_admits:
  "\<exists>new. ad_admit (as_decision (admission_step run opts a s)) = ad_admit (as_decision s) @ new
     \<and> (\<forall>c\<in>set new. ac_key c = act_key a \<and> (as_writerWaiting s \<longrightarrow> candidate_access c = AccNone))
     \<and> (as_writerWaiting s \<longrightarrow> as_writerWaiting (admission_step run opts a s))"
  using admission_step_kind [of run opts a s]
proof cases
  case (blocked n keep b)
  then show ?thesis
    by (cases "keep \<and> graphMainWorkspaceAccess n = AccWrite") (simp_all add: push_defs)
next
  case (admitted n)
  have "as_writerWaiting s \<longrightarrow> graphMainWorkspaceAccess n = AccNone"
    using admitted(4) by (auto simp: workspace_block_def split: if_splits)
  then show ?thesis
    using admitted(5) by (cases "graphMainWorkspaceAccess n = AccNone") (simp_all add: candidate_access_def)
qed (simp_all add: push_defs)

lemma pass_admits:
  "\<exists>new. ad_admit (as_decision (admission_pass run opts as s)) = ad_admit (as_decision s) @ new
     \<and> (\<forall>c\<in>set new. ac_key c \<in> act_key ` set as \<and> (as_writerWaiting s \<longrightarrow> candidate_access c = AccNone))"
  unfolding admission_pass_def
proof (induction as arbitrary: s)
  case (Cons a as)
  obtain new where new: "ad_admit (as_decision (admission_step run opts a s)) = ad_admit (as_decision s) @ new"
    "\<forall>c\<in>set new. ac_key c = act_key a \<and> (as_writerWaiting s \<longrightarrow> candidate_access c = AccNone)"
    "as_writerWaiting s \<longrightarrow> as_writerWaiting (admission_step run opts a s)"
    using step_admits by metis
  obtain rest where rest: "ad_admit (as_decision (fold (admission_step run opts) as (admission_step run opts a s)))
      = ad_admit (as_decision (admission_step run opts a s)) @ rest"
    "\<forall>c\<in>set rest. ac_key c \<in> act_key ` set as
       \<and> (as_writerWaiting (admission_step run opts a s) \<longrightarrow> candidate_access c = AccNone)"
    using Cons.IH [of "admission_step run opts a s"] by blast
  show ?case by (intro exI [of _ "new @ rest"]) (use new rest in auto)
qed simp

lemma step_blocked:
  "\<exists>new. ad_blocked (as_decision (admission_step run opts a s)) = ad_blocked (as_decision s) @ new
     \<and> (\<forall>p\<in>set new. fst p = act_key a)
     \<and> (\<forall>n p. p \<in> set new \<longrightarrow> plan_node_of (run_plan run) (act_nodeId a) = Some n \<longrightarrow>
          graphMainWorkspaceAccess n = AccWrite \<longrightarrow>
          bl_reason (snd p) \<in> {''workspace-lock'', ''external-workflow''} \<longrightarrow>
          as_writerWaiting (admission_step run opts a s))"
  using admission_step_kind [of run opts a s]
proof cases
  case (blocked n keep b)
  then show ?thesis
    by (cases "keep \<and> graphMainWorkspaceAccess n = AccWrite") (auto simp: push_defs)
next
  case (admitted n)
  then show ?thesis by (cases "graphMainWorkspaceAccess n = AccNone") simp_all
qed (simp_all add: push_defs)

lemma pass_blocked:
  "\<exists>new. ad_blocked (as_decision (admission_pass run opts as s)) = ad_blocked (as_decision s) @ new
     \<and> (\<forall>p\<in>set new. fst p \<in> act_key ` set as)"
  unfolding admission_pass_def
proof (induction as arbitrary: s)
  case (Cons a as)
  obtain new where new: "ad_blocked (as_decision (admission_step run opts a s)) = ad_blocked (as_decision s) @ new"
    "\<forall>p\<in>set new. fst p = act_key a"
    using step_blocked [of run opts a s] by blast
  obtain rest where rest: "ad_blocked (as_decision (fold (admission_step run opts) as (admission_step run opts a s)))
      = ad_blocked (as_decision (admission_step run opts a s)) @ rest" "\<forall>p\<in>set rest. fst p \<in> act_key ` set as"
    using Cons.IH by blast
  show ?case by (intro exI [of _ "new @ rest"]) (use new rest in auto)
qed simp

text \<open>C30. A writer that waits for the workspace is not overtaken: nothing later in the record that
  uses the workspace is admitted in the same pass.\<close>

theorem blocked_writer_not_overtaken:
  assumes "run_activations run = xs @ a # ys" and "distinct (map act_key (run_activations run))"
    and "plan_node_of (run_plan run) (act_nodeId a) = Some n" and "graphMainWorkspaceAccess n = AccWrite"
    and "(act_key a, b) \<in> set (ad_blocked (selectGraphAdmissions run opts))"
    and "bl_reason b \<in> {''workspace-lock'', ''external-workflow''}"
    and "c \<in> set (ad_admit (selectGraphAdmissions run opts))" and "ac_key c \<in> act_key ` set ys"
  shows "graphMainWorkspaceAccess (ac_node c) = AccNone"
proof -
  let ?s1 = "admission_pass run opts xs (admission_start run)"
  let ?s2 = "admission_step run opts a ?s1"
  let ?s3 = "admission_pass run opts ys ?s2"
  have d: "selectGraphAdmissions run opts = as_decision ?s3"
    by (simp add: selectGraphAdmissions_def assms(1) admission_pass_def)
  have fresh: "act_key a \<notin> act_key ` set xs" "act_key a \<notin> act_key ` set ys"
    "act_key ` set (xs @ [a]) \<inter> act_key ` set ys = {}"
    using assms(1,2) by auto
  obtain b1 where b1: "ad_blocked (as_decision ?s1) = b1" "\<forall>p\<in>set b1. fst p \<in> act_key ` set xs"
    using pass_blocked [of run opts xs "admission_start run"] by (auto simp: admission_start_def)
  obtain b2 where b2: "ad_blocked (as_decision ?s2) = b1 @ b2"
    "\<forall>n p. p \<in> set b2 \<longrightarrow> plan_node_of (run_plan run) (act_nodeId a) = Some n \<longrightarrow>
       graphMainWorkspaceAccess n = AccWrite \<longrightarrow>
       bl_reason (snd p) \<in> {''workspace-lock'', ''external-workflow''} \<longrightarrow> as_writerWaiting ?s2"
    using step_blocked [of run opts a ?s1] b1(1) by blast
  obtain b3 where b3: "ad_blocked (as_decision ?s3) = (b1 @ b2) @ b3" "\<forall>p\<in>set b3. fst p \<in> act_key ` set ys"
    using pass_blocked [of run opts ys ?s2] b2(1) by auto
  have "(act_key a, b) \<notin> set b1" using b1(2) fresh(1) by auto
  moreover have "(act_key a, b) \<notin> set b3" using b3(2) fresh(2) by auto
  ultimately have "(act_key a, b) \<in> set b2" using assms(5) d b3(1) by simp
  then have waiting: "as_writerWaiting ?s2" using b2(2) assms(3,4,6) by auto
  obtain a1 where a1: "ad_admit (as_decision ?s1) = a1" "\<forall>c\<in>set a1. ac_key c \<in> act_key ` set xs"
    using pass_admits [of run opts xs "admission_start run"] by (auto simp: admission_start_def)
  obtain a2 where a2: "ad_admit (as_decision ?s2) = a1 @ a2" "\<forall>c\<in>set a2. ac_key c = act_key a"
    using step_admits [of run opts a ?s1] a1(1) by blast
  obtain a3 where a3: "ad_admit (as_decision ?s3) = (a1 @ a2) @ a3"
    "\<forall>c\<in>set a3. candidate_access c = AccNone"
    using pass_admits [of run opts ys ?s2] a2(1) waiting by auto
  have "c \<notin> set a1" using a1(2) assms(8) fresh(3) by auto
  moreover have "c \<notin> set a2" using a2(2) assms(8) fresh(2) by auto
  ultimately have "c \<in> set a3" using assms(7) d a3(1) by simp
  then show ?thesis using a3(2) by (simp add: candidate_access_def)
qed

theorem blocked_writer_not_overtaken_witness:
  "graphMainWorkspaceAccess (admission_node ''none'' AccNone) = AccNone"
proof -
  have "graphMainWorkspaceAccess (ac_node \<lparr>ac_key = ''n'', ac_node = admission_node ''none'' AccNone,
      ac_agent = True\<rparr>) = AccNone"
    by (rule blocked_writer_not_overtaken [where run = admission_run and opts = free_options
          and xs = "[example_activation ''r'' ''read'' Running]" and a = "example_activation ''w'' ''write'' Ready"
          and ys = "[example_activation ''n'' ''none'' Ready]" and n = "admission_node ''write'' AccWrite"
          and b = "plain_block ''workspace-lock''"], unfold admission_run_admits)
      (simp_all add: admission_run_def admission_node_def example_eval plan_node_of_def plain_block_def
        graphMainWorkspaceAccess_def graphNodeIsolated_def Let_def)
  then show ?thesis by simp
qed

end
