(* ===== verification/Workspace_Locks.thy ===== *)
theory Workspace_Locks
  imports Admission
begin

text \<open>
  The lock table of \<^verbatim>\<open>graph-run-scheduling.ts\<close> against its contract: a map from runs to the
  workspace they hold and what they hold there. Every sequence of calls keeps the two maps of the
  table consistent and answers what the abstract map answers.
\<close>

section \<open>Reading the table\<close>

lemma obj_get_del [simp]: "obj_get (obj_del k ps) k' = (if k' = k then None else obj_get ps k')"
  by (induction ps) (auto simp: obj_del_def)

lemma distinct_obj_del: "distinct (map fst ps) \<Longrightarrow> distinct (map fst (obj_del k ps))"
  by (simp add: obj_del_def distinct_map_filter)

lemma obj_get_ext: "obj_get ps k = Some v \<Longrightarrow> ps \<noteq> []"
  by (cases ps) (auto simp: obj_get_def)

definition hold_at :: "locks \<Rightarrow> string \<Rightarrow> string \<Rightarrow> hold option" where
  "hold_at t w r = (case obj_get (lk_byWorkspace t) w of None \<Rightarrow> None | Some runs \<Rightarrow> obj_get runs r)"

definition rows_ok :: "locks \<Rightarrow> bool" where
  "rows_ok t \<longleftrightarrow> distinct (map fst (lk_byWorkspace t))
     \<and> (\<forall>w runs. obj_get (lk_byWorkspace t) w = Some runs \<longrightarrow> runs \<noteq> [] \<and> distinct (map fst runs))"

text \<open>A run is listed where its entry says, with something held, and nowhere else.\<close>

definition lk_inv :: "locks \<Rightarrow> bool" where
  "lk_inv t \<longleftrightarrow> rows_ok t
     \<and> (\<forall>w r. obj_get (lk_workspaceOf t) r = Some w \<longleftrightarrow> hold_at t w r \<noteq> None)"

definition holdings :: "locks \<Rightarrow> string \<Rightarrow> (string \<times> hold) option" where
  "holdings t r = (case obj_get (lk_workspaceOf t) r of
     None \<Rightarrow> None | Some w \<Rightarrow> map_option (Pair w) (hold_at t w r))"

lemma lk_inv_at: "lk_inv t \<Longrightarrow> obj_get (lk_workspaceOf t) r = Some w \<longleftrightarrow> hold_at t w r \<noteq> None"
  by (simp only: lk_inv_def)

lemma holdings_iff:
  assumes "lk_inv t"
  shows "holdings t r = Some (w, h) \<longleftrightarrow> hold_at t w r = Some h"
proof (cases "obj_get (lk_workspaceOf t) r")
  case None
  then have "hold_at t w r = None" using lk_inv_at [OF assms, of r w] by simp
  with None show ?thesis by (simp add: holdings_def)
next
  case (Some v)
  then have "w \<noteq> v \<Longrightarrow> hold_at t w r = None" using lk_inv_at [OF assms, of r w] by simp
  with Some show ?thesis by (cases "w = v") (auto simp: holdings_def)
qed

lemma run_hold_holdings:
  "run_hold t r = (case holdings t r of None \<Rightarrow> NO_HOLD | Some (w, h) \<Rightarrow> h)"
  by (auto simp: run_hold_def holdings_def hold_at_def get_or_def split: option.splits)

lemma no_locks_inv: "lk_inv no_locks"
  by (simp add: lk_inv_def rows_ok_def no_locks_def hold_at_def)

section \<open>The operations\<close>

lemma release_reads:
  assumes "lk_inv t"
  shows "rows_ok (release r t)"
    and "hold_at (release r t) w q = (if q = r then None else hold_at t w q)"
    and "obj_get (lk_workspaceOf (release r t)) q = (if q = r then None else obj_get (lk_workspaceOf t) q)"
proof -
  note rows = assms [unfolded lk_inv_def rows_ok_def]
  have "rows_ok (release r t)
    \<and> hold_at (release r t) w q = (if q = r then None else hold_at t w q)
    \<and> obj_get (lk_workspaceOf (release r t)) q = (if q = r then None else obj_get (lk_workspaceOf t) q)"
  proof (cases "obj_get (lk_workspaceOf t) r")
    case None
    with rows have "hold_at t w r = None" by force
    with None rows show ?thesis by (simp add: release_def rows_ok_def)
  next
    case (Some v)
    with rows have "hold_at t v r \<noteq> None" by blast
    then obtain runs where runs: "obj_get (lk_byWorkspace t) v = Some runs" "obj_get runs r \<noteq> None"
      by (auto simp: hold_at_def split: option.splits)
    have other: "hold_at t w r = None" if "w \<noteq> v" using rows Some that by (metis option.inject)
    show ?thesis
    proof (cases "obj_del r runs = []")
      case True
      then have gone: "obj_get runs q = None" if "q \<noteq> r" for q
        using that obj_get_del [of r runs q] by simp
      have "release r t = \<lparr>lk_byWorkspace = obj_del v (lk_byWorkspace t), lk_workspaceOf = obj_del r (lk_workspaceOf t)\<rparr>"
        using True by (simp add: release_def Some runs)
      then show ?thesis
        using rows other gone runs(1) by (auto simp: rows_ok_def hold_at_def distinct_obj_del)
    next
      case False
      have "release r t = \<lparr>lk_byWorkspace = obj_set v (obj_del r runs) (lk_byWorkspace t),
          lk_workspaceOf = obj_del r (lk_workspaceOf t)\<rparr>"
        using False by (simp add: release_def Some runs)
      then show ?thesis
        using rows other False runs(1) by (auto simp: rows_ok_def hold_at_def distinct_obj_del)
    qed
  qed
  then show "rows_ok (release r t)"
    and "hold_at (release r t) w q = (if q = r then None else hold_at t w q)"
    and "obj_get (lk_workspaceOf (release r t)) q = (if q = r then None else obj_get (lk_workspaceOf t) q)"
    by blast+
qed

lemma release_inv: "lk_inv t \<Longrightarrow> lk_inv (release r t)"
  by (subst lk_inv_def) (simp add: release_reads, simp add: lk_inv_def)

lemma release_holdings: "lk_inv t \<Longrightarrow> holdings (release r t) = (holdings t)(r := None)"
  by (rule ext) (simp add: holdings_def release_reads split: option.splits)

text \<open>Entering a run that is listed nowhere else.\<close>

definition put_hold :: "string \<Rightarrow> string \<Rightarrow> hold \<Rightarrow> locks \<Rightarrow> locks" where
  "put_hold r w h t =
     t\<lparr>lk_byWorkspace := obj_set w (obj_set r h (get_or [] (obj_get (lk_byWorkspace t) w))) (lk_byWorkspace t),
       lk_workspaceOf := obj_set r w (lk_workspaceOf t)\<rparr>"

lemma obj_set_not_Nil [simp]: "obj_set k v ps \<noteq> []"
  by (cases "(k, v, ps)" rule: obj_set.cases) auto

lemma put_reads:
  "hold_at (put_hold r w h t) v q = (if v = w \<and> q = r then Some h else hold_at t v q)"
  "obj_get (lk_workspaceOf (put_hold r w h t)) q = (if q = r then Some w else obj_get (lk_workspaceOf t) q)"
  "rows_ok t \<Longrightarrow> rows_ok (put_hold r w h t)"
  by (auto simp: hold_at_def put_hold_def get_or_def rows_ok_def split: option.splits)

lemma put_inv:
  assumes "lk_inv t" and "obj_get (lk_workspaceOf t) r \<in> {None, Some w}"
  shows "lk_inv (put_hold r w h t)"
proof -
  have "hold_at t v r = None" if "v \<noteq> w" for v
    using assms that unfolding lk_inv_def by (metis insertE option.distinct(1) option.inject singletonD)
  then show ?thesis using assms by (auto simp: lk_inv_def put_reads)
qed

lemma put_holdings: "holdings (put_hold r w h t) = (holdings t)(r \<mapsto> (w, h))"
  by (rule ext) (simp add: holdings_def put_reads split: option.splits)

lemma set_hold_table:
  "snd (set_hold r workspace h t) =
     (let t = (if obj_get (lk_workspaceOf t) r \<noteq> None \<and> obj_get (lk_workspaceOf t) r \<noteq> workspace
               then release r t else t)
      in case workspace of
           None \<Rightarrow> release r t
         | Some w \<Rightarrow> if holds_nothing h then release r t else put_hold r w h t)"
  by (cases workspace) (simp_all only: set_hold_def put_hold_def Let_def snd_conv option.case)

section \<open>The contract\<close>

datatype lock_event = SetHold string "string option" hold | Release string

fun lock_op :: "locks \<Rightarrow> lock_event \<Rightarrow> locks" where
  "lock_op t (SetHold r w h) = snd (set_hold r w h t)"
| "lock_op t (Release r) = release r t"

type_synonym held_map = "string \<Rightarrow> (string \<times> hold) option"

fun lock_spec :: "held_map \<Rightarrow> lock_event \<Rightarrow> held_map" where
  "lock_spec m (SetHold r w h) = m(r := (case w of None \<Rightarrow> None | Some v \<Rightarrow> if holds_nothing h then None else Some (v, h)))"
| "lock_spec m (Release r) = m(r := None)"

lemma lock_op_inv: "lk_inv t \<Longrightarrow> lk_inv (lock_op t e)"
proof (cases e)
  case (SetHold r w h)
  assume inv: "lk_inv t"
  let ?t = "if obj_get (lk_workspaceOf t) r \<noteq> None \<and> obj_get (lk_workspaceOf t) r \<noteq> w then release r t else t"
  have "lk_inv ?t" using inv by (simp add: release_inv)
  moreover have "w = Some v \<Longrightarrow> obj_get (lk_workspaceOf ?t) r \<in> {None, Some v}" for v
    using inv by (simp add: release_reads)
  ultimately show ?thesis
    by (cases w) (simp_all only: SetHold lock_op.simps set_hold_table Let_def option.case release_inv put_inv split: if_split, blast)
qed (simp add: release_inv)

lemma lock_op_spec:
  assumes inv: "lk_inv t"
  shows "holdings (lock_op t e) = lock_spec (holdings t) e"
proof (cases e)
  case (SetHold r w h)
  let ?t = "if obj_get (lk_workspaceOf t) r \<noteq> None \<and> obj_get (lk_workspaceOf t) r \<noteq> w then release r t else t"
  have "lk_inv ?t" and "(holdings ?t)(r := x) = (holdings t)(r := x)" for x
    using inv by (simp_all add: release_inv release_holdings)
  then have "holdings (release r ?t) = (holdings t)(r := None)"
    "holdings (put_hold r v h ?t) = (holdings t)(r \<mapsto> (v, h))" for v
    by (simp_all only: release_holdings put_holdings)
  then show ?thesis
    by (cases w) (simp_all only: SetHold lock_op.simps lock_spec.simps set_hold_table Let_def option.case if_True if_False split: if_split, simp)
qed (simp add: release_holdings inv)

text \<open>No call is refused, so the table is a machine whose steps always succeed.\<close>

definition lock_step :: "locks \<Rightarrow> lock_event \<Rightarrow> unit + locks" where
  "lock_step t e = Inr (lock_op t e)"

lemma run_lock_steps: "run_steps lock_step t es = Inr (foldl lock_op t es)"
  by (induction es arbitrary: t) (simp_all add: lock_step_def)

interpretation locktable: simulated_machine lock_step lk_inv "\<lambda>_. True" lock_spec "\<lambda>t m. holdings t = m"
  by unfold_locales (auto simp: lock_step_def lock_op_inv lock_op_spec)

lemma table_inv: "lk_inv (foldl lock_op no_locks es)"
  using locktable.run_inv [OF no_locks_inv _ run_lock_steps] by simp

lemma table_holdings: "holdings (foldl lock_op no_locks es) = foldl lock_spec (\<lambda>_. None) es"
proof -
  have "holdings no_locks = (\<lambda>_. None)" by (simp add: holdings_def no_locks_def fun_eq_iff)
  then show ?thesis using locktable.run_sim [OF no_locks_inv _ _ run_lock_steps] by simp
qed

section \<open>What the table answers\<close>

text \<open>The sum of a count over the runs other than one that hold a workspace.\<close>

definition share :: "held_map \<Rightarrow> string \<Rightarrow> string \<Rightarrow> (hold \<Rightarrow> nat) \<Rightarrow> nat" where
  "share m w r f = (\<Sum>q\<in>{q. q \<noteq> r \<and> (\<exists>h. m q = Some (w, h))}. f (snd (the (m q))))"

definition spec_others :: "held_map \<Rightarrow> string \<Rightarrow> string \<Rightarrow> hold" where
  "spec_others m w r = \<lparr>ho_writers = share m w r ho_writers, ho_readers = share m w r ho_readers,
     ho_worktrees = share m w r ho_worktrees\<rparr>"

definition spec_hold :: "held_map \<Rightarrow> string \<Rightarrow> hold" where
  "spec_hold m r = (case m r of None \<Rightarrow> NO_HOLD | Some (w, h) \<Rightarrow> h)"

lemma fold_others:
  "fold (\<lambda>(owner, h) total. if owner = r then total else plus_hold total h) runs acc =
     (let own = filter (\<lambda>p. fst p \<noteq> r) runs
      in plus_hold acc \<lparr>ho_writers = (\<Sum>p\<leftarrow>own. ho_writers (snd p)), ho_readers = (\<Sum>p\<leftarrow>own. ho_readers (snd p)),
           ho_worktrees = (\<Sum>p\<leftarrow>own. ho_worktrees (snd p))\<rparr>)"
  by (induction runs arbitrary: acc) (auto simp: plus_hold_def Let_def)

lemma row_share:
  assumes "lk_inv t" and row: "runs = get_or [] (obj_get (lk_byWorkspace t) w)"
  shows "(\<Sum>p\<leftarrow>filter (\<lambda>p. fst p \<noteq> r) runs. f (snd p)) = share (holdings t) w r f"
proof -
  let ?own = "filter (\<lambda>p. fst p \<noteq> r) runs"
  have dist: "distinct (map fst runs)"
    using assms by (cases "obj_get (lk_byWorkspace t) w") (simp_all add: lk_inv_def rows_ok_def get_or_def)
  have at: "hold_at t w q = obj_get runs q" for q
    by (simp add: row hold_at_def get_or_def split: option.splits)
  have mem: "(q, h) \<in> set runs \<longleftrightarrow> holdings t q = Some (w, h)" for q h
    by (simp only: holdings_iff [OF assms(1)] at obj_get_def map_of_eq_Some_iff [OF dist])
  have "(\<Sum>p\<leftarrow>?own. f (snd p)) = (\<Sum>p\<in>set ?own. f (snd p))"
    using dist by (intro sum_list_distinct_conv_sum_set) (simp add: distinct_map)
  also have "\<dots> = (\<Sum>q\<in>fst ` set ?own. f (snd (the (holdings t q))))"
  proof (subst sum.reindex)
    show "inj_on fst (set ?own)" using dist by (auto simp: distinct_map inj_on_def)
    show "(\<Sum>p\<in>set ?own. f (snd p)) = sum ((\<lambda>q. f (snd (the (holdings t q)))) \<circ> fst) (set ?own)"
      by (rule sum.cong) (auto simp: mem)
  qed
  also have "fst ` set ?own = {q. q \<noteq> r \<and> (\<exists>h. holdings t q = Some (w, h))}"
    using mem by (force simp: image_iff)
  finally show ?thesis by (simp add: share_def)
qed

lemma others_share: "lk_inv t \<Longrightarrow> others t w r = spec_others (holdings t) w r"
  by (simp add: others_def fold_others row_share [OF _ refl] spec_others_def plus_hold_def NO_HOLD_def Let_def)

lemma locks_size_card:
  assumes "lk_inv t"
  shows "locks_size t = card {w. \<exists>r h. holdings t r = Some (w, h)}"
proof -
  have "w \<in> fst ` set (lk_byWorkspace t) \<longleftrightarrow> (\<exists>r h. holdings t r = Some (w, h))" for w
  proof
    assume "w \<in> fst ` set (lk_byWorkspace t)"
    then obtain runs where runs: "obj_get (lk_byWorkspace t) w = Some runs"
      using obj_get_None_iff [of "lk_byWorkspace t" w] by auto
    then have "runs \<noteq> []" using assms by (auto simp: lk_inv_def rows_ok_def)
    then have "obj_get runs (fst (hd runs)) = Some (snd (hd runs))"
      by (cases runs) (simp_all add: obj_get_def)
    then show "\<exists>r h. holdings t r = Some (w, h)"
      using holdings_iff [OF assms, of "fst (hd runs)" w "snd (hd runs)"] runs by (auto simp: hold_at_def)
  next
    assume "\<exists>r h. holdings t r = Some (w, h)"
    then have "obj_get (lk_byWorkspace t) w \<noteq> None"
      using holdings_iff [OF assms] by (auto simp: hold_at_def split: option.splits)
    then show "w \<in> fst ` set (lk_byWorkspace t)" by (simp add: obj_get_None_iff)
  qed
  then have "fst ` set (lk_byWorkspace t) = {w. \<exists>r h. holdings t r = Some (w, h)}" by blast
  moreover have "card (fst ` set (lk_byWorkspace t)) = locks_size t"
    using assms distinct_card [of "map fst (lk_byWorkspace t)"] by (simp add: lk_inv_def rows_ok_def locks_size_def)
  ultimately show ?thesis by simp
qed

text \<open>C22. The lock table is the map it stands for: after any sequence of calls, what other runs hold
  of a workspace is the sum of their last holds there, a call reports a release exactly when the run
  held more of something before, and the table's size is the number of workspaces held.\<close>

theorem lock_table_refines:
  "others (foldl lock_op no_locks es) w r = spec_others (foldl lock_spec (\<lambda>_. None) es) w r
    \<and> fst (set_hold r workspace h (foldl lock_op no_locks es)) =
        (ho_writers h < ho_writers (spec_hold (foldl lock_spec (\<lambda>_. None) es) r)
         \<or> ho_readers h < ho_readers (spec_hold (foldl lock_spec (\<lambda>_. None) es) r)
         \<or> ho_worktrees h < ho_worktrees (spec_hold (foldl lock_spec (\<lambda>_. None) es) r))
    \<and> locks_size (foldl lock_op no_locks es) =
        card {v. \<exists>q x. foldl lock_spec (\<lambda>_. None) es q = Some (v, x)}"
  using others_share [OF table_inv, of es w r] locks_size_card [OF table_inv, of es]
  by (simp only: table_holdings run_hold_holdings spec_hold_def set_hold_def Let_def fst_conv simp_thms)

end
