(* ===== verification/Run_Pass.thy ===== *)
theory Run_Pass
  imports Scheduling Workspace_Locks "HOL-Library.Word"
begin

text \<open>
  One pass over a run (\<^verbatim>\<open>apps/backend/src/core/graph-run-pass.ts\<close>): what it does to the record and
  to the lock table between two awaited calls. Which executor calls are due, what their reports do,
  how surplus and cancelled work is stopped, how a run fails, which activations one round admits,
  the status the pass leaves and when the next pass is due.

  Executors, storage and clocks are outside: a call is a value, its report an argument, and the times
  are arguments (the monotonic clock in fractions of milliseconds). A cadence interval is at least
  three milliseconds. None in a result that may throw stands for an internal error.
\<close>

section \<open>Memory\<close>

record pass_memory =
  pm_handled :: "string list"
  pm_observedAt :: "(string \<times> rat) list"
  pm_observeAfter :: "(string \<times> rat option) list"
  pm_flagged :: "string list"
  pm_cancelAttempts :: "(string \<times> nat) list"
  pm_nextDelayMs :: "rat option"

definition prune :: "graph_run \<Rightarrow> pass_memory \<Rightarrow> pass_memory" where
  "prune run m =
     (let admitted = map act_key (filter (\<lambda>a. isGraphActivationAdmitted (act_state a)) (run_activations run));
          keep = (\<lambda>k. k \<in> set admitted)
      in m\<lparr>pm_handled := filter keep (pm_handled m), pm_flagged := filter keep (pm_flagged m),
           pm_observedAt := filter (\<lambda>p. keep (fst p)) (pm_observedAt m),
           pm_observeAfter := filter (\<lambda>p. keep (fst p)) (pm_observeAfter m),
           pm_cancelAttempts := filter (\<lambda>p. keep (fst p)) (pm_cancelAttempts m)\<rparr>)"

section \<open>Locks\<close>

definition graphRunLockedWorkspace :: "graph_run \<Rightarrow> string option" where
  "graphRunLockedWorkspace run = (if run_mock run then None else run_environmentId run)"

text \<open>The workspace whose waiters are woken, if the run released something, and the table.\<close>

definition syncLocks :: "graph_run \<Rightarrow> locks \<Rightarrow> string option \<times> locks" where
  "syncLocks run t =
     (let w = graphRunLockedWorkspace run;
          r = set_hold (run_id run) w
                (if isGraphRunTerminal (run_status run) then NO_HOLD else graphRunWorkspaceHold run) t
      in (if fst r \<and> w \<noteq> Some [] then w else None, snd r))"

section \<open>Which calls are due\<close>

datatype cancel_reason = ByTimeout | Surplus | RunCancelled | RunFailed

datatype operation = Start | Observe | Recover | Cancel cancel_reason

record executor_call =
  xc_activation :: activation
  xc_node :: plan_node
  xc_operation :: operation

definition nodeOf :: "graph_run \<Rightarrow> string \<Rightarrow> plan_node option" where
  "nodeOf run i = find (\<lambda>n. pn_id n = i) (plan_nodes (run_plan run))"

definition timedOut :: "(string \<Rightarrow> int option) \<Rightarrow> int \<Rightarrow> plan_node \<Rightarrow> activation \<Rightarrow> bool" where
  "timedOut date_parse clock n a =
     (case pn_timeoutMs n of
        None \<Rightarrow> False
      | Some ms \<Rightarrow>
          (case date_parse (get_or (act_createdAt a) (act_startedAt a)) of
             None \<Rightarrow> False | Some since \<Rightarrow> clock - since > ms))"

definition observationDue :: "rat \<Rightarrow> pass_memory \<Rightarrow> string \<Rightarrow> rat \<Rightarrow> bool" where
  "observationDue interval m key now =
     (if key \<in> set (pm_flagged m) then True
      else (case obj_get (pm_observedAt m) key of
              None \<Rightarrow> True
            | Some prev \<Rightarrow>
                (case get_or (Some interval) (obj_get (pm_observeAfter m) key) of
                   None \<Rightarrow> False | Some after \<Rightarrow> now - prev \<ge> after)))"

definition due_call ::
  "(string \<Rightarrow> int option) \<Rightarrow> int \<Rightarrow> rat \<Rightarrow> rat \<Rightarrow> pass_memory \<Rightarrow> string list \<Rightarrow> plan_node \<Rightarrow> activation
    \<Rightarrow> operation option" where
  "due_call date_parse clock interval now m surplus n a =
     (if timedOut date_parse clock n a then Some (Cancel ByTimeout)
      else if act_key a \<in> set surplus then Some (Cancel Surplus)
      else if act_key a \<notin> set (pm_handled m) then Some Recover
      else if act_state a = Admitting then Some Start
      else if observationDue interval m (act_key a) now then Some Observe else None)"

definition admitted_call :: "graph_run \<Rightarrow> (plan_node \<Rightarrow> activation \<Rightarrow> operation option) \<Rightarrow> activation \<Rightarrow> executor_call list" where
  "admitted_call run pick a =
     (if \<not> isGraphActivationAdmitted (act_state a) then []
      else (case nodeOf run (act_nodeId a) of
              None \<Rightarrow> []
            | Some n \<Rightarrow> (case pick n a of
                           None \<Rightarrow> [] | Some op \<Rightarrow> [\<lparr>xc_activation = a, xc_node = n, xc_operation = op\<rparr>])))"

definition observeAdmitted ::
  "(string \<Rightarrow> int option) \<Rightarrow> int \<Rightarrow> rat \<Rightarrow> rat \<Rightarrow> pass_memory \<Rightarrow> graph_run \<Rightarrow> executor_call list option" where
  "observeAdmitted date_parse clock interval now m run =
     do {
       surplus \<leftarrow> graphSurplusBranches run;
       Some (concat (map (admitted_call run (due_call date_parse clock interval now m (map act_key surplus)))
               (run_activations run)))
     }"

section \<open>Reports\<close>

definition pass_apply :: "string \<Rightarrow> facts \<Rightarrow> report_state \<Rightarrow> string \<Rightarrow> graph_run \<Rightarrow> transition_error + graph_run" where
  "pass_apply key f rep now run =
     (case applyGraphActivationReport run key f rep now of
        Inr out \<Rightarrow> Inr (out_run out)
      | Inl m \<Rightarrow> settleGraphActivation run key SFailed now (Some (units m, Some ''system-error'')))"

definition MAX_CANCEL_ATTEMPTS :: nat where "MAX_CANCEL_ATTEMPTS = 3"

definition unconfirmed :: "report_state \<Rightarrow> bool" where
  "unconfirmed rep \<longleftrightarrow> rep \<in> {RepUnchanged, RepRunning, RepAwaitingHuman}"

definition round_seconds :: "int \<Rightarrow> int" where
  "round_seconds ms = (ms + 500) div 1000"

definition applyCancel ::
  "executor_call \<Rightarrow> facts \<Rightarrow> report_state \<Rightarrow> string \<Rightarrow> graph_run \<times> pass_memory
    \<Rightarrow> transition_error + graph_run \<times> pass_memory" where
  "applyCancel call f rep now s =
     (let key = act_key (xc_activation call);
          timeout = (xc_operation call = Cancel ByTimeout);
          with = (\<lambda>m r. case r of Inl e \<Rightarrow> Inl e | Inr run \<Rightarrow> Inr (run, m))
      in if unconfirmed rep
         then (let attempts = get_or 0 (obj_get (pm_cancelAttempts (snd s)) key) + 1;
                   m = (snd s)\<lparr>pm_cancelAttempts := obj_set key attempts (pm_cancelAttempts (snd s))\<rparr>
               in if attempts < MAX_CANCEL_ATTEMPTS then Inr (fst s, m)
                  else with m (settleGraphActivation (fst s) key (if timeout then SFailed else SCancelled) now
                         (Some (units ''Stopping the activation could not be confirmed'',
                                Some (if timeout then ''timeout'' else ''system-error'')))))
         else (case rep of
                 RepCancelled err \<Rightarrow>
                   if timeout
                   then with (snd s) (pass_apply key f
                          (RepFailed (units (''Timed out after ''
                             @ show_int (round_seconds (get_or 0 (pn_timeoutMs (xc_node call)))) @ '' s'')) ''timeout'' None)
                          now (fst s))
                   else with (snd s) (pass_apply key f rep now (fst s))
               | _ \<Rightarrow> with (snd s) (pass_apply key f rep now (fst s))))"

section \<open>Stopping work\<close>

definition unstarted :: "act_state \<Rightarrow> bool" where
  "unstarted st \<longleftrightarrow> st \<in> {Waiting, Ready}"

text \<open>Every activation that has not been admitted is cancelled, in record order.\<close>

fun cancel_unstarted ::
  "(utf16 \<times> string option) option \<Rightarrow> string \<Rightarrow> activation list \<Rightarrow> graph_run \<Rightarrow> transition_error + graph_run" where
  "cancel_unstarted failure now [] run = Inr run"
| "cancel_unstarted failure now (a # as) run =
     (if unstarted (act_state a)
      then (case settleGraphActivation run (act_key a) SCancelled now failure of
              Inl e \<Rightarrow> Inl e | Inr run' \<Rightarrow> cancel_unstarted failure now as run')
      else cancel_unstarted failure now as run)"

definition cancelAdmitted :: "string \<Rightarrow> graph_run \<Rightarrow> transition_error + graph_run \<times> executor_call list" where
  "cancelAdmitted now run =
     (case cancel_unstarted None now (run_activations run) run of
        Inl e \<Rightarrow> Inl e
      | Inr r \<Rightarrow>
          Inr (r, concat (map (admitted_call r (\<lambda>n a. Some (Cancel (if run_error r = None then RunCancelled else RunFailed))))
                    (run_activations r))))"

definition GRAPH_SURPLUS_BRANCH_ERROR :: string where
  "GRAPH_SURPLUS_BRANCH_ERROR = ''Not needed: the fan-in collecting the first results already has them''"

text \<open>The surplus branches settled at once, the calls that stop the others and the keys now stopped.\<close>

definition cancelSurplus ::
  "string \<Rightarrow> string list \<Rightarrow> graph_run \<Rightarrow> (transition_error + graph_run \<times> executor_call list \<times> string list) option" where
  "cancelSurplus now stopped run =
     do {
       surplus \<leftarrow> graphSurplusBranches run;
       Some (case cancel_unstarted (Some (units GRAPH_SURPLUS_BRANCH_ERROR, None)) now surplus run of
               Inl e \<Rightarrow> Inl e
             | Inr r \<Rightarrow>
                 (let calls = concat (map (admitted_call r (\<lambda>n a. Some (Cancel Surplus)))
                                (filter (\<lambda>a. act_key a \<notin> set stopped) surplus))
                  in Inr (r, calls, stopped @ map (\<lambda>c. act_key (xc_activation c)) calls)))
     }"

section \<open>Failing a run\<close>

text \<open>The failed run, and whether a pass is owed at once to stop what is admitted.\<close>

definition failRun ::
  "utf16 \<times> string \<Rightarrow> string \<Rightarrow> graph_run \<Rightarrow> transition_error + graph_run \<times> bool" where
  "failRun failure now run =
     (case cancel_unstarted None now (run_activations run) run of
        Inl e \<Rightarrow> Inl e
      | Inr r \<Rightarrow>
          (let admitted = ra_admitted (graphRunActivity r)
           in (case transitionGraphRun r (if admitted > 0 then Cancelling else RFailed) now (Some failure) of
                 Inl e \<Rightarrow> Inl e | Inr r \<Rightarrow> Inr (r, admitted > 0))))"

definition passable :: "run_status \<Rightarrow> bool" where
  "passable st \<longleftrightarrow> st \<in> {RRunning, RWaiting, RPaused}"

definition enforceWallClock ::
  "(string \<Rightarrow> int option) \<Rightarrow> int \<Rightarrow> string \<Rightarrow> graph_run \<Rightarrow> transition_error + graph_run \<times> bool" where
  "enforceWallClock date_parse clock now run =
     (if \<not> passable (run_status run) \<or> \<not> graphRunWallClockExceeded date_parse run clock
      then Inr (run, False)
      else failRun (units (graphRunWallClockError run), ''budget-exceeded'') now run)"

section \<open>The status a pass leaves\<close>

definition missing_error :: "string list \<Rightarrow> utf16" where
  "missing_error missing = units (''Required outputs were not produced: '' @ join_with '', '' missing)"

definition settleStatus ::
  "string \<Rightarrow> planning option \<Rightarrow> graph_run \<Rightarrow> (transition_error + graph_run) option" where
  "settleStatus now p run =
     (let activity = graphRunActivity run; status = run_status run in
      if status = Cancelling
      then Some (if ra_admitted activity = 0
                 then transitionGraphRun run (if run_error run = None then RCancelled else RFailed) now None
                 else Inr run)
      else if \<not> passable status then Some (Inr run)
      else if status \<noteq> RPaused \<and> (case p of None \<Rightarrow> False | Some q \<Rightarrow> graphRunSettled run q)
      then do {
        missing \<leftarrow> missingGraphRunOutputs run;
        Some (if missing = [] then transitionGraphRun run RComplete now None
              else transitionGraphRun run RFailed now (Some (missing_error missing, ''system-error'')))
      }
      else if status = RPaused then Some (Inr run)
      else
        (let waiting = ra_awaitingHuman activity > 0 \<and> ra_admitted activity = ra_awaitingHuman activity
                       \<and> ra_ready activity = 0;
             nxt = (if waiting then RWaiting else RRunning)
         in Some (if nxt \<noteq> status then transitionGraphRun run nxt now None else Inr run)))"

section \<open>When the next pass is due\<close>

definition HUMAN_WAIT_MS :: rat where "HUMAN_WAIT_MS = 30000"

definition fnv_step :: "char \<Rightarrow> 32 word \<Rightarrow> 32 word" where
  "fnv_step c h = xor h (of_nat (of_char c)) * 16777619"

definition stableSpreadMs :: "string \<Rightarrow> rat \<Rightarrow> rat" where
  "stableSpreadMs key spread =
     (if spread \<le> 0 then 0 else of_int (uint (fold fnv_step key 2166136261) mod \<lfloor>spread\<rfloor>))"

record cadence =
  cd_progress :: rat
  cd_observation :: rat

text \<open>The earliest due time over the admitted activations; None stands for infinity.\<close>

definition min_due :: "rat option \<Rightarrow> rat option \<Rightarrow> rat option" where
  "min_due a b = (case (a, b) of (None, _) \<Rightarrow> b | (_, None) \<Rightarrow> a | (Some x, Some y) \<Rightarrow> Some (min x y))"

definition activation_due :: "cadence \<Rightarrow> pass_memory \<Rightarrow> rat \<Rightarrow> activation \<Rightarrow> rat option" where
  "activation_due c m now a =
     (if \<not> isGraphActivationAdmitted (act_state a) then None
      else if act_state a = Admitting then Some (cd_progress c)
      else (case get_or (Some (cd_observation c)) (obj_get (pm_observeAfter m) (act_key a)) of
              None \<Rightarrow> None
            | Some after \<Rightarrow> Some (get_or now (obj_get (pm_observedAt m) (act_key a)) + after - now)))"

definition cadenceDelay :: "cadence \<Rightarrow> pass_memory \<Rightarrow> rat \<Rightarrow> graph_run \<Rightarrow> rat option" where
  "cadenceDelay c m now run =
     (if isGraphRunTerminal (run_status run) then None
      else if run_status run = Provisioning \<or> run_status run = Cancelling then Some (cd_progress c)
      else
        (let activity = graphRunActivity run;
             due = fold (\<lambda>a d. min_due d (activation_due c m now a)) (run_activations run) None;
             due = (if ra_ready activity > 0 \<and> run_status run \<noteq> RPaused
                    then min_due due (Some (cd_observation c)) else due)
         in (case due of
               None \<Rightarrow> if ra_awaitingHuman activity > 0 then Some HUMAN_WAIT_MS
                       else if run_status run = RPaused then None else Some (cd_progress c)
             | Some d \<Rightarrow> Some (max 0 d + stableSpreadMs (run_id run) (cd_observation c / 3)))))"

definition nextDelay ::
  "(string \<Rightarrow> int option) \<Rightarrow> int \<Rightarrow> cadence \<Rightarrow> pass_memory \<Rightarrow> rat \<Rightarrow> graph_run \<Rightarrow> rat option" where
  "nextDelay date_parse clock c m now run =
     (let delay = cadenceDelay c m now run in
      if isGraphRunTerminal (run_status run) \<or> run_status run = Cancelling then delay
      else (case graphRunWallClockDeadline date_parse run of
              None \<Rightarrow> delay
            | Some deadline \<Rightarrow>
                (let left = of_int (max 0 (deadline - clock + 1))
                 in Some (case delay of None \<Rightarrow> left | Some d \<Rightarrow> min d left))))"

section \<open>One round of admission\<close>

fun settle_exhausted ::
  "string \<Rightarrow> (string \<times> run_meter) list \<Rightarrow> graph_run \<Rightarrow> transition_error + graph_run" where
  "settle_exhausted now [] run = Inr run"
| "settle_exhausted now ((k, m) # ks) run =
     (case settleGraphActivation run k SFailed now
             (Some (units (graphRunMeterError run m), Some ''budget-exceeded'')) of
        Inl e \<Rightarrow> Inl e | Inr run' \<Rightarrow> settle_exhausted now ks run')"

fun admit_all :: "admission_candidate list \<Rightarrow> graph_run \<Rightarrow> transition_error + graph_run" where
  "admit_all [] run = Inr run"
| "admit_all (c # cs) run =
     (case admitGraphActivation run (ac_key c) (ac_agent c) of
        Inl e \<Rightarrow> Inl e | Inr run' \<Rightarrow> admit_all cs run')"

definition mark_blocked :: "(string \<times> block) list \<Rightarrow> graph_run \<Rightarrow> graph_run" where
  "mark_blocked bs run = fold (\<lambda>(k, b) r. markGraphActivationBlocked r k b) bs run"

definition admission_opts :: "locks \<Rightarrow> bool \<Rightarrow> (string \<Rightarrow> external) \<Rightarrow> graph_run \<Rightarrow> admission_options" where
  "admission_opts t known held run =
     (case graphRunLockedWorkspace run of
        None \<Rightarrow> \<lparr>ao_others = NO_HOLD, ao_known = known, ao_external = ExtAbsent\<rparr>
      | Some w \<Rightarrow> \<lparr>ao_others = others t w (run_id run), ao_known = known, ao_external = held w\<rparr>)"

text \<open>The decision applied to the record and, with something admitted, reserved in the lock table.\<close>

definition admission_round ::
  "locks \<Rightarrow> bool \<Rightarrow> (string \<Rightarrow> external) \<Rightarrow> string \<Rightarrow> graph_run
    \<Rightarrow> transition_error + graph_run \<times> locks \<times> admission_decision" where
  "admission_round t known held now run =
     (let d = selectGraphAdmissions run (admission_opts t known held run) in
      case settle_exhausted now (ad_exhausted d) (mark_blocked (ad_blocked d) run) of
        Inl e \<Rightarrow> Inl e
      | Inr r \<Rightarrow>
          (case admit_all (ad_admit d) r of
             Inl e \<Rightarrow> Inl e
           | Inr r \<Rightarrow>
               Inr (r, if ad_admit d = [] then t
                       else snd (set_hold (run_id r) (graphRunLockedWorkspace run) (graphRunWorkspaceHold r) t), d)))"

end
