(* ===== verification/Pass_Safety.thy ===== *)
theory Pass_Safety
  imports Run_Pass
begin

text \<open>
  What a pass guarantees: one round of admission never throws and moves exactly what it decided, the
  runs that share the lock table never break the exclusion on a workspace, a stop is confirmed after
  a bounded number of calls, a run always reaches a legal status and its next pass comes in time.
\<close>

section \<open>Positions\<close>

text \<open>Key, node and state of each activation, in record order.\<close>

type_synonym position = "string \<times> string \<times> act_state"

definition positions :: "graph_run \<Rightarrow> position list" where
  "positions run = map (\<lambda>a. (act_key a, act_nodeId a, act_state a)) (run_activations run)"

definition set_all :: "string set \<Rightarrow> act_state \<Rightarrow> position list \<Rightarrow> position list" where
  "set_all ks s ps = map (\<lambda>(k, n, s'). (k, n, if k \<in> ks then s else s')) ps"

text \<open>What settling, admitting and blocking leave alone.\<close>

definition frame :: "graph_run \<Rightarrow> graph_run \<Rightarrow> bool" where
  "frame r s \<longleftrightarrow> run_plan s = run_plan r \<and> run_id s = run_id r \<and> run_mock s = run_mock r
     \<and> run_environmentId s = run_environmentId r \<and> run_status s = run_status r \<and> run_error s = run_error r"

lemma frame_refl [simp]: "frame r r"
  by (simp add: frame_def)

lemma frame_trans: "frame r s \<Longrightarrow> frame s t \<Longrightarrow> frame r t"
  by (simp add: frame_def)

lemma position_mem: "a \<in> set (run_activations run) \<Longrightarrow> (act_key a, act_nodeId a, act_state a) \<in> set (positions run)"
  by (simp add: positions_def)

lemma keys_positions: "map fst (positions run) = map act_key (run_activations run)"
  by (simp add: positions_def o_def)

lemma keys_set_all [simp]: "map fst (set_all ks s ps) = map fst ps"
  by (simp add: set_all_def case_prod_beta o_def)

lemma set_all_empty [simp]: "set_all {} s ps = ps"
  by (simp add: set_all_def case_prod_beta)

lemma set_all_insert: "k \<notin> ks \<Longrightarrow> set_all ks s (set_all {k} s ps) = set_all (insert k ks) s ps"
  by (auto simp: set_all_def)

lemma in_set_all: "k \<notin> ks \<Longrightarrow> (k, n, s') \<in> set (set_all ks s ps) \<longleftrightarrow> (k, n, s') \<in> set ps"
  by (force simp: set_all_def)

lemma replace_position:
  assumes "replace_with run key upd = Inr (Inr r)" and "distinct (map act_key (run_activations run))"
    and "\<And>a b. upd a = Inr b \<Longrightarrow> act_nodeId b = act_nodeId a \<and> act_state b = s"
  shows "positions r = set_all {key} s (positions run) \<and> frame run r \<and> run_usage r = run_usage run"
  using assms(1)
proof (rule replace_with_cases)
  fix i b
  let ?xs = "run_activations run"
  assume i: "i < length ?xs" "act_key (?xs ! i) = key" "upd (?xs ! i) = Inr b" "act_key b = key"
    and r: "r = run\<lparr>run_activations := ?xs[i := b]\<rparr>"
  have b: "act_nodeId b = act_nodeId (?xs ! i)" "act_state b = s" using assms(3) [OF i(3)] by simp_all
  have "positions r = set_all {key} s (positions run)"
  proof (rule nth_equalityI)
    fix j assume "j < length (positions r)"
    then have j: "j < length ?xs" by (simp add: positions_def r)
    have "act_key (?xs ! j) = key \<longleftrightarrow> j = i"
      using nth_eq_iff_index_eq [OF assms(2), of j i] i j by auto
    then show "positions r ! j = set_all {key} s (positions run) ! j"
      using i b j by (auto simp: positions_def set_all_def r nth_list_update)
  qed (simp add: positions_def set_all_def r)
  then show ?thesis by (simp add: frame_def r)
qed

text \<open>An update of a live position succeeds.\<close>

lemma replace_live:
  assumes "(k, n, s) \<in> set (positions run)" and "s \<noteq> Superseded" and "distinct (map fst (positions run))"
    and "\<And>a. act_state a = s \<Longrightarrow> \<exists>b. upd a = Inr b \<and> act_key b = act_key a"
  obtains r where "replace_with run k upd = Inr (Inr r)"
proof -
  let ?xs = "run_activations run"
  from assms(1) obtain a where a: "a \<in> set ?xs" "act_key a = k" "act_state a = s"
    by (auto simp: positions_def)
  then obtain i where i: "find_index (\<lambda>a. act_key a = k) ?xs = Some i"
    by (cases "find_index (\<lambda>a. act_key a = k) ?xs") auto
  have "inj_on act_key (set ?xs)" using assms(3) by (simp add: keys_positions distinct_map)
  moreover have "?xs ! i \<in> set ?xs" "act_key (?xs ! i) = act_key a"
    using find_index_SomeD [OF i] a(2) by simp_all
  ultimately have "?xs ! i = a" using a(1) by (simp add: inj_on_def)
  moreover obtain b where "upd a = Inr b" "act_key b = k" using assms(4) a by blast
  ultimately show thesis
    using i a assms(2) by (intro that [of "run\<lparr>run_activations := ?xs[i := b]\<rparr>"]) (simp add: replace_with_def)
qed

lemma settle_position:
  assumes "(k, n, s) \<in> set (positions run)" and "settled_state st \<in> set (activation_transitions s)"
    and "distinct (map fst (positions run))"
  obtains r where "settleGraphActivation run k st now failure = Inr r"
    and "positions r = set_all {k} (settled_state st) (positions run)" and "frame run r"
    and "run_usage r = run_usage run" and "run_inv run \<Longrightarrow> run_inv r"
proof -
  have live: "s \<noteq> Superseded" using assms(2) by auto
  have ok: "\<exists>b. settle_update st now failure a = Inr b \<and> act_key b = act_key a" if "act_state a = s" for a
    using that assms(2) by (auto simp: settle_update_def Let_def split: option.split)
  from replace_live [OF assms(1) live assms(3) ok]
  obtain r where r: "replace_with run k (settle_update st now failure) = Inr (Inr r)" by blast
  then have settle: "settleGraphActivation run k st now failure = Inr r"
    by (simp add: settleGraphActivation_def)
  have "positions r = set_all {k} (settled_state st) (positions run) \<and> frame run r \<and> run_usage r = run_usage run"
    by (rule replace_position [OF r]) (use assms(3) in \<open>auto simp: keys_positions settle_update_def Let_def split: if_splits option.splits\<close>)
  then show thesis using that settle settle_inv_le [OF _ settle] by blast
qed

lemma admit_position:
  assumes "(k, n, Ready) \<in> set (positions run)" and "distinct (map fst (positions run))"
  obtains r where "admitGraphActivation run k agent = Inr r"
    and "positions r = set_all {k} Admitting (positions run)" and "frame run r"
    and "us_agentSessions (run_usage r) = us_agentSessions (run_usage run) + (if agent then 1 else 0)"
    and "run_inv run \<Longrightarrow> run_inv r"
proof -
  have ok: "\<exists>b. admit_update a = Inr b \<and> act_key b = act_key a" if "act_state a = Ready" for a
    using that by (simp add: admit_update_def)
  from replace_live [OF assms(1) _ assms(2) ok]
  obtain q where q: "replace_with run k admit_update = Inr (Inr q)" by blast
  have p: "positions q = set_all {k} Admitting (positions run) \<and> frame run q \<and> run_usage q = run_usage run"
    by (rule replace_position [OF q]) (use assms(2) in \<open>auto simp: keys_positions admit_update_def split: if_splits\<close>)
  let ?r = "if agent then q\<lparr>run_usage := (run_usage q)\<lparr>us_agentSessions := us_agentSessions (run_usage q) + 1\<rparr>\<rparr> else q"
  have admit: "admitGraphActivation run k agent = Inr ?r"
    by (simp add: admitGraphActivation_def q)
  show thesis
    by (rule that [OF admit]) (use p admit_inv_le [OF _ admit] in \<open>auto simp: positions_def frame_def\<close>)
qed

lemma blocked_position:
  "positions (markGraphActivationBlocked run k b) = positions run \<and> frame run (markGraphActivationBlocked run k b)
    \<and> run_usage (markGraphActivationBlocked run k b) = run_usage run"
proof -
  let ?upd = "\<lambda>a. a\<lparr>act_blocked := Some \<lparr>bl_reason = bl_reason b, bl_holder = truthy (bl_holder b),
      bl_holderAccess = truthy (bl_holderAccess b)\<rparr>\<rparr>"
  have "positions r = positions run \<and> frame run r \<and> run_usage r = run_usage run"
    if "replaceGraphActivation run k ?upd = Inr r" for r
  proof -
    have "replace_with run k (\<lambda>a. Inr (?upd a) :: unit + activation) = Inr (Inr r)"
      using that by (auto simp: replaceGraphActivation_def split: sum.splits)
    then show ?thesis
    proof (rule replace_with_cases)
      fix i c
      let ?xs = "run_activations run"
      assume i: "i < length ?xs" "(Inr (?upd (?xs ! i)) :: unit + activation) = Inr c"
        and r: "r = run\<lparr>run_activations := ?xs[i := c]\<rparr>"
      have "positions r = positions run"
        using i by (auto simp: positions_def r nth_list_update intro!: nth_equalityI)
      then show ?thesis by (simp add: frame_def r)
    qed
  qed
  then show ?thesis
    by (auto simp: markGraphActivationBlocked_def split: option.split sum.split)
qed

lemma mark_blocked_position:
  "positions (mark_blocked bs run) = positions run \<and> frame run (mark_blocked bs run)
    \<and> run_usage (mark_blocked bs run) = run_usage run \<and> (run_inv run \<longrightarrow> run_inv (mark_blocked bs run))"
proof (induction bs arbitrary: run)
  case (Cons p bs)
  let ?run = "markGraphActivationBlocked run (fst p) (snd p)"
  have "mark_blocked (p # bs) run = mark_blocked bs ?run" by (simp add: mark_blocked_def case_prod_beta)
  moreover have "positions ?run = positions run \<and> frame run ?run \<and> run_usage ?run = run_usage run"
    by (rule blocked_position)
  moreover have "run_inv run \<longrightarrow> run_inv ?run" using blocked_inv_le by blast
  ultimately show ?case using Cons.IH [of ?run] frame_trans by simp metis
qed (simp add: mark_blocked_def)

lemma settle_exhausted_position:
  assumes "distinct (map fst ks)" and "\<And>k. k \<in> fst ` set ks \<Longrightarrow> \<exists>n. (k, n, Ready) \<in> set (positions run)"
    and "distinct (map fst (positions run))"
  obtains r where "settle_exhausted now ks run = Inr r"
    and "positions r = set_all (fst ` set ks) Failed (positions run)" and "frame run r"
    and "run_usage r = run_usage run" and "run_inv run \<Longrightarrow> run_inv r"
  using assms
proof (induction ks arbitrary: run thesis)
  case Nil
  then show ?case by simp
next
  case (Cons km ks)
  obtain k m where km: "km = (k, m)" by (cases km)
  obtain n where n: "(k, n, Ready) \<in> set (positions run)" using Cons.prems(3) km by auto
  obtain q where q: "settleGraphActivation run k SFailed now
        (Some (units (graphRunMeterError run m), Some ''budget-exceeded'')) = Inr q"
      "positions q = set_all {k} Failed (positions run)" "frame run q" "run_usage q = run_usage run"
      "run_inv run \<Longrightarrow> run_inv q"
    using settle_position [OF n, of SFailed] Cons.prems(4) by auto
  have k: "k \<notin> fst ` set ks" "distinct (map fst ks)" using Cons.prems(2) km by auto
  obtain r where r: "settle_exhausted now ks q = Inr r"
      "positions r = set_all (fst ` set ks) Failed (positions q)" "frame q r" "run_usage r = run_usage q"
      "run_inv q \<Longrightarrow> run_inv r"
  proof (rule Cons.IH)
    show "\<exists>n. (j, n, Ready) \<in> set (positions q)" if "j \<in> fst ` set ks" for j
      using Cons.prems(3) [of j] that k(1) q(2) km by (metis image_insert in_set_all insertCI list.simps(15) singletonD)
  qed (use k Cons.prems(4) q(2) in simp_all)
  show ?case
  proof (rule Cons.prems(1))
    show "settle_exhausted now (km # ks) run = Inr r" by (simp add: km q(1) r(1))
    show "positions r = set_all (fst ` set (km # ks)) Failed (positions run)"
      using r(2) q(2) k(1) by (simp add: km set_all_insert)
    show "frame run r" using frame_trans q(3) r(3) by blast
    show "run_usage r = run_usage run" using q(4) r(4) by simp
    show "run_inv run \<Longrightarrow> run_inv r" using q(5) r(5) by blast
  qed
qed

lemma admit_all_position:
  assumes "distinct (map ac_key cs)" and "\<And>k. k \<in> ac_key ` set cs \<Longrightarrow> \<exists>n. (k, n, Ready) \<in> set (positions run)"
    and "distinct (map fst (positions run))"
  obtains r where "admit_all cs run = Inr r"
    and "positions r = set_all (ac_key ` set cs) Admitting (positions run)" and "frame run r"
    and "us_agentSessions (run_usage r) = us_agentSessions (run_usage run) + int (length (filter ac_agent cs))"
    and "run_inv run \<Longrightarrow> run_inv r"
  using assms
proof (induction cs arbitrary: run thesis)
  case Nil
  then show ?case by simp
next
  case (Cons c cs)
  obtain n where n: "(ac_key c, n, Ready) \<in> set (positions run)" using Cons.prems(3) by auto
  obtain q where q: "admitGraphActivation run (ac_key c) (ac_agent c) = Inr q"
      "positions q = set_all {ac_key c} Admitting (positions run)" "frame run q"
      "us_agentSessions (run_usage q) = us_agentSessions (run_usage run) + (if ac_agent c then 1 else 0)"
      "run_inv run \<Longrightarrow> run_inv q"
    using admit_position [OF n] Cons.prems(4) by auto
  have c: "ac_key c \<notin> ac_key ` set cs" "distinct (map ac_key cs)" using Cons.prems(2) by auto
  obtain r where r: "admit_all cs q = Inr r"
      "positions r = set_all (ac_key ` set cs) Admitting (positions q)" "frame q r"
      "us_agentSessions (run_usage r) = us_agentSessions (run_usage q) + int (length (filter ac_agent cs))"
      "run_inv q \<Longrightarrow> run_inv r"
  proof (rule Cons.IH)
    show "\<exists>n. (j, n, Ready) \<in> set (positions q)" if "j \<in> ac_key ` set cs" for j
      using Cons.prems(3) [of j] that c(1) q(2) by (metis image_insert in_set_all insertCI list.simps(15) singletonD)
  qed (use c Cons.prems(4) q(2) in simp_all)
  show ?case
  proof (rule Cons.prems(1))
    show "admit_all (c # cs) run = Inr r" by (simp add: q(1) r(1))
    show "positions r = set_all (ac_key ` set (c # cs)) Admitting (positions run)"
      using r(2) q(2) c(1) by (simp add: set_all_insert)
    show "frame run r" using frame_trans q(3) r(3) by blast
    show "us_agentSessions (run_usage r) = us_agentSessions (run_usage run) + int (length (filter ac_agent (c # cs)))"
      using q(4) r(4) by simp
    show "run_inv run \<Longrightarrow> run_inv r" using q(5) r(5) by blast
  qed
qed

section \<open>What admission decides about\<close>

lemma decided_ready:
  assumes "distinct (map act_key (run_activations run))" and "d = selectGraphAdmissions run opts"
  shows "distinct (map ac_key (ad_admit d) @ map fst (ad_blocked d) @ map fst (ad_exhausted d))"
    and "k \<in> set (map ac_key (ad_admit d) @ map fst (ad_blocked d) @ map fst (ad_exhausted d)) \<Longrightarrow>
      \<exists>n. (k, n, Ready) \<in> set (positions run)"
proof -
  let ?keys = "map ac_key (ad_admit d) @ map fst (ad_blocked d) @ map fst (ad_exhausted d)"
  have "mset ?keys = decided_keys d" by (simp add: decided_keys_def)
  also have "\<dots> = mset (map act_key (filter (decidable run) (run_activations run)))"
    using assms(2) by (simp add: selectGraphAdmissions_def pass_decides)
      (simp add: admission_start_def decided_keys_def)
  finally have keys: "mset ?keys = mset (map act_key (filter (decidable run) (run_activations run)))" .
  show "distinct ?keys"
    using assms(1) mset_eq_imp_distinct_iff [OF keys] by (simp add: distinct_map_filter)
  have same: "set ?keys = set (map act_key (filter (decidable run) (run_activations run)))"
    using mset_eq_setD [OF keys] .
  assume "k \<in> set ?keys"
  then obtain a where "a \<in> set (run_activations run)" "act_key a = k" "act_state a = Ready"
    unfolding same by (auto simp: decidable_def)
  then have "(k, act_nodeId a, Ready) \<in> set (positions run)" by (auto simp: positions_def)
  then show "\<exists>n. (k, n, Ready) \<in> set (positions run)" by blast
qed

text \<open>The whole round, in one lemma.\<close>

lemma round_position:
  assumes inv: "run_inv run" and d: "d = selectGraphAdmissions run (admission_opts t known held run)"
  obtains r where "admission_round t known held now run =
      Inr (r, if ad_admit d = [] then t
              else snd (set_hold (run_id run) (graphRunLockedWorkspace run) (graphRunWorkspaceHold r) t), d)"
    and "positions r = set_all (ac_key ` set (ad_admit d)) Admitting
           (set_all (fst ` set (ad_exhausted d)) Failed (positions run))"
    and "frame run r" and "run_inv r"
    and "us_agentSessions (run_usage r) = us_agentSessions (run_usage run) + int (length (filter ac_agent (ad_admit d)))"
proof -
  have dist: "distinct (map act_key (run_activations run))" using inv by (simp add: run_inv_def)
  note ready = decided_ready [OF dist d]
  let ?b = "mark_blocked (ad_blocked d) run"
  have b: "positions ?b = positions run" "frame run ?b" "run_usage ?b = run_usage run" "run_inv ?b"
    using mark_blocked_position inv by blast+
  have keys: "distinct (map fst (positions run))" using dist by (simp add: keys_positions)
  obtain e where e: "settle_exhausted now (ad_exhausted d) ?b = Inr e"
      "positions e = set_all (fst ` set (ad_exhausted d)) Failed (positions run)" "frame ?b e"
      "run_usage e = run_usage run" "run_inv e"
    using settle_exhausted_position [of "ad_exhausted d" ?b now] ready keys b by auto
  have live: "\<exists>n. (k, n, Ready) \<in> set (positions e)" if "k \<in> ac_key ` set (ad_admit d)" for k
  proof -
    have "k \<in> set (map ac_key (ad_admit d) @ map fst (ad_blocked d) @ map fst (ad_exhausted d))"
      using that by simp
    from ready(2) [OF this] obtain n where n: "(k, n, Ready) \<in> set (positions run)" by blast
    have "k \<notin> fst ` set (ad_exhausted d)" using ready(1) that by auto
    then show ?thesis using n by (auto simp: e(2) in_set_all)
  qed
  obtain r where r: "admit_all (ad_admit d) e = Inr r"
      "positions r = set_all (ac_key ` set (ad_admit d)) Admitting (positions e)" "frame e r"
      "us_agentSessions (run_usage r) = us_agentSessions (run_usage e) + int (length (filter ac_agent (ad_admit d)))"
      "run_inv e \<Longrightarrow> run_inv r"
    using admit_all_position [of "ad_admit d" e] ready(1) keys live e(2) by auto
  have fr: "frame run r" using frame_trans b(2) e(3) r(3) by blast
  show thesis
  proof (rule that)
    show "admission_round t known held now run =
        Inr (r, if ad_admit d = [] then t
                else snd (set_hold (run_id run) (graphRunLockedWorkspace run) (graphRunWorkspaceHold r) t), d)"
      using fr by (simp add: admission_round_def d [symmetric] e(1) r(1) Let_def frame_def)
  qed (use r e fr in simp_all)
qed

text \<open>C17. One round of admission never throws: exactly the activations it admits move to
  \<open>admitting\<close>, exactly those a meter can never admit fail, every other keeps its state, each admitted
  agent is counted as a session, and the record stays well formed.\<close>

theorem admission_round_exact:
  assumes "run_inv run" and "d = selectGraphAdmissions run (admission_opts t known held run)"
  shows "\<exists>r t'. admission_round t known held now run = Inr (r, t', d) \<and> run_inv r
    \<and> positions r = map (\<lambda>(k, n, s). (k, n, if k \<in> ac_key ` set (ad_admit d) then Admitting
                                   else if k \<in> fst ` set (ad_exhausted d) then Failed else s)) (positions run)
    \<and> us_agentSessions (run_usage r) =
        us_agentSessions (run_usage run) + int (length (filter ac_agent (ad_admit d)))"
proof -
  obtain r where r: "admission_round t known held now run =
      Inr (r, if ad_admit d = [] then t
              else snd (set_hold (run_id run) (graphRunLockedWorkspace run) (graphRunWorkspaceHold r) t), d)"
    "positions r = set_all (ac_key ` set (ad_admit d)) Admitting
       (set_all (fst ` set (ad_exhausted d)) Failed (positions run))"
    "run_inv r"
    "us_agentSessions (run_usage r) = us_agentSessions (run_usage run) + int (length (filter ac_agent (ad_admit d)))"
    using round_position [OF assms] by metis
  have "positions r = map (\<lambda>(k, n, s). (k, n, if k \<in> ac_key ` set (ad_admit d) then Admitting
      else if k \<in> fst ` set (ad_exhausted d) then Failed else s)) (positions run)"
    unfolding r(2) by (simp add: set_all_def case_prod_beta)
  with r(1,3,4) show ?thesis by blast
qed

section \<open>What an admitted activation holds\<close>

definition one_hold :: "graph_plan \<Rightarrow> position \<Rightarrow> hold" where
  "one_hold plan p =
     (case p of (k, n, s) \<Rightarrow>
        if \<not> isGraphActivationAdmitted s then NO_HOLD
        else (case plan_node_of plan n of
                None \<Rightarrow> NO_HOLD
              | Some node \<Rightarrow> addHold NO_HOLD (graphMainWorkspaceAccess node) (graphNodeIsolated node)))"

definition hold_sum :: "hold list \<Rightarrow> hold" where
  "hold_sum hs = foldr plus_hold hs NO_HOLD"

lemma plus_hold_simps [simp]:
  "ho_writers (plus_hold a b) = ho_writers a + ho_writers b"
  "ho_readers (plus_hold a b) = ho_readers a + ho_readers b"
  "ho_worktrees (plus_hold a b) = ho_worktrees a + ho_worktrees b"
  "plus_hold NO_HOLD a = a" "plus_hold a NO_HOLD = a"
  "plus_hold (plus_hold a b) c = plus_hold a (plus_hold b c)"
  by (simp_all add: plus_hold_def NO_HOLD_def)

lemma plus_hold_left: "plus_hold a (plus_hold b c) = plus_hold b (plus_hold a c)"
  by (simp add: plus_hold_def)

lemma plus_hold_comm: "plus_hold a b = plus_hold b a"
  by (simp add: plus_hold_def)

lemma addHold_plus: "addHold h access w = plus_hold h (addHold NO_HOLD access w)"
  by (cases access) (simp_all add: addHold_def plus_hold_def NO_HOLD_def Let_def)

lemma hold_sum_simps [simp]: "hold_sum [] = NO_HOLD" "hold_sum (h # hs) = plus_hold h (hold_sum hs)"
  by (simp_all add: hold_sum_def)

lemma workspace_hold_sum:
  "graphRunWorkspaceHold run = hold_sum (map (one_hold (run_plan run)) (positions run))"
proof -
  have "fold (hold_step plan) as h =
      plus_hold h (hold_sum (map (\<lambda>a. one_hold plan (act_key a, act_nodeId a, act_state a)) as))" for plan as h
  proof (induction as arbitrary: h)
    case (Cons a as)
    have "hold_step plan a h = plus_hold h (one_hold plan (act_key a, act_nodeId a, act_state a))"
    proof (cases "plan_node_of plan (act_nodeId a)")
      case (Some n)
      then show ?thesis
        by (simp add: hold_step_def one_hold_def addHold_plus [of h])
    qed (simp add: hold_step_def one_hold_def)
    then show ?case using Cons.IH by simp
  qed simp
  then show ?thesis by (simp add: graphRunWorkspaceHold_def positions_def o_def)
qed

text \<open>Admitting adds what the admitted nodes hold.\<close>

lemma hold_sum_admit:
  assumes "distinct (map fst ps)" and "(k, n, s) \<in> set ps" and "\<not> isGraphActivationAdmitted s"
  shows "hold_sum (map (one_hold plan) (set_all {k} Admitting ps)) =
    plus_hold (hold_sum (map (one_hold plan) ps)) (one_hold plan (k, n, Admitting))"
  using assms
proof (induction ps)
  case (Cons p ps)
  obtain k' n' s' where p: "p = (k', n', s')" by (cases p)
  show ?case
  proof (cases "k' = k")
    case True
    then have "k \<notin> fst ` set ps" using Cons.prems(1) p by simp
    then have "set_all {k} Admitting ps = ps"
      by (induction ps) (auto simp: set_all_def)
    moreover have "n' = n" "s' = s" using Cons.prems True p \<open>k \<notin> fst ` set ps\<close> by force+
    moreover have "one_hold plan (k, n, s) = NO_HOLD" using Cons.prems(3) by (simp add: one_hold_def)
    ultimately show ?thesis using p True by (simp add: set_all_def plus_hold_comm)
  next
    case False
    then have "(k, n, s) \<in> set ps" using Cons.prems(2) p by simp
    then have "hold_sum (map (one_hold plan) (set_all {k} Admitting ps)) =
        plus_hold (hold_sum (map (one_hold plan) ps)) (one_hold plan (k, n, Admitting))"
      using Cons by simp
    then show ?thesis using p False by (simp add: set_all_def)
  qed
qed simp

definition candidate_hold :: "admission_candidate \<Rightarrow> hold" where
  "candidate_hold c = addHold NO_HOLD (candidate_access c) (graphNodeIsolated (ac_node c))"

lemma hold_sum_admits:
  assumes "distinct (map fst ps)" and "distinct (map ac_key cs)"
    and "\<And>c. c \<in> set cs \<Longrightarrow> \<exists>n. (ac_key c, n, Ready) \<in> set ps \<and> plan_node_of plan n = Some (ac_node c)"
  shows "hold_sum (map (one_hold plan) (set_all (ac_key ` set cs) Admitting ps)) =
    plus_hold (hold_sum (map (one_hold plan) ps)) (hold_sum (map candidate_hold cs))"
  using assms
proof (induction cs arbitrary: ps)
  case (Cons c cs)
  obtain n where n: "(ac_key c, n, Ready) \<in> set ps" "plan_node_of plan n = Some (ac_node c)"
    using Cons.prems(3) by auto
  let ?ps = "set_all {ac_key c} Admitting ps"
  have c: "ac_key c \<notin> ac_key ` set cs" using Cons.prems(2) by simp
  have "hold_sum (map (one_hold plan) (set_all (ac_key ` set cs) Admitting ?ps)) =
      plus_hold (hold_sum (map (one_hold plan) ?ps)) (hold_sum (map candidate_hold cs))"
  proof (rule Cons.IH)
    show "\<exists>n. (ac_key x, n, Ready) \<in> set ?ps \<and> plan_node_of plan n = Some (ac_node x)" if x: "x \<in> set cs" for x
    proof -
      have "ac_key x \<noteq> ac_key c" using c x by (metis imageI)
      then show ?thesis using Cons.prems(3) [of x] x by (simp add: in_set_all)
    qed
  qed (use Cons.prems in simp_all)
  moreover have "hold_sum (map (one_hold plan) ?ps) =
      plus_hold (hold_sum (map (one_hold plan) ps)) (one_hold plan (ac_key c, n, Admitting))"
    by (rule hold_sum_admit [OF Cons.prems(1) n(1)]) (simp add: isGraphActivationAdmitted_def)
  moreover have "one_hold plan (ac_key c, n, Admitting) = candidate_hold c"
    by (simp add: one_hold_def n(2) candidate_hold_def candidate_access_def isGraphActivationAdmitted_def)
  moreover have "set_all (ac_key ` set (c # cs)) Admitting ps = set_all (ac_key ` set cs) Admitting ?ps"
    using c by (simp add: set_all_insert)
  ultimately show ?case by simp
qed simp

lemma hold_sum_settled:
  assumes "distinct (map fst ps)" and "\<And>k. k \<in> ks \<Longrightarrow> \<exists>n. (k, n, Ready) \<in> set ps"
  shows "hold_sum (map (one_hold plan) (set_all ks Failed ps)) = hold_sum (map (one_hold plan) ps)"
proof -
  have "one_hold plan (k, n, if k \<in> ks then Failed else s) = one_hold plan (k, n, s)" if "(k, n, s) \<in> set ps" for k n s
  proof (cases "k \<in> ks")
    case True
    then obtain m where "(k, m, Ready) \<in> set ps" using assms(2) by blast
    with that have "s = Ready" using eq_key_imp_eq_value [OF assms(1)] by fastforce
    then show ?thesis using True by (simp add: one_hold_def isGraphActivationAdmitted_def)
  qed simp
  then have "map (one_hold plan) (set_all ks Failed ps) = map (one_hold plan) ps"
    by (auto simp: set_all_def)
  then show ?thesis by simp
qed

lemma step_admit_nodes:
  "c \<in> set (ad_admit (as_decision (admission_step run opts a s))) \<Longrightarrow>
     c \<in> set (ad_admit (as_decision s))
     \<or> ac_key c = act_key a \<and> act_state a = Ready \<and> plan_node_of (run_plan run) (act_nodeId a) = Some (ac_node c)"
  using admission_step_kind [of run opts a s]
proof cases
  case (blocked n keep b)
  then show "c \<in> set (ad_admit (as_decision (admission_step run opts a s))) \<Longrightarrow> ?thesis"
    by (cases "keep \<and> graphMainWorkspaceAccess n = AccWrite") (simp_all add: push_defs)
next
  case (admitted n)
  then show "c \<in> set (ad_admit (as_decision (admission_step run opts a s))) \<Longrightarrow> ?thesis"
    by (cases "graphMainWorkspaceAccess n = AccNone") auto
qed (simp_all add: push_defs)

lemma pass_admit_nodes:
  "c \<in> set (ad_admit (as_decision (admission_pass run opts as s))) \<Longrightarrow>
     c \<in> set (ad_admit (as_decision s))
     \<or> (\<exists>a\<in>set as. ac_key c = act_key a \<and> act_state a = Ready
          \<and> plan_node_of (run_plan run) (act_nodeId a) = Some (ac_node c))"
  unfolding admission_pass_def
proof (induction as arbitrary: s)
  case (Cons a as)
  then show ?case using step_admit_nodes [of c run opts a s] by fastforce
qed simp

text \<open>The writers and readers of a hold decide exclusion; admission counts both.\<close>

lemma exclusive_cong:
  "ho_writers a = ho_writers b \<Longrightarrow> ho_readers a = ho_readers b \<Longrightarrow> exclusive a = exclusive b"
  by (simp add: exclusive_def)

definition shared_inv :: "hold \<Rightarrow> admission_options \<Rightarrow> admission_state \<Rightarrow> bool" where
  "shared_inv h opts s \<longleftrightarrow>
     ho_writers (as_mine s) = ho_writers h + ho_writers (hold_sum (map candidate_hold (ad_admit (as_decision s))))
     \<and> ho_readers (as_mine s) = ho_readers h + ho_readers (hold_sum (map candidate_hold (ad_admit (as_decision s))))
     \<and> exclusive (plus_hold (as_mine s) (ao_others opts))"

lemma shared_inv_cong:
  "ad_admit (as_decision s') = ad_admit (as_decision s) \<Longrightarrow> as_mine s' = as_mine s \<Longrightarrow>
    shared_inv h opts s' = shared_inv h opts s"
  by (simp add: shared_inv_def)

lemma hold_sum_append [simp]: "hold_sum (hs @ gs) = plus_hold (hold_sum hs) (hold_sum gs)"
  by (induction hs) simp_all

lemma add_shared:
  assumes "workspace_block opts access w s = None" and "exclusive (plus_hold (as_mine s) (ao_others opts))"
  shows "exclusive (plus_hold (addHold (as_mine s) access w) (ao_others opts))"
proof -
  have "graphWorkspaceAllows (plus_hold (as_mine s) (ao_others opts)) access"
    using assms(1) by (auto simp: workspace_block_def split: if_splits)
  then show ?thesis
    using assms(2) by (cases access) (auto simp: graphWorkspaceAllows_def exclusive_def addHold_def Let_def)
qed

lemma step_shared_inv:
  assumes "shared_inv h opts s"
  shows "shared_inv h opts (admission_step run opts a s)"
  using admission_step_kind [of run opts a s]
proof cases
  case (exhausted n m)
  then show ?thesis using assms shared_inv_cong [of "push_exhausted (act_key a) m s" s] by (simp add: push_defs)
next
  case (blocked n keep b)
  let ?s = "admission_step run opts a s"
  have "ad_admit (as_decision ?s) = ad_admit (as_decision s)" "as_mine ?s = as_mine s"
    using blocked(3,4) by (cases "keep \<and> graphMainWorkspaceAccess n = AccWrite"; simp add: push_defs)+
  from shared_inv_cong [OF this] assms show ?thesis by simp
next
  case (admitted n)
  let ?c = "\<lparr>ac_key = act_key a, ac_node = n, ac_agent = (pn_kind n = KAgent)\<rparr>"
  have one: "ho_writers (candidate_hold ?c) = (if graphMainWorkspaceAccess n = AccWrite then 1 else 0)"
    "ho_readers (candidate_hold ?c) = (if graphMainWorkspaceAccess n = AccRead then 1 else 0)"
    by (simp_all add: candidate_hold_def candidate_access_def addHold_def NO_HOLD_def Let_def)
  show ?thesis
  proof (cases "graphMainWorkspaceAccess n = AccNone")
    case True
    then show ?thesis using assms one by (simp add: shared_inv_def admitted(5))
  next
    case False
    then have "exclusive (plus_hold (addHold (as_mine s) (graphMainWorkspaceAccess n) (graphNodeIsolated n)) (ao_others opts))"
      using admitted(4) assms by (intro add_shared) (simp_all add: shared_inv_def)
    moreover have "ho_writers (addHold (as_mine s) (graphMainWorkspaceAccess n) (graphNodeIsolated n)) =
        ho_writers (as_mine s) + ho_writers (candidate_hold ?c)"
      "ho_readers (addHold (as_mine s) (graphMainWorkspaceAccess n) (graphNodeIsolated n)) =
        ho_readers (as_mine s) + ho_readers (candidate_hold ?c)"
      by (simp_all add: one) (simp_all add: addHold_def Let_def)
    ultimately show ?thesis using assms False by (simp add: shared_inv_def admitted(5))
  qed
qed (use assms in simp)

lemma pass_shared_inv: "shared_inv h opts s \<Longrightarrow> shared_inv h opts (admission_pass run opts as s)"
  unfolding admission_pass_def by (induction as arbitrary: s) (simp_all add: step_shared_inv)

text \<open>After a round the record itself, not only the count of the pass, is within the exclusion.\<close>

lemma round_exclusive:
  assumes inv: "run_inv run" and ok: "admission_round t known held now run = Inr (r, t', d)"
    and others: "exclusive (plus_hold (graphRunWorkspaceHold run) (ao_others (admission_opts t known held run)))"
  shows "exclusive (plus_hold (graphRunWorkspaceHold r) (ao_others (admission_opts t known held run)))"
proof -
  let ?opts = "admission_opts t known held run"
  let ?s = "admission_pass run ?opts (run_activations run) (admission_start run)"
  define e where "e = selectGraphAdmissions run ?opts"
  obtain q where q: "admission_round t known held now run =
      Inr (q, if ad_admit e = [] then t
              else snd (set_hold (run_id run) (graphRunLockedWorkspace run) (graphRunWorkspaceHold q) t), e)"
    "positions q = set_all (ac_key ` set (ad_admit e)) Admitting
       (set_all (fst ` set (ad_exhausted e)) Failed (positions run))" "frame run q"
    using round_position [OF inv e_def] by metis
  then have d: "d = e" "q = r" using ok by auto
  let ?plan = "run_plan run"
  have dist: "distinct (map act_key (run_activations run))" using inv by (simp add: run_inv_def)
  note ready = decided_ready [OF dist e_def]
  have keys: "distinct (map fst (positions run))" using dist by (simp add: keys_positions)
  let ?ps = "set_all (fst ` set (ad_exhausted e)) Failed (positions run)"
  have cands: "\<exists>n. (ac_key c, n, Ready) \<in> set ?ps \<and> plan_node_of ?plan n = Some (ac_node c)" if "c \<in> set (ad_admit e)" for c
  proof -
    have "c \<in> set (ad_admit (as_decision ?s))" using that by (simp add: e_def selectGraphAdmissions_def)
    then obtain a where a: "a \<in> set (run_activations run)" "ac_key c = act_key a" "act_state a = Ready"
        "plan_node_of ?plan (act_nodeId a) = Some (ac_node c)"
      using pass_admit_nodes by (fastforce simp: admission_start_def)
    have "ac_key c \<notin> fst ` set (ad_exhausted e)" using ready(1) that by auto
    moreover have "(ac_key c, act_nodeId a, Ready) \<in> set (positions run)"
      using a(1-3) by (auto simp: positions_def)
    ultimately show ?thesis using a(4) by (auto simp: in_set_all)
  qed
  have "graphRunWorkspaceHold r = hold_sum (map (one_hold ?plan) (set_all (ac_key ` set (ad_admit e)) Admitting ?ps))"
    using q(2,3) d by (simp add: workspace_hold_sum frame_def)
  also have "\<dots> = plus_hold (hold_sum (map (one_hold ?plan) ?ps)) (hold_sum (map candidate_hold (ad_admit e)))"
    by (rule hold_sum_admits) (use keys ready(1) cands in simp_all)
  also have "hold_sum (map (one_hold ?plan) ?ps) = graphRunWorkspaceHold run"
    unfolding workspace_hold_sum by (rule hold_sum_settled [OF keys]) (use ready(2) in auto)
  finally have r: "graphRunWorkspaceHold r =
      plus_hold (graphRunWorkspaceHold run) (hold_sum (map candidate_hold (ad_admit e)))" .
  have "shared_inv (graphRunWorkspaceHold run) ?opts (admission_start run)"
    using others by (simp add: shared_inv_def admission_start_def NO_HOLD_def)
  then have "shared_inv (graphRunWorkspaceHold run) ?opts ?s" by (rule pass_shared_inv)
  then have s: "exclusive (plus_hold (as_mine ?s) (ao_others ?opts))"
    "ho_writers (as_mine ?s) = ho_writers (graphRunWorkspaceHold r)"
    "ho_readers (as_mine ?s) = ho_readers (graphRunWorkspaceHold r)"
    by (simp_all add: shared_inv_def r e_def selectGraphAdmissions_def)
  then show ?thesis
    using exclusive_cong [of "plus_hold (as_mine ?s) (ao_others ?opts)"] by simp
qed

section \<open>The lock table across runs\<close>

definition workspace_total :: "locks \<Rightarrow> string \<Rightarrow> hold" where
  "workspace_total t w =
     fold (\<lambda>(owner, h) acc. plus_hold acc h) (get_or [] (obj_get (lk_byWorkspace t) w)) NO_HOLD"

definition le_hold :: "hold \<Rightarrow> hold \<Rightarrow> bool" where
  "le_hold a b \<longleftrightarrow> ho_writers a \<le> ho_writers b \<and> ho_readers a \<le> ho_readers b \<and> ho_worktrees a \<le> ho_worktrees b"

text \<open>The table holds for a run at least what its record holds, on its own workspace; a mock run is
  not in the table.\<close>

definition recorded :: "locks \<Rightarrow> graph_run \<Rightarrow> bool" where
  "recorded t run \<longleftrightarrow>
     (case graphRunLockedWorkspace run of
        None \<Rightarrow> True
      | Some w \<Rightarrow> le_hold (graphRunWorkspaceHold run) (run_hold t (run_id run))
          \<and> obj_get (lk_workspaceOf t) (run_id run) \<in> {None, Some w})"

lemma hold_eqI:
  "ho_writers a = ho_writers b \<Longrightarrow> ho_readers a = ho_readers b \<Longrightarrow> ho_worktrees a = ho_worktrees b \<Longrightarrow> a = b" for a b :: hold
  by simp

text \<open>A workspace's total is what the others hold and what one run holds.\<close>

lemma total_split:
  assumes "lk_inv t"
  shows "workspace_total t w = plus_hold (others t w r)
    (case holdings t r of None \<Rightarrow> NO_HOLD | Some (v, h) \<Rightarrow> if v = w then h else NO_HOLD)"
proof -
  let ?runs = "get_or [] (obj_get (lk_byWorkspace t) w)"
  have dist: "distinct (map fst ?runs)"
    using assms by (cases "obj_get (lk_byWorkspace t) w") (simp_all add: lk_inv_def rows_ok_def get_or_def)
  have at: "hold_at t w r = obj_get ?runs r"
    by (simp add: hold_at_def get_or_def split: option.splits)
  have fold_total: "fold (\<lambda>(owner, h) acc. plus_hold acc h) runs acc =
      plus_hold acc (hold_sum (map snd runs))" for runs :: "(string \<times> hold) list" and acc
    by (induction runs arbitrary: acc) auto
  have fold_rest: "fold (\<lambda>(owner, h) acc. if owner = r then acc else plus_hold acc h) runs acc =
      plus_hold acc (hold_sum (map snd (filter (\<lambda>p. fst p \<noteq> r) runs)))" for runs :: "(string \<times> hold) list" and acc
    by (induction runs arbitrary: acc) auto
  have split: "hold_sum (map snd runs) = plus_hold (hold_sum (map snd (filter (\<lambda>p. fst p \<noteq> r) runs)))
      (case obj_get runs r of None \<Rightarrow> NO_HOLD | Some h \<Rightarrow> h)" if "distinct (map fst runs)" for runs
    using that
  proof (induction runs)
    case (Cons p runs)
    show ?case
    proof (cases "fst p = r")
      case True
      then have gone: "r \<notin> fst ` set runs" using Cons.prems by simp
      have "filter (\<lambda>q. fst q \<noteq> r) runs = runs"
        by (rule filter_True) (metis gone imageI)
      then show ?thesis using True by (cases p) (simp add: plus_hold_comm)
    next
      case False
      then show ?thesis using Cons by (cases p) simp
    qed
  qed simp
  have "(case obj_get ?runs r of None \<Rightarrow> NO_HOLD | Some h \<Rightarrow> h) =
      (case holdings t r of None \<Rightarrow> NO_HOLD | Some (v, h) \<Rightarrow> if v = w then h else NO_HOLD)"
  proof (cases "holdings t r")
    case None
    then have "hold_at t w r = None" using holdings_iff [OF assms, of r w] by (cases "hold_at t w r") auto
    then show ?thesis using None at by simp
  next
    case (Some vh)
    obtain v h where vh: "vh = (v, h)" by (cases vh)
    show ?thesis
    proof (cases "v = w")
      case True
      then show ?thesis using holdings_iff [OF assms, of r w h] Some vh at by simp
    next
      case False
      then have "hold_at t w r = None" using holdings_iff [OF assms, of r w] Some vh by (cases "hold_at t w r") auto
      then show ?thesis using Some vh at False by simp
    qed
  qed
  then show ?thesis
    using split [OF dist] by (simp only: workspace_total_def others_def fold_total fold_rest plus_hold_simps)
qed

lemma others_same:
  assumes "lk_inv t" and "lk_inv t'" and "\<And>q. q \<noteq> r \<Longrightarrow> holdings t' q = holdings t q"
  shows "others t' w r = others t w r"
proof -
  have "{q. q \<noteq> r \<and> (\<exists>h. holdings t' q = Some (w, h))} = {q. q \<noteq> r \<and> (\<exists>h. holdings t q = Some (w, h))}"
    using assms(3) by auto
  then have "share (holdings t') w r f = share (holdings t) w r f" for f
    unfolding share_def using assms(3) by (intro sum.cong) auto
  then show ?thesis by (simp add: others_share [OF assms(1)] others_share [OF assms(2)] spec_others_def)
qed

lemma exclusive_mono: "exclusive b \<Longrightarrow> le_hold a b \<Longrightarrow> exclusive a"
  by (auto simp: exclusive_def le_hold_def)

lemma others_le: "lk_inv t \<Longrightarrow> le_hold (others t w r) (workspace_total t w)"
  by (simp add: total_split [of t w r] le_hold_def)

text \<open>Setting a run's hold leaves every workspace within the exclusion if its new total is.\<close>

lemma set_hold_exclusive:
  assumes "lk_inv t" and "\<And>w. exclusive (workspace_total t w)"
    and "\<And>v. workspace = Some v \<Longrightarrow> exclusive (plus_hold h (others t v r))"
  shows "exclusive (workspace_total (snd (set_hold r workspace h t)) w)"
proof -
  let ?t = "snd (set_hold r workspace h t)"
  have op: "?t = lock_op t (SetHold r workspace h)" by simp
  have inv: "lk_inv ?t" unfolding op by (rule lock_op_inv [OF assms(1)])
  have hs: "holdings ?t = lock_spec (holdings t) (SetHold r workspace h)"
    unfolding op by (rule lock_op_spec [OF assms(1)])
  have same: "others ?t w r = others t w r"
    by (rule others_same [OF assms(1) inv]) (simp add: hs)
  have old: "exclusive (others t w r)"
    by (rule exclusive_mono [OF assms(2) others_le [OF assms(1)]])
  have total: "workspace_total ?t w = plus_hold (others t w r)
      (if workspace = Some w \<and> \<not> holds_nothing h then h else NO_HOLD)"
    by (simp add: total_split [OF inv, of w r] same hs split: option.split)
  show ?thesis
  proof (cases "workspace = Some w \<and> \<not> holds_nothing h")
    case True
    then have "workspace_total ?t w = plus_hold h (others t w r)" unfolding total by (simp add: plus_hold_comm)
    then show ?thesis using assms(3) True by metis
  next
    case False
    then show ?thesis using old by (simp only: total if_False plus_hold_simps)
  qed
qed

lemma recorded_exclusive:
  assumes "lk_inv t" and "\<And>w. exclusive (workspace_total t w)" and "recorded t run"
    and "graphRunLockedWorkspace run = Some w" and "le_hold h (graphRunWorkspaceHold run)"
  shows "exclusive (plus_hold h (others t w (run_id run)))"
proof -
  let ?r = "run_id run"
  have le: "le_hold h (run_hold t ?r)" and at: "obj_get (lk_workspaceOf t) ?r \<in> {None, Some w}"
    using assms(3-5) by (auto simp: recorded_def le_hold_def)
  have "run_hold t ?r = (case holdings t ?r of None \<Rightarrow> NO_HOLD | Some (v, h) \<Rightarrow> if v = w then h else NO_HOLD)"
    using at by (auto simp: run_hold_holdings holdings_def split: option.split)
  then have "workspace_total t w = plus_hold (run_hold t ?r) (others t w ?r)"
    by (simp add: total_split [OF assms(1), of w ?r] plus_hold_comm)
  then show ?thesis
    using exclusive_mono [OF assms(2) [of w]] le by (simp add: le_hold_def)
qed

text \<open>
  The tables that arise: seeded from stored runs, then changed by passes of any runs in any order.
  A pass starts from a record the table covers, which it does again afterwards
  (\<open>sync_recorded\<close>, \<open>round_recorded\<close>).
\<close>

inductive shares :: "locks \<Rightarrow> bool" where
  seeded: "lk_inv t \<Longrightarrow> (\<And>w. exclusive (workspace_total t w)) \<Longrightarrow> shares t"
| synced: "shares t \<Longrightarrow> recorded t run \<Longrightarrow> shares (snd (syncLocks run t))"
| released: "shares t \<Longrightarrow> shares (release r t)"
| admitted: "shares t \<Longrightarrow> recorded t run \<Longrightarrow> run_inv run \<Longrightarrow>
    admission_round t known held now run = Inr (r, t', d) \<Longrightarrow> shares t'"

lemma round_table:
  assumes "run_inv run" and "admission_round t known held now run = Inr (r, t', d)"
  shows "t' = t \<or> t' = snd (set_hold (run_id run) (graphRunLockedWorkspace run) (graphRunWorkspaceHold r) t)"
proof -
  let ?d = "selectGraphAdmissions run (admission_opts t known held run)"
  obtain q where "admission_round t known held now run =
      Inr (q, if ad_admit ?d = [] then t
              else snd (set_hold (run_id run) (graphRunLockedWorkspace run) (graphRunWorkspaceHold q) t), ?d)"
    using round_position [OF assms(1) refl] by blast
  then show ?thesis using assms(2) by (auto split: if_splits)
qed

lemma shares_inv:
  "shares t \<Longrightarrow> lk_inv t \<and> (\<forall>w. exclusive (workspace_total t w))"
proof (induction rule: shares.induct)
  case (synced t run)
  let ?h = "if isGraphRunTerminal (run_status run) then NO_HOLD else graphRunWorkspaceHold run"
  have t: "snd (syncLocks run t) = lock_op t (SetHold (run_id run) (graphRunLockedWorkspace run) ?h)"
    by (simp add: syncLocks_def Let_def)
  have "exclusive (workspace_total (snd (syncLocks run t)) w)" for w
    unfolding t lock_op.simps
  proof (rule set_hold_exclusive)
    show "exclusive (plus_hold ?h (others t v (run_id run)))" if "graphRunLockedWorkspace run = Some v" for v
      using synced that by (intro recorded_exclusive) (auto simp: le_hold_def NO_HOLD_def)
  qed (use synced in simp_all)
  moreover have "lk_inv (snd (syncLocks run t))" unfolding t using synced lock_op_inv by blast
  ultimately show ?case by blast
next
  case (released t r)
  have inv: "lk_inv t" "lk_inv (release r t)" using released release_inv by blast+
  have "others (release r t) w r = others t w r" for w
    by (rule others_same [OF inv]) (simp add: release_holdings inv(1))
  then have "workspace_total (release r t) w = others t w r" for w
    by (simp add: total_split [OF inv(2), of w r] release_holdings inv(1))
  moreover have "exclusive (others t w r)" for w
    using released exclusive_mono [OF _ others_le [OF inv(1)]] by blast
  ultimately show ?case using inv(2) by simp
next
  case (admitted t run known held now r t' d)
  from round_table [OF admitted.hyps(3,4)] show ?case
  proof
    assume t': "t' = snd (set_hold (run_id run) (graphRunLockedWorkspace run) (graphRunWorkspaceHold r) t)"
    have "exclusive (workspace_total t' w)" for w
      unfolding t'
    proof (rule set_hold_exclusive)
      fix v assume v: "graphRunLockedWorkspace run = Some v"
      have opts: "ao_others (admission_opts t known held run) = others t v (run_id run)"
        by (simp add: admission_opts_def v)
      have "exclusive (plus_hold (graphRunWorkspaceHold run) (others t v (run_id run)))"
        using admitted v by (intro recorded_exclusive) (auto simp: le_hold_def)
      then show "exclusive (plus_hold (graphRunWorkspaceHold r) (others t v (run_id run)))"
        using round_exclusive [OF admitted.hyps(3,4)] by (simp only: opts)
    qed (use admitted in simp_all)
    moreover have "lk_inv t'"
      unfolding t' lock_op.simps [symmetric] by (rule lock_op_inv) (use admitted in blast)
    ultimately show ?thesis by blast
  qed (use admitted in simp)
qed simp

lemma set_hold_run_hold:
  assumes "lk_inv t"
  shows "run_hold (snd (set_hold r (Some w) h t)) r = (if holds_nothing h then NO_HOLD else h)"
    and "obj_get (lk_workspaceOf (snd (set_hold r (Some w) h t))) r \<in> {None, Some w}"
proof -
  let ?t = "lock_op t (SetHold r (Some w) h)"
  have hs: "holdings ?t = lock_spec (holdings t) (SetHold r (Some w) h)" by (rule lock_op_spec [OF assms])
  then show "run_hold (snd (set_hold r (Some w) h t)) r = (if holds_nothing h then NO_HOLD else h)"
    by (simp add: run_hold_holdings)
  have "lk_inv ?t" by (rule lock_op_inv [OF assms])
  moreover have "obj_get (lk_workspaceOf ?t) r = Some v \<Longrightarrow> v = w" for v
    using hs lk_inv_at [OF \<open>lk_inv ?t\<close>, of r v] by (auto simp: holdings_def fun_eq_iff split: if_splits option.splits)
  ultimately show "obj_get (lk_workspaceOf (snd (set_hold r (Some w) h t))) r \<in> {None, Some w}"
    by (cases "obj_get (lk_workspaceOf ?t) r") auto
qed

lemma le_holds_nothing: "le_hold h (if holds_nothing h then NO_HOLD else h)"
  by (simp add: le_hold_def holds_nothing_def NO_HOLD_def)

lemma sync_recorded:
  assumes "lk_inv t" and "\<not> isGraphRunTerminal (run_status run)"
  shows "recorded (snd (syncLocks run t)) run"
  using set_hold_run_hold [OF assms(1)] assms(2) le_holds_nothing
  by (auto simp: recorded_def syncLocks_def Let_def split: option.split)

lemma round_recorded:
  assumes "lk_inv t" and "run_inv run" and "admission_round t known held now run = Inr (r, t', d)" and "ad_admit d \<noteq> []"
  shows "recorded t' r"
proof -
  let ?d = "selectGraphAdmissions run (admission_opts t known held run)"
  obtain q where q: "admission_round t known held now run =
      Inr (q, if ad_admit ?d = [] then t
              else snd (set_hold (run_id run) (graphRunLockedWorkspace run) (graphRunWorkspaceHold q) t), ?d)"
    "frame run q"
    using round_position [OF assms(2) refl] by metis
  then have "t' = snd (set_hold (run_id r) (graphRunLockedWorkspace r) (graphRunWorkspaceHold r) t)"
    using assms(3,4) by (auto simp: frame_def graphRunLockedWorkspace_def)
  then show ?thesis
    using set_hold_run_hold [OF assms(1)] le_holds_nothing by (auto simp: recorded_def split: option.split)
qed


definition locked_run :: graph_run where
  "locked_run = (admission_run\<lparr>run_environmentId := Some ''env'',
     run_activations := [example_activation ''w'' ''write'' Ready, example_activation ''r'' ''read'' Ready]\<rparr>)"

lemma locked_run_inv: "run_inv locked_run"
  by (simp add: locked_run_def admission_run_def run_inv_def example_eval liveGraphActivations_def activation_ok_def
      rewind_ids_def maxActivationHistory_def maxActivations_def maxRewinds_def Let_def)

text \<open>From an empty table, one round admits the writer and leaves it as the only holder.\<close>

lemma locked_run_round:
  "\<exists>r t' d. admission_round no_locks True (\<lambda>_. ExtAbsent) ''t1'' locked_run = Inr (r, t', d) \<and> shares t'"
proof -
  obtain r where "admission_round no_locks True (\<lambda>_. ExtAbsent) ''t1'' locked_run =
      Inr (r, (let d = selectGraphAdmissions locked_run (admission_opts no_locks True (\<lambda>_. ExtAbsent) locked_run)
               in if ad_admit d = [] then no_locks
                  else snd (set_hold (run_id locked_run) (graphRunLockedWorkspace locked_run) (graphRunWorkspaceHold r) no_locks)),
        selectGraphAdmissions locked_run (admission_opts no_locks True (\<lambda>_. ExtAbsent) locked_run))"
    using round_position [OF locked_run_inv refl, of no_locks True "\<lambda>_. ExtAbsent" "''t1''"] unfolding Let_def by metis
  moreover have "shares no_locks"
    by (rule shares.seeded [OF no_locks_inv])
      (simp add: workspace_total_def no_locks_def get_or_def exclusive_def NO_HOLD_def)
  moreover have "recorded no_locks locked_run"
    by (simp add: recorded_def le_hold_def locked_run_def graphRunLockedWorkspace_def no_locks_def admission_eval)
  ultimately show ?thesis using shares.admitted [OF _ _ locked_run_inv] by blast
qed


theorem admission_round_exact_witness:
  "\<exists>r t'. admission_round no_locks True (\<lambda>_. ExtAbsent) ''t1'' locked_run =
      Inr (r, t', selectGraphAdmissions locked_run (admission_opts no_locks True (\<lambda>_. ExtAbsent) locked_run)) \<and> run_inv r"
  using admission_round_exact [OF locked_run_inv refl, of no_locks True "\<lambda>_. ExtAbsent" "''t1''"] by blast

section \<open>Stopping an activation\<close>

text \<open>The cancel calls of successive passes: none is made once the activation is no longer admitted.\<close>

fun stop_calls ::
  "executor_call \<Rightarrow> (facts \<times> report_state \<times> string) list \<Rightarrow> graph_run \<times> pass_memory
    \<Rightarrow> transition_error + graph_run \<times> pass_memory" where
  "stop_calls call [] s = Inr s"
| "stop_calls call ((f, rep, now) # rs) s =
     (case graphRunActivation (fst s) (act_key (xc_activation call)) of
        None \<Rightarrow> Inr s
      | Some a \<Rightarrow>
          if \<not> isGraphActivationAdmitted (act_state a) then Inr s
          else (case applyCancel call f rep now s of
                  Inl e \<Rightarrow> Inl e | Inr s' \<Rightarrow> stop_calls call rs s'))"

lemma position_activation_of:
  assumes "run_inv run"
  shows "(k, n, s) \<in> set (positions run) \<longleftrightarrow>
    (\<exists>a. graphRunActivation run k = Some a \<and> act_nodeId a = n \<and> act_state a = s)"
proof
  assume "(k, n, s) \<in> set (positions run)"
  then obtain a where a: "a \<in> set (run_activations run)" "act_key a = k" "act_nodeId a = n" "act_state a = s"
    by (auto simp: positions_def)
  then show "\<exists>a. graphRunActivation run k = Some a \<and> act_nodeId a = n \<and> act_state a = s"
    using graphRunActivation_mem [OF assms a(1)] by auto
next
  assume "\<exists>a. graphRunActivation run k = Some a \<and> act_nodeId a = n \<and> act_state a = s"
  then show "(k, n, s) \<in> set (positions run)"
    by (auto simp: positions_def dest!: graphRunActivation_SomeD)
qed

lemma apply_terminal:
  assumes inv: "run_inv run" and at: "(k, n, s) \<in> set (positions run)" "isGraphActivationAdmitted s"
    and rep: "\<not> unconfirmed rep"
  obtains r s' where "pass_apply k f rep now run = Inr r" and "run_inv r"
    and "(k, n, s') \<in> set (positions r)" and "isGraphActivationTerminal s'"
proof -
  have dist: "distinct (map fst (positions run))" using inv by (simp add: keys_positions run_inv_def)
  have fails: "settled_state SFailed \<in> set (activation_transitions s)"
    using at(2) by (auto simp: isGraphActivationAdmitted_def)
  have moved: "(k, n, s') \<in> set (set_all {k} s' (positions run))" for s' using at(1) by (force simp: set_all_def)
  show thesis
  proof (cases "applyGraphActivationReport run k f rep now")
    case (Inl m)
    obtain r where r: "settleGraphActivation run k SFailed now (Some (units m, Some ''system-error'')) = Inr r"
        "positions r = set_all {k} (settled_state SFailed) (positions run)" "run_inv r"
      using settle_position [OF at(1) fails dist, of now "Some (units m, Some ''system-error'')"] inv by metis
    show thesis
      by (rule that [of r Failed]) (use r moved [of Failed] Inl in \<open>simp_all add: pass_apply_def isGraphActivationTerminal_def\<close>)
  next
    case (Inr out)
    obtain a where a: "graphRunActivation run k = Some a" "act_nodeId a = n" "act_state a = s"
      using position_activation_of [OF inv] at(1) by blast
    have inv': "run_inv (out_run out)" using report_inv_le [OF inv Inr] by blast
    from Inr show thesis
    proof (cases rule: report_cases)
      case terminal
      then show ?thesis using a at(2) by (auto simp: isGraphActivationAdmitted_def isGraphActivationTerminal_def)
    next
      case (moved b target q)
      have b: "b = a" using run_inv_keys [OF inv moved(1)] graphRunActivation_SomeD [OF a(1)] moved(2) by auto
      have t: "isGraphActivationTerminal target"
        using rep moved(4) by (cases rep) (simp_all add: unconfirmed_def isGraphActivationTerminal_def)
      have q: "replace_with run k (\<lambda>_. Inr (report_next b f rep target now) :: unit + activation) = Inr (Inr q)"
        using moved(9) by (auto simp: replaceGraphActivation_def split: sum.splits)
      have changed: "report_next b f rep target now \<noteq> b"
        using moved(3) t by (metis report_next_simps(7))
      then have "positions (out_run out) = positions q"
        using moved(10) by (simp add: positions_def)
      moreover have "(k, n, target) \<in> set (positions q)"
        using q
      proof (rule replace_with_cases)
        fix i c
        assume "i < length (run_activations run)" "(Inr (report_next b f rep target now) :: unit + activation) = Inr c"
          "q = run\<lparr>run_activations := (run_activations run)[i := c]\<rparr>"
        moreover from this have "c \<in> set (run_activations q)" by (simp add: set_update_memI)
        moreover have "act_key c = k" "act_nodeId c = n" "act_state c = target"
          using calculation(2) moved(2) a(2) b by auto
        ultimately show ?thesis by (auto simp: positions_def)
      qed
      ultimately show ?thesis
        using inv' t Inr by (intro that [of "out_run out" target]) (simp_all add: pass_apply_def)
    qed
  qed
qed

lemma apply_cancel_cases:
  assumes inv: "run_inv run" and at: "(act_key (xc_activation call), n, s) \<in> set (positions run)"
    "isGraphActivationAdmitted s"
  obtains (again) m' where "applyCancel call f rep now (run, m) = Inr (run, m')"
      and "get_or 0 (obj_get (pm_cancelAttempts m') (act_key (xc_activation call))) =
             get_or 0 (obj_get (pm_cancelAttempts m) (act_key (xc_activation call))) + 1"
      and "get_or 0 (obj_get (pm_cancelAttempts m') (act_key (xc_activation call))) < MAX_CANCEL_ATTEMPTS"
  | (stopped) r m' s' where "applyCancel call f rep now (run, m) = Inr (r, m')" and "run_inv r"
      and "(act_key (xc_activation call), n, s') \<in> set (positions r)" and "isGraphActivationTerminal s'"
proof -
  let ?k = "act_key (xc_activation call)"
  let ?attempts = "get_or 0 (obj_get (pm_cancelAttempts m) ?k) + 1"
  let ?m = "m\<lparr>pm_cancelAttempts := obj_set ?k ?attempts (pm_cancelAttempts m)\<rparr>"
  have dist: "distinct (map fst (positions run))" using inv by (simp add: keys_positions run_inv_def)
  show thesis
  proof (cases "unconfirmed rep")
    case True
    show thesis
    proof (cases "?attempts < MAX_CANCEL_ATTEMPTS")
      case few: True
      show thesis
        by (rule again [of ?m]) (use True few in \<open>simp_all add: applyCancel_def Let_def get_or_def\<close>)
    next
      case False
      let ?st = "if xc_operation call = Cancel ByTimeout then SFailed else SCancelled"
      let ?f = "Some (units ''Stopping the activation could not be confirmed'',
        Some (if xc_operation call = Cancel ByTimeout then ''timeout'' else ''system-error''))"
      have stops: "settled_state ?st \<in> set (activation_transitions s)"
        using at(2) by (auto simp: isGraphActivationAdmitted_def)
      obtain r where r: "settleGraphActivation run ?k ?st now ?f = Inr r"
          "positions r = set_all {?k} (settled_state ?st) (positions run)" "run_inv r"
        using settle_position [OF at(1) stops dist, of now ?f] inv by metis
      have "applyCancel call f rep now (run, m) = Inr (r, ?m)"
        using True False r(1) by (simp add: applyCancel_def Let_def)
      moreover have "(?k, n, settled_state ?st) \<in> set (positions r)"
        using at(1) unfolding r(2) by (force simp: set_all_def)
      moreover have "isGraphActivationTerminal (settled_state st)" for st
        by (cases st) (simp_all add: isGraphActivationTerminal_def)
      ultimately show thesis using r(3) by (intro stopped)
    qed
  next
    case False
    define rep' where "rep' = (case rep of RepCancelled err \<Rightarrow>
        if xc_operation call = Cancel ByTimeout
        then RepFailed (units (''Timed out after ''
          @ show_int (round_seconds (get_or 0 (pn_timeoutMs (xc_node call)))) @ '' s'')) ''timeout'' None
        else rep | _ \<Rightarrow> rep)"
    have "\<not> unconfirmed rep'"
      using False by (auto simp: rep'_def unconfirmed_def split: report_state.splits)
    from apply_terminal [OF inv at this]
    obtain r s' where r: "pass_apply ?k f rep' now run = Inr r" "run_inv r"
        "(?k, n, s') \<in> set (positions r)" "isGraphActivationTerminal s'" by blast
    have "applyCancel call f rep now (run, m) = (case pass_apply ?k f rep' now run of
        Inl e \<Rightarrow> Inl e | Inr run \<Rightarrow> Inr (run, m))"
      using False by (simp add: applyCancel_def rep'_def Let_def split: report_state.split cong: sum.case_cong)
    with r show thesis by (intro stopped [of r m s']) simp_all
  qed
qed

lemma stop_terminal:
  assumes "run_inv run" and "(act_key (xc_activation call), n, s) \<in> set (positions run)"
    and "isGraphActivationTerminal s"
  shows "stop_calls call rs (run, m) = Inr (run, m)"
proof (cases rs)
  case (Cons x rs')
  then show ?thesis
    using assms position_activation_of [OF assms(1)] 
    by (cases x) (auto simp: isGraphActivationTerminal_def isGraphActivationAdmitted_def)
qed simp

text \<open>C5. Stopping is bounded: whatever the executor reports, an admitted activation whose stop is
  requested on three successive passes is terminal by then, and no call throws.\<close>

theorem stop_is_bounded:
  assumes "run_inv run" and "graphRunActivation run (act_key (xc_activation call)) = Some a"
    and "isGraphActivationAdmitted (act_state a)" and "length reports \<ge> 3"
  shows "\<exists>r m' b. stop_calls call reports (run, m) = Inr (r, m')
    \<and> graphRunActivation r (act_key (xc_activation call)) = Some b \<and> isGraphActivationTerminal (act_state b)"
proof -
  let ?k = "act_key (xc_activation call)"
  have bound: "\<exists>r m' b. stop_calls call reports (run, m) = Inr (r, m')
      \<and> graphRunActivation r ?k = Some b \<and> isGraphActivationTerminal (act_state b)"
    if "run_inv run" "graphRunActivation run ?k = Some a" "isGraphActivationAdmitted (act_state a)" "reports \<noteq> []"
      "length reports + get_or 0 (obj_get (pm_cancelAttempts m) ?k) \<ge> MAX_CANCEL_ATTEMPTS" for reports m
    using that
  proof (induction reports arbitrary: m)
    case (Cons x reports)
    obtain f rep now where x: "x = (f, rep, now)" by (cases x)
    have at: "(?k, act_nodeId a, act_state a) \<in> set (positions run)"
      using position_activation_of [OF Cons.prems(1)] Cons.prems(2) by blast
    have step: "stop_calls call (x # reports) (run, m) = (case applyCancel call f rep now (run, m) of
        Inl e \<Rightarrow> Inl e | Inr s' \<Rightarrow> stop_calls call reports s')"
      using Cons.prems(2,3) by (simp add: x)
    from Cons.prems(1) at Cons.prems(3) show ?case
    proof (cases rule: apply_cancel_cases [of run call "act_nodeId a" "act_state a" f rep now m])
      case (again m')
      have "reports \<noteq> []" using again(2,3) Cons.prems(5) by (cases reports) simp_all
      moreover have "length reports + get_or 0 (obj_get (pm_cancelAttempts m') ?k) \<ge> MAX_CANCEL_ATTEMPTS"
        using again(2) Cons.prems(5) by simp
      ultimately show ?thesis using Cons.IH [of m'] Cons.prems(1-3) again(1) by (simp add: step)
    next
      case (stopped r m' s')
      then show ?thesis
        using stop_terminal [OF stopped(2,3,4)] position_activation_of [OF stopped(2)] by (auto simp: step)
    qed
  qed simp
  show ?thesis
    by (rule bound [OF assms(1-3)]) (use assms(4) in \<open>auto simp: MAX_CANCEL_ATTEMPTS_def\<close>)
qed

definition empty_memory :: pass_memory where
  "empty_memory = \<lparr>pm_handled = [], pm_observedAt = [], pm_observeAfter = [], pm_flagged = [],
     pm_cancelAttempts = [], pm_nextDelayMs = None\<rparr>"

theorem stop_is_bounded_witness:
  "\<exists>r m' b. stop_calls \<lparr>xc_activation = example_activation ''plan'' ''plan'' Running,
        xc_node = admission_node ''plan'' AccRead, xc_operation = Cancel RunCancelled\<rparr>
      (replicate 3 (no_facts, RepUnchanged, ''t1''))
      (example_run [example_activation ''plan'' ''plan'' Running], empty_memory) = Inr (r, m')
    \<and> graphRunActivation r ''plan'' = Some b \<and> isGraphActivationTerminal (act_state b)"
  using stop_is_bounded [of "example_run [example_activation ''plan'' ''plan'' Running]"
      "\<lparr>xc_activation = example_activation ''plan'' ''plan'' Running,
        xc_node = admission_node ''plan'' AccRead, xc_operation = Cancel RunCancelled\<rparr>"
      "example_activation ''plan'' ''plan'' Running" "replicate 3 (no_facts, RepUnchanged, ''t1'')" empty_memory]
    example_run_inv [of "[(''plan'', ''plan'', Running)]"]
  by (simp add: graphRunActivation_def example_eval isGraphActivationAdmitted_def)

section \<open>Failing a run\<close>

lemma transition_status:
  "transitionGraphRun run st now failure = Inr r \<Longrightarrow> run_status r = st \<and> run_activations r = run_activations run
     \<and> canTransitionGraphRun (run_status run) st"
  by (auto simp: transitionGraphRun_def Let_def split: if_splits option.splits)

lemma transition_allowed:
  "canTransitionGraphRun (run_status run) st \<Longrightarrow> \<exists>r. transitionGraphRun run st now failure = Inr r"
  by (auto simp: transitionGraphRun_def Let_def split: option.splits)

lemma transition_error:
  "transitionGraphRun run st now (Some failure) = Inr r \<Longrightarrow> run_error r \<noteq> None"
  by (cases failure) (auto simp: transitionGraphRun_def Let_def split: if_splits)

lemma transition_failing:
  assumes "canTransitionGraphRun (run_status run) st"
  obtains r where "transitionGraphRun run st now (Some failure) = Inr r" "run_status r = st"
    "run_activations r = run_activations run" "run_error r \<noteq> None"
proof -
  obtain r where r: "transitionGraphRun run st now (Some failure) = Inr r"
    using transition_allowed [OF assms] by blast
  show thesis using that [OF r] transition_status [OF r] transition_error [OF r] by blast
qed

lemma cancel_unstarted_position:
  assumes "distinct (map act_key as)"
    and "\<And>a. a \<in> set as \<Longrightarrow> unstarted (act_state a) \<Longrightarrow> (act_key a, act_nodeId a, act_state a) \<in> set (positions run)"
    and "distinct (map fst (positions run))"
  obtains r where "cancel_unstarted failure now as run = Inr r"
    and "positions r = set_all (act_key ` {a \<in> set as. unstarted (act_state a)}) Cancelled (positions run)"
    and "frame run r" and "run_inv run \<Longrightarrow> run_inv r"
  using assms
proof (induction as arbitrary: run thesis)
  case Nil
  then show ?case by simp
next
  case (Cons a as)
  have a: "act_key a \<notin> act_key ` set as" "distinct (map act_key as)" using Cons.prems(2) by auto
  show ?case
  proof (cases "unstarted (act_state a)")
    case True
    have mem: "(act_key a, act_nodeId a, act_state a) \<in> set (positions run)" using Cons.prems(3) True by simp
    have stops: "settled_state SCancelled \<in> set (activation_transitions (act_state a))"
      using True by (auto simp: unstarted_def)
    obtain q where q: "settleGraphActivation run (act_key a) SCancelled now failure = Inr q"
        "positions q = set_all {act_key a} (settled_state SCancelled) (positions run)" "frame run q"
        "run_inv run \<Longrightarrow> run_inv q"
      using settle_position [OF mem stops Cons.prems(4)] by metis
    obtain r where r: "cancel_unstarted failure now as q = Inr r"
        "positions r = set_all (act_key ` {a \<in> set as. unstarted (act_state a)}) Cancelled (positions q)"
        "frame q r" "run_inv q \<Longrightarrow> run_inv r"
    proof (rule Cons.IH [of q])
      fix b assume b: "b \<in> set as" "unstarted (act_state b)"
      then have "act_key b \<noteq> act_key a" using a(1) by (metis imageI)
      then show "(act_key b, act_nodeId b, act_state b) \<in> set (positions q)"
        using Cons.prems(3) b by (simp add: q(2) in_set_all)
    qed (use a Cons.prems(4) q(2) in simp_all)
    have keys: "act_key ` {x \<in> set (a # as). unstarted (act_state x)} =
        insert (act_key a) (act_key ` {x \<in> set as. unstarted (act_state x)})" using True by auto
    have "act_key a \<notin> act_key ` {x \<in> set as. unstarted (act_state x)}" using a(1) by blast
    then have "positions r = set_all (act_key ` {x \<in> set (a # as). unstarted (act_state x)}) Cancelled (positions run)"
      unfolding keys using r(2) q(2) by (simp add: set_all_insert)
    moreover have "cancel_unstarted failure now (a # as) run = Inr r" using True q(1) r(1) by simp
    ultimately show ?thesis
      using Cons.prems(1) frame_trans q(3,4) r(3,4) by blast
  next
    case False
    have keys: "{x \<in> set (a # as). unstarted (act_state x)} = {x \<in> set as. unstarted (act_state x)}" using False by auto
    obtain r where r: "cancel_unstarted failure now as run = Inr r"
        "positions r = set_all (act_key ` {a \<in> set as. unstarted (act_state a)}) Cancelled (positions run)"
        "frame run r" "run_inv run \<Longrightarrow> run_inv r"
      by (rule Cons.IH [of run]) (use a Cons.prems in simp_all)
    show ?thesis
      by (rule Cons.prems(1) [of r]) (use r False in \<open>simp_all only: keys cancel_unstarted.simps if_False\<close>)
  qed
qed

lemma count_admitted:
  "ra_admitted (graphRunActivity run) = length (filter (\<lambda>p. isGraphActivationAdmitted (snd (snd p))) (positions run))"
proof -
  have "ra_admitted (fold (\<lambda>a x. x\<lparr>ra_admitted := ra_admitted x + (if isGraphActivationAdmitted (act_state a) then 1 else 0),
         ra_awaitingHuman := ra_awaitingHuman x + (if act_state a = AwaitingHuman then 1 else 0),
         ra_ready := ra_ready x + (if act_state a = Ready then 1 else 0)\<rparr>) as x)
     = ra_admitted x + length (filter (\<lambda>a. isGraphActivationAdmitted (act_state a)) as)" for as :: "activation list" and x :: run_activity
    by (induction as arbitrary: x) simp_all
  then show ?thesis by (simp add: graphRunActivity_def positions_def filter_map o_def)
qed

text \<open>C28. Failing a run never throws: nothing is left waiting or ready, what was admitted stays
  admitted and is stopped first, and the run is failed at once only when nothing was.\<close>

theorem fail_run_exact:
  assumes "run_inv run" and "passable (run_status run)"
  shows "\<exists>r. failRun failure now run =
      Inr (r, \<exists>p\<in>set (positions run). isGraphActivationAdmitted (snd (snd p)))
    \<and> run_status r = (if \<exists>p\<in>set (positions run). isGraphActivationAdmitted (snd (snd p)) then Cancelling else RFailed)
    \<and> positions r = map (\<lambda>(k, n, s). (k, n, if unstarted s then Cancelled else s)) (positions run)
    \<and> run_error r \<noteq> None \<and> run_inv r"
proof -
  let ?xs = "run_activations run"
  have dist: "distinct (map act_key ?xs)" "distinct (map fst (positions run))"
    using assms(1) by (simp_all add: keys_positions run_inv_def)
  obtain q where q: "cancel_unstarted None now ?xs run = Inr q"
      "positions q = set_all (act_key ` {a \<in> set ?xs. unstarted (act_state a)}) Cancelled (positions run)"
      "frame run q" "run_inv q"
    using cancel_unstarted_position [OF dist(1) _ dist(2)] assms(1) by (metis (no_types, lifting) position_mem)
  have pos: "positions q = map (\<lambda>(k, n, s). (k, n, if unstarted s then Cancelled else s)) (positions run)"
    unfolding q(2) set_all_def
  proof (rule map_cong [OF refl], clarsimp)
    fix k n s assume "(k, n, s) \<in> set (positions run)"
    then obtain a where a: "a \<in> set ?xs" "act_key a = k" "act_state a = s" by (auto simp: positions_def)
    have "k \<in> act_key ` {a \<in> set ?xs. unstarted (act_state a)} \<longleftrightarrow> unstarted s"
      using a dist(1) by (auto simp: distinct_map inj_on_def)
    then show "(k \<in> act_key ` {a \<in> set ?xs. unstarted (act_state a)} \<longrightarrow> \<not> unstarted s \<longrightarrow> Cancelled = s)
        \<and> (k \<notin> act_key ` {a \<in> set ?xs. unstarted (act_state a)} \<longrightarrow> unstarted s \<longrightarrow> s = Cancelled)" by blast
  qed
  have adm: "ra_admitted (graphRunActivity q) > 0 \<longleftrightarrow> (\<exists>p\<in>set (positions run). isGraphActivationAdmitted (snd (snd p)))"
  proof -
    have "isGraphActivationAdmitted (if unstarted s then Cancelled else s) = isGraphActivationAdmitted s" for s
      by (auto simp: unstarted_def isGraphActivationAdmitted_def)
    then have "ra_admitted (graphRunActivity q) =
        length (filter (\<lambda>p. isGraphActivationAdmitted (snd (snd p))) (positions run))"
      by (simp add: count_admitted pos filter_map o_def case_prod_beta)
    then show ?thesis by (simp add: filter_empty_conv)
  qed
  let ?st = "if ra_admitted (graphRunActivity q) > 0 then Cancelling else RFailed"
  have "canTransitionGraphRun (run_status q) ?st"
    using assms(2) q(3) by (auto simp: canTransitionGraphRun_def passable_def frame_def)
  then obtain r where r: "transitionGraphRun q ?st now (Some failure) = Inr r" "run_status r = ?st"
      "run_activations r = run_activations q" "run_error r \<noteq> None"
    by (rule transition_failing)
  have "run_inv r" using transition_inv_le [OF q(4) r(1)] by blast
  moreover have "positions r = positions q" using r(3) by (simp add: positions_def)
  ultimately show ?thesis
    using r adm pos by (simp add: failRun_def q(1) Let_def)
qed

theorem fail_run_exact_witness:
  "\<exists>r. failRun ([], ''system-error'') ''t1''
      (example_run [example_activation ''plan'' ''plan'' Running, example_activation ''fix'' ''fix'' Ready]) = Inr (r, True)
    \<and> run_status r = Cancelling \<and> positions r = [(''plan'', ''plan'', Running), (''fix'', ''fix'', Cancelled)]"
  using fail_run_exact [of "example_run [example_activation ''plan'' ''plan'' Running, example_activation ''fix'' ''fix'' Ready]"
      "([], ''system-error'')" "''t1''"] example_run_inv [of "[(''plan'', ''plan'', Running), (''fix'', ''fix'', Ready)]"]
  by (auto simp: positions_def example_eval isGraphActivationAdmitted_def unstarted_def passable_def)

section \<open>The status a pass leaves\<close>

text \<open>C29. The status a pass leaves is always legal: settling the status never throws a transition
  error, follows the table and touches no activation, and a run is only completed with every
  activation terminal and every required output produced.\<close>

theorem pass_status_legal:
  assumes "settleStatus now p run = Some res"
  shows "\<exists>r. res = Inr r \<and> canTransitionGraphRun (run_status run) (run_status r)
    \<and> run_activations r = run_activations run
    \<and> (run_status r = RComplete \<longrightarrow> run_status run = RComplete
        \<or> list_all (\<lambda>a. isGraphActivationTerminal (act_state a)) (run_activations run)
          \<and> missingGraphRunOutputs run = Some [])"
proof -
  note def = assms [unfolded settleStatus_def Let_def]
  have stay: "canTransitionGraphRun (run_status run) (run_status run)" by (simp add: canTransitionGraphRun_def)
  have moved: ?thesis if "res = transitionGraphRun run st now failure" "canTransitionGraphRun (run_status run) st"
    "st = RComplete \<longrightarrow> list_all (\<lambda>a. isGraphActivationTerminal (act_state a)) (run_activations run)
       \<and> missingGraphRunOutputs run = Some []" for st failure
    using transition_allowed [OF that(2), of now failure] transition_status that by metis
  consider (cancelling) "run_status run = Cancelling" | (other) "\<not> passable (run_status run)" "run_status run \<noteq> Cancelling"
    | (passable) "passable (run_status run)" by (cases "run_status run") (auto simp: passable_def)
  then show ?thesis
  proof cases
    case cancelling
    then have "canTransitionGraphRun (run_status run) (if run_error run = None then RCancelled else RFailed)"
      by (simp add: canTransitionGraphRun_def)
    then show ?thesis
      using def cancelling stay moved [of "if run_error run = None then RCancelled else RFailed" None]
      by (auto split: if_splits)
  next
    case other
    then show ?thesis using def stay by auto
  next
    case passable
    have to: "canTransitionGraphRun (run_status run) st" if "st \<in> {RRunning, RWaiting, RComplete, RFailed}" for st
      using passable that by (auto simp: passable_def canTransitionGraphRun_def)
    have nc: "run_status run \<noteq> Cancelling" using passable by (auto simp: passable_def)
    let ?waiting = "ra_awaitingHuman (graphRunActivity run) > 0
      \<and> ra_admitted (graphRunActivity run) = ra_awaitingHuman (graphRunActivity run) \<and> ra_ready (graphRunActivity run) = 0"
    show ?thesis
    proof (cases "run_status run \<noteq> RPaused \<and> (case p of None \<Rightarrow> False | Some q \<Rightarrow> graphRunSettled run q)")
      case settled: True
      then have terminal: "list_all (\<lambda>a. isGraphActivationTerminal (act_state a)) (run_activations run)"
        by (auto simp: graphRunSettled_def split: option.splits)
      from def settled nc passable obtain missing where missing: "missingGraphRunOutputs run = Some missing"
        "res = (if missing = [] then transitionGraphRun run RComplete now None
          else transitionGraphRun run RFailed now (Some (missing_error missing, ''system-error'')))"
        by (auto split: option.splits bind_splits)
      show ?thesis
      proof (cases "missing = []")
        case True
        then show ?thesis using missing terminal to moved [of RComplete None] by simp
      next
        case False
        then show ?thesis using missing to moved [of RFailed] by simp
      qed
    next
      case unsettled: False
      show ?thesis
      proof (cases "run_status run = RPaused")
        case True
        then show ?thesis using def unsettled nc passable stay by auto
      next
        case False
        then have "res = (if (if ?waiting then RWaiting else RRunning) \<noteq> run_status run
            then transitionGraphRun run (if ?waiting then RWaiting else RRunning) now None else Inr run)"
          using def unsettled nc passable by auto
        then show ?thesis
          using stay to moved [of "if ?waiting then RWaiting else RRunning" None] passable
          by (auto split: if_splits simp: passable_def)
      qed
    qed
  qed
qed

theorem pass_status_legal_witness:
  "\<exists>r. settleStatus ''t1'' None (example_run [example_activation ''plan'' ''plan'' AwaitingHuman]) = Some (Inr r)
     \<and> canTransitionGraphRun RRunning (run_status r)"
proof -
  let ?run = "example_run [example_activation ''plan'' ''plan'' AwaitingHuman]"
  obtain res where "settleStatus ''t1'' None ?run = Some res"
    by (simp add: settleStatus_def example_eval passable_def Let_def)
  then show ?thesis using pass_status_legal [of "''t1''" None ?run res] by (auto simp: example_eval)
qed

text \<open>A run's next pass is never later than one millisecond past its wall-clock deadline, and with
  a deadline there always is one.\<close>

theorem next_pass_before_deadline:
  assumes "\<not> isGraphRunTerminal (run_status run)" and "run_status run \<noteq> Cancelling"
    and "graphRunWallClockDeadline date_parse run = Some deadline"
  shows "\<exists>d. nextDelay date_parse clock c m now run = Some d \<and> d \<le> of_int (max 0 (deadline - clock + 1))"
  using assms by (auto simp: nextDelay_def Let_def split: option.split)

theorem next_pass_before_deadline_witness:
  "\<exists>d. nextDelay (\<lambda>_. Some 100) 120 \<lparr>cd_progress = 1000, cd_observation = 3000\<rparr> empty_memory 7
      (let run = example_run [] in run\<lparr>run_startedAt := Some ''t'', run_plan := (run_plan run)\<lparr>plan_limits :=
         (plan_limits (run_plan run))\<lparr>li_maxWallClockMs := Some 50\<rparr>\<rparr>\<rparr>) = Some d \<and> d \<le> 31"
proof -
  let ?run = "let run = example_run [] in run\<lparr>run_startedAt := Some ''t'', run_plan := (run_plan run)\<lparr>plan_limits :=
         (plan_limits (run_plan run))\<lparr>li_maxWallClockMs := Some 50\<rparr>\<rparr>\<rparr>"
  have "graphRunWallClockDeadline (\<lambda>_. Some 100) ?run = Some 150"
    by (simp add: graphRunWallClockDeadline_def example_eval Let_def)
  from next_pass_before_deadline [OF _ _ this, of 120 "\<lparr>cd_progress = 1000, cd_observation = 3000\<rparr>" empty_memory 7]
  show ?thesis by (simp add: example_eval isGraphRunTerminal_def Let_def)
qed

end
