(* ===== verification/Line_Splitter.thy ===== *)
theory Line_Splitter
  imports Prelude
begin

text \<open>
  The bounded line splitter both process relays share
  (\<^verbatim>\<open>packages/protocol/src/node/bounded-line-splitter.ts\<close>).

  Texts are lists of UTF-16 units. Decoding bytes is the platform's \<open>StringDecoder\<close>: the chunks here
  are what it answers, and the tail what it answers at the end. The lines passed on are collected in
  order. None stands for a loop that does not end, as the cutting loop with a limit of zero.
\<close>

section \<open>The splitter\<close>

definition PROCESS_OUTPUT_LINE_LIMIT :: nat where
  "PROCESS_OUTPUT_LINE_LIMIT = 64 * 1024"

definition cutIndex :: "utf16 \<Rightarrow> nat \<Rightarrow> nat" where
  "cutIndex text limit =
     (let lst = (if limit = 0 then 0 else text ! (limit - 1))
      in if limit > 1 \<and> lst \<ge> 0xd800 \<and> lst \<le> 0xdbff then limit - 1 else limit)"

text \<open>The loop that cuts what is longer than the limit: the pieces passed on and what is left.\<close>

partial_function (option) cut_long :: "nat \<Rightarrow> utf16 \<Rightarrow> utf16 list \<Rightarrow> (utf16 list \<times> utf16) option" where
  "cut_long limit line out =
     (if length line > limit
      then cut_long limit (drop (cutIndex line limit) line) (out @ [take (cutIndex line limit) line])
      else Some (out, line))"

definition emit :: "nat \<Rightarrow> utf16 \<Rightarrow> utf16 list \<Rightarrow> utf16 list option" where
  "emit limit line out =
     (case cut_long limit line out of None \<Rightarrow> None | Some (out, rest) \<Rightarrow> Some (out @ [rest]))"

text \<open>\<open>LINE_END.exec\<close> from an index: the index and the length of the next line end.\<close>

fun first_line_end :: "utf16 \<Rightarrow> (nat \<times> nat) option" where
  "first_line_end [] = None"
| "first_line_end (c # cs) =
     (if c = 13 then Some (0, if cs \<noteq> [] \<and> hd cs = 10 then 2 else 1)
      else if c = 10 then Some (0, 1)
      else map_option (\<lambda>(i, n). (Suc i, n)) (first_line_end cs))"

definition line_end_from :: "utf16 \<Rightarrow> nat \<Rightarrow> (nat \<times> nat) option" where
  "line_end_from text i = map_option (\<lambda>(j, n). (i + j, n)) (first_line_end (drop i text))"

lemma first_line_end_bounds: "first_line_end cs = Some (i, n) \<Longrightarrow> 0 < n \<and> i + n \<le> length cs"
  by (induction cs arbitrary: i n) (auto split: if_splits simp: neq_Nil_conv)

lemma line_end_from_bounds:
  "line_end_from text i = Some (j, n) \<Longrightarrow> i \<le> length text \<Longrightarrow> i \<le> j \<and> 0 < n \<and> j + n \<le> length text"
  by (auto simp: line_end_from_def dest!: first_line_end_bounds)

text \<open>The search loop over the pending text: the lines passed on, where the rest starts and whether
  the text ended on a carriage return.\<close>

function scan_lines ::
  "nat \<Rightarrow> utf16 \<Rightarrow> nat \<Rightarrow> nat \<Rightarrow> bool \<Rightarrow> utf16 list \<Rightarrow> (utf16 list \<times> nat \<times> bool) option" where
  "scan_lines limit buf pos start skip out =
     (case (if pos \<le> length buf then line_end_from buf pos else None) of
        None \<Rightarrow> Some (out, start, skip)
      | Some (i, n) \<Rightarrow>
          (case emit limit (take (i - start) (drop start buf)) out of
             None \<Rightarrow> None
           | Some out \<Rightarrow>
               scan_lines limit buf (i + n) (i + n)
                 (if n = 1 \<and> buf ! i = 13 \<and> i + n = length buf then True else skip) out))"
  by pat_completeness auto
termination
  by (relation "measure (\<lambda>(limit, buf, pos, start, skip, out). length buf + 1 - pos)")
    (auto split: if_splits dest!: line_end_from_bounds)

record splitter =
  sp_pending :: utf16
  sp_skip :: bool
  sp_out :: "utf16 list"

definition new_splitter :: splitter where
  "new_splitter = \<lparr>sp_pending = [], sp_skip = False, sp_out = []\<rparr>"

text \<open>\<open>take\<close> of the source.\<close>

definition take_text :: "nat \<Rightarrow> utf16 \<Rightarrow> splitter \<Rightarrow> splitter option" where
  "take_text limit text s =
     (if text = [] then Some s
      else
        (let skipped = (sp_skip s \<and> hd text = 10);
             text = (if skipped then tl text else text);
             s = s\<lparr>sp_skip := False\<rparr>
         in if text = [] then Some s
            else
              (let pending = sp_pending s @ text
               in case scan_lines limit pending (length (sp_pending s)) 0 False (sp_out s) of
                    None \<Rightarrow> None
                  | Some (out, start, skip) \<Rightarrow>
                      (case cut_long limit (if start = 0 then pending else drop start pending) out of
                         None \<Rightarrow> None
                       | Some (out, rest) \<Rightarrow> Some \<lparr>sp_pending = rest, sp_skip = skip, sp_out = out\<rparr>))))"

definition flush :: "nat \<Rightarrow> utf16 \<Rightarrow> splitter \<Rightarrow> splitter option" where
  "flush limit tail s =
     (case take_text limit tail s of
        None \<Rightarrow> None
      | Some s \<Rightarrow>
          (let s = s\<lparr>sp_skip := False\<rparr>
           in if sp_pending s = [] then Some s
              else (case emit limit (sp_pending s) (sp_out s) of
                      None \<Rightarrow> None | Some out \<Rightarrow> Some (s\<lparr>sp_pending := [], sp_out := out\<rparr>))))"

fun push_all :: "nat \<Rightarrow> utf16 list \<Rightarrow> splitter \<Rightarrow> splitter option" where
  "push_all limit [] s = Some s"
| "push_all limit (c # cs) s =
     (case take_text limit c s of None \<Rightarrow> None | Some s \<Rightarrow> push_all limit cs s)"

text \<open>\<open>forEachBoundedLine\<close>: the lines of a stream that ends.\<close>

definition bounded_line_stream :: "nat \<Rightarrow> utf16 list \<Rightarrow> utf16 \<Rightarrow> utf16 list option" where
  "bounded_line_stream limit chunks tail =
     (case push_all limit chunks new_splitter of
        None \<Rightarrow> None
      | Some s \<Rightarrow> map_option sp_out (flush limit tail s))"

section \<open>What it should pass on\<close>

text \<open>The lines of a text that are ended, and the unended rest; the first argument is the line so far.\<close>

fun text_lines :: "utf16 \<Rightarrow> utf16 \<Rightarrow> utf16 list \<times> utf16" where
  "text_lines cur [] = ([], cur)"
| "text_lines cur (c # cs) =
     (if c = 13 then apfst (Cons cur) (text_lines [] (if cs \<noteq> [] \<and> hd cs = 10 then tl cs else cs))
      else if c = 10 then apfst (Cons cur) (text_lines [] cs)
      else text_lines (cur @ [c]) cs)"

text \<open>A line in pieces within the limit.\<close>

function line_pieces :: "nat \<Rightarrow> utf16 \<Rightarrow> utf16 list" where
  "line_pieces limit line =
     (if 0 < limit \<and> limit < length line
      then take (cutIndex line limit) line # line_pieces limit (drop (cutIndex line limit) line)
      else [line])"
  by pat_completeness auto
termination
  by (relation "measure (\<lambda>(limit, line). length line)") (auto simp: cutIndex_def Let_def)

definition bounded_lines :: "nat \<Rightarrow> utf16 \<Rightarrow> utf16 list" where
  "bounded_lines limit text =
     (let (lines, rest) = text_lines [] text
      in concat (map (line_pieces limit) lines) @ (if rest = [] then [] else line_pieces limit rest))"

declare scan_lines.simps [simp del] line_pieces.simps [simp del] text_lines.simps(2) [simp del]

section \<open>Pieces\<close>

definition cut_part :: "nat \<Rightarrow> utf16 \<Rightarrow> utf16 list" where
  "cut_part limit line = butlast (line_pieces limit line)"

definition held_part :: "nat \<Rightarrow> utf16 \<Rightarrow> utf16" where
  "held_part limit line = last (line_pieces limit line)"

lemma cutIndex_bounds: "0 < limit \<Longrightarrow> 0 < cutIndex text limit \<and> cutIndex text limit \<le> limit"
  by (simp add: cutIndex_def Let_def)

lemma cutIndex_append: "0 < limit \<Longrightarrow> limit \<le> length x \<Longrightarrow> cutIndex (x @ y) limit = cutIndex x limit"
proof -
  assume "0 < limit" "limit \<le> length x"
  then have "limit - 1 < length x" by simp
  then show ?thesis by (simp add: cutIndex_def nth_append)
qed

lemma line_pieces_nonempty [simp]: "line_pieces limit line \<noteq> []"
  by (subst line_pieces.simps) simp

lemma line_pieces_split: "line_pieces limit line = cut_part limit line @ [held_part limit line]"
  by (simp add: cut_part_def held_part_def)

lemma line_pieces_short: "length line \<le> limit \<Longrightarrow> line_pieces limit line = [line]"
  by (subst line_pieces.simps) simp

lemma line_pieces_long:
  "0 < limit \<Longrightarrow> limit < length line \<Longrightarrow>
     line_pieces limit line = take (cutIndex line limit) line # line_pieces limit (drop (cutIndex line limit) line)"
  by (subst line_pieces.simps) simp

lemma cut_held_short [simp]:
  "length line \<le> limit \<Longrightarrow> cut_part limit line = []" "length line \<le> limit \<Longrightarrow> held_part limit line = line"
  by (simp_all add: cut_part_def held_part_def line_pieces_short)

lemma cut_held_long:
  assumes "0 < limit" and "limit < length line"
  shows "cut_part limit line = take (cutIndex line limit) line # cut_part limit (drop (cutIndex line limit) line)"
    "held_part limit line = held_part limit (drop (cutIndex line limit) line)"
  by (simp_all add: cut_part_def held_part_def line_pieces_long [OF assms])

lemma cut_long_parts: "0 < limit \<Longrightarrow> cut_long limit line out = Some (out @ cut_part limit line, held_part limit line)"
proof (induction limit line arbitrary: out rule: line_pieces.induct)
  case (1 limit line)
  show ?case
  proof (cases "limit < length line")
    case True
    have "cut_long limit line out =
        cut_long limit (drop (cutIndex line limit) line) (out @ [take (cutIndex line limit) line])"
      using True by (subst cut_long.simps) simp
    then show ?thesis using 1 True by (simp add: cut_held_long)
  next
    case False
    then show ?thesis by (subst cut_long.simps) simp
  qed
qed

lemma emit_pieces: "0 < limit \<Longrightarrow> emit limit line out = Some (out @ line_pieces limit line)"
  by (simp add: emit_def cut_long_parts line_pieces_split)

text \<open>Cutting early and going on is cutting the whole line.\<close>

lemma line_pieces_append:
  "0 < limit \<Longrightarrow> line_pieces limit (x @ y) = cut_part limit x @ line_pieces limit (held_part limit x @ y)"
proof (induction limit x rule: line_pieces.induct)
  case (1 limit x)
  show ?case
  proof (cases "limit < length x")
    case True
    let ?n = "cutIndex x limit"
    have n: "?n \<le> limit" "cutIndex (x @ y) limit = ?n"
      using cutIndex_bounds [OF 1(2)] cutIndex_append [OF 1(2)] True by simp_all
    have "line_pieces limit (x @ y) = take ?n x # line_pieces limit (drop ?n x @ y)"
      using True n 1(2) by (subst line_pieces_long) simp_all
    then show ?thesis using 1 True by (simp add: cut_held_long)
  next
    case False
    then show ?thesis by simp
  qed
qed

lemma held_part_nonempty: "0 < limit \<Longrightarrow> line \<noteq> [] \<Longrightarrow> held_part limit line \<noteq> []"
proof (induction limit line rule: line_pieces.induct)
  case (1 limit line)
  show ?case
  proof (cases "limit < length line")
    case True
    then have "drop (cutIndex line limit) line \<noteq> []" using cutIndex_bounds [OF 1(2), of line] by simp
    then show ?thesis using 1(1) [OF _ 1(2)] 1(2) True by (simp add: cut_held_long)
  qed (use 1(3) in simp)
qed

lemma line_pieces_bounded: "0 < limit \<Longrightarrow> list_all (\<lambda>p. length p \<le> limit) (line_pieces limit line)"
proof (induction limit line rule: line_pieces.induct)
  case (1 limit line)
  then show ?case
    using cutIndex_bounds [OF 1(2), of line] by (subst line_pieces.simps) auto
qed

lemma line_pieces_whole: "concat (line_pieces limit line) = line"
proof (induction limit line rule: line_pieces.induct)
  case (1 limit line)
  then show ?case by (subst line_pieces.simps) auto
qed

section \<open>Lines\<close>

definition ends_cr :: "utf16 \<Rightarrow> bool" where
  "ends_cr t \<longleftrightarrow> t \<noteq> [] \<and> last t = 13"

lemma apfst_pair [simp]: "apfst f p = (f (fst p), snd p)"
  by (cases p) simp

lemmas text_lines_ends = text_lines.simps(2) [of _ 13] text_lines.simps(2) [of _ 10]

lemma text_lines_from:
  "text_lines cur w = (case fst (text_lines [] w) of
     [] \<Rightarrow> ([], cur @ snd (text_lines [] w)) | l # ls \<Rightarrow> ((cur @ l) # ls, snd (text_lines [] w)))"
proof (induction w arbitrary: cur)
  case (Cons c w)
  have step: "text_lines cur (c # w) =
     (if c = 13 then apfst (Cons cur) (text_lines [] (if w \<noteq> [] \<and> hd w = 10 then tl w else w))
      else if c = 10 then apfst (Cons cur) (text_lines [] w)
      else text_lines (cur @ [c]) w)" for cur
    by (rule text_lines.simps(2))
  show ?case
  proof (cases "c = 13 \<or> c = 10")
    case True
    then show ?thesis by (auto simp: text_lines_ends)
  next
    case False
    then show ?thesis
      using Cons.IH [of "cur @ [c]"] Cons.IH [of "[c]"] by (auto simp: step split: list.splits)
  qed
qed simp

lemma text_lines_append:
  "\<not> (ends_cr t \<and> x \<noteq> [] \<and> hd x = 10) \<Longrightarrow>
     text_lines cur (t @ x) = (fst (text_lines cur t) @ fst (text_lines (snd (text_lines cur t)) x),
                               snd (text_lines (snd (text_lines cur t)) x))"
proof (induction cur t rule: text_lines.induct)
  case (2 cur c cs)
  show ?case
  proof (cases "c = 13")
    case True
    show ?thesis
    proof (cases cs)
      case Nil
      then show ?thesis using 2(4) True by (auto simp: ends_cr_def text_lines.simps(2))
    next
      case (Cons d ds)
      have "\<not> (ends_cr (if d = 10 then ds else cs) \<and> x \<noteq> [] \<and> hd x = 10)"
        using 2(4) Cons True by (auto simp: ends_cr_def split: if_splits)
      then show ?thesis using 2(1) [OF True] Cons True by (auto simp: text_lines.simps(2) [of _ 13])
    qed
  next
    case False
    have cs: "\<not> (ends_cr cs \<and> x \<noteq> [] \<and> hd x = 10)" using 2(4) by (auto simp: ends_cr_def)
    show ?thesis
      using 2(2) [OF False _ cs] 2(3) [OF False _ cs] False by (auto simp: text_lines.simps(2) [of _ c])
  qed
qed simp

lemma text_lines_ends_cr: "ends_cr t \<Longrightarrow> snd (text_lines cur t) = []"
proof (induction cur t rule: text_lines.induct)
  case (2 cur c cs)
  show ?case
  proof (cases cs)
    case Nil
    then show ?thesis using 2 by (simp add: ends_cr_def text_lines.simps(2))
  next
    case (Cons d ds)
    have "ends_cr (if d = 10 then ds else cs)" if "c = 13"
      using 2(4) Cons that by (auto simp: ends_cr_def split: if_splits)
    moreover have "ends_cr cs" using 2(4) Cons by (simp add: ends_cr_def)
    ultimately show ?thesis using 2(1-3) Cons by (auto simp: text_lines.simps(2) [of _ c])
  qed
qed (simp add: ends_cr_def)

text \<open>A line feed after a carriage return belongs to the line end before it.\<close>

lemma text_lines_crlf:
  "ends_cr t \<Longrightarrow> text_lines cur (t @ 10 # y) =
     (fst (text_lines cur t) @ fst (text_lines [] y), snd (text_lines [] y))"
proof (induction cur t rule: text_lines.induct)
  case (2 cur c cs)
  show ?case
  proof (cases cs)
    case Nil
    then show ?thesis using 2(4) by (simp add: ends_cr_def text_lines.simps(2) [of _ 13])
  next
    case (Cons d ds)
    have "ends_cr (if d = 10 then ds else cs)" if "c = 13"
      using 2(4) Cons that by (auto simp: ends_cr_def split: if_splits)
    moreover have "ends_cr cs" using 2(4) Cons by (simp add: ends_cr_def)
    ultimately show ?thesis using 2(1-3) Cons by (auto simp: text_lines.simps(2) [of _ c])
  qed
qed (simp add: ends_cr_def)

section \<open>The splitter passes on the lines\<close>

lemma first_line_end_lines:
  "(case first_line_end w of
      None \<Rightarrow> text_lines cur w = ([], cur @ w) \<and> \<not> ends_cr w
    | Some (j, n) \<Rightarrow> text_lines cur w = ((cur @ take j w) # fst (text_lines [] (drop (j + n) w)),
                                       snd (text_lines [] (drop (j + n) w)))
        \<and> ends_cr w = (n = 1 \<and> w ! j = 13 \<and> j + n = length w \<or> ends_cr (drop (j + n) w)))"
proof (induction w arbitrary: cur)
  case (Cons c w)
  consider (cr) "c = 13" | (lf) "c = 10" | (other) "c \<noteq> 13" "c \<noteq> 10" by blast
  then show ?case
  proof cases
    case cr
    then show ?thesis by (cases w) (auto simp: text_lines_ends ends_cr_def)
  next
    case lf
    then show ?thesis by (cases w) (auto simp: text_lines_ends ends_cr_def)
  next
    case other
    have "text_lines cur (c # w) = text_lines (cur @ [c]) w"
      using other by (simp add: text_lines.simps(2))
    moreover have "ends_cr (c # w) = ends_cr w" using other by (auto simp: ends_cr_def)
    ultimately show ?thesis
      using Cons.IH [of "cur @ [c]"] other by (auto split: option.splits)
  qed
qed (simp add: ends_cr_def)

lemma scan_lines_lines:
  assumes "0 < limit" and "start \<le> pos" and "pos \<le> length buf"
  shows "\<exists>start'. scan_lines limit buf pos start skip out =
      Some (out @ concat (map (line_pieces limit)
              (fst (text_lines (take (pos - start) (drop start buf)) (drop pos buf)))), start',
            skip \<or> ends_cr (drop pos buf))
    \<and> drop start' buf = snd (text_lines (take (pos - start) (drop start buf)) (drop pos buf))
    \<and> (start' = 0 \<longrightarrow> start = 0)"
  using assms
proof (induction limit buf pos start skip out rule: scan_lines.induct)
  case (1 limit buf pos start skip out)
  let ?cur = "take (pos - start) (drop start buf)"
  let ?w = "drop pos buf"
  have whole: "drop start buf = ?cur @ ?w"
    using 1(3,4) by (metis append_take_drop_id drop_drop le_add_diff_inverse2)
  show ?case
  proof (cases "first_line_end ?w")
    case None
    then have "text_lines ?cur ?w = ([], ?cur @ ?w)" "\<not> ends_cr ?w"
      using first_line_end_lines [where w = ?w and cur = ?cur] by simp_all
    moreover have "(if pos \<le> length buf then line_end_from buf pos else None) = None"
      by (simp add: None line_end_from_def)
    then have "scan_lines limit buf pos start skip out = Some (out, start, skip)"
      by (subst scan_lines.simps) (simp only: option.case)
    ultimately show ?thesis by (simp add: whole [symmetric])
  next
    case (Some jn)
    obtain j n where jn: "jn = (j, n)" by (cases jn)
    have end_at: "line_end_from buf pos = Some (pos + j, n)"
      using Some jn by (simp add: line_end_from_def)
    then have bounds: "0 < n" "pos + j + n \<le> length buf"
      using line_end_from_bounds 1(4) by blast+
    let ?next = "pos + j + n"
    have cut: "take (pos + j - start) (drop start buf) = ?cur @ take j ?w"
  proof -
      have "take (pos + j - start) (?cur @ ?w) = ?cur @ take j ?w" using 1(3,4) by simp
      then show ?thesis by (simp only: whole [symmetric])
    qed
    let ?skip = "if n = 1 \<and> buf ! (pos + j) = 13 \<and> ?next = length buf then True else skip"
    let ?out = "out @ line_pieces limit (?cur @ take j ?w)"
    have lines: "text_lines ?cur ?w = ((?cur @ take j ?w) # fst (text_lines [] (drop ?next buf)),
        snd (text_lines [] (drop ?next buf)))"
      using first_line_end_lines [where w = ?w and cur = ?cur] Some jn by (simp add: ac_simps)
    have cr: "ends_cr ?w = (n = 1 \<and> buf ! (pos + j) = 13 \<and> ?next = length buf \<or> ends_cr (drop ?next buf))"
      using first_line_end_lines [where w = ?w and cur = ?cur] Some jn bounds by (auto simp: ac_simps)
    have emitted: "emit limit (take (pos + j - start) (drop start buf)) out = Some ?out"
      unfolding cut by (rule emit_pieces [OF 1(2)])
    have found: "(if pos \<le> length buf then line_end_from buf pos else None) = Some (pos + j, n)"
      using 1(4) end_at by simp
    have step: "scan_lines limit buf pos start skip out = scan_lines limit buf ?next ?next ?skip ?out"
      by (subst scan_lines.simps) (simp only: found emitted option.case prod.case)
    have rest: "\<exists>start'. scan_lines limit buf ?next ?next ?skip ?out =
        Some (?out @ concat (map (line_pieces limit) (fst (text_lines [] (drop ?next buf)))), start',
          ?skip \<or> ends_cr (drop ?next buf))
        \<and> drop start' buf = snd (text_lines [] (drop ?next buf)) \<and> (start' = 0 \<longrightarrow> ?next = 0)"
      using 1(1) [OF found refl emitted 1(2) order_refl bounds(2)] by simp
    then obtain start' where start': "scan_lines limit buf ?next ?next ?skip ?out =
        Some (?out @ concat (map (line_pieces limit) (fst (text_lines [] (drop ?next buf)))), start',
          ?skip \<or> ends_cr (drop ?next buf))"
      "drop start' buf = snd (text_lines [] (drop ?next buf))" "start' \<noteq> 0"
      using bounds(1) by auto
    have "(?skip \<or> ends_cr (drop ?next buf)) = (skip \<or> ends_cr ?w)" unfolding cr by auto
    then show ?thesis
      unfolding step lines start'(1) using start'(2,3) by simp
  qed
qed

text \<open>The splitter's state after a text: what it passed on, what it holds, and whether a line feed
  that comes next belongs to the last line end.\<close>

definition splits :: "nat \<Rightarrow> utf16 \<Rightarrow> splitter \<Rightarrow> bool" where
  "splits limit t s \<longleftrightarrow>
     sp_out s = concat (map (line_pieces limit) (fst (text_lines [] t))) @ cut_part limit (snd (text_lines [] t))
     \<and> sp_pending s = held_part limit (snd (text_lines [] t)) \<and> sp_skip s = ends_cr t"

lemma held_lines:
  assumes "0 < limit"
  shows "concat (map (line_pieces limit) (fst (text_lines r w))) @ cut_part limit (snd (text_lines r w)) =
      cut_part limit r @ concat (map (line_pieces limit) (fst (text_lines (held_part limit r) w)))
        @ cut_part limit (snd (text_lines (held_part limit r) w))"
    "held_part limit (snd (text_lines r w)) = held_part limit (snd (text_lines (held_part limit r) w))"
proof -
  have cut: "cut_part limit (r @ x) = cut_part limit r @ cut_part limit (held_part limit r @ x)"
    "held_part limit (r @ x) = held_part limit (held_part limit r @ x)" for x
    using line_pieces_append [OF assms, of r x] by (simp_all add: cut_part_def held_part_def butlast_append)
  show "concat (map (line_pieces limit) (fst (text_lines r w))) @ cut_part limit (snd (text_lines r w)) =
      cut_part limit r @ concat (map (line_pieces limit) (fst (text_lines (held_part limit r) w)))
        @ cut_part limit (snd (text_lines (held_part limit r) w))"
    unfolding text_lines_from [of r w] text_lines_from [of "held_part limit r" w]
    by (simp add: cut line_pieces_append [OF assms, of r] split: list.split)
  show "held_part limit (snd (text_lines r w)) = held_part limit (snd (text_lines (held_part limit r) w))"
    unfolding text_lines_from [of r w] text_lines_from [of "held_part limit r" w]
    by (simp add: cut(2) split: list.split)
qed

lemma take_text_whole:
  assumes "0 < limit" and "w \<noteq> []" and "fst (text_lines [] (t @ v)) = fst (text_lines [] t) @ fst (text_lines r w)"
    and "snd (text_lines [] (t @ v)) = snd (text_lines r w)" and "ends_cr (t @ v) = ends_cr w"
    and "r = snd (text_lines [] t)" and "splits limit t s" and "\<not> (sp_skip s' \<and> hd w = 10)"
    and "sp_out s' = sp_out s" and "sp_pending s' = sp_pending s"
  shows "\<exists>q. take_text limit w s' = Some q \<and> splits limit (t @ v) q"
proof -
  have held: "sp_pending s' = held_part limit r" and out: "sp_out s' =
      concat (map (line_pieces limit) (fst (text_lines [] t))) @ cut_part limit r"
    using assms(6,7,9,10) by (simp_all add: splits_def)
  let ?buf = "held_part limit r @ w"
  let ?ls = "fst (text_lines (held_part limit r) w)" and ?rest = "snd (text_lines (held_part limit r) w)"
  obtain start' where scan: "scan_lines limit ?buf (length (held_part limit r)) 0 False (sp_out s') =
      Some (sp_out s' @ concat (map (line_pieces limit) ?ls), start', ends_cr w)"
    "drop start' ?buf = ?rest"
    using scan_lines_lines [OF assms(1), of 0 "length (held_part limit r)" ?buf False "sp_out s'"] by auto
  have rest: "(if start' = 0 then ?buf else drop start' ?buf) = ?rest" using scan(2) by auto
  have noskip: "(sp_skip s' \<and> hd w = 10) = False" using assms(8) by blast
  have "take_text limit w s' = Some \<lparr>sp_pending = held_part limit ?rest, sp_skip = ends_cr w,
      sp_out = (sp_out s' @ concat (map (line_pieces limit) ?ls)) @ cut_part limit ?rest\<rparr>"
    using assms(2)
    by (simp add: take_text_def noskip held scan(1) rest cut_long_parts [OF assms(1)] del: append_assoc)
  moreover have "splits limit (t @ v) \<lparr>sp_pending = held_part limit ?rest, sp_skip = ends_cr w,
      sp_out = (sp_out s' @ concat (map (line_pieces limit) ?ls)) @ cut_part limit ?rest\<rparr>"
    unfolding splits_def using assms(3,4,5) held_lines [OF assms(1), of r w] out by simp
  ultimately show ?thesis by blast
qed

lemma take_text_splits:
  assumes "0 < limit" and "splits limit t s"
  shows "\<exists>q. take_text limit x s = Some q \<and> splits limit (t @ x) q"
proof (cases x)
  case Nil
  then show ?thesis using assms(2) by (simp add: take_text_def)
next
  case (Cons c cs)
  show ?thesis
  proof (cases "ends_cr t \<and> c = 10")
    case skip: True
    have r: "snd (text_lines [] t) = []" using text_lines_ends_cr skip by blast
    have lines: "text_lines [] (t @ x) = (fst (text_lines [] t) @ fst (text_lines [] cs), snd (text_lines [] cs))"
      using text_lines_crlf [of t "[]" cs] skip Cons by simp
    let ?s = "s\<lparr>sp_skip := False\<rparr>"
    have skipped: "take_text limit x s = take_text limit cs ?s"
      using skip Cons assms(2) by (simp add: take_text_def splits_def)
    show ?thesis
    proof (cases "cs = []")
      case True
      then have "splits limit (t @ x) ?s"
        using assms(2) lines r skip Cons by (simp add: splits_def ends_cr_def)
      then show ?thesis using skipped True by (simp add: take_text_def)
    next
      case False
      have "ends_cr (t @ x) = ends_cr cs" using Cons False by (simp add: ends_cr_def)
      then show ?thesis
        unfolding skipped
        by (intro take_text_whole [OF assms(1) False, of t x "[]" s ?s]) (use lines r assms(2) in simp_all)
    qed
  next
    case False
    have lines: "text_lines [] (t @ x) = (fst (text_lines [] t) @ fst (text_lines (snd (text_lines [] t)) x),
        snd (text_lines (snd (text_lines [] t)) x))"
      by (rule text_lines_append) (use False Cons in simp)
    show ?thesis
      by (rule take_text_whole [OF assms(1), of x t x "snd (text_lines [] t)" s s])
        (use lines False Cons assms(2) in \<open>auto simp: ends_cr_def splits_def\<close>)
  qed
qed

lemma push_all_splits:
  "0 < limit \<Longrightarrow> splits limit t s \<Longrightarrow> \<exists>q. push_all limit cs s = Some q \<and> splits limit (t @ concat cs) q"
proof (induction cs arbitrary: t s)
  case (Cons c cs)
  obtain q where q: "take_text limit c s = Some q" "splits limit (t @ c) q"
    using take_text_splits [OF Cons.prems] by blast
  show ?case using Cons.IH [OF Cons.prems(1) q(2)] q(1) by simp
qed simp

text \<open>C38. The splitter passes on the lines of the text, in pieces within the limit and losing nothing,
  however the stream was cut into chunks: a line end split between two chunks ends one line, and a
  long line is cut at the same places.\<close>

theorem line_splitter_ignores_chunks:
  assumes "0 < limit"
  shows "bounded_line_stream limit chunks tail = Some (bounded_lines limit (concat chunks @ tail))
    \<and> list_all (\<lambda>l. length l \<le> limit) (bounded_lines limit (concat chunks @ tail))"
proof -
  have new: "splits limit [] new_splitter" by (simp add: splits_def new_splitter_def ends_cr_def)
  obtain s where s: "push_all limit chunks new_splitter = Some s" "splits limit (concat chunks) s"
    using push_all_splits [OF assms new, of chunks] by auto
  obtain q where q: "take_text limit tail s = Some q" "splits limit (concat chunks @ tail) q"
    using take_text_splits [OF assms s(2)] by blast
  let ?r = "snd (text_lines [] (concat chunks @ tail))"
  have held: "line_pieces limit ?r = cut_part limit ?r @ line_pieces limit (held_part limit ?r)"
    using line_pieces_append [OF assms, of ?r "[]"] by simp
  have none: "?r = []" if "held_part limit ?r = []" using held_part_nonempty [OF assms] that by blast
  have "map_option sp_out (flush limit tail s) = Some (bounded_lines limit (concat chunks @ tail))"
    using q(2) held none
    by (auto simp: flush_def q(1) Let_def splits_def bounded_lines_def emit_pieces [OF assms] split: prod.split)
  moreover have "list_all (\<lambda>l. length l \<le> limit) (bounded_lines limit (concat chunks @ tail))"
    using line_pieces_bounded [OF assms] by (auto simp: bounded_lines_def list_all_iff split: prod.split)
  ultimately show ?thesis using s(1) by (simp add: bounded_line_stream_def)
qed

text \<open>A carriage return and its line feed in two chunks, and a line cut within the limit.\<close>

theorem line_splitter_ignores_chunks_witness:
  "bounded_line_stream 3 [[97, 98, 13], [10, 99, 100], [101, 102, 10]] [103] =
     Some [[97, 98], [99, 100, 101], [102], [103]]"
proof -
  have "bounded_lines 3 (concat [[97, 98, 13], [10, 99, 100], [101, 102, 10]] @ [103]) =
      [[97, 98], [99, 100, 101], [102], [103]]"
    by (simp add: bounded_lines_def text_lines.simps(2) line_pieces_short line_pieces_long cutIndex_def)
  then show ?thesis
    using line_splitter_ignores_chunks [of 3 "[[97, 98, 13], [10, 99, 100], [101, 102, 10]]" "[103]"] by simp
qed

end
