(* ===== verification/Canonical_Json.thy ===== *)
theory Canonical_Json
  imports Prelude "HOL-Library.Multiset"
begin

text \<open>
  Canonical JSON for content identities and the strict JSON reader
  (\<^verbatim>\<open>packages/protocol/src/canonical-json.ts\<close>).

  Texts are lists of UTF-16 code units. How a double is printed and what a numeral's value is belong
  to the platform: the encoder takes the printer of numbers and the reader the value of a numeral.
  The reader's state is the unread text and the index it starts at. Own keys of an object are
  distinct; an array has no holes.
\<close>

text \<open>Texts of the source as units.\<close>

definition uni :: "string \<Rightarrow> utf16" where "uni s = map of_char s"

section \<open>Quoting\<close>

definition hex_unit :: "nat \<Rightarrow> nat" where
  "hex_unit n = (if n < 10 then 48 + n else 87 + n)"

definition unicode_escape :: "nat \<Rightarrow> utf16" where
  "unicode_escape u = [92, 117, hex_unit (u div 4096 mod 16), hex_unit (u div 256 mod 16),
     hex_unit (u div 16 mod 16), hex_unit (u mod 16)]"

definition quote_unit :: "nat \<Rightarrow> utf16" where
  "quote_unit u =
     (if u = 34 \<or> u = 92 then [92, u]
      else if u = 8 then [92, 98] else if u = 9 then [92, 116] else if u = 10 then [92, 110]
      else if u = 12 then [92, 102] else if u = 13 then [92, 114]
      else if u < 32 then unicode_escape u else [u])"

text \<open>\<open>JSON.stringify\<close> of a string; a lone surrogate is escaped.\<close>

fun quote_units :: "utf16 \<Rightarrow> utf16" where
  "quote_units [] = []"
| "quote_units (u # us) =
     (if is_high_surrogate u \<and> us \<noteq> [] \<and> is_low_surrogate (hd us)
      then u # hd us # quote_units (tl us)
      else if is_high_surrogate u \<or> is_low_surrogate u then unicode_escape u @ quote_units us
      else quote_unit u @ quote_units us)"

definition json_quote :: "utf16 \<Rightarrow> utf16" where
  "json_quote t = [34] @ quote_units t @ [34]"

section \<open>The canonical encoding\<close>

text \<open>\<open>join\<close> with a comma.\<close>

fun join_units :: "utf16 list \<Rightarrow> utf16" where
  "join_units [] = []"
| "join_units [t] = t"
| "join_units (t # u # ts) = t @ [44] @ join_units (u # ts)"

type_synonym json_error = "string \<times> utf16"

definition index_path :: "utf16 \<Rightarrow> nat \<Rightarrow> utf16" where
  "index_path path i = path @ [91] @ uni (digits_of_number i) @ [93]"

definition key_path :: "utf16 \<Rightarrow> utf16 \<Rightarrow> utf16" where
  "key_path path k = path @ [46] @ k"

lemma size_list_sort_key [simp]: "size_list f (sort_key k xs) = size_list f xs"
proof -
  have "sum_list (map g (sort_key k xs)) = sum_list (map g xs)" for g :: "'a \<Rightarrow> nat"
    by (metis mset_map mset_sort sum_mset_sum_list)
  then show ?thesis by (simp add: size_list_conv_sum_list)
qed

function (sequential)
  canonical_value :: "(rat \<Rightarrow> utf16) \<Rightarrow> nat \<Rightarrow> nat \<Rightarrow> utf16 \<Rightarrow> jval \<Rightarrow> json_error + utf16"
  and canonical_items :: "(rat \<Rightarrow> utf16) \<Rightarrow> nat \<Rightarrow> nat \<Rightarrow> utf16 \<Rightarrow> nat \<Rightarrow> jval list \<Rightarrow> json_error + utf16 list"
  and canonical_members ::
    "(rat \<Rightarrow> utf16) \<Rightarrow> nat \<Rightarrow> nat \<Rightarrow> utf16 \<Rightarrow> (utf16 \<times> jval) list \<Rightarrow> json_error + utf16 list" where
  "canonical_value nt mx depth path v =
     (if depth > mx then Inl (''Nesting is too deep'', path)
      else case v of
        VNull \<Rightarrow> Inr (uni ''null'')
      | VBool b \<Rightarrow> Inr (uni (if b then ''true'' else ''false''))
      | VNum (Fin r) \<Rightarrow> Inr (nt r)
      | VNum _ \<Rightarrow> Inl (''Number is not finite'', path)
      | VText t \<Rightarrow> Inr (json_quote t)
      | VList vs \<Rightarrow>
          (case canonical_items nt mx depth path 0 vs of
             Inl e \<Rightarrow> Inl e | Inr ts \<Rightarrow> Inr ([91] @ join_units ts @ [93]))
      | VObj ps \<Rightarrow>
          (case canonical_members nt mx depth path (sort_key fst ps) of
             Inl e \<Rightarrow> Inl e | Inr ts \<Rightarrow> Inr ([123] @ join_units ts @ [125]))
      | VInstance \<Rightarrow> Inl (''Only plain objects are supported'', path)
      | VUndef \<Rightarrow> Inl (''Unsupported value of type undefined'', path)
      | VOfType ty \<Rightarrow> Inl (''Unsupported value of type '' @ ty, path))"
| "canonical_items nt mx depth path i [] = Inr []"
| "canonical_items nt mx depth path i (v # vs) =
     (if v = VUndef then Inl (''Array entry is undefined'', index_path path i)
      else case canonical_value nt mx (depth + 1) (index_path path i) v of
             Inl e \<Rightarrow> Inl e
           | Inr t \<Rightarrow> (case canonical_items nt mx depth path (i + 1) vs of
                         Inl e \<Rightarrow> Inl e | Inr ts \<Rightarrow> Inr (t # ts)))"
| "canonical_members nt mx depth path [] = Inr []"
| "canonical_members nt mx depth path ((k, v) # ps) =
     (if v = VUndef then Inl (''Object value is undefined'', key_path path k)
      else case canonical_value nt mx (depth + 1) (key_path path k) v of
             Inl e \<Rightarrow> Inl e
           | Inr t \<Rightarrow> (case canonical_members nt mx depth path ps of
                         Inl e \<Rightarrow> Inl e | Inr ts \<Rightarrow> Inr ((json_quote k @ [58] @ t) # ts)))"
  by pat_completeness auto
termination
  by (relation "measure (\<lambda>x. case x of
        Inl (nt, mx, depth, path, v) \<Rightarrow> 2 * size v
      | Inr (Inl (nt, mx, depth, path, i, vs)) \<Rightarrow> 2 * size_list size vs + 1
      | Inr (Inr (nt, mx, depth, path, ps)) \<Rightarrow> 2 * size_list (size_prod (\<lambda>_. 0) size) ps + 1)") auto

definition canonicalJson :: "(rat \<Rightarrow> utf16) \<Rightarrow> jval \<Rightarrow> nat \<Rightarrow> json_error + utf16" where
  "canonicalJson nt v mx = canonical_value nt mx 0 [36] v"

section \<open>The strict reader\<close>

text \<open>A position: the unread text and its index.\<close>

type_synonym reading = "utf16 \<times> nat"

text \<open>A failure carries its message, its offset and its path.\<close>

datatype 'a parsed = Parsed 'a reading | Unparsed string nat utf16 | Exhausted

definition json_white :: "nat \<Rightarrow> bool" where
  "json_white u \<longleftrightarrow> u \<in> {32, 10, 13, 9}"

definition skipWhitespace :: "reading \<Rightarrow> reading" where
  "skipWhitespace s = (dropWhile json_white (fst s), snd s + length (takeWhile json_white (fst s)))"

definition read_past :: "nat \<Rightarrow> reading \<Rightarrow> reading" where
  "read_past n s = (drop n (fst s), snd s + n)"

definition next_is :: "nat \<Rightarrow> reading \<Rightarrow> bool" where
  "next_is u s \<longleftrightarrow> fst s \<noteq> [] \<and> hd (fst s) = u"

definition parseLiteral :: "string \<Rightarrow> jval \<Rightarrow> utf16 \<Rightarrow> reading \<Rightarrow> jval parsed" where
  "parseLiteral word v path s =
     (if take (length word) (fst s) = uni word then Parsed v (read_past (length word) s)
      else Unparsed ''Invalid literal'' (snd s) path)"

definition digit_unit :: "nat \<Rightarrow> bool" where
  "digit_unit u \<longleftrightarrow> 48 \<le> u \<and> u \<le> 57"

text \<open>The length of what the numeral pattern matches at the start of a text: sign, integer part,
  fraction, exponent.\<close>

definition int_part :: "utf16 \<Rightarrow> nat option" where
  "int_part t =
     (case t of [] \<Rightarrow> None
      | u # us \<Rightarrow> if u = 48 then Some 1
                  else if digit_unit u then Some (1 + length (takeWhile digit_unit us)) else None)"

definition frac_part :: "utf16 \<Rightarrow> nat" where
  "frac_part t =
     (case t of [] \<Rightarrow> 0
      | u # us \<Rightarrow> if u = 46 \<and> takeWhile digit_unit us \<noteq> [] then 1 + length (takeWhile digit_unit us) else 0)"

definition exp_part :: "utf16 \<Rightarrow> nat" where
  "exp_part t =
     (case t of [] \<Rightarrow> 0
      | u # us \<Rightarrow>
          (let sign = (if us \<noteq> [] \<and> (hd us = 43 \<or> hd us = 45) then 1 else 0);
               ds = takeWhile digit_unit (drop sign us)
           in if (u = 101 \<or> u = 69) \<and> ds \<noteq> [] then 1 + sign + length ds else 0))"

definition numeral_length :: "utf16 \<Rightarrow> nat option" where
  "numeral_length t =
     (let m = (if t \<noteq> [] \<and> hd t = 45 then 1 else 0)
      in case int_part (drop m t) of
           None \<Rightarrow> None
         | Some i \<Rightarrow> (let f = frac_part (drop (m + i) t)
                      in Some (m + i + f + exp_part (drop (m + i + f) t))))"

definition parseNumber :: "(utf16 \<Rightarrow> jsnum) \<Rightarrow> utf16 \<Rightarrow> reading \<Rightarrow> jval parsed" where
  "parseNumber nv path s =
     (case numeral_length (fst s) of
        None \<Rightarrow> Unparsed ''Invalid number'' (snd s) path
      | Some n \<Rightarrow> Parsed (VNum (nv (take n (fst s)))) (read_past n s))"

definition hex_value :: "nat \<Rightarrow> nat option" where
  "hex_value u =
     (if 48 \<le> u \<and> u \<le> 57 then Some (u - 48)
      else if 97 \<le> u \<and> u \<le> 102 then Some (u - 87)
      else if 65 \<le> u \<and> u \<le> 70 then Some (u - 55) else None)"

text \<open>Four hexadecimal digits.\<close>

definition hex_escape :: "utf16 \<Rightarrow> nat option" where
  "hex_escape t =
     (if length t < 4 \<or> list_ex (\<lambda>u. hex_value u = None) (take 4 t) then None
      else Some (foldl (\<lambda>n u. 16 * n + the (hex_value u)) 0 (take 4 t)))"

definition simple_escape :: "nat \<Rightarrow> nat option" where
  "simple_escape u =
     (if u = 34 \<or> u = 92 \<or> u = 47 then Some u
      else if u = 98 then Some 8 else if u = 102 then Some 12 else if u = 110 then Some 10
      else if u = 114 then Some 13 else if u = 116 then Some 9 else None)"

text \<open>The loop after the opening quote; the second argument is the result so far.\<close>

function parse_string_loop :: "utf16 \<Rightarrow> utf16 \<Rightarrow> utf16 \<Rightarrow> nat \<Rightarrow> utf16 parsed" where
  "parse_string_loop path result t i =
     (if t = [] then Unparsed ''Unterminated string'' i path
      else if hd t = 34 then Parsed result (tl t, i + 1)
      else if hd t = 92
      then (let escape = tl t; rest = drop 2 t in
            if escape = [] then Unparsed ''Invalid escape sequence'' (i + 2) path
            else if hd escape = 117
            then (case hex_escape rest of
                    None \<Rightarrow> Unparsed ''Invalid unicode escape'' (i + 2) path
                  | Some c \<Rightarrow> parse_string_loop path (result @ [c]) (drop 6 t) (i + 6))
            else (case simple_escape (hd escape) of
                    None \<Rightarrow> Unparsed ''Invalid escape sequence'' (i + 2) path
                  | Some c \<Rightarrow> parse_string_loop path (result @ [c]) rest (i + 2)))
      else if hd t < 32 then Unparsed ''Control character in string'' i path
      else parse_string_loop path (result @ [hd t]) (tl t) (i + 1))"
  by pat_completeness auto
termination
  by (relation "measure (\<lambda>(path, result, t, i). length t)") auto

definition parseString :: "utf16 \<Rightarrow> reading \<Rightarrow> utf16 parsed" where
  "parseString path s = parse_string_loop path [] (tl (fst s)) (snd s + 1)"

definition expected :: "string \<Rightarrow> string" where
  "expected s = ''Expected '' @ s"

definition in_quotes :: "string \<Rightarrow> string" where
  "in_quotes s = [CHR 0x27] @ s @ [CHR 0x27]"

definition between :: "string \<Rightarrow> string" where
  "between closing = expected (in_quotes '','' @ '' or '' @ in_quotes closing)"

text \<open>What is still to read: a value, more items of an array or more members of an object.\<close>

datatype job =
    ReadValue utf16 nat
  | ReadItems utf16 nat "jval list"
  | ReadMembers utf16 nat "(utf16 \<times> jval) list"

text \<open>\<open>parseValue\<close>, with the starts of \<open>parseArray\<close> and \<open>parseObject\<close>, and one iteration of the loops of
  these two; the first argument reads the rest.\<close>

definition parseValue ::
  "(job \<Rightarrow> reading \<Rightarrow> jval parsed) \<Rightarrow> (utf16 \<Rightarrow> jsnum) \<Rightarrow> nat \<Rightarrow> utf16 \<Rightarrow> nat \<Rightarrow> reading \<Rightarrow> jval parsed" where
  "parseValue go nv mx path depth s =
     (if depth > mx then Unparsed ''Nesting is too deep'' (snd s) path
      else if fst s = [] then Unparsed ''Unexpected end of input'' (snd s) path
      else if next_is 123 s
      then (let s = skipWhitespace (read_past 1 s)
            in if next_is 125 s then Parsed (VObj []) (read_past 1 s) else go (ReadMembers path depth []) s)
      else if next_is 91 s
      then (let s = skipWhitespace (read_past 1 s)
            in if next_is 93 s then Parsed (VList []) (read_past 1 s) else go (ReadItems path depth []) s)
      else if next_is 34 s
      then (case parseString path s of
              Parsed t s \<Rightarrow> Parsed (VText t) s | Unparsed m i p \<Rightarrow> Unparsed m i p | Exhausted \<Rightarrow> Exhausted)
      else if next_is 116 s then parseLiteral ''true'' (VBool True) path s
      else if next_is 102 s then parseLiteral ''false'' (VBool False) path s
      else if next_is 110 s then parseLiteral ''null'' VNull path s
      else if next_is 45 s \<or> digit_unit (hd (fst s)) then parseNumber nv path s
      else Unparsed ''Unexpected character'' (snd s) path)"

definition parseArray ::
  "(job \<Rightarrow> reading \<Rightarrow> jval parsed) \<Rightarrow> utf16 \<Rightarrow> nat \<Rightarrow> jval list \<Rightarrow> reading \<Rightarrow> jval parsed" where
  "parseArray go path depth vs s =
     (case go (ReadValue (index_path path (length vs)) (depth + 1)) (skipWhitespace s) of
        Parsed v s \<Rightarrow>
          (let s = skipWhitespace s
           in if next_is 44 s then go (ReadItems path depth (vs @ [v])) (read_past 1 s)
              else if next_is 93 s then Parsed (VList (vs @ [v])) (read_past 1 s)
              else Unparsed (between '']'') (snd s) path)
      | Unparsed m i p \<Rightarrow> Unparsed m i p
      | Exhausted \<Rightarrow> Exhausted)"

definition parseObject ::
  "(job \<Rightarrow> reading \<Rightarrow> jval parsed) \<Rightarrow> utf16 \<Rightarrow> nat \<Rightarrow> (utf16 \<times> jval) list \<Rightarrow> reading \<Rightarrow> jval parsed" where
  "parseObject go path depth ps s =
     (let s = skipWhitespace s in
      if \<not> next_is 34 s then Unparsed (expected ''a property name'') (snd s) path
      else case parseString path s of
        Unparsed m i p \<Rightarrow> Unparsed m i p
      | Exhausted \<Rightarrow> Exhausted
      | Parsed k s \<Rightarrow>
          if k \<in> fst ` set ps then Unparsed ''Duplicate object key'' (snd s) (key_path path k)
          else
            (let s = skipWhitespace s in
             if \<not> next_is 58 s then Unparsed (expected (in_quotes '':'')) (snd s) (key_path path k)
             else case go (ReadValue (key_path path k) (depth + 1)) (skipWhitespace (read_past 1 s)) of
               Unparsed m i p \<Rightarrow> Unparsed m i p
             | Exhausted \<Rightarrow> Exhausted
             | Parsed v s \<Rightarrow>
                 (let s = skipWhitespace s
                  in if next_is 44 s then go (ReadMembers path depth (ps @ [(k, v)])) (read_past 1 s)
                     else if next_is 125 s then Parsed (VObj (ps @ [(k, v)])) (read_past 1 s)
                     else Unparsed (between ''}'') (snd s) path)))"

text \<open>The first argument bounds the calls; \<open>Exhausted\<close> is never reached from \<open>parseStrictJson\<close>.\<close>

primrec strict_parser :: "nat \<Rightarrow> (utf16 \<Rightarrow> jsnum) \<Rightarrow> nat \<Rightarrow> job \<Rightarrow> reading \<Rightarrow> jval parsed" where
  "strict_parser 0 nv mx j s = Exhausted"
| "strict_parser (Suc n) nv mx j s =
     (case j of
        ReadValue path depth \<Rightarrow> parseValue (strict_parser n nv mx) nv mx path depth s
      | ReadItems path depth vs \<Rightarrow> parseArray (strict_parser n nv mx) path depth vs s
      | ReadMembers path depth ps \<Rightarrow> parseObject (strict_parser n nv mx) path depth ps s)"

text \<open>The value, or the message, the offset and the path of the failure.\<close>

definition parseStrictJson ::
  "(utf16 \<Rightarrow> jsnum) \<Rightarrow> utf16 \<Rightarrow> nat \<Rightarrow> (string \<times> nat \<times> utf16) option + jval" where
  "parseStrictJson nv t mx =
     (case strict_parser (2 * length t + 1) nv mx (ReadValue [36] 1) (skipWhitespace (t, 0)) of
        Exhausted \<Rightarrow> Inl None
      | Unparsed m i p \<Rightarrow> Inl (Some (m, i, p))
      | Parsed v s \<Rightarrow>
          (let s = skipWhitespace s
           in if fst s \<noteq> [] then Inl (Some (''Unexpected trailing content'', snd s, [36])) else Inr v))"

declare parse_string_loop.simps [simp del]

end
