(* ===== verification/Canonical_Round_Trip.thy ===== *)
theory Canonical_Round_Trip
  imports Canonical_Json
begin

text \<open>
  What the strict reader makes of canonical texts: it reads each one back as the value it encodes,
  with the members of its objects in key order. Canonical texts are therefore identities: two values
  have the same text exactly if they differ at most in the order of their members.
\<close>

section \<open>Strings\<close>

definition units16 :: "utf16 \<Rightarrow> bool" where
  "units16 t \<longleftrightarrow> list_all (\<lambda>u. u < 65536) t"

lemma units16_simps [simp]:
  "units16 []" "units16 (u # t) \<longleftrightarrow> u < 65536 \<and> units16 t"
  by (auto simp: units16_def)

lemma hex_value_unit [simp]: "n < 16 \<Longrightarrow> hex_value (hex_unit n) = Some n"
  by (auto simp: hex_value_def hex_unit_def)

lemma hex_digits: "16 * (16 * (16 * (u div 4096) + u div 256 mod 16) + u div 16 mod 16) + u mod 16 = u" for u :: nat
proof -
  have "16 * (u div 4096) + u div 256 mod 16 = u div 256"
    using mult_div_mod_eq [of 16 "u div 256"] by (simp add: div_mult2_eq [symmetric])
  moreover have "16 * (u div 256) + u div 16 mod 16 = u div 16"
    using mult_div_mod_eq [of 16 "u div 16"] by (simp add: div_mult2_eq [symmetric])
  ultimately show ?thesis by simp
qed

lemma hex_escape_digits:
  assumes "a < 16" "b < 16" "c < 16" "d < 16"
  shows "hex_escape (hex_unit a # hex_unit b # hex_unit c # hex_unit d # w) =
    Some (16 * (16 * (16 * a + b) + c) + d)"
  using assms by (simp add: hex_escape_def)

lemma hex_escape_unicode:
  assumes "u < 65536"
  shows "hex_escape (drop 2 (unicode_escape u) @ w) = Some u"
proof -
  have top: "u div 4096 mod 16 = u div 4096" using assms by simp
  have "hex_escape (drop 2 (unicode_escape u) @ w) =
      Some (16 * (16 * (16 * (u div 4096 mod 16) + u div 256 mod 16) + u div 16 mod 16) + u mod 16)"
    using hex_escape_digits [of "u div 4096 mod 16" "u div 256 mod 16" "u div 16 mod 16" "u mod 16" w]
    by (simp only: unicode_escape_def drop_Suc_Cons drop_0 numeral_2_eq_2 append_Cons append_Nil)
  then show ?thesis by (simp only: top hex_digits)
qed

lemma length_unicode_escape [simp]: "length (unicode_escape u) = 6"
  by (simp add: unicode_escape_def)

lemma unicode_escape_shape:
  obtains a b c d where "unicode_escape u = [92, 117, a, b, c, d]"
  by (simp add: unicode_escape_def)

lemma parse_unicode_escape:
  assumes "u < 65536"
  shows "parse_string_loop p r (unicode_escape u @ w) i = parse_string_loop p (r @ [u]) w (i + 6)"
proof -
  obtain a b c d where sh: "unicode_escape u = [92, 117, a, b, c, d]" by (rule unicode_escape_shape)
  from hex_escape_unicode [OF assms, of w] sh have "hex_escape (a # b # c # d # w) = Some u" by simp
  then show ?thesis by (subst parse_string_loop.simps) (simp add: sh)
qed

lemma parse_plain_unit:
  assumes "32 \<le> u" and "u \<noteq> 34" and "u \<noteq> 92"
  shows "parse_string_loop p r (u # w) i = parse_string_loop p (r @ [u]) w (i + 1)"
  using assms by (subst parse_string_loop.simps) simp

lemma parse_quote_unit:
  assumes "u < 65536"
  shows "parse_string_loop p r (quote_unit u @ w) i = parse_string_loop p (r @ [u]) w (i + length (quote_unit u))"
proof -
  have esc: "parse_string_loop p r (92 # c # w) i = parse_string_loop p (r @ [u]) w (i + 2)"
    if "simple_escape c = Some u" "c \<noteq> 117" for c
    using that by (subst parse_string_loop.simps) simp
  consider "quote_unit u = [92, u]" "u = 34 \<or> u = 92"
    | c where "quote_unit u = [92, c]" "simple_escape c = Some u" "c \<noteq> 117"
    | "quote_unit u = unicode_escape u"
    | "quote_unit u = [u]" "32 \<le> u" "u \<noteq> 34" "u \<noteq> 92"
  proof -
    consider "u = 34 \<or> u = 92" | "u = 8" | "u = 9" | "u = 10" | "u = 12" | "u = 13"
      | "u < 32" "u \<notin> {8, 9, 10, 12, 13}" | "32 \<le> u" "u \<noteq> 34" "u \<noteq> 92" by force
    then show thesis
      by cases (use that in \<open>auto simp: quote_unit_def simple_escape_def\<close>)
  qed
  then show ?thesis
  proof cases
    case 1
    then show ?thesis using esc [of u] by (auto simp: simple_escape_def)
  next
    case (2 c)
    then show ?thesis using esc [of c] by simp
  next
    case 3
    then show ?thesis using parse_unicode_escape [OF assms] by simp
  next
    case 4
    then show ?thesis using parse_plain_unit by simp
  qed
qed

lemma parse_quoted:
  "units16 t \<Longrightarrow> parse_string_loop p r (quote_units t @ 34 # w) i =
     Parsed (r @ t) (w, i + length (quote_units t) + 1)"
proof (induction t arbitrary: r i rule: quote_units.induct)
  case 1
  then show ?case by (subst parse_string_loop.simps) simp
next
  case (2 u us)
  show ?case
  proof (cases "is_high_surrogate u \<and> us \<noteq> [] \<and> is_low_surrogate (hd us)")
    case True
    then obtain v vs where us: "us = v # vs" "is_low_surrogate v" by (cases us) auto
    with True 2 show ?thesis
      by (simp add: parse_plain_unit is_high_surrogate_def is_low_surrogate_def)
  next
    case pair: False
    show ?thesis
    proof (cases "is_high_surrogate u \<or> is_low_surrogate u")
      case True
      have "quote_units (u # us) = unicode_escape u @ quote_units us"
        using pair True by (simp only: quote_units.simps if_False if_True if_not_P [OF pair])
      with True pair 2 show ?thesis by (simp add: parse_unicode_escape del: quote_units.simps)
    next
      case False
      have "quote_units (u # us) = quote_unit u @ quote_units us"
        using pair False by (simp only: quote_units.simps if_False if_True if_not_P [OF pair])
      with False pair 2 show ?thesis by (simp add: parse_quote_unit del: quote_units.simps)
    qed
  qed
qed

lemma parseString_quoted:
  assumes "units16 t"
  shows "parseString p (json_quote t @ w, i) = Parsed t (w, i + length (json_quote t))"
  using parse_quoted [OF assms, of p "[]" w "i + 1"] by (simp add: parseString_def json_quote_def)

section \<open>Numerals\<close>

text \<open>What may follow a value in a canonical text.\<close>

definition delimited :: "utf16 \<Rightarrow> bool" where
  "delimited w \<longleftrightarrow> w = [] \<or> hd w \<in> {44, 93, 125}"

lemma delimited_simps [simp]: "delimited []" "delimited (44 # w)" "delimited (93 # w)" "delimited (125 # w)"
  by (auto simp: delimited_def)

lemma takeWhile_delimited: "delimited w \<Longrightarrow> takeWhile digit_unit (us @ w) = takeWhile digit_unit us"
  by (induction us) (cases w; auto simp: delimited_def digit_unit_def)+

lemma int_part_delimited: "delimited w \<Longrightarrow> t \<noteq> [] \<Longrightarrow> int_part (t @ w) = int_part t"
  by (cases t) (auto simp: int_part_def takeWhile_delimited)

lemma frac_part_delimited: "delimited w \<Longrightarrow> frac_part (t @ w) = frac_part t"
  by (cases t; cases w) (auto simp: frac_part_def takeWhile_delimited delimited_def)

lemma exp_part_delimited:
  assumes w: "delimited w"
  shows "exp_part (t @ w) = exp_part t"
proof (cases t)
  case Nil
  with w show ?thesis by (cases w) (auto simp: exp_part_def delimited_def)
next
  case (Cons u us)
  have "us = [] \<Longrightarrow> w \<noteq> [] \<Longrightarrow> hd w \<noteq> 43 \<and> hd w \<noteq> 45"
    using w by (auto simp: delimited_def)
  then show ?thesis
    using w takeWhile_delimited [OF w, of "tl us"] takeWhile_delimited [OF w, of us]
    by (cases us) (auto simp: Cons exp_part_def Let_def takeWhile_delimited)
qed

lemma int_part_le: "int_part t = Some k \<Longrightarrow> t \<noteq> [] \<and> k \<le> length t"
  by (cases t) (auto simp: int_part_def split: if_splits intro: length_takeWhile_le)

definition sign_length :: "utf16 \<Rightarrow> nat" where
  "sign_length t = (if t \<noteq> [] \<and> hd t = 45 then 1 else 0)"

lemma numeral_length_iff:
  "numeral_length t = Some n \<longleftrightarrow>
     (\<exists>k f. int_part (drop (sign_length t) t) = Some k \<and> frac_part (drop (sign_length t + k) t) = f \<and>
        sign_length t + k + f + exp_part (drop (sign_length t + k + f) t) = n)"
  unfolding numeral_length_def sign_length_def [symmetric] Let_def
  by (cases "int_part (drop (sign_length t) t)") simp_all

lemma numeral_delimited:
  assumes n: "numeral_length t = Some (length t)" and w: "delimited w"
  shows "numeral_length (t @ w) = Some (length t)"
proof -
  from n [unfolded numeral_length_iff] obtain k f where k: "int_part (drop (sign_length t) t) = Some k"
    and f: "frac_part (drop (sign_length t + k) t) = f"
    and len: "sign_length t + k + f + exp_part (drop (sign_length t + k + f) t) = length t" by blast
  from int_part_le [OF k] have ne: "drop (sign_length t) t \<noteq> []" by blast
  then have "t \<noteq> []" by auto
  then have m: "sign_length (t @ w) = sign_length t" by (simp add: sign_length_def)
  have d: "drop j (t @ w) = drop j t @ w" if "j \<le> length t" for j using that by simp
  have le: "sign_length t \<le> length t" "sign_length t + k \<le> length t" "sign_length t + k + f \<le> length t"
    using len by linarith+
  have "int_part (drop (sign_length t) (t @ w)) = Some k"
    unfolding d [OF le(1)] int_part_delimited [OF w ne] by (rule k)
  moreover have "frac_part (drop (sign_length t + k) (t @ w)) = f"
    unfolding d [OF le(2)] frac_part_delimited [OF w] by (rule f)
  moreover have "sign_length t + k + f + exp_part (drop (sign_length t + k + f) (t @ w)) = length t"
    unfolding d [OF le(3)] exp_part_delimited [OF w] by (rule len)
  ultimately show ?thesis unfolding numeral_length_iff m by blast
qed

lemma int_part_head: "int_part t = Some k \<Longrightarrow> t \<noteq> [] \<and> digit_unit (hd t)"
  by (cases t) (auto simp: int_part_def digit_unit_def split: if_splits)

lemma numeral_head:
  assumes "numeral_length t = Some k"
  shows "t \<noteq> [] \<and> (hd t = 45 \<or> digit_unit (hd t))"
proof (cases "t \<noteq> [] \<and> hd t = 45")
  case False
  with assms obtain i where "int_part t = Some i"
    unfolding numeral_length_def if_not_P [OF False] by (auto simp: Let_def split: option.splits)
  then show ?thesis using int_part_head by simp
qed simp

section \<open>The values that texts stand for\<close>

text \<open>A value with the members of its objects in key order.\<close>

primrec canon :: "jval \<Rightarrow> jval" where
  "canon VUndef = VUndef"
| "canon VNull = VNull"
| "canon (VBool b) = VBool b"
| "canon (VNum n) = VNum n"
| "canon (VText t) = VText t"
| "canon (VList vs) = VList (map canon vs)"
| "canon (VObj ps) = VObj (sort_key fst (map (map_prod id canon) ps))"
| "canon VInstance = VInstance"
| "canon (VOfType ty) = VOfType ty"

text \<open>
  What the platform's number printer does on a number: it prints a numeral, whose value is the
  number.
\<close>

definition prints :: "(rat \<Rightarrow> utf16) \<Rightarrow> (utf16 \<Rightarrow> jsnum) \<Rightarrow> rat \<Rightarrow> bool" where
  "prints nt nv r \<longleftrightarrow> numeral_length (nt r) = Some (length (nt r)) \<and> nv (nt r) = Fin r"

text \<open>
  A value of the program: the keys of an object are distinct, texts are made of 16-bit units, and
  its numbers print.
\<close>

fun readable :: "(rat \<Rightarrow> utf16) \<Rightarrow> (utf16 \<Rightarrow> jsnum) \<Rightarrow> jval \<Rightarrow> bool" where
  "readable nt nv (VNum (Fin r)) \<longleftrightarrow> prints nt nv r"
| "readable nt nv (VText t) \<longleftrightarrow> units16 t"
| "readable nt nv (VList vs) \<longleftrightarrow> (\<forall>v\<in>set vs. readable nt nv v)"
| "readable nt nv (VObj ps) \<longleftrightarrow>
     distinct (map fst ps) \<and> (\<forall>p\<in>set ps. units16 (fst p) \<and> readable nt nv (snd p))"
| "readable nt nv v \<longleftrightarrow> True"

lemma insort_key_map: "insort_key f (g x) (map g xs) = map g (insort_key (f \<circ> g) x xs)"
  by (induction xs) auto

lemma sort_key_map: "sort_key f (map g xs) = map g (sort_key (f \<circ> g) xs)"
  by (induction xs) (auto simp: insort_key_map comp_def)

lemma canon_VObj: "canon (VObj ps) = VObj (map (map_prod id canon) (sort_key fst ps))"
  by (simp add: sort_key_map comp_def)

section \<open>Reading a canonical text\<close>

text \<open>The first unit of a value's text.\<close>

definition opens_value :: "utf16 \<Rightarrow> bool" where
  "opens_value t \<longleftrightarrow> t \<noteq> [] \<and> (hd t \<in> {34, 45, 91, 102, 110, 116, 123} \<or> digit_unit (hd t))"

lemma uni_literals:
  "uni ''null'' = [110, 117, 108, 108]" "uni ''true'' = [116, 114, 117, 101]"
  "uni ''false'' = [102, 97, 108, 115, 101]"
  by (simp_all add: uni_def)

lemma canonical_opens:
  assumes "canonical_value nt mx d p v = Inr t" and "readable nt nv v"
  shows "opens_value t"
proof (cases v)
  case (VNum x)
  with assms obtain r where "x = Fin r" "t = nt r" by (cases x) (auto split: if_splits)
  with VNum assms(2) numeral_head show ?thesis by (auto simp: opens_value_def prints_def)
qed (use assms in \<open>auto simp: opens_value_def uni_literals json_quote_def split: if_splits sum.splits\<close>)

lemma skip_none: "t \<noteq> [] \<Longrightarrow> \<not> json_white (hd t) \<Longrightarrow> skipWhitespace (t, i) = (t, i)"
  by (cases t) (auto simp: skipWhitespace_def)

lemma opens_skip [simp]: "opens_value t \<Longrightarrow> skipWhitespace (t @ w, i) = (t @ w, i)"
  by (cases t) (auto simp: opens_value_def skipWhitespace_def json_white_def digit_unit_def)

lemma delimiter_skip [simp]:
  "skipWhitespace (44 # w, i) = (44 # w, i)" "skipWhitespace (93 # w, i) = (93 # w, i)"
  "skipWhitespace (125 # w, i) = (125 # w, i)" "skipWhitespace (58 # w, i) = (58 # w, i)"
  "skipWhitespace (34 # w, i) = (34 # w, i)"
  by (simp_all add: skipWhitespace_def json_white_def)

lemma advance_simps [simp]: "read_past n (t, i) = (drop n t, i + n)"
  by (simp add: read_past_def)

lemma next_is_simps [simp]: "next_is u (v # t, i) \<longleftrightarrow> v = u" "\<not> next_is u ([], i)"
  by (auto simp: next_is_def)

lemma opens_next: "opens_value t \<Longrightarrow> u \<in> {93, 125} \<Longrightarrow> \<not> next_is u (t @ w, i)"
  by (cases t) (auto simp: opens_value_def digit_unit_def)

lemma parseNumber_delimited:
  assumes "prints nt nv r" and "delimited w"
  shows "parseNumber nv q (nt r @ w, i) = Parsed (VNum (Fin r)) (w, i + length (nt r))"
  using assms numeral_delimited [of "nt r" w] by (simp add: parseNumber_def prints_def)

lemma parseValue_number:
  assumes r: "prints nt nv r" and w: "delimited w" and d: "d \<le> mx"
  shows "parseValue go nv mx q d (nt r @ w, i) = Parsed (VNum (Fin r)) (w, i + length (nt r))"
proof -
  from r numeral_head have h: "nt r \<noteq> []" "hd (nt r) = 45 \<or> digit_unit (hd (nt r))"
    by (auto simp: prints_def)
  then obtain u us where us: "nt r = u # us" by (cases "nt r") auto
  have "parseValue go nv mx q d (nt r @ w, i) = parseNumber nv q (nt r @ w, i)"
    using h d by (auto simp: parseValue_def us digit_unit_def)
  then show ?thesis using parseNumber_delimited [OF r w] by simp
qed

lemma parseValue_text:
  assumes "units16 t" and "d \<le> mx"
  shows "parseValue go nv mx q d (json_quote t @ w, i) = Parsed (VText t) (w, i + length (json_quote t))"
  using assms parseString_quoted [OF assms(1), of q w i]
  by (simp add: parseValue_def json_quote_def)

lemma parseValue_literals:
  assumes "d \<le> mx"
  shows "parseValue go nv mx q d (uni ''null'' @ w, i) = Parsed VNull (w, i + 4)"
    and "parseValue go nv mx q d (uni ''true'' @ w, i) = Parsed (VBool True) (w, i + 4)"
    and "parseValue go nv mx q d (uni ''false'' @ w, i) = Parsed (VBool False) (w, i + 5)"
  using assms by (simp_all add: parseValue_def parseLiteral_def uni_literals)

lemma parseArray_last:
  assumes "opens_value t" and "go (ReadValue (index_path q (length vs)) (d + 1)) (t @ 93 # w, i) = Parsed v (93 # w, j)"
  shows "parseArray go q d vs (t @ 93 # w, i) = Parsed (VList (vs @ [v])) (w, j + 1)"
  using assms by (simp add: parseArray_def)

lemma parseArray_more:
  assumes "opens_value t" and "go (ReadValue (index_path q (length vs)) (d + 1)) (t @ 44 # w, i) = Parsed v (44 # w, j)"
  shows "parseArray go q d vs (t @ 44 # w, i) = go (ReadItems q d (vs @ [v])) (w, j + 1)"
  using assms by (simp add: parseArray_def)

lemma parseObject_step:
  assumes k: "units16 k" "k \<notin> fst ` set ps" and t: "opens_value t"
    and v: "go (ReadValue (key_path q k) (d + 1)) (t @ w, i + length (json_quote k) + 1) = Parsed v (w, j)"
    and w: "w = u # w'" "u = 44 \<or> u = 125"
  shows "parseObject go q d ps ((json_quote k @ [58] @ t) @ w, i) =
    (if u = 44 then go (ReadMembers q d (ps @ [(k, v)])) (w', j + 1)
     else Parsed (VObj (ps @ [(k, v)])) (w', j + 1))"
proof -
  have q: "json_quote k @ x = 34 # quote_units k @ 34 # x" for x by (simp add: json_quote_def)
  have "skipWhitespace (json_quote k @ 58 # t @ w, i) = (json_quote k @ 58 # t @ w, i)"
    "next_is 34 (json_quote k @ 58 # t @ w, i)" by (simp_all add: q)
  then show ?thesis
    using k v w parseString_quoted [OF k(1), of q "58 # t @ w" i] opens_skip [OF t]
    by (auto simp: parseObject_def)
qed

text \<open>
  The reader on a canonical text followed by a delimiter: it takes the text and leaves the rest. The
  calls it may make are twice the units of the text.
\<close>

lemma canonical_items_ConsD:
  assumes "canonical_items nt mx d p k (v # vs) = Inr ts"
  obtains t ts' where "canonical_value nt mx (d + 1) (index_path p k) v = Inr t"
    and "canonical_items nt mx d p (k + 1) vs = Inr ts'" and "ts = t # ts'" and "v \<noteq> VUndef"
  using assms by (auto split: if_splits sum.splits)

lemma canonical_members_ConsD:
  assumes "canonical_members nt mx d p ((k, v) # ps) = Inr ts"
  obtains t ts' where "canonical_value nt mx (d + 1) (key_path p k) v = Inr t"
    and "canonical_members nt mx d p ps = Inr ts'" and "ts = (json_quote k @ [58] @ t) # ts'" and "v \<noteq> VUndef"
  using assms by (auto split: if_splits sum.splits)

lemma canonical_items_Nil: "canonical_items nt mx d p k vs = Inr ts \<Longrightarrow> ts = [] \<longleftrightarrow> vs = []"
  by (cases vs) (auto split: if_splits sum.splits)

lemma canonical_members_Nil: "canonical_members nt mx d p ps = Inr ts \<Longrightarrow> ts = [] \<longleftrightarrow> ps = []"
  by (cases ps) (auto split: if_splits sum.splits)

lemma join_units_Cons: "ts \<noteq> [] \<Longrightarrow> join_units (t # ts) = t @ 44 # join_units ts"
  by (cases ts) auto

definition reads_value where
  "reads_value nt nv mx d t v \<longleftrightarrow>
     (\<forall>w n q i. delimited w \<longrightarrow> 2 * length t \<le> n \<longrightarrow>
        strict_parser n nv (mx + 1) (ReadValue q (d + 1)) (t @ w, i) = Parsed (canon v) (w, i + length t))"

definition reads_items where
  "reads_items nt nv mx d ts vs \<longleftrightarrow>
     (\<forall>w n q i acc. 2 * length (join_units ts) + 3 \<le> n \<longrightarrow>
        strict_parser n nv (mx + 1) (ReadItems q (d + 1) acc) (join_units ts @ 93 # w, i) =
          Parsed (VList (acc @ map canon vs)) (w, i + length (join_units ts) + 1))"

definition reads_members where
  "reads_members nt nv mx d ts ps \<longleftrightarrow>
     (\<forall>w n q i (acc :: (utf16 \<times> jval) list). 2 * length (join_units ts) + 3 \<le> n \<longrightarrow> fst ` set acc \<inter> fst ` set ps = {} \<longrightarrow>
        strict_parser n nv (mx + 1) (ReadMembers q (d + 1) acc) (join_units ts @ 125 # w, i) =
          Parsed (VObj (acc @ map (map_prod id canon) ps)) (w, i + length (join_units ts) + 1))"

lemma reads_valueD:
  "reads_value nt nv mx d t v \<Longrightarrow> delimited w \<Longrightarrow> 2 * length t \<le> n \<Longrightarrow>
     strict_parser n nv (mx + 1) (ReadValue q (d + 1)) (t @ w, i) = Parsed (canon v) (w, i + length t)"
  by (simp add: reads_value_def)

lemma reads_items_step:
  assumes v: "reads_value nt nv mx (d + 1) t v" and t: "opens_value t"
    and vs: "ts = [] \<longleftrightarrow> vs = []" "vs \<noteq> [] \<Longrightarrow> reads_items nt nv mx d ts vs"
  shows "reads_items nt nv mx d (t # ts) (v # vs)"
  unfolding reads_items_def
proof (intro allI impI)
  fix w n q i acc
  assume n: "2 * length (join_units (t # ts)) + 3 \<le> n"
  then obtain m where m: "n = Suc m" by (cases n) auto
  show "strict_parser n nv (mx + 1) (ReadItems q (d + 1) acc) (join_units (t # ts) @ 93 # w, i) =
      Parsed (VList (acc @ map canon (v # vs))) (w, i + length (join_units (t # ts)) + 1)"
  proof (cases "vs = []")
    case True
    have "strict_parser m nv (mx + 1) (ReadValue (index_path q (length acc)) (d + 1 + 1)) (t @ 93 # w, i) =
        Parsed (canon v) (93 # w, i + length t)"
      by (rule reads_valueD [OF v]) (use n m True vs in auto)
    with True vs show ?thesis by (simp add: m parseArray_last [OF t])
  next
    case False
    with vs have j: "join_units (t # ts) = t @ 44 # join_units ts" by (intro join_units_Cons) simp
    have "strict_parser m nv (mx + 1) (ReadValue (index_path q (length acc)) (d + 1 + 1))
        (t @ 44 # join_units ts @ 93 # w, i) = Parsed (canon v) (44 # join_units ts @ 93 # w, i + length t)"
      by (rule reads_valueD [OF v]) (use n m j in auto)
    moreover have "strict_parser m nv (mx + 1) (ReadItems q (d + 1) (acc @ [canon v]))
        (join_units ts @ 93 # w, i + length t + 1) =
        Parsed (VList ((acc @ [canon v]) @ map canon vs)) (w, i + length t + 1 + length (join_units ts) + 1)"
      using vs(2) [OF False] n m j by (simp add: reads_items_def del: append_assoc)
    ultimately show ?thesis by (simp add: m j parseArray_more [OF t])
  qed
qed

lemma reads_members_step:
  assumes v: "reads_value nt nv mx (d + 1) t v" and t: "opens_value t" and k: "units16 k" "k \<notin> fst ` set ps"
    and ps: "ts = [] \<longleftrightarrow> ps = []" "ps \<noteq> [] \<Longrightarrow> reads_members nt nv mx d ts ps"
  shows "reads_members nt nv mx d ((json_quote k @ [58] @ t) # ts) ((k, v) # ps)"
  unfolding reads_members_def
proof (intro allI impI)
  fix w n q i and acc :: "(utf16 \<times> jval) list"
  let ?m = "json_quote k @ [58] @ t"
  assume n: "2 * length (join_units (?m # ts)) + 3 \<le> n" and acc: "fst ` set acc \<inter> fst ` set ((k, v) # ps) = {}"
  then obtain m where m: "n = Suc m" by (cases n) auto
  from acc have fresh: "k \<notin> fst ` set acc" by auto
  show "strict_parser n nv (mx + 1) (ReadMembers q (d + 1) acc) (join_units (?m # ts) @ 125 # w, i) =
      Parsed (VObj (acc @ map (map_prod id canon) ((k, v) # ps))) (w, i + length (join_units (?m # ts)) + 1)"
  proof (cases "ps = []")
    case True
    have "strict_parser m nv (mx + 1) (ReadValue (key_path q k) (d + 1 + 1)) (t @ 125 # w, i + length (json_quote k) + 1) =
        Parsed (canon v) (125 # w, i + length (json_quote k) + 1 + length t)"
      by (rule reads_valueD [OF v]) (use n m True ps in auto)
    from parseObject_step [where go = "strict_parser m nv (mx + 1)", OF k(1) fresh t this refl] True ps
    show ?thesis by (simp add: m ac_simps)
  next
    case False
    with ps have j: "join_units (?m # ts) = ?m @ 44 # join_units ts" by (intro join_units_Cons) simp
    have 1: "strict_parser m nv (mx + 1) (ReadValue (key_path q k) (d + 1 + 1))
        (t @ 44 # join_units ts @ 125 # w, i + length (json_quote k) + 1) =
        Parsed (canon v) (44 # join_units ts @ 125 # w, i + length (json_quote k) + 1 + length t)"
      by (rule reads_valueD [OF v]) (use n m j in auto)
    have "fst ` set (acc @ [(k, canon v)]) \<inter> fst ` set ps = {}" using acc k by auto
    then have "strict_parser m nv (mx + 1) (ReadMembers q (d + 1) (acc @ [(k, canon v)]))
        (join_units ts @ 125 # w, i + length ?m + 1) =
        Parsed (VObj ((acc @ [(k, canon v)]) @ map (map_prod id canon) ps))
          (w, i + length ?m + 1 + length (join_units ts) + 1)"
      using ps(2) [OF False] n m j unfolding reads_members_def by simp
    moreover have "join_units ((json_quote k @ 58 # t) # ts) = json_quote k @ 58 # t @ 44 # join_units ts"
      using j by simp
    ultimately show ?thesis
      using parseObject_step [where go = "strict_parser m nv (mx + 1)", OF k(1) fresh t 1 refl]
      by (simp add: m ac_simps)
  qed
qed

lemma parseValue_list:
  assumes ts: "canonical_items nt mx d p k vs = Inr ts" and rd: "\<forall>v\<in>set vs. readable nt nv v"
    and r: "vs \<noteq> [] \<Longrightarrow> reads_items nt nv mx d ts vs"
    and d: "d \<le> mx" and n: "2 * length (join_units ts) + 3 \<le> n"
  shows "parseValue (strict_parser n nv (mx + 1)) nv (mx + 1) q (d + 1) (91 # join_units ts @ 93 # w, i) =
    Parsed (VList (map canon vs)) (w, i + length (join_units ts) + 2)" (is "?parse = _")
proof (cases "vs = []")
  case True
  with ts d show ?thesis by (simp add: parseValue_def)
next
  case False
  then obtain v vs' where vs: "vs = v # vs'" by (cases vs) auto
  from ts [unfolded vs] obtain s ts' where s: "canonical_value nt mx (d + 1) (index_path p k) v = Inr s" "ts = s # ts'"
    by (rule canonical_items_ConsD)
  from rd vs have "opens_value s" by (intro canonical_opens [where nv = nv, OF s(1)]) simp
  then have o: "opens_value (join_units ts)" by (cases ts') (auto simp: s(2) opens_value_def)
  have "?parse = strict_parser n nv (mx + 1) (ReadItems q (d + 1) []) (join_units ts @ 93 # w, i + 1)"
    using d opens_skip [OF o] opens_next [OF o] by (simp add: parseValue_def)
  then show ?thesis using r [OF False] n unfolding reads_items_def by simp
qed

lemma parseValue_object:
  assumes ts: "canonical_members nt mx d p ps = Inr ts"
    and r: "ps \<noteq> [] \<Longrightarrow> reads_members nt nv mx d ts ps"
    and d: "d \<le> mx" and n: "2 * length (join_units ts) + 3 \<le> n"
  shows "parseValue (strict_parser n nv (mx + 1)) nv (mx + 1) q (d + 1) (123 # join_units ts @ 125 # w, i) =
    Parsed (VObj (map (map_prod id canon) ps)) (w, i + length (join_units ts) + 2)" (is "?parse = _")
proof (cases "ps = []")
  case True
  with ts d show ?thesis by (simp add: parseValue_def)
next
  case False
  then obtain k v qs where ps: "ps = (k, v) # qs" by (metis neq_Nil_conv surj_pair)
  from ts [unfolded ps] obtain s ts' where "ts = (json_quote k @ [58] @ s) # ts'"
    by (rule canonical_members_ConsD)
  then have "join_units ts = 34 # tl (join_units ts)" by (cases ts') (auto simp: json_quote_def)
  then obtain u where u: "join_units ts = 34 # u" by blast
  have "?parse = strict_parser n nv (mx + 1) (ReadMembers q (d + 1) []) (join_units ts @ 125 # w, i + 1)"
    using d by (simp add: u parseValue_def)
  then show ?thesis using r [OF False] n unfolding reads_members_def by simp
qed

lemma canonical_reads:
  shows "canonical_value nt mx d p v = Inr t \<Longrightarrow> readable nt nv v \<Longrightarrow> reads_value nt nv mx d t v"
    and "canonical_items nt mx d p k vs = Inr ts \<Longrightarrow> \<forall>v\<in>set vs. readable nt nv v \<Longrightarrow> vs \<noteq> [] \<Longrightarrow>
      reads_items nt nv mx d ts vs"
    and "canonical_members nt mx d p ps = Inr ts \<Longrightarrow> distinct (map fst ps) \<Longrightarrow>
      \<forall>p\<in>set ps. units16 (fst p) \<and> readable nt nv (snd p) \<Longrightarrow> ps \<noteq> [] \<Longrightarrow> reads_members nt nv mx d ts ps"
proof (induction nt mx d p v and nt mx d p k vs and nt mx d p ps
    arbitrary: t and ts and ts rule: canonical_value_canonical_items_canonical_members.induct)
  case (1 nt mx d p v)
  then have d: "d \<le> mx" by (auto split: if_splits)
  then have d': "d + 1 \<le> mx + 1" by simp
  have one: "\<exists>m. n = Suc m" if "2 * length t \<le> n" for n
    using that canonical_opens [OF 1(3,4)] by (cases n) (auto simp: opens_value_def)
  show ?case
    unfolding reads_value_def
  proof (intro allI impI)
    fix w n q i
    assume w: "delimited w" and n: "2 * length t \<le> n"
    from one [OF n] obtain m where m: "n = Suc m" by blast
    have "parseValue (strict_parser m nv (mx + 1)) nv (mx + 1) q (d + 1) (t @ w, i) =
        Parsed (canon v) (w, i + length t)" (is "?parse = _")
    proof (cases v)
      case VNull
      with 1(3) d have "t = uni ''null''" by simp
      with VNull show ?thesis using parseValue_literals(1) [OF d'] by (simp add: uni_literals)
    next
      case (VBool b)
      with 1(3) d have "t = uni (if b then ''true'' else ''false'')" by simp
      with VBool show ?thesis
        using parseValue_literals(2,3) [OF d'] by (cases b) (simp_all add: uni_literals)
    next
      case (VNum x)
      with 1(3) d obtain r where r: "x = Fin r" "t = nt r" by (cases x) auto
      with 1(4) VNum show ?thesis using parseValue_number [OF _ w d'] by simp
    next
      case (VText s)
      with 1(3) d have "t = json_quote s" by simp
      with VText 1(4) show ?thesis using parseValue_text [OF _ d'] by simp
    next
      case (VList vs)
      with 1(3) d obtain ts where ts: "canonical_items nt mx d p 0 vs = Inr ts" "t = 91 # join_units ts @ [93]"
        by (auto split: sum.splits)
      have "reads_items nt nv mx d ts vs" if "vs \<noteq> []"
        using 1(1) [OF _ VList ts(1)] d 1(4) VList that by simp
      then show ?thesis
        using parseValue_list [OF ts(1) _ _ d, where n = m] 1(4) n m VList ts(2) by simp
    next
      case (VObj ps)
      let ?qs = "sort_key fst ps"
      from 1(3) d VObj obtain ts where ts: "canonical_members nt mx d p ?qs = Inr ts" "t = 123 # join_units ts @ [125]"
        by (auto split: sum.splits)
      have q: "distinct (map fst ?qs)" "\<forall>p\<in>set ?qs. units16 (fst p) \<and> readable nt nv (snd p)"
        using 1(4) VObj by (simp_all add: distinct_map)
      have "reads_members nt nv mx d ts ?qs" if "?qs \<noteq> []"
        using 1(2) [OF _ VObj ts(1)] d q that by simp
      then show ?thesis
        using parseValue_object [OF ts(1) _ d, where n = m] n m ts(2) unfolding VObj canon_VObj by simp
    qed (use 1(3) d in auto)
    then show "strict_parser n nv (mx + 1) (ReadValue q (d + 1)) (t @ w, i) = Parsed (canon v) (w, i + length t)"
      by (simp add: m)
  qed
next
  case (3 nt mx d p k v vs)
  from 3(3) obtain t ts' where t: "canonical_value nt mx (d + 1) (index_path p k) v = Inr t"
    "canonical_items nt mx d p (k + 1) vs = Inr ts'" "ts = t # ts'" "v \<noteq> VUndef"
    by (rule canonical_items_ConsD)
  show ?case unfolding t(3)
  proof (rule reads_items_step)
    show "reads_value nt nv mx (d + 1) t v" by (rule 3(1)) (use t 3(4) in auto)
    show "opens_value t" by (rule canonical_opens [where nv = nv, OF t(1)]) (use 3(4) in simp)
    show "ts' = [] \<longleftrightarrow> vs = []" by (rule canonical_items_Nil [OF t(2)])
    show "reads_items nt nv mx d ts' vs" if "vs \<noteq> []"
      by (rule 3(2) [OF _ t(1)]) (use t that 3(4) in auto)
  qed
next
  case (5 nt mx d p k v ps)
  from 5(3) obtain t ts' where t: "canonical_value nt mx (d + 1) (key_path p k) v = Inr t"
    "canonical_members nt mx d p ps = Inr ts'" "ts = (json_quote k @ [58] @ t) # ts'" "v \<noteq> VUndef"
    by (rule canonical_members_ConsD)
  show ?case unfolding t(3)
  proof (rule reads_members_step)
    show "reads_value nt nv mx (d + 1) t v" by (rule 5(1)) (use t 5(5) in auto)
    show "opens_value t" by (rule canonical_opens [where nv = nv, OF t(1)]) (use 5(5) in simp)
    show "units16 k" "k \<notin> fst ` set ps" using 5(4,5) by auto
    show "ts' = [] \<longleftrightarrow> ps = []" by (rule canonical_members_Nil [OF t(2)])
    show "reads_members nt nv mx d ts' ps" if "ps \<noteq> []"
      by (rule 5(2) [OF _ t(1)]) (use t that 5(4,5) in auto)
  qed
qed simp_all

text \<open>Only the members' order is lost.\<close>

lemma canon_undef [simp]: "canon v = VUndef \<longleftrightarrow> v = VUndef"
  by (cases v) auto

lemma sort_key_sorted: "sort_key fst (map (map_prod id f) (sort_key fst ps)) = map (map_prod id f) (sort_key fst ps)"
  by (rule sort_key_id_if_sorted) (simp add: comp_def)

lemma canonical_canon:
  "canonical_value nt mx d p (canon v) = canonical_value nt mx d p v"
  "canonical_items nt mx d p k (map canon vs) = canonical_items nt mx d p k vs"
  "canonical_members nt mx d p (map (map_prod id canon) ps) = canonical_members nt mx d p ps"
proof (induction nt mx d p v and nt mx d p k vs and nt mx d p ps
    rule: canonical_value_canonical_items_canonical_members.induct)
  case (1 nt mx d p v)
  show ?case
  proof (cases "d > mx")
    case d: False
    then show ?thesis
    proof (cases v)
      case (VList vs)
      with 1(1) [OF d, of vs] d show ?thesis by simp
    next
      case (VObj ps)
      with 1(2) [OF d, of ps] d show ?thesis
        unfolding VObj canon_VObj by (simp add: sort_key_sorted [unfolded id_def] id_def)
    qed auto
  qed simp
next
  case (3 nt mx d p k v vs)
  then show ?case by (auto simp del: canonical_value.simps split: sum.split)
next
  case (5 nt mx d p k v ps)
  then show ?case by (auto simp del: canonical_value.simps split: sum.split)
qed simp_all

text \<open>What a canonical text is read as.\<close>

lemma strict_parser_canonical:
  assumes "canonicalJson nt v mx = Inr t" and "readable nt nv v"
  shows "parseStrictJson nv t (mx + 1) = Inr (canon v)"
proof -
  from assms have t: "canonical_value nt mx 0 [36] v = Inr t" by (simp add: canonicalJson_def)
  from reads_valueD [OF canonical_reads(1) [OF t assms(2)], of "[]" "2 * length t + 1" "[36]" 0]
  have "strict_parser (2 * length t + 1) nv (mx + 1) (ReadValue [36] 1) (t, 0) = Parsed (canon v) ([], length t)"
    by simp
  moreover have "skipWhitespace (t, 0) = (t, 0)"
    using opens_skip [OF canonical_opens [OF t assms(2)], of "[]"] by simp
  ultimately show ?thesis by (simp add: parseStrictJson_def skipWhitespace_def)
qed

section \<open>What the strict reader accepts\<close>

primrec jdepth :: "jval \<Rightarrow> nat" where
  "jdepth VUndef = 1"
| "jdepth VNull = 1"
| "jdepth (VBool b) = 1"
| "jdepth (VNum n) = 1"
| "jdepth (VText t) = 1"
| "jdepth (VList vs) = Suc (Max (set (0 # map jdepth vs)))"
| "jdepth (VObj ps) = Suc (Max (set (0 # map snd (map (map_prod id jdepth) ps))))"
| "jdepth VInstance = 1"
| "jdepth (VOfType ty) = 1"

text \<open>No object in the value holds a key twice.\<close>

primrec unique_keys :: "jval \<Rightarrow> bool" where
  "unique_keys VUndef \<longleftrightarrow> True"
| "unique_keys VNull \<longleftrightarrow> True"
| "unique_keys (VBool b) \<longleftrightarrow> True"
| "unique_keys (VNum n) \<longleftrightarrow> True"
| "unique_keys (VText t) \<longleftrightarrow> True"
| "unique_keys (VList vs) \<longleftrightarrow> list_all id (map unique_keys vs)"
| "unique_keys (VObj ps) \<longleftrightarrow> distinct (map fst ps) \<and> list_all id (map snd (map (map_prod id unique_keys) ps))"
| "unique_keys VInstance \<longleftrightarrow> True"
| "unique_keys (VOfType ty) \<longleftrightarrow> True"

definition value_ok :: "nat \<Rightarrow> nat \<Rightarrow> jval \<Rightarrow> bool" where
  "value_ok mx d v \<longleftrightarrow> unique_keys v \<and> d + jdepth v \<le> mx + 1"

fun job_ok :: "nat \<Rightarrow> job \<Rightarrow> bool" where
  "job_ok mx (ReadValue p d) \<longleftrightarrow> True"
| "job_ok mx (ReadItems p d vs) \<longleftrightarrow> d \<le> mx \<and> (\<forall>v\<in>set vs. value_ok mx (d + 1) v)"
| "job_ok mx (ReadMembers p d ps) \<longleftrightarrow>
     d \<le> mx \<and> distinct (map fst ps) \<and> (\<forall>p\<in>set ps. value_ok mx (d + 1) (snd p))"

fun job_depth :: "job \<Rightarrow> nat" where
  "job_depth (ReadValue p d) = d"
| "job_depth (ReadItems p d vs) = d"
| "job_depth (ReadMembers p d ps) = d"

text \<open>The calls a job may need.\<close>

fun job_calls :: "job \<Rightarrow> nat \<Rightarrow> nat" where
  "job_calls (ReadValue p d) n = 2 * n + 1"
| "job_calls (ReadItems p d vs) n = 2 * n + 2"
| "job_calls (ReadMembers p d ps) n = 2 * n + 2"

lemma add_Max_le:
  fixes f :: "'a \<Rightarrow> nat"
  assumes "d \<le> m"
  shows "d + Max (insert 0 (f ` set xs)) \<le> m \<longleftrightarrow> (\<forall>x\<in>set xs. d + f x \<le> m)"
proof -
  have "d + Max (insert 0 (f ` set xs)) \<le> m \<longleftrightarrow> Max (insert 0 (f ` set xs)) \<le> m - d"
    using assms by arith
  also have "\<dots> \<longleftrightarrow> (\<forall>x\<in>set xs. f x \<le> m - d)" by (subst Max_le_iff) auto
  finally show ?thesis using assms by (auto simp: le_diff_conv2 add.commute)
qed

lemma value_ok_list: "d \<le> mx \<Longrightarrow> value_ok mx d (VList vs) \<longleftrightarrow> (\<forall>v\<in>set vs. value_ok mx (d + 1) v)"
  using add_Max_le [of d mx jdepth vs] by (auto simp: value_ok_def list_all_iff)

lemma value_ok_object:
  "d \<le> mx \<Longrightarrow> value_ok mx d (VObj ps) \<longleftrightarrow> distinct (map fst ps) \<and> (\<forall>p\<in>set ps. value_ok mx (d + 1) (snd p))"
  using add_Max_le [of d mx "jdepth \<circ> snd" ps] by (auto simp: value_ok_def list_all_iff image_image comp_def)

lemma value_ok_atoms:
  "d \<le> mx \<Longrightarrow> value_ok mx d VNull" "d \<le> mx \<Longrightarrow> value_ok mx d (VBool b)"
  "d \<le> mx \<Longrightarrow> value_ok mx d (VNum n)" "d \<le> mx \<Longrightarrow> value_ok mx d (VText t)"
  by (simp_all add: value_ok_def)

lemma skip_shorter: "length (fst (skipWhitespace s)) \<le> length (fst s)"
  by (simp add: skipWhitespace_def length_dropWhile_le)

lemma string_loop_consumes:
  "parse_string_loop p r t i = Parsed x s \<Longrightarrow> length (fst s) < length t"
proof (induction p r t i rule: parse_string_loop.induct)
  case (1 p r t i)
  have U: "parse_string_loop p r t i = Parsed x s" by (rule "1.prems")
  have ne: "t \<noteq> []" using U by (subst (asm) parse_string_loop.simps) (simp split: if_splits)
  consider "hd t = 34" | "hd t = 92" "hd (tl t) = 117" "tl t \<noteq> []" | "hd t = 92" "hd (tl t) \<noteq> 117" "tl t \<noteq> []"
    | "hd t \<noteq> 34" "hd t \<noteq> 92" | "hd t = 92" "tl t = []" by blast
  then show ?case
  proof cases
    case 1
    with U ne show ?thesis by (subst (asm) parse_string_loop.simps) auto
  next
    case 2
    with U ne obtain c where "hex_escape (drop 2 t) = Some c" "parse_string_loop p (r @ [c]) (drop 6 t) (i + 6) = Parsed x s"
      by (subst (asm) parse_string_loop.simps) (simp add: Let_def split: option.splits)
    with "1.IH"(1) 2 ne have "length (fst s) < length (drop 6 t)" by simp
    then show ?thesis by simp
  next
    case 3
    with U ne obtain c where "simple_escape (hd (tl t)) = Some c" "parse_string_loop p (r @ [c]) (drop 2 t) (i + 2) = Parsed x s"
      by (subst (asm) parse_string_loop.simps) (simp add: Let_def split: option.splits)
    with "1.IH"(2) 3 ne have "length (fst s) < length (drop 2 t)" by simp
    then show ?thesis by simp
  next
    case 4
    with U ne have "\<not> hd t < 32" "parse_string_loop p (r @ [hd t]) (tl t) (i + 1) = Parsed x s"
      by (subst (asm) parse_string_loop.simps; simp split: if_splits)+
    with "1.IH"(3) 4 ne have "length (fst s) < length (tl t)" by simp
    then show ?thesis by simp
  next
    case 5
    with U ne show ?thesis by (subst (asm) parse_string_loop.simps) simp
  qed
qed

lemma string_loop_answers: "parse_string_loop p r t i \<noteq> Exhausted"
proof (induction p r t i rule: parse_string_loop.induct)
  case (1 p r t i)
  then show ?case
    by (subst parse_string_loop.simps) (auto simp: Let_def split: option.splits)
qed

lemma parseString_consumes: "fst s \<noteq> [] \<Longrightarrow> parseString p s = Parsed x s' \<Longrightarrow> length (fst s') < length (fst s)"
  by (cases "fst s") (auto simp: parseString_def dest: string_loop_consumes)

lemma parseString_answers [simp]: "parseString p s \<noteq> Exhausted"
  by (simp add: parseString_def string_loop_answers)

lemma numeral_length_pos: "numeral_length t = Some n \<Longrightarrow> 0 < n"
  by (cases t) (auto simp: numeral_length_def int_part_def Let_def split: option.splits if_splits)

lemma parseNumber_consumes: "parseNumber nv p s = Parsed v s' \<Longrightarrow> length (fst s') < length (fst s) \<and> (\<exists>x. v = VNum x)"
  using numeral_head numeral_length_pos
  by (auto simp: parseNumber_def read_past_def split: option.splits intro: diff_less)

lemma parseLiteral_consumes:
  "word \<noteq> [] \<Longrightarrow> parseLiteral word v p s = Parsed x s' \<Longrightarrow> length (fst s') < length (fst s) \<and> x = v"
  by (cases "fst s") (auto simp: parseLiteral_def read_past_def uni_def split: if_splits)

lemma next_is_nonempty: "next_is u s \<Longrightarrow> fst s \<noteq> []"
  by (simp add: next_is_def)

lemma advance_shorter: "fst s \<noteq> [] \<Longrightarrow> length (fst (read_past 1 s)) < length (fst s)"
  by (simp add: read_past_def)

definition sound_jobs where
  "sound_jobs mx go \<longleftrightarrow> (\<forall>j s v s'. job_ok mx j \<longrightarrow> go j s = Parsed v s' \<longrightarrow>
     length (fst s') < length (fst s) \<and> value_ok mx (job_depth j) v)"

lemma sound_jobsD:
  "sound_jobs mx go \<Longrightarrow> job_ok mx j \<Longrightarrow> go j s = Parsed v s' \<Longrightarrow>
     length (fst s') < length (fst s) \<and> value_ok mx (job_depth j) v"
  unfolding sound_jobs_def by blast

lemma parseValue_sound:
  assumes go: "sound_jobs mx go" and r: "parseValue go nv mx p d s = Parsed v s'"
  shows "length (fst s') < length (fst s) \<and> value_ok mx d v"
proof -
  from r have d: "d \<le> mx" and ne: "fst s \<noteq> []" by (auto simp: parseValue_def split: if_splits)
  let ?s = "skipWhitespace (read_past 1 s)"
  have le: "length (fst ?s) < length (fst s)"
    using skip_shorter [of "read_past 1 s"] advance_shorter [OF ne] by simp
  have le': "length (fst (read_past 1 ?s)) < length (fst s)"
    using le by (simp add: read_past_def)
  show ?thesis
  proof (cases "next_is 123 s")
    case True
    show ?thesis
    proof (cases "next_is 125 ?s")
      case t: True
      with r True d ne le' show ?thesis by (auto simp: parseValue_def value_ok_object)
    next
      case False
      with r True d ne have "go (ReadMembers p d []) ?s = Parsed v s'" by (simp add: parseValue_def)
      from sound_jobsD [OF go _ this] d le show ?thesis by simp
    qed
  next
    case no: False
    show ?thesis
    proof (cases "next_is 91 s")
      case True
      show ?thesis
      proof (cases "next_is 93 ?s")
        case t: True
        with r True no d ne le' show ?thesis by (auto simp: parseValue_def value_ok_list)
      next
        case False
        with r True no d ne have "go (ReadItems p d []) ?s = Parsed v s'" by (simp add: parseValue_def)
        from sound_jobsD [OF go _ this] d le show ?thesis by simp
      qed
    next
      case no': False
      with r no d ne show ?thesis
        by (auto simp: parseValue_def value_ok_atoms split: if_splits parsed.splits
          dest: parseLiteral_consumes [rotated] parseNumber_consumes parseString_consumes [OF ne])
    qed
  qed
qed

lemma parseArray_sound:
  assumes go: "sound_jobs mx go" and j: "job_ok mx (ReadItems p d vs)" and r: "parseArray go p d vs s = Parsed v s'"
  shows "length (fst s') < length (fst s) \<and> value_ok mx d v"
proof -
  let ?job = "ReadValue (index_path p (length vs)) (d + 1)"
  from r obtain x s1 where x: "go ?job (skipWhitespace s) = Parsed x s1"
    by (auto simp: parseArray_def split: parsed.splits)
  from sound_jobsD [OF go _ x] skip_shorter [of s] skip_shorter [of s1]
  have le: "length (fst (skipWhitespace s1)) < length (fst s)" and ok: "value_ok mx (d + 1) x" by auto
  have le': "length (fst (read_past 1 (skipWhitespace s1))) < length (fst s)"
    using le by (simp add: read_past_def)
  show ?thesis
  proof (cases "next_is 44 (skipWhitespace s1)")
    case True
    with r x have "go (ReadItems p d (vs @ [x])) (read_past 1 (skipWhitespace s1)) = Parsed v s'"
      by (simp add: parseArray_def)
    from sound_jobsD [OF go _ this] j ok le' show ?thesis by auto
  next
    case False
    with r x have "next_is 93 (skipWhitespace s1)" "v = VList (vs @ [x])" "s' = read_past 1 (skipWhitespace s1)"
      by (auto simp: parseArray_def Let_def split: if_splits)
    with j ok le' show ?thesis by (auto simp: value_ok_list)
  qed
qed

lemma parseObject_sound:
  assumes go: "sound_jobs mx go" and j: "job_ok mx (ReadMembers p d ps)" and r: "parseObject go p d ps s = Parsed v s'"
  shows "length (fst s') < length (fst s) \<and> value_ok mx d v"
proof -
  let ?s = "skipWhitespace s"
  from r have q: "next_is 34 ?s" by (auto simp: parseObject_def Let_def split: if_splits)
  with r obtain k s1 where k: "parseString p ?s = Parsed k s1"
    by (auto simp: parseObject_def Let_def split: parsed.splits)
  with q r have fresh: "k \<notin> fst ` set ps" and colon: "next_is 58 (skipWhitespace s1)"
    by (auto simp: parseObject_def Let_def split: if_splits)
  let ?s2 = "skipWhitespace (read_past 1 (skipWhitespace s1))"
  let ?job = "ReadValue (key_path p k) (d + 1)"
  from r q k fresh colon obtain x s3 where x: "go ?job ?s2 = Parsed x s3"
    by (auto simp: parseObject_def Let_def split: parsed.splits)
  have "length (fst s1) < length (fst ?s)" by (rule parseString_consumes [OF next_is_nonempty [OF q] k])
  moreover have "length (fst ?s2) \<le> length (fst s1)"
    using skip_shorter [of "read_past 1 (skipWhitespace s1)"] skip_shorter [of s1] by (simp add: read_past_def)
  moreover have "length (fst s3) < length (fst ?s2)" and ok: "value_ok mx (d + 1) x"
    using sound_jobsD [OF go _ x] by auto
  ultimately have le: "length (fst (skipWhitespace s3)) < length (fst s)"
    using skip_shorter [of s] skip_shorter [of s3] by linarith
  have le': "length (fst (read_past 1 (skipWhitespace s3))) < length (fst s)"
    using le by (simp add: read_past_def)
  show ?thesis
  proof (cases "next_is 44 (skipWhitespace s3)")
    case True
    with r q k fresh colon x have "go (ReadMembers p d (ps @ [(k, x)])) (read_past 1 (skipWhitespace s3)) = Parsed v s'"
      by (simp add: parseObject_def)
    from sound_jobsD [OF go _ this] j ok le' fresh show ?thesis by auto
  next
    case False
    with r q k fresh colon x have "next_is 125 (skipWhitespace s3)" "v = VObj (ps @ [(k, x)])"
      "s' = read_past 1 (skipWhitespace s3)"
      by (auto simp: parseObject_def Let_def split: if_splits)
    with j ok le' fresh show ?thesis by (auto simp: value_ok_object)
  qed
qed

lemma strict_parser_sound: "sound_jobs mx (strict_parser n nv mx)"
proof (induction n)
  case 0
  show ?case by (simp add: sound_jobs_def)
next
  case (Suc n)
  show ?case
    unfolding sound_jobs_def
  proof (intro allI impI)
    fix j s v s'
    assume j: "job_ok mx j" and r: "strict_parser (Suc n) nv mx j s = Parsed v s'"
    show "length (fst s') < length (fst s) \<and> value_ok mx (job_depth j) v"
    proof (cases j)
      case (ReadValue p d)
      with r parseValue_sound [OF Suc] show ?thesis by simp
    next
      case (ReadItems p d vs)
      with r j parseArray_sound [OF Suc, of p d vs s v s'] show ?thesis by simp
    next
      case (ReadMembers p d ps)
      with r j parseObject_sound [OF Suc, of p d ps s v s'] show ?thesis by simp
    qed
  qed
qed

text \<open>The reader always answers: the calls it makes are bounded by twice the length of the text.\<close>

definition answers where
  "answers n go \<longleftrightarrow> (\<forall>j s. job_calls j (length (fst s)) \<le> n \<longrightarrow> go j s \<noteq> Exhausted)"

lemma answersD: "answers n go \<Longrightarrow> job_calls j (length (fst s)) \<le> n \<Longrightarrow> go j s \<noteq> Exhausted"
  by (cases s) (simp add: answers_def)

lemma parseNumber_answers: "parseNumber nv p s \<noteq> Exhausted"
  by (simp add: parseNumber_def split: option.split)

lemma parseLiteral_answers: "parseLiteral w v p s \<noteq> Exhausted"
  by (simp add: parseLiteral_def)

lemma parseValue_answers:
  assumes go: "answers n go" and n: "2 * length (fst s) + 1 \<le> Suc n"
  shows "parseValue go nv mx p d s \<noteq> Exhausted"
proof -
  let ?s = "skipWhitespace (read_past 1 s)"
  have go': "go j ?s \<noteq> Exhausted" if "fst s \<noteq> []" "job_calls j (length (fst ?s)) \<le> 2 * length (fst ?s) + 2" for j
  proof (rule answersD [OF go])
    have "length (fst ?s) < length (fst s)"
      using skip_shorter [of "read_past 1 s"] advance_shorter [OF that(1)] by simp
    then show "job_calls j (length (fst ?s)) \<le> n" using that(2) n by simp
  qed
  have m: "fst s \<noteq> [] \<Longrightarrow> go (ReadMembers p d []) (skipWhitespace (read_past (Suc 0) s)) \<noteq> Exhausted"
    and i: "fst s \<noteq> [] \<Longrightarrow> go (ReadItems p d []) (skipWhitespace (read_past (Suc 0) s)) \<noteq> Exhausted"
    using go' by simp_all
  show ?thesis
  proof (cases "fst s = []")
    case False
    show ?thesis
      using m [OF False] i [OF False]
      by (simp add: parseValue_def Let_def parseNumber_answers parseLiteral_answers split: parsed.split)
  qed (simp add: parseValue_def)
qed

lemma parseArray_answers:
  assumes go: "answers n go" "sound_jobs mx go" and n: "2 * length (fst s) + 2 \<le> Suc n"
  shows "parseArray go p d vs s \<noteq> Exhausted"
proof -
  let ?job = "ReadValue (index_path p (length vs)) (d + 1)"
  have first: "go ?job (skipWhitespace s) \<noteq> Exhausted"
    by (rule answersD [OF go(1)]) (use n skip_shorter [of s] in simp)
  show ?thesis
  proof (cases "go ?job (skipWhitespace s)")
    case (Parsed x s1)
    have "length (fst s1) < length (fst (skipWhitespace s))" using sound_jobsD [OF go(2) _ Parsed] by simp
    then have "length (fst (read_past 1 (skipWhitespace s1))) < length (fst s)"
      using skip_shorter [of s] skip_shorter [of s1] by (simp add: read_past_def)
    then have "go (ReadItems p d (vs @ [x])) (read_past 1 (skipWhitespace s1)) \<noteq> Exhausted"
      by (intro answersD [OF go(1)]) (use n in simp)
    with Parsed show ?thesis by (simp add: parseArray_def Let_def)
  qed (use first in \<open>auto simp: parseArray_def\<close>)
qed

lemma parseObject_answers:
  assumes go: "answers n go" "sound_jobs mx go" and n: "2 * length (fst s) + 2 \<le> Suc n"
  shows "parseObject go p d ps s \<noteq> Exhausted"
proof (cases "next_is 34 (skipWhitespace s)")
  case q: True
  show ?thesis
  proof (cases "parseString p (skipWhitespace s)")
    case k: (Parsed k s1)
    let ?s2 = "skipWhitespace (read_past 1 (skipWhitespace s1))"
    let ?job = "ReadValue (key_path p k) (d + 1)"
    have "length (fst s1) < length (fst (skipWhitespace s))"
      by (rule parseString_consumes [OF next_is_nonempty [OF q] k])
    then have le: "length (fst ?s2) < length (fst s)"
      using skip_shorter [of s] skip_shorter [of s1] skip_shorter [of "read_past 1 (skipWhitespace s1)"]
      by (simp add: read_past_def)
    have first: "go ?job ?s2 \<noteq> Exhausted"
      by (rule answersD [OF go(1)]) (use n le in simp)
    have "go (ReadMembers p d (ps @ [(k, x)])) (read_past 1 (skipWhitespace s3)) \<noteq> Exhausted"
      if "go ?job ?s2 = Parsed x s3" for x s3
    proof (rule answersD [OF go(1)])
      have "length (fst s3) < length (fst ?s2)" using sound_jobsD [OF go(2) _ that] by simp
      with le show "job_calls (ReadMembers p d (ps @ [(k, x)])) (length (fst (read_past 1 (skipWhitespace s3)))) \<le> n"
        using n skip_shorter [of s3] by (simp add: read_past_def)
    qed
    with q k first show ?thesis by (auto simp: parseObject_def Let_def split: parsed.split)
  qed (use q in \<open>auto simp: parseObject_def Let_def\<close>)
qed (simp add: parseObject_def Let_def)

lemma strict_parser_answers: "answers n (strict_parser n nv mx)"
proof (induction n)
  case 0
  have "0 < job_calls j k" for j k by (cases j) auto
  then show ?case by (simp add: answers_def)
next
  case (Suc n)
  have "strict_parser (Suc n) nv mx j s \<noteq> Exhausted" if "job_calls j (length (fst s)) \<le> Suc n" for j s
    using that parseValue_answers [OF Suc, of s] parseArray_answers [OF Suc strict_parser_sound, of s]
      parseObject_answers [OF Suc strict_parser_sound, of s]
    by (cases j) simp_all
  then show ?case by (simp add: answers_def)
qed

text \<open>C16. The strict reader answers every text: it fails with a message, an offset and a path, or it
  returns a value in which no object holds a key twice and which nests no deeper than asked.
\<close>

theorem strict_reader_sound:
  "case parseStrictJson nv t mx of
     Inl None \<Rightarrow> False
   | Inl (Some (m, i, p)) \<Rightarrow> True
   | Inr v \<Rightarrow> unique_keys v \<and> jdepth v \<le> mx"
proof -
  let ?s = "skipWhitespace (t, 0)"
  have "strict_parser (2 * length t + 1) nv mx (ReadValue [36] 1) ?s \<noteq> Exhausted"
    by (rule answersD [OF strict_parser_answers]) (use skip_shorter [of "(t, 0)"] in simp)
  moreover have "value_ok mx 1 v" if "strict_parser (2 * length t + 1) nv mx (ReadValue [36] 1) ?s = Parsed v s'" for v s'
    using sound_jobsD [OF strict_parser_sound _ that] by simp
  ultimately show ?thesis
    by (auto simp: parseStrictJson_def Let_def value_ok_def split: parsed.split)
qed

lemma canonicalJson_canon: "canonicalJson nt (canon v) mx = canonicalJson nt v mx"
  by (simp only: canonicalJson_def canonical_canon(1))

lemma canonical_same_iff:
  assumes "canonicalJson nt v mx = Inr t" and "readable nt nv v"
    and "canonicalJson nt w mx = Inr u" and "readable nt nv w"
  shows "t = u \<longleftrightarrow> canon v = canon w"
proof
  assume "t = u"
  with strict_parser_canonical [OF assms(1,2)] strict_parser_canonical [OF assms(3,4)]
  have "Inr (canon v) = (Inr (canon w) :: (string \<times> nat \<times> utf16) option + jval)" by (simp only:)
  then show "canon v = canon w" by (simp only: sum.inject)
next
  assume "canon v = canon w"
  then have "canonicalJson nt v mx = canonicalJson nt w mx"
    using canonicalJson_canon [of nt v mx] canonicalJson_canon [of nt w mx] by (simp only:)
  then have "Inr t = (Inr u :: json_error + utf16)" by (simp only: assms(1,3))
  then show "t = u" by (simp only: sum.inject)
qed

text \<open>C12. Canonical text and strict reader are inverse: the reader reads a value's canonical text, one
  level deeper than the writer allowed, as that value with its members in key order, and that value has
  the same canonical text.
\<close>

theorem canonical_json_round_trip:
  assumes "canonicalJson nt v mx = Inr t" and "readable nt nv v"
  shows "parseStrictJson nv t (mx + 1) = Inr (canon v) \<and> canonicalJson nt (canon v) mx = Inr t"
  by (intro conjI strict_parser_canonical [OF assms]) (simp only: canonicalJson_canon assms(1))

theorem canonical_json_round_trip_witness:
  "parseStrictJson (\<lambda>t. Fin 1) [123, 34, 97, 34, 58, 91, 49, 93, 44, 34, 98, 92, 110, 34, 58, 110, 117, 108, 108, 125] 5 =
     Inr (VObj [([97], VList [VNum (Fin 1)]), ([98, 10], VNull)]) \<and>
   canonicalJson (\<lambda>r. [49]) (VObj [([97], VList [VNum (Fin 1)]), ([98, 10], VNull)]) 4 =
     Inr [123, 34, 97, 34, 58, 91, 49, 93, 44, 34, 98, 92, 110, 34, 58, 110, 117, 108, 108, 125]"
proof -
  let ?v = "VObj [([98, 10], VNull), ([97], VList [VNum (Fin 1)])]"
  have c: "canonicalJson (\<lambda>r. [49]) ?v 4 =
      Inr [123, 34, 97, 34, 58, 91, 49, 93, 44, 34, 98, 92, 110, 34, 58, 110, 117, 108, 108, 125]"
    by (simp add: canonicalJson_def json_quote_def quote_unit_def uni_def is_high_surrogate_def is_low_surrogate_def)
  have r: "readable (\<lambda>r. [49]) (\<lambda>t. Fin 1) ?v"
    by (simp add: prints_def numeral_length_def int_part_def frac_part_def exp_part_def digit_unit_def)
  have k: "canon ?v = VObj [([97], VList [VNum (Fin 1)]), ([98, 10], VNull)]" by simp
  from canonical_json_round_trip [OF c r, unfolded k] show ?thesis by simp
qed

end
