(* ===== verification/Artifact_Identity.thy ===== *)
theory Artifact_Identity
  imports Canonical_Round_Trip Graph_Identity
begin

text \<open>
  What an artifact's digest and id are hashes of, what its bytes cost its run
  (\<^verbatim>\<open>packages/protocol/src/graphs/run-identity.ts\<close>) and what a stored envelope must satisfy
  (\<^verbatim>\<open>packages/protocol/src/graphs/run-guards.ts\<close>). The hash is an argument, as in the source.
  A guard's answer is whether it reports no problem.
\<close>

section \<open>Budgets\<close>

definition MIB :: int where "MIB = 1024 * 1024"
definition maxInlineBytesPerRun :: int where "maxInlineBytesPerRun = 32 * MIB"
definition maxDiskBytesPerRun :: int where "maxDiskBytesPerRun = 256 * MIB"
definition maxValueBytes :: int where "maxValueBytes = 384 * 1024"
definition maxReferenceBytes :: int where "maxReferenceBytes = 32 * MIB"
definition maxArtifactsPerRun :: int where "maxArtifactsPerRun = 8192"
definition maxArtifactInputs :: nat where "maxArtifactInputs = 256"
definition maxItemIds :: nat where "maxItemIds = 10000"
definition itemIdMaxChars :: nat where "itemIdMaxChars = 128"

definition GRAPH_ARTIFACT_FORMAT_VERSION :: int where "GRAPH_ARTIFACT_FORMAT_VERSION = 1"

section \<open>Digests and ids\<close>

definition jtext :: "string \<Rightarrow> jval" where "jtext s = VText (uni s)"
definition jint :: "int \<Rightarrow> jval" where "jint n = VNum (Fin (of_int n))"

text \<open>A spread of \<open>undefined\<close> adds nothing.\<close>

definition opt_member :: "string \<Rightarrow> jval option \<Rightarrow> (utf16 \<times> jval) list" where
  "opt_member k v = (case v of None \<Rightarrow> [] | Some x \<Rightarrow> [(uni k, x)])"

definition digestPayload :: "artifact_body \<Rightarrow> jval" where
  "digestPayload b =
     (case ab_file b of
        Some f \<Rightarrow> VObj ((uni ''file'', VObj [(uni ''sha256'', jtext (af_sha256 f)), (uni ''bytes'', jint (af_bytes f))])
                   # opt_member ''value'' (ab_value b))
      | None \<Rightarrow> VObj [(uni ''value'', case ab_value b of None \<Rightarrow> VUndef | Some v \<Rightarrow> v)])"

definition graphArtifactDigestText :: "(rat \<Rightarrow> utf16) \<Rightarrow> string \<Rightarrow> artifact_body \<Rightarrow> json_error + utf16" where
  "graphArtifactDigestText nt ty b =
     (case canonicalJson nt (digestPayload b) 128 of Inl e \<Rightarrow> Inl e | Inr t \<Rightarrow> Inr (uni ty @ [10] @ t))"

definition graphArtifactDigest ::
  "(rat \<Rightarrow> utf16) \<Rightarrow> (utf16 \<Rightarrow> string) \<Rightarrow> string \<Rightarrow> artifact_body \<Rightarrow> json_error + string" where
  "graphArtifactDigest nt hash ty b =
     (case graphArtifactDigestText nt ty b of Inl e \<Rightarrow> Inl e | Inr t \<Rightarrow> Inr (hash t))"

record artifact_identity =
  ai_digest :: string
  ai_runId :: string
  ai_producer :: artifact_producer
  ai_inputs :: "string list"
  ai_workspace :: "artifact_workspace option"
  ai_sourceItem :: "string option"

text \<open>The object whose canonical text \<open>graphArtifactId\<close> hashes.\<close>

definition producer_value :: "artifact_producer \<Rightarrow> jval" where
  "producer_value p = VObj [(uni ''nodeId'', jtext (ap_nodeId p)),
     (uni ''activation'', jtext (ap_activation p)), (uni ''port'', jtext (ap_port p))]"

definition workspace_value :: "artifact_workspace option \<Rightarrow> jval" where
  "workspace_value w =
     (case w of
        None \<Rightarrow> VNull
      | Some w \<Rightarrow> VObj ((uni ''headRef'', jtext (aw_headRef w))
                   # opt_member ''baseRef'' (map_option jtext (aw_baseRef w))))"

definition identity_value :: "artifact_identity \<Rightarrow> jval" where
  "identity_value i = VObj
     ([(uni ''format'', jtext ''orkestrator.graph-artifact''),
       (uni ''formatVersion'', jint GRAPH_ARTIFACT_FORMAT_VERSION),
       (uni ''digest'', jtext (ai_digest i)), (uni ''runId'', jtext (ai_runId i)),
       (uni ''producer'', producer_value (ai_producer i)),
       (uni ''inputs'', VList (map jtext (ai_inputs i))),
       (uni ''workspace'', workspace_value (ai_workspace i))]
      @ opt_member ''sourceItem'' (map_option jtext (ai_sourceItem i)))"

definition graphArtifactId :: "(rat \<Rightarrow> utf16) \<Rightarrow> (utf16 \<Rightarrow> string) \<Rightarrow> artifact_identity \<Rightarrow> json_error + string" where
  "graphArtifactId nt hash i =
     (case canonicalJson nt (identity_value i) 64 of Inl e \<Rightarrow> Inl e | Inr t \<Rightarrow> Inr (hash t))"

definition graphArtifactInlineBytes :: "(rat \<Rightarrow> utf16) \<Rightarrow> artifact_body \<Rightarrow> json_error + int" where
  "graphArtifactInlineBytes nt b =
     (case ab_value b of
        None \<Rightarrow> Inr 0
      | Some v \<Rightarrow> (case canonicalJson nt v 128 of Inl e \<Rightarrow> Inl e | Inr t \<Rightarrow> Inr (int (utf8_bytes t))))"

record artifact_footprint =
  ft_inline :: int
  ft_disk :: int

definition graphArtifactFootprint :: "(rat \<Rightarrow> utf16) \<Rightarrow> artifact_body \<Rightarrow> json_error + artifact_footprint" where
  "graphArtifactFootprint nt b =
     (case graphArtifactInlineBytes nt b of
        Inl e \<Rightarrow> Inl e
      | Inr n \<Rightarrow> Inr \<lparr>ft_inline = n, ft_disk = (case ab_file b of None \<Rightarrow> 0 | Some f \<Rightarrow> af_bytes f)\<rparr>)"

definition identity_of :: "artifact \<Rightarrow> string \<Rightarrow> artifact_identity" where
  "identity_of a digest = \<lparr>ai_digest = digest, ai_runId = art_runId a, ai_producer = art_producer a,
     ai_inputs = art_inputs a, ai_workspace = art_workspace a, ai_sourceItem = art_sourceItem a\<rparr>"

text \<open>
  None when digest, id and bytes follow from the content, else the first that does not. A value that
  cannot be encoded has failed at its digest, so the encodings after it succeed.
\<close>

definition verifyGraphArtifactIdentity ::
  "(rat \<Rightarrow> utf16) \<Rightarrow> (utf16 \<Rightarrow> string) \<Rightarrow> artifact \<Rightarrow> string option" where
  "verifyGraphArtifactIdentity nt hash a =
     (case graphArtifactDigest nt hash (art_type a) (art_body a) of
        Inl _ \<Rightarrow> Some ''digest''
      | Inr digest \<Rightarrow>
          if digest \<noteq> art_digest a then Some ''digest''
          else if graphArtifactId nt hash (identity_of a digest) \<noteq> Inr (art_id a) then Some ''id''
          else if (case ab_file (art_body a) of
                     Some f \<Rightarrow> Inr (af_bytes f)
                   | None \<Rightarrow> graphArtifactInlineBytes nt (art_body a)) \<noteq> Inr (art_bytes a)
               then Some ''bytes''
          else None)"

section \<open>Bounds of one artifact\<close>

record limit_violation =
  lv_code :: string
  lv_limit :: int
  lv_actual :: int

definition over :: "string \<Rightarrow> int \<Rightarrow> int \<Rightarrow> limit_violation option" where
  "over code limit actual =
     (if actual > limit then Some \<lparr>lv_code = code, lv_limit = limit, lv_actual = actual\<rparr> else None)"

text \<open>The first violation of a list.\<close>

fun first_violation :: "limit_violation option list \<Rightarrow> limit_violation option" where
  "first_violation [] = None"
| "first_violation (v # vs) = (case v of None \<Rightarrow> first_violation vs | Some x \<Rightarrow> Some x)"

definition item_count :: "artifact \<Rightarrow> nat" where
  "item_count a = max (case art_itemIds a of None \<Rightarrow> 0 | Some is \<Rightarrow> length is)
     (case art_itemSources a of None \<Rightarrow> 0 | Some ss \<Rightarrow> sum_list (map length ss))"

definition graphArtifactLimitViolation :: "(rat \<Rightarrow> utf16) \<Rightarrow> artifact \<Rightarrow> limit_violation option" where
  "graphArtifactLimitViolation nt a = first_violation
     [case ab_file (art_body a) of None \<Rightarrow> None
        | Some f \<Rightarrow> over ''reference-bytes'' maxReferenceBytes (af_bytes f),
      case ab_value (art_body a) of None \<Rightarrow> None
        | Some _ \<Rightarrow> over ''value-bytes'' maxValueBytes
            (case graphArtifactInlineBytes nt (art_body a) of Inl _ \<Rightarrow> 0 | Inr n \<Rightarrow> n),
      over ''artifact-inputs'' (int maxArtifactInputs) (int (length (art_inputs a))),
      over ''artifact-items'' (int maxItemIds) (int (item_count a))]"

section \<open>The guard of a stored envelope\<close>

primrec json_value :: "jval \<Rightarrow> bool" where
  "json_value VUndef \<longleftrightarrow> False"
| "json_value VNull \<longleftrightarrow> True"
| "json_value (VBool b) \<longleftrightarrow> True"
| "json_value (VNum n) \<longleftrightarrow> (case n of Fin _ \<Rightarrow> True | _ \<Rightarrow> False)"
| "json_value (VText t) \<longleftrightarrow> True"
| "json_value (VList vs) \<longleftrightarrow> list_all id (map json_value vs)"
| "json_value (VObj ps) \<longleftrightarrow> list_all id (map snd (map (map_prod id json_value) ps))"
| "json_value VInstance \<longleftrightarrow> False"
| "json_value (VOfType ty) \<longleftrightarrow> False"

text \<open>\<open>JSON.stringify\<close> of a JSON value: members in their own order.\<close>

primrec stringify :: "(rat \<Rightarrow> utf16) \<Rightarrow> jval \<Rightarrow> utf16" where
  "stringify nt VUndef = []"
| "stringify nt VNull = uni ''null''"
| "stringify nt (VBool b) = uni (if b then ''true'' else ''false'')"
| "stringify nt (VNum n) = (case n of Fin r \<Rightarrow> nt r | _ \<Rightarrow> uni ''null'')"
| "stringify nt (VText t) = json_quote t"
| "stringify nt (VList vs) = [91] @ join_units (map (stringify nt) vs) @ [93]"
| "stringify nt (VObj ps) = [123]
     @ join_units (map (\<lambda>(k, t). json_quote k @ [58] @ t) (map (map_prod id (stringify nt)) ps)) @ [125]"
| "stringify nt VInstance = []"
| "stringify nt (VOfType ty) = []"

definition checkBoundedJson :: "(rat \<Rightarrow> utf16) \<Rightarrow> int \<Rightarrow> nat \<Rightarrow> jval \<Rightarrow> bool" where
  "checkBoundedJson nt maxBytes maxDepth v \<longleftrightarrow>
     v \<noteq> VUndef \<and> jdepth v \<le> maxDepth \<and> json_value v \<and> int (utf8_bytes (stringify nt v)) \<le> maxBytes"

definition control_char :: "char \<Rightarrow> bool" where
  "control_char c \<longleftrightarrow> (of_char c :: nat) < 32 \<or> (127 \<le> (of_char c :: nat) \<and> of_char c \<le> (159 :: nat))"

definition checkText :: "nat \<Rightarrow> string \<Rightarrow> bool" where
  "checkText mx s \<longleftrightarrow> s \<noteq> [] \<and> length s \<le> mx \<and> \<not> list_ex control_char s"

definition checkProducer :: "artifact_producer \<Rightarrow> bool" where
  "checkProducer p \<longleftrightarrow>
     (if ap_nodeId p = GRAPH_RUN_INPUT_PRODUCER then ap_activation p = GRAPH_RUN_INPUT_PRODUCER
      else isGraphPlanId (JStr (ap_nodeId p))
        \<and> (case parseGraphActivationKey (JStr (ap_activation p)) of
             None \<Rightarrow> False | Some parts \<Rightarrow> kp_nodeId parts = ap_nodeId p))
     \<and> isGraphKey (JStr (ap_port p))"

definition checkBody :: "(rat \<Rightarrow> utf16) \<Rightarrow> string \<Rightarrow> artifact_body \<Rightarrow> bool" where
  "checkBody nt run b \<longleftrightarrow>
     (case ab_file b of
        None \<Rightarrow> checkBoundedJson nt maxValueBytes 64 (case ab_value b of None \<Rightarrow> VUndef | Some v \<Rightarrow> v)
      | Some f \<Rightarrow>
          (case parseGraphArtifactFilePath (JStr (af_path f)) of
             None \<Rightarrow> False | Some (r, h, e) \<Rightarrow> r = run \<and> h = af_sha256 f)
          \<and> GRAPH_SHA256_PATTERN (af_sha256 f) \<and> 0 \<le> af_bytes f \<and> af_bytes f \<le> maxReferenceBytes
          \<and> (case ab_value b of None \<Rightarrow> True | Some v \<Rightarrow> checkBoundedJson nt maxValueBytes 64 v))"

definition checkWorkspace :: "artifact_workspace \<Rightarrow> bool" where
  "checkWorkspace w \<longleftrightarrow> GRAPH_COMMIT_PATTERN (aw_headRef w)
     \<and> (case aw_baseRef w of None \<Rightarrow> True | Some r \<Rightarrow> GRAPH_COMMIT_PATTERN r)"

definition checkItems :: "artifact \<Rightarrow> bool" where
  "checkItems a \<longleftrightarrow>
     (case art_itemIds a of None \<Rightarrow> True
      | Some is \<Rightarrow> length is \<le> maxItemIds \<and> list_all (checkText itemIdMaxChars) is \<and> distinct is)
     \<and> (case art_itemSources a of None \<Rightarrow> True
        | Some ss \<Rightarrow> length ss \<le> maxItemIds
            \<and> (case art_itemIds a of None \<Rightarrow> False | Some is \<Rightarrow> length ss = length is)
            \<and> list_all (\<lambda>s. 1 \<le> length s \<and> length s \<le> maxItemIds \<and> list_all (checkText itemIdMaxChars) s) ss)
     \<and> (case art_sourceItem a of None \<Rightarrow> True | Some s \<Rightarrow> checkText itemIdMaxChars s)"

text \<open>\<open>utc\<close>: the platform's reading of an RFC 3339 timestamp succeeds and prints it back.\<close>

definition validateGraphArtifact :: "(rat \<Rightarrow> utf16) \<Rightarrow> (string \<Rightarrow> bool) \<Rightarrow> artifact \<Rightarrow> bool" where
  "validateGraphArtifact nt utc a \<longleftrightarrow>
     GRAPH_SHA256_PATTERN (art_id a) \<and> GRAPH_SHA256_PATTERN (art_digest a)
     \<and> (case parseGraphTypeRef (art_type a) of None \<Rightarrow> False | Some r \<Rightarrow> tr_depth r = 0)
     \<and> isGraphRunId (JStr (art_runId a)) \<and> checkProducer (art_producer a)
     \<and> length (art_inputs a) \<le> maxArtifactInputs \<and> list_all GRAPH_SHA256_PATTERN (art_inputs a)
     \<and> (case art_workspace a of None \<Rightarrow> True | Some w \<Rightarrow> checkWorkspace w)
     \<and> length (art_createdAt a) \<le> 40 \<and> utc (art_createdAt a)
     \<and> 0 \<le> art_bytes a \<and> art_bytes a \<le> maxReferenceBytes
     \<and> checkBody nt (art_runId a) (art_body a) \<and> checkItems a
     \<and> (if art_state a = ASuperseded
        then (case art_supersededBy a of None \<Rightarrow> False | Some r \<Rightarrow> isGraphRunId (JStr r))
        else art_supersededBy a = None)"

section \<open>What digests and ids identify\<close>

lemma uni_inject [simp]: "uni s = uni t \<longleftrightarrow> s = t"
  by (auto simp: uni_def inj_map_eq_map inj_on_def)

lemma jtext_inject [simp]: "jtext s = jtext t \<longleftrightarrow> s = t"
  by (simp add: jtext_def)

lemma jint_inject [simp]: "jint m = jint n \<longleftrightarrow> m = n"
  by (simp add: jint_def)

lemma units16_uni [simp]: "units16 (uni s)"
proof -
  have "(of_char c :: nat) < 65536" for c using nat_of_char_less_256 [of c] by linarith
  then show ?thesis by (induction s) (simp_all add: uni_def)
qed

lemma readable_jtext [simp]: "readable nt nv (jtext s)"
  by (simp add: jtext_def)

text \<open>A JSON value that does not nest too deep has a canonical text.\<close>

lemma canonical_total:
  "json_value v \<Longrightarrow> d + jdepth v \<le> mx + 1 \<Longrightarrow> \<exists>t. canonical_value nt mx d p v = Inr t"
  "\<forall>v\<in>set vs. json_value v \<and> d + 1 + jdepth v \<le> mx + 1 \<Longrightarrow> \<exists>ts. canonical_items nt mx d p k vs = Inr ts"
  "\<forall>q\<in>set ps. json_value (snd q) \<and> d + 1 + jdepth (snd q) \<le> mx + 1 \<Longrightarrow> \<exists>ts. canonical_members nt mx d p ps = Inr ts"
proof (induction nt mx d p v and nt mx d p k vs and nt mx d p ps
    rule: canonical_value_canonical_items_canonical_members.induct)
  case (1 nt mx d p v)
  have pos: "0 < jdepth v" by (cases v) auto
  with "1.prems"(2) have d: "\<not> d > mx" by simp
  show ?case
  proof (cases v)
    case (VList vs)
    have "d \<le> mx" using d by simp
    with "1.prems" VList add_Max_le [of d mx jdepth vs]
    have "\<forall>v\<in>set vs. json_value v \<and> d + 1 + jdepth v \<le> mx + 1" by (auto simp: list_all_iff)
    from "1.IH"(1) [OF d VList this] d VList show ?thesis by auto
  next
    case (VObj ps)
    have "d \<le> mx" using d by simp
    with "1.prems" VObj add_Max_le [of d mx "jdepth \<circ> snd" ps]
    have "\<forall>q\<in>set (sort_key fst ps). json_value (snd q) \<and> d + 1 + jdepth (snd q) \<le> mx + 1"
      by (auto simp: list_all_iff image_image comp_def)
    from "1.IH"(2) [OF d VObj this] d VObj show ?thesis by auto
  next
    case (VNum n)
    with "1.prems" d show ?thesis by (cases n) auto
  qed (use "1.prems" d in auto)
next
  case (3 nt mx d p k v vs)
  then have v: "v \<noteq> VUndef" by auto
  from "3.IH"(1) [OF v] "3.prems" obtain t where t: "canonical_value nt mx (d + 1) (index_path p k) v = Inr t" by auto
  from "3.IH"(2) [OF v t] "3.prems" obtain ts where "canonical_items nt mx d p (k + 1) vs = Inr ts" by auto
  with v t show ?case by (simp del: canonical_value.simps)
next
  case (5 nt mx d p k v ps)
  then have v: "v \<noteq> VUndef" by auto
  from "5.IH"(1) [OF v] "5.prems" obtain t where t: "canonical_value nt mx (d + 1) (key_path p k) v = Inr t" by auto
  from "5.IH"(2) [OF v t] "5.prems" obtain ts where "canonical_members nt mx d p ps = Inr ts" by auto
  with v t show ?case by (simp del: canonical_value.simps)
qed simp_all

lemma map_of_sort_key:
  assumes "distinct (map fst ps)"
  shows "map_of (sort_key fst ps) = map_of ps"
  by (rule map_of_inject_set [THEN iffD2]) (use assms in \<open>auto simp: distinct_map\<close>)

lemma canon_member:
  assumes "canon (VObj ps) = canon (VObj qs)" and "distinct (map fst ps)" and "distinct (map fst qs)"
  shows "map_option canon (map_of ps k) = map_option canon (map_of qs k)"
proof -
  from assms(1) have "map (map_prod id canon) (sort_key fst ps) = map (map_prod id canon) (sort_key fst qs)"
    unfolding canon_VObj by simp
  then have "map_of (map (map_prod id canon) (sort_key fst ps)) k = map_of (map (map_prod id canon) (sort_key fst qs)) k"
    by (simp only:)
  moreover have "map_of (map (map_prod id canon) rs) k = map_option canon (map_of rs k)" for rs :: "(utf16 \<times> jval) list"
    by (induction rs) auto
  ultimately show ?thesis by (simp add: map_of_sort_key assms(2,3))
qed

lemma canon_jtext [simp]: "canon (jtext s) = jtext s"
  by (simp add: jtext_def)

lemma canon_jint [simp]: "canon (jint n) = jint n"
  by (simp add: jint_def)

lemma jtext_not_VObj [simp]: "jtext s \<noteq> VObj ps" "VObj ps \<noteq> jtext s" "jtext s \<noteq> VNull" "VNull \<noteq> jtext s"
  by (simp_all add: jtext_def)

lemma map_of_opt_member [simp]: "map_of (opt_member k v) k' = (if k' = uni k then v else None)"
  by (auto simp: opt_member_def split: option.split)

lemma fst_opt_member: "fst ` set (opt_member k v) \<subseteq> {uni k}"
  by (auto simp: opt_member_def split: option.split)

lemma distinct_opt_member [simp]: "distinct (map fst (opt_member k v))"
  by (auto simp: opt_member_def split: option.split)

lemma in_opt_member [simp]: "k' \<in> fst ` set (opt_member k v) \<longleftrightarrow> k' = uni k \<and> v \<noteq> None"
  by (auto simp: opt_member_def split: option.split)

definition producer_members where
  "producer_members p = [(uni ''nodeId'', jtext (ap_nodeId p)),
     (uni ''activation'', jtext (ap_activation p)), (uni ''port'', jtext (ap_port p))]"

lemma producer_canon: "canon (producer_value p) = canon (producer_value q) \<longleftrightarrow> p = q"
proof
  assume "canon (producer_value p) = canon (producer_value q)"
  then have "canon (VObj (producer_members p)) = canon (VObj (producer_members q))"
    by (simp only: producer_value_def producer_members_def)
  note m = canon_member [OF this]
  have d: "distinct (map fst (producer_members r))" for r by (simp add: producer_members_def)
  note m = m [OF d d]
  show "p = q"
    using m [of "uni ''nodeId''"] m [of "uni ''activation''"] m [of "uni ''port''"]
    by (simp add: producer_members_def)
qed simp

lemma workspace_canon: "canon (workspace_value v) = canon (workspace_value w) \<longleftrightarrow> v = w"
proof
  assume eq: "canon (workspace_value v) = canon (workspace_value w)"
  let ?ms = "\<lambda>w. (uni ''headRef'', jtext (aw_headRef w)) # opt_member ''baseRef'' (map_option jtext (aw_baseRef w))"
  have d: "distinct (map fst (?ms r))" for r by simp
  consider "v = None" "w = None" | x where "v = None" "w = Some x" | x where "v = Some x" "w = None"
    | x y where "v = Some x" "w = Some y" by (cases v; cases w) auto
  then show "v = w"
  proof cases
    case (4 x y)
    with eq have "canon (VObj (?ms x)) = canon (VObj (?ms y))" by (simp only: workspace_value_def option.case)
    note m = canon_member [OF this d d]
    have "map_option jtext (aw_baseRef x) = map_option jtext (aw_baseRef y)"
      using m [of "uni ''baseRef''"] by (cases "aw_baseRef x"; cases "aw_baseRef y") simp_all
    moreover have "inj jtext" by (rule injI) simp
    ultimately have "aw_baseRef x = aw_baseRef y" using option.inj_map by (metis injD)
    with m [of "uni ''headRef''"] 4 show ?thesis by simp
  qed (use eq in \<open>auto simp: workspace_value_def\<close>)
qed simp

definition identity_members where
  "identity_members i =
     [(uni ''format'', jtext ''orkestrator.graph-artifact''),
      (uni ''formatVersion'', jint GRAPH_ARTIFACT_FORMAT_VERSION),
      (uni ''digest'', jtext (ai_digest i)), (uni ''runId'', jtext (ai_runId i)),
      (uni ''producer'', producer_value (ai_producer i)),
      (uni ''inputs'', VList (map jtext (ai_inputs i))),
      (uni ''workspace'', workspace_value (ai_workspace i))]
     @ opt_member ''sourceItem'' (map_option jtext (ai_sourceItem i))"

lemma identity_canon: "canon (identity_value i) = canon (identity_value j) \<longleftrightarrow> i = j"
proof
  assume "canon (identity_value i) = canon (identity_value j)"
  then have eq: "canon (VObj (identity_members i)) = canon (VObj (identity_members j))"
    by (simp only: identity_value_def identity_members_def)
  have d: "distinct (map fst (identity_members r))" for r by (simp add: identity_members_def)
  note m = canon_member [OF eq d d]
  have inj: "inj jtext" by (rule injI) simp
  have l: "canon \<circ> jtext = jtext" by (rule ext) simp
  have 1: "ai_digest i = ai_digest j" "ai_runId i = ai_runId j"
    using m [of "uni ''digest''"] m [of "uni ''runId''"] by (simp_all add: identity_members_def)
  have 2: "ai_producer i = ai_producer j" "ai_workspace i = ai_workspace j"
    using m [of "uni ''producer''"] m [of "uni ''workspace''"]
    by (simp_all add: identity_members_def producer_canon workspace_canon)
  have 3: "ai_inputs i = ai_inputs j"
    using m [of "uni ''inputs''"] inj by (simp add: identity_members_def l inj_map_eq_map)
  have 4: "map_option jtext (ai_sourceItem i) = map_option jtext (ai_sourceItem j)"
    using m [of "uni ''sourceItem''"] by (simp add: identity_members_def option.map_comp comp_def)
  then have "ai_sourceItem i = ai_sourceItem j" using option.inj_map [OF inj] by (metis injD)
  with 1 2 3 show "i = j" by simp
qed simp

lemma readable_identity: "prints nt nv 1 \<Longrightarrow> readable nt nv (identity_value i)"
  by (auto simp: identity_value_def producer_value_def workspace_value_def opt_member_def jint_def
    GRAPH_ARTIFACT_FORMAT_VERSION_def split: option.split)

lemma jdepth_le:
  "jdepth (VList vs) \<le> Suc m \<longleftrightarrow> (\<forall>v\<in>set vs. jdepth v \<le> m)"
  "jdepth (VObj ps) \<le> Suc m \<longleftrightarrow> (\<forall>p\<in>set ps. jdepth (snd p) \<le> m)"
  using add_Max_le [of 0 m jdepth vs] add_Max_le [of 0 m "jdepth \<circ> snd" ps]
  by (simp_all add: image_image comp_def)

lemma json_le:
  "json_value (VList vs) \<longleftrightarrow> (\<forall>v\<in>set vs. json_value v)"
  "json_value (VObj ps) \<longleftrightarrow> (\<forall>p\<in>set ps. json_value (snd p))"
  by (simp_all add: list_all_iff)

lemma ball_opt_member: "(\<forall>p\<in>set (opt_member k v). P p) \<longleftrightarrow> (case v of None \<Rightarrow> True | Some x \<Rightarrow> P (uni k, x))"
  by (auto simp: opt_member_def split: option.split)

lemma flat_depth: "jdepth (jtext s) \<le> Suc m" "jdepth (jint n) \<le> Suc m" "jdepth VNull \<le> Suc m"
  "json_value (jtext s)" "json_value (jint n)" "json_value VNull"
  by (simp_all add: jtext_def jint_def)

lemma identity_json: "json_value (identity_value i)" "jdepth (identity_value i) \<le> Suc (Suc (Suc 0))"
  unfolding identity_value_def producer_value_def workspace_value_def
  by (auto simp: jdepth_le json_le ball_opt_member flat_depth ball_Un split: option.split
    simp del: jdepth.simps json_value.simps(6,7))

lemma identity_text: "\<exists>t. canonicalJson nt (identity_value i) 64 = Inr t"
  using canonical_total(1) [OF identity_json(1), of 0 i 64 nt "[36]"] identity_json(2) [of i]
  by (simp add: canonicalJson_def del: canonical_value.simps)

text \<open>C39. Every artifact has an id, whatever its producer, lineage and workspace are: the hash of a text
  that names all of them, so two identities that differ anywhere have different texts.
\<close>

theorem artifact_id_exact:
  assumes "prints nt nv 1"
  shows "\<exists>T. inj T \<and> (\<forall>hash i. graphArtifactId nt hash i = Inr (hash (T i)))"
proof -
  have "\<forall>i. \<exists>t. canonicalJson nt (identity_value i) 64 = Inr t" using identity_text by blast
  then obtain T where T: "\<And>i. canonicalJson nt (identity_value i) 64 = Inr (T i)" by metis
  have "inj T"
  proof (rule injI)
    fix i j
    assume eq: "T i = T j"
    from canonical_same_iff [OF T [of i] readable_identity [OF assms] T [of j] readable_identity [OF assms]]
    have "T i = T j \<longleftrightarrow> i = j" by (simp only: identity_canon)
    then show "i = j" using eq by (rule iffD1)
  qed
  moreover have "graphArtifactId nt hash i = Inr (hash (T i))" for hash i
    by (simp only: graphArtifactId_def T sum.case)
  ultimately show ?thesis by blast
qed

theorem artifact_id_exact_witness:
  "\<exists>T. inj T \<and> (\<forall>hash i. graphArtifactId (\<lambda>r. [49]) hash i = Inr (hash (T i)))"
  by (rule artifact_id_exact [where nv = "\<lambda>t. Fin 1"])
    (simp add: prints_def numeral_length_def int_part_def frac_part_def exp_part_def digit_unit_def)

text \<open>What a digest covers of a body: not the path of its file.\<close>

definition digested :: "artifact_body \<Rightarrow> (string \<times> int) option \<times> jval option" where
  "digested b = (map_option (\<lambda>f. (af_sha256 f, af_bytes f)) (ab_file b), map_option canon (ab_value b))"

definition file_value :: "artifact_file \<Rightarrow> jval" where
  "file_value f = VObj [(uni ''sha256'', jtext (af_sha256 f)), (uni ''bytes'', jint (af_bytes f))]"

lemma file_canon: "canon (file_value f) = canon (file_value g) \<longleftrightarrow> af_sha256 f = af_sha256 g \<and> af_bytes f = af_bytes g"
proof
  let ?ms = "\<lambda>f. [(uni ''sha256'', jtext (af_sha256 f)), (uni ''bytes'', jint (af_bytes f))]"
  have d: "distinct (map fst (?ms f))" for f by simp
  assume "canon (file_value f) = canon (file_value g)"
  then have "canon (VObj (?ms f)) = canon (VObj (?ms g))" by (simp only: file_value_def)
  note m = canon_member [OF this d d]
  show "af_sha256 f = af_sha256 g \<and> af_bytes f = af_bytes g"
    using m [of "uni ''sha256''"] m [of "uni ''bytes''"] by simp
qed (simp add: file_value_def)

text \<open>The members of a payload; a value artifact's value is always there.\<close>

definition payload_members :: "artifact_body \<Rightarrow> (utf16 \<times> jval) list" where
  "payload_members b = opt_member ''file'' (map_option file_value (ab_file b)) @ opt_member ''value'' (ab_value b)"

lemma payload_members:
  assumes "ab_file b \<noteq> None \<or> ab_value b \<noteq> None"
  shows "digestPayload b = VObj (payload_members b)" and "distinct (map fst (payload_members b))"
  using assms by (auto simp: digestPayload_def payload_members_def opt_member_def file_value_def split: option.split)

lemma payload_canon:
  assumes b: "ab_file b \<noteq> None \<or> ab_value b \<noteq> None" and c: "ab_file c \<noteq> None \<or> ab_value c \<noteq> None"
  shows "canon (digestPayload b) = canon (digestPayload c) \<longleftrightarrow> digested b = digested c"
proof
  assume "canon (digestPayload b) = canon (digestPayload c)"
  then have "canon (VObj (payload_members b)) = canon (VObj (payload_members c))"
    by (simp only: payload_members(1) [OF b] payload_members(1) [OF c])
  note m = canon_member [OF this payload_members(2) [OF b] payload_members(2) [OF c]]
  have f: "map_option (canon \<circ> file_value) (ab_file b) = map_option (canon \<circ> file_value) (ab_file c)"
    using m [of "uni ''file''"] by (simp add: payload_members_def map_add_def option.map_comp split: option.splits)
  have v: "map_option canon (ab_value b) = map_option canon (ab_value c)"
    using m [of "uni ''value''"] by (simp add: payload_members_def map_add_def split: option.splits)
  show "digested b = digested c"
    using f v by (cases "ab_file b"; cases "ab_file c") (simp_all add: digested_def file_canon)
next
  assume "digested b = digested c"
  then have f: "map_option (canon \<circ> file_value) (ab_file b) = map_option (canon \<circ> file_value) (ab_file c)"
    and v: "map_option canon (ab_value b) = map_option canon (ab_value c)"
    by (cases "ab_file b"; cases "ab_file c"; simp add: digested_def file_canon)+
  have mem: "map (map_prod id canon) (payload_members x) =
      opt_member ''file'' (map_option (canon \<circ> file_value) (ab_file x)) @ opt_member ''value'' (map_option canon (ab_value x))" for x
    by (simp add: payload_members_def opt_member_def split: option.split)
  show "canon (digestPayload b) = canon (digestPayload c)"
    unfolding payload_members(1) [OF b] payload_members(1) [OF c] canon.simps mem f v ..
qed

lemma digest_text_Inr:
  assumes "graphArtifactDigestText nt ty b = Inr t"
  obtains u where "canonicalJson nt (digestPayload b) 128 = Inr u" and "t = uni ty @ [10] @ u"
    and "ab_file b \<noteq> None \<or> ab_value b \<noteq> None"
proof -
  from assms obtain u where u: "canonicalJson nt (digestPayload b) 128 = Inr u" "t = uni ty @ [10] @ u"
    by (auto simp: graphArtifactDigestText_def split: sum.splits simp del: canonical_value.simps)
  moreover have "ab_file b \<noteq> None \<or> ab_value b \<noteq> None"
  proof (rule ccontr)
    assume "\<not> ?thesis"
    then have "digestPayload b = VObj [(uni ''value'', VUndef)]" by (simp add: digestPayload_def)
    with u(1) show False by (simp add: canonicalJson_def)
  qed
  ultimately show ?thesis using that by blast
qed

lemma newline_unit: "(of_char c :: nat) = 10 \<Longrightarrow> c = CHR 0x0A"
proof -
  assume "(of_char c :: nat) = 10"
  then have "(of_char c :: nat) = of_char (CHR 0x0A)" by simp
  then show "c = CHR 0x0A" by (simp only: of_char_eq_iff)
qed

lemma newline_split:
  assumes "uni s @ [10] @ t = uni s' @ [10] @ t'" and "CHR 0x0A \<notin> set s" and "CHR 0x0A \<notin> set s'"
  shows "s = s' \<and> t = t'"
  using assms
proof (induction s arbitrary: s')
  case Nil
  then show ?case by (cases s') (auto simp: uni_def dest: newline_unit)
next
  case (Cons c s)
  then show ?case by (cases s') (auto simp: uni_def dest: newline_unit)
qed

text \<open>Two artifacts have the same digest text exactly if they have the same type and the same content:
  the hash and size of the file, wherever its path is, and the value up to the order of members.
\<close>

theorem artifact_digest_exact:
  assumes "graphArtifactDigestText nt ty b = Inr t" and "graphArtifactDigestText nt ty' b' = Inr t'"
    and "readable nt nv (digestPayload b)" and "readable nt nv (digestPayload b')"
    and "CHR 0x0A \<notin> set ty" and "CHR 0x0A \<notin> set ty'"
  shows "t = t' \<longleftrightarrow> ty = ty' \<and> digested b = digested b'"
proof -
  obtain u where u: "canonicalJson nt (digestPayload b) 128 = Inr u" "t = uni ty @ [10] @ u"
    "ab_file b \<noteq> None \<or> ab_value b \<noteq> None" using assms(1) by (rule digest_text_Inr)
  obtain u' where u': "canonicalJson nt (digestPayload b') 128 = Inr u'" "t' = uni ty' @ [10] @ u'"
    "ab_file b' \<noteq> None \<or> ab_value b' \<noteq> None" using assms(2) by (rule digest_text_Inr)
  have "u = u' \<longleftrightarrow> digested b = digested b'"
    using canonical_same_iff [OF u(1) assms(3) u'(1) assms(4)] payload_canon [OF u(3) u'(3)] by (simp only:)
  then show ?thesis using newline_split [OF _ assms(5,6)] u(2) u'(2) by auto
qed

definition example_bodies :: "artifact_body \<times> artifact_body" where
  "example_bodies =
     (\<lparr>ab_file = None, ab_value = Some (VObj [([98], VNull), ([97], VBool True)])\<rparr>,
      \<lparr>ab_file = None, ab_value = Some (VObj [([97], VBool True), ([98], VNull)])\<rparr>)"

theorem artifact_digest_exact_witness:
  "\<exists>t t'. graphArtifactDigestText (\<lambda>r. [49]) ''t'' (fst example_bodies) = Inr t \<and>
     graphArtifactDigestText (\<lambda>r. [49]) ''t'' (snd example_bodies) = Inr t' \<and> t = t'"
proof -
  let ?t = "[116, 10, 123, 34, 118, 97, 108, 117, 101, 34, 58, 123, 34, 97, 34, 58, 116, 114, 117, 101, 44,
    34, 98, 34, 58, 110, 117, 108, 108, 125, 125] :: utf16"
  have e: "graphArtifactDigestText (\<lambda>r. [49]) ''t'' b = Inr ?t" if "b = fst example_bodies \<or> b = snd example_bodies" for b
    using that by (auto simp: example_bodies_def graphArtifactDigestText_def digestPayload_def canonicalJson_def
      json_quote_def quote_unit_def uni_def is_high_surrogate_def is_low_surrogate_def)
  have r: "readable (\<lambda>r. [49]) (\<lambda>t. Fin 1) (digestPayload b)" if "b = fst example_bodies \<or> b = snd example_bodies" for b
    using that by (auto simp: example_bodies_def digestPayload_def)
  have d: "digested (fst example_bodies) = digested (snd example_bodies)"
    by (simp add: digested_def example_bodies_def)
  have "?t = ?t"
    by (rule artifact_digest_exact [where b = "fst example_bodies" and b' = "snd example_bodies", THEN iffD2, OF e e r r]) (simp_all add: d)
  then show ?thesis using e by blast
qed

end
