(* ===== verification/Run_Store.thy ===== *)
theory Run_Store
  imports Artifact_Identity Graph_Lineage "HOL-Library.Product_Lexorder"
begin

text \<open>
  The store of graph runs, their artifacts and their effect journal
  (\<^verbatim>\<open>apps/backend/src/core/storage-graph-runs.ts\<close>,
  \<^verbatim>\<open>storage-graph-effects.ts\<close>).

  The two record stores are association lists from row keys to rows, in the order of their
  positions. An operation takes the platform's functions, the moment it runs at and the store, and
  returns the store it leaves with a result or a typed refusal. Refusals carry their code, limit and
  amount; their messages are left out. Each operation runs in the one mutation queue of the two stores,
  so operations do not interleave. Rows of the artifact store are the ones these operations write; rows
  of the run store may come from another build.
\<close>

section \<open>Platform, rows and refusals\<close>

record store_error =
  se_code :: string
  se_limit :: "int option"
  se_actual :: "int option"

definition refuse :: "string \<Rightarrow> store_error" where
  "refuse code = \<lparr>se_code = code, se_limit = None, se_actual = None\<rparr>"

definition refuse_over :: "string \<Rightarrow> int \<Rightarrow> int \<Rightarrow> store_error" where
  "refuse_over code limit actual = \<lparr>se_code = code, se_limit = Some limit, se_actual = Some actual\<rparr>"

definition refuse_limit :: "limit_violation \<Rightarrow> store_error" where
  "refuse_limit v = refuse_over (lv_code v) (lv_limit v) (lv_actual v)"

text \<open>
  What a row of the run store shows when its record is not this build's: the fields the store reads,
  None for one that is absent.
\<close>

record run_stub =
  rx_id :: "string option"
  rx_revision :: "int option"
  rx_planDigest :: "string option"
  rx_projectId :: "string option"
  rx_environmentId :: "string option"
  rx_status :: "string option"
  rx_finishedAt :: "string option"
  rx_updatedAt :: "string option"
  rx_createdAt :: "string option"

text \<open>By \<open>storedFormat\<close>.\<close>

datatype run_row = CurrentRun graph_run | NewerRun run_stub | InvalidRun run_stub

record artifact_usage =
  au_artifacts :: int
  au_inlineBytes :: int
  au_diskBytes :: int

definition EMPTY_USAGE :: artifact_usage where
  "EMPTY_USAGE = \<lparr>au_artifacts = 0, au_inlineBytes = 0, au_diskBytes = 0\<rparr>"

datatype effect_state = EIntended | EDone | EFailed | ESimulated

type_synonym json_record = "(utf16 \<times> jval) list"

record effect_record =
  ef_id :: string
  ef_runId :: string
  ef_key :: string
  ef_action :: string
  ef_nodeId :: string
  ef_activation :: string
  ef_state :: effect_state
  ef_attempts :: int
  ef_owner :: string
  ef_intendedAt :: string
  ef_settledAt :: "string option"
  ef_data :: "json_record option"
  ef_error :: "utf16 option"

text \<open>\<open>OtherRow\<close>: a superseded row of a run that is no artifact, which no reader accepts.\<close>

datatype art_row =
    UsageRow string artifact_usage
  | ArtifactRow artifact
  | EffectRow effect_record
  | OtherRow string string

text \<open>
  The platform: number printing, the native hash, whether a timestamp reads back as written, the guard
  of whole run records, a record's serialized size, a frozen plan's digest and the keys texts collate by.
\<close>

record platform =
  pt_number :: "rat \<Rightarrow> utf16"
  pt_hash :: "utf16 \<Rightarrow> string"
  pt_utc :: "string \<Rightarrow> bool"
  pt_guard :: "graph_run \<Rightarrow> bool"
  pt_size :: "graph_run \<Rightarrow> int"
  pt_planDigest :: "graph_plan \<Rightarrow> string"
  pt_collate :: "string \<Rightarrow> nat list"

datatype environment_state = EnvAbsent | EnvDeleting | EnvWritable

text \<open>
  The moment of an operation: the clock, the environments, and whether the coordinators' store refuses to
  record the creation of a run's environment.
\<close>

record moment =
  mo_now :: string
  mo_env :: "string \<Rightarrow> environment_state"
  mo_receipt :: "run_row \<Rightarrow> store_error option"

text \<open>The two stores, and the announcements made: run, project and whether it was deleted.\<close>

record run_store =
  st_runs :: "(string \<times> run_row) list"
  st_arts :: "(string \<times> art_row) list"
  st_announced :: "(string \<times> string option \<times> bool) list"

definition empty_store :: run_store where
  "empty_store = \<lparr>st_runs = [], st_arts = [], st_announced = []\<rparr>"

type_synonym 'a store_outcome = "run_store \<times> (store_error + 'a)"

definition remove_row :: "string \<Rightarrow> (string \<times> 'v) list \<Rightarrow> (string \<times> 'v) list" where
  "remove_row k rows = filter (\<lambda>p. fst p \<noteq> k) rows"

definition announce :: "string \<Rightarrow> string option \<Rightarrow> bool \<Rightarrow> run_store \<Rightarrow> run_store" where
  "announce r p deleted S = S\<lparr>st_announced := st_announced S @ [(r, p, deleted)]\<rparr>"

section \<open>Fields of stored rows\<close>

fun status_name :: "run_status \<Rightarrow> string" where
  "status_name Provisioning = ''provisioning''"
| "status_name RRunning = ''running''"
| "status_name RWaiting = ''waiting''"
| "status_name RPaused = ''paused''"
| "status_name RComplete = ''complete''"
| "status_name RFailed = ''failed''"
| "status_name Cancelling = ''cancelling''"
| "status_name RCancelled = ''cancelled''"

definition GRAPH_RUN_TERMINAL_STATUSES :: "string list" where
  "GRAPH_RUN_TERMINAL_STATUSES = [''complete'', ''failed'', ''cancelled'']"

text \<open>The fields of a row, whoever wrote it.\<close>

definition row_stub :: "platform \<Rightarrow> run_row \<Rightarrow> run_stub" where
  "row_stub P row =
     (case row of
        CurrentRun r \<Rightarrow> \<lparr>rx_id = Some (run_id r), rx_revision = Some (run_revision r),
          rx_planDigest = Some (pt_planDigest P (run_plan r)), rx_projectId = Some (run_projectId r),
          rx_environmentId = run_environmentId r, rx_status = Some (status_name (run_status r)),
          rx_finishedAt = run_finishedAt r, rx_updatedAt = Some (run_updatedAt r),
          rx_createdAt = Some (run_createdAt r)\<rparr>
      | NewerRun x \<Rightarrow> x
      | InvalidRun x \<Rightarrow> x)"

definition row_environment :: "run_row \<Rightarrow> string option" where
  "row_environment row =
     (case row of CurrentRun r \<Rightarrow> run_environmentId r | NewerRun x \<Rightarrow> rx_environmentId x
      | InvalidRun x \<Rightarrow> rx_environmentId x)"

definition storedEndedAt :: "run_stub \<Rightarrow> string" where
  "storedEndedAt x =
     (case rx_finishedAt x of Some t \<Rightarrow> t
      | None \<Rightarrow> (case rx_updatedAt x of Some t \<Rightarrow> t
                | None \<Rightarrow> (case rx_createdAt x of Some t \<Rightarrow> t | None \<Rightarrow> [])))"

definition artifactKey :: "string \<Rightarrow> string \<Rightarrow> string" where
  "artifactKey r a = r @ ''/'' @ a"

definition row_owner :: "art_row \<Rightarrow> string" where
  "row_owner row = (case row of UsageRow r u \<Rightarrow> r | ArtifactRow a \<Rightarrow> art_runId a | EffectRow e \<Rightarrow> ef_runId e
      | OtherRow r i \<Rightarrow> r)"

text \<open>The key a row of a run is deleted under: by its own id, or the run's when it has none.\<close>

definition row_key :: "string \<Rightarrow> art_row \<Rightarrow> string" where
  "row_key r row =
     (case row of UsageRow _ u \<Rightarrow> r | ArtifactRow a \<Rightarrow> artifactKey r (art_id a)
      | EffectRow e \<Rightarrow> artifactKey r (ef_id e) | OtherRow _ i \<Rightarrow> artifactKey r i)"

section \<open>Checks of a run record\<close>

definition assertEnvironmentWritable :: "moment \<Rightarrow> string option \<Rightarrow> store_error option" where
  "assertEnvironmentWritable m e =
     (case e of
        None \<Rightarrow> None
      | Some i \<Rightarrow> (case mo_env m i of
                   EnvAbsent \<Rightarrow> Some (refuse ''environment-not-found'')
                 | EnvDeleting \<Rightarrow> Some (refuse ''environment-deleting'')
                 | EnvWritable \<Rightarrow> None))"

definition longest_error :: "graph_run \<Rightarrow> nat" where
  "longest_error run = fold max
     (map (\<lambda>e. case e of None \<Rightarrow> 0 | Some t \<Rightarrow> length t) (run_error run # map act_error (run_activations run))) 0"

definition graphRunLimitViolation :: "graph_run \<Rightarrow> limit_violation option" where
  "graphRunLimitViolation run = first_violation
     [over ''activation-history'' (int maxActivationHistory) (int (length (run_activations run))),
      over ''activations'' (int maxActivations)
        (int (length (filter (\<lambda>a. act_state a \<noteq> Superseded) (run_activations run)))),
      over ''rewinds'' (int maxRewinds) (int (length (run_rewinds run))),
      over ''error-length'' (int maxErrorChars) (int (longest_error run))]"

definition maxRecordBytes :: int where "maxRecordBytes = 16 * MIB"

definition checkedRun :: "platform \<Rightarrow> graph_run \<Rightarrow> store_error option" where
  "checkedRun P run =
     (case graphRunLimitViolation run of
        Some v \<Rightarrow> Some (refuse_limit v)
      | None \<Rightarrow>
          if \<not> pt_guard P run then Some (refuse ''invalid-run'')
          else map_option refuse_limit (over ''record-bytes'' maxRecordBytes (pt_size P run)))"

definition parseStoredRun :: "platform \<Rightarrow> run_row option \<Rightarrow> string \<Rightarrow> store_error + graph_run option" where
  "parseStoredRun P row i =
     (case row of
        None \<Rightarrow> Inr None
      | Some (NewerRun x) \<Rightarrow> Inl (refuse ''newer-format'')
      | Some (InvalidRun x) \<Rightarrow> Inl (refuse ''invalid-run'')
      | Some (CurrentRun r) \<Rightarrow>
          if pt_guard P r \<and> run_id r = i then Inr (Some r) else Inl (refuse ''invalid-run''))"

definition getGraphRun :: "platform \<Rightarrow> run_store \<Rightarrow> string \<Rightarrow> store_error + graph_run option" where
  "getGraphRun P S i =
     (if \<not> isGraphRunId (JStr i) then Inl (refuse ''run-not-found'')
      else parseStoredRun P (obj_get (st_runs S) i) i)"

section \<open>Runs\<close>

definition createGraphRun :: "platform \<Rightarrow> moment \<Rightarrow> graph_run \<Rightarrow> run_store \<Rightarrow> graph_run store_outcome" where
  "createGraphRun P m run S =
     (if run_revision run \<noteq> 0
      then (S, Inl \<lparr>se_code = ''revision-conflict'', se_limit = None, se_actual = Some (run_revision run)\<rparr>)
      else
        (let new = run\<lparr>run_revision := 1, run_updatedAt := mo_now m\<rparr> in
         case checkedRun P new of
           Some e \<Rightarrow> (S, Inl e)
         | None \<Rightarrow>
             (case assertEnvironmentWritable m (run_environmentId new) of
                Some e \<Rightarrow> (S, Inl e)
              | None \<Rightarrow>
                  if obj_get (st_runs S) (run_id new) \<noteq> None then (S, Inl (refuse ''run-exists''))
                  else
                    (let S = S\<lparr>st_runs := obj_set (run_id new) (CurrentRun new) (st_runs S)\<rparr> in
                     case mo_receipt m (CurrentRun new) of
                       Some e \<Rightarrow> (S, Inl e)
                     | None \<Rightarrow> (announce (run_id new) (Some (run_projectId new)) False S, Inr new)))))"

text \<open>Inside a transaction: the first id that is not an artifact of the run refuses the whole.\<close>

fun markSuperseded :: "string \<Rightarrow> string list \<Rightarrow> string \<Rightarrow> (string \<times> art_row) list \<times> int
    \<Rightarrow> store_error + (string \<times> art_row) list \<times> int" where
  "markSuperseded r [] w (arts, changed) = Inr (arts, changed)"
| "markSuperseded r (i # is) w (arts, changed) =
     (case obj_get arts (artifactKey r i) of
        None \<Rightarrow> Inl (refuse ''artifact-not-found'')
      | Some (ArtifactRow a) \<Rightarrow>
          if art_runId a \<noteq> r then Inl (refuse ''artifact-not-found'')
          else if art_state a = ASuperseded then markSuperseded r is w (arts, changed)
          else markSuperseded r is w
                 (obj_set (artifactKey r i) (ArtifactRow (a\<lparr>art_state := ASuperseded, art_supersededBy := Some w\<rparr>)) arts,
                  changed + 1)
      | Some (UsageRow q u) \<Rightarrow>
          if q \<noteq> r then Inl (refuse ''artifact-not-found'') else markSuperseded r is w (arts, changed + 1)
      | Some (EffectRow e) \<Rightarrow>
          if ef_runId e \<noteq> r then Inl (refuse ''artifact-not-found'')
          else markSuperseded r is w (obj_set (artifactKey r i) (OtherRow r (ef_id e)) arts, changed + 1)
      | Some (OtherRow q j) \<Rightarrow>
          if q \<noteq> r then Inl (refuse ''artifact-not-found'') else markSuperseded r is w (arts, changed))"

text \<open>The checks inside the transaction of a save: against the row the store holds.\<close>

definition save_refusal :: "platform \<Rightarrow> run_row option \<Rightarrow> graph_run \<Rightarrow> int \<Rightarrow> store_error option" where
  "save_refusal P row candidate expectedRevision =
     (case row of
        None \<Rightarrow> Some (refuse ''run-not-found'')
      | Some (NewerRun _) \<Rightarrow> Some (refuse ''newer-format'')
      | Some row \<Rightarrow>
          (let previous = row_stub P row in
           if rx_revision previous \<noteq> Some expectedRevision
           then Some \<lparr>se_code = ''revision-conflict'', se_limit = Some expectedRevision,
                      se_actual = rx_revision previous\<rparr>
           else if rx_planDigest previous \<noteq> Some (pt_planDigest P (run_plan candidate))
           then Some (refuse ''plan-changed'')
           else if rx_projectId previous \<noteq> Some (run_projectId candidate)
             \<or> (rx_environmentId previous \<noteq> None \<and> rx_environmentId previous \<noteq> run_environmentId candidate)
           then Some (refuse ''invalid-run'')
           else None))"

definition saveGraphRun ::
  "platform \<Rightarrow> moment \<Rightarrow> graph_run \<Rightarrow> int \<Rightarrow> (string \<times> string list) option \<Rightarrow> run_store \<Rightarrow> graph_run store_outcome" where
  "saveGraphRun P m run expectedRevision supersede S =
     (if expectedRevision < 0 then (S, Inl (refuse ''error''))
      else if (case supersede of None \<Rightarrow> False | Some (w, is) \<Rightarrow> int (length is) > maxArtifactsPerRun)
      then (S, Inl (case supersede of None \<Rightarrow> refuse ''artifact-count''
                    | Some (w, is) \<Rightarrow> refuse_over ''artifact-count'' maxArtifactsPerRun (int (length is))))
      else
        (let candidate = run\<lparr>run_revision := expectedRevision + 1, run_updatedAt := mo_now m\<rparr> in
         case checkedRun P candidate of
           Some e \<Rightarrow> (S, Inl e)
         | None \<Rightarrow>
             (case assertEnvironmentWritable m (run_environmentId candidate) of
                Some e \<Rightarrow> (S, Inl e)
              | None \<Rightarrow>
                  (case save_refusal P (obj_get (st_runs S) (run_id candidate)) candidate expectedRevision of
                     Some e \<Rightarrow> (S, Inl e)
                   | None \<Rightarrow>
                       (case (case supersede of None \<Rightarrow> Inr (st_arts S, 0)
                              | Some (w, is) \<Rightarrow> markSuperseded (run_id candidate) is w (st_arts S, 0)) of
                          Inl e \<Rightarrow> (S, Inl e)
                        | Inr (arts, changed) \<Rightarrow>
                            (let S = announce (run_id candidate) (Some (run_projectId candidate)) False
                                   (S\<lparr>st_runs := obj_set (run_id candidate) (CurrentRun candidate) (st_runs S),
                                      st_arts := arts\<rparr>)
                             in case mo_receipt m (CurrentRun candidate) of
                                  Some e \<Rightarrow> (S, Inl e)
                                | None \<Rightarrow> (S, Inr candidate)))))))"

section \<open>Artifacts\<close>

definition value_list :: "('a \<Rightarrow> jval) \<Rightarrow> 'a list option \<Rightarrow> jval option" where
  "value_list f xs = map_option (\<lambda>ys. VList (map f ys)) xs"

definition stored_body :: "artifact_body \<Rightarrow> jval" where
  "stored_body b = VObj
     (opt_member ''file'' (map_option (\<lambda>f. VObj [(uni ''path'', jtext (af_path f)),
        (uni ''sha256'', jtext (af_sha256 f)), (uni ''bytes'', jint (af_bytes f))]) (ab_file b))
      @ opt_member ''value'' (ab_value b))"

text \<open>The fields of an envelope other than its creation time, its state and the rewind that superseded it.\<close>

definition immutable_value :: "artifact \<Rightarrow> jval" where
  "immutable_value a = VObj
     ([(uni ''formatVersion'', jint GRAPH_ARTIFACT_FORMAT_VERSION), (uni ''id'', jtext (art_id a)),
       (uni ''digest'', jtext (art_digest a)), (uni ''type'', jtext (art_type a)),
       (uni ''runId'', jtext (art_runId a)), (uni ''producer'', producer_value (art_producer a)),
       (uni ''inputs'', VList (map jtext (art_inputs a)))]
      @ opt_member ''workspace'' (map_option (\<lambda>w. workspace_value (Some w)) (art_workspace a))
      @ [(uni ''bytes'', jint (art_bytes a)), (uni ''body'', stored_body (art_body a))]
      @ opt_member ''itemIds'' (value_list jtext (art_itemIds a))
      @ opt_member ''itemSources'' (value_list (\<lambda>s. VList (map jtext s)) (art_itemSources a))
      @ opt_member ''sourceItem'' (map_option jtext (art_sourceItem a)))"

definition immutablePart :: "(rat \<Rightarrow> utf16) \<Rightarrow> artifact \<Rightarrow> json_error + utf16" where
  "immutablePart nt a = canonicalJson nt (immutable_value a) 128"

definition stored_usage :: "art_row option \<Rightarrow> artifact_usage" where
  "stored_usage row = (case row of Some (UsageRow _ u) \<Rightarrow> u | _ \<Rightarrow> EMPTY_USAGE)"

text \<open>The row of the run's totals with one more artifact, or the budget it overruns.\<close>

definition charge :: "artifact_footprint \<Rightarrow> artifact_usage \<Rightarrow> store_error + artifact_usage" where
  "charge f u =
     (let next = \<lparr>au_artifacts = au_artifacts u + 1, au_inlineBytes = au_inlineBytes u + ft_inline f,
                   au_diskBytes = au_diskBytes u + ft_disk f\<rparr>
      in case first_violation
           [over ''artifact-count'' maxArtifactsPerRun (au_artifacts next),
            over ''inline-budget'' maxInlineBytesPerRun (au_inlineBytes next),
            over ''disk-budget'' maxDiskBytesPerRun (au_diskBytes next)] of
           Some v \<Rightarrow> Inl (refuse_limit v)
         | None \<Rightarrow> Inr next)"

definition put_refusal :: "platform \<Rightarrow> artifact \<Rightarrow> store_error option" where
  "put_refusal P a =
     (case graphArtifactLimitViolation (pt_number P) a of
        Some v \<Rightarrow> Some (refuse_limit v)
      | None \<Rightarrow>
          if \<not> validateGraphArtifact (pt_number P) (pt_utc P) a then Some (refuse ''invalid-artifact'')
          else if verifyGraphArtifactIdentity (pt_number P) (pt_hash P) a \<noteq> None then Some (refuse ''invalid-artifact'')
          else if art_state a \<noteq> ALive \<or> art_supersededBy a \<noteq> None then Some (refuse ''invalid-artifact'')
          else None)"

definition same_artifact :: "platform \<Rightarrow> art_row \<Rightarrow> artifact \<Rightarrow> store_error + artifact" where
  "same_artifact P row a =
     (case row of
        ArtifactRow b \<Rightarrow>
          if \<not> validateGraphArtifact (pt_number P) (pt_utc P) b then Inl (refuse ''artifact-conflict'')
          else (case (immutablePart (pt_number P) b, immutablePart (pt_number P) a) of
                  (Inr x, Inr y) \<Rightarrow> if x = y then Inr b else Inl (refuse ''artifact-conflict'')
                | _ \<Rightarrow> Inl (refuse ''error''))
      | _ \<Rightarrow> Inl (refuse ''artifact-conflict''))"

definition putGraphArtifact :: "platform \<Rightarrow> moment \<Rightarrow> artifact \<Rightarrow> run_store \<Rightarrow> artifact store_outcome" where
  "putGraphArtifact P m a S =
     (case put_refusal P a of
        Some e \<Rightarrow> (S, Inl e)
      | None \<Rightarrow>
     (case graphArtifactFootprint (pt_number P) (art_body a) of
        Inl _ \<Rightarrow> (S, Inl (refuse ''error''))
      | Inr footprint \<Rightarrow>
     (case obj_get (st_runs S) (art_runId a) of
        None \<Rightarrow> (S, Inl (refuse ''run-not-found''))
      | Some run \<Rightarrow>
     (case assertEnvironmentWritable m (row_environment run) of
        Some e \<Rightarrow> (S, Inl e)
      | None \<Rightarrow>
     (case obj_get (st_arts S) (artifactKey (art_runId a) (art_id a)) of
        Some row \<Rightarrow> (S, same_artifact P row a)
      | None \<Rightarrow>
     (case charge footprint (stored_usage (obj_get (st_arts S) (art_runId a))) of
        Inl e \<Rightarrow> (S, Inl e)
      | Inr u \<Rightarrow>
          (S\<lparr>st_arts := obj_set (artifactKey (art_runId a) (art_id a)) (ArtifactRow a)
                (obj_set (art_runId a) (UsageRow (art_runId a) u) (st_arts S))\<rparr>,
           Inr a)))))))"

definition getGraphArtifact :: "platform \<Rightarrow> run_store \<Rightarrow> string \<Rightarrow> string \<Rightarrow> artifact option" where
  "getGraphArtifact P S r i =
     (if \<not> isGraphRunId (JStr r) \<or> \<not> GRAPH_SHA256_PATTERN i then None
      else case obj_get (st_arts S) (artifactKey r i) of
             Some (ArtifactRow a) \<Rightarrow>
               if validateGraphArtifact (pt_number P) (pt_utc P) a \<and> art_runId a = r \<and> art_id a = i
               then Some a else None
           | _ \<Rightarrow> None)"

definition graphArtifactUsage :: "run_store \<Rightarrow> string \<Rightarrow> artifact_usage" where
  "graphArtifactUsage S r =
     (if \<not> isGraphRunId (JStr r) then EMPTY_USAGE else stored_usage (obj_get (st_arts S) r))"

definition supersedeGraphArtifacts ::
  "string \<Rightarrow> string list \<Rightarrow> string \<Rightarrow> run_store \<Rightarrow> int store_outcome" where
  "supersedeGraphArtifacts r is w S =
     (if \<not> isGraphRunId (JStr r) \<or> \<not> isGraphRunId (JStr w) then (S, Inl (refuse ''artifact-not-found''))
      else if int (length is) > maxArtifactsPerRun
      then (S, Inl (refuse_over ''artifact-count'' maxArtifactsPerRun (int (length is))))
      else case markSuperseded r is w (st_arts S, 0) of
             Inl e \<Rightarrow> (S, Inl e)
           | Inr (arts, n) \<Rightarrow> (S\<lparr>st_arts := arts\<rparr>, Inr n))"

section \<open>Removal\<close>

definition owned_rows :: "string \<Rightarrow> run_store \<Rightarrow> art_row list" where
  "owned_rows r S = filter (\<lambda>row. row_owner row = r) (map snd (st_arts S))"

definition owned_runs :: "string \<Rightarrow> run_store \<Rightarrow> run_row list" where
  "owned_runs e S = filter (\<lambda>row. row_environment row = Some e) (map snd (st_runs S))"

text \<open>\<open>removeRunRows\<close> without its announcement: every row the run owns, then its record.\<close>

definition remove_rows :: "string \<Rightarrow> run_store \<Rightarrow> run_store" where
  "remove_rows r S =
     S\<lparr>st_arts := fold (\<lambda>row. remove_row (row_key r row)) (owned_rows r S) (st_arts S),
       st_runs := remove_row r (st_runs S)\<rparr>"

definition removeRunRows :: "string \<Rightarrow> run_stub \<Rightarrow> run_store \<Rightarrow> run_store" where
  "removeRunRows r stored S = announce r (rx_projectId stored) True (remove_rows r S)"

definition deleteEnvironmentlessGraphRun :: "platform \<Rightarrow> string \<Rightarrow> run_store \<Rightarrow> bool store_outcome" where
  "deleteEnvironmentlessGraphRun P r S =
     (if \<not> isGraphRunId (JStr r) then (S, Inr False)
      else case obj_get (st_runs S) r of
             None \<Rightarrow> (S, Inr False)
           | Some row \<Rightarrow>
               (let stored = row_stub P row in
                if rx_environmentId stored \<noteq> None then (S, Inl (refuse ''invalid-run''))
                else if (case rx_status stored of None \<Rightarrow> True | Some s \<Rightarrow> s \<notin> set GRAPH_RUN_TERMINAL_STATUSES)
                then (S, Inl (refuse ''invalid-run''))
                else (removeRunRows r stored S, Inr True)))"

text \<open>The finished runs of an environment: id, row and the time it ended.\<close>

definition finished_runs :: "platform \<Rightarrow> string \<Rightarrow> run_store \<Rightarrow> (string \<times> run_row) list" where
  "finished_runs P e S = List.map_filter (\<lambda>row.
     let x = row_stub P row in
     case (rx_id x, rx_status x) of
       (Some i, Some s) \<Rightarrow>
         if isGraphRunId (JStr i) \<and> rx_environmentId x = Some e \<and> s \<in> set GRAPH_RUN_TERMINAL_STATUSES
         then Some (i, row) else None
     | _ \<Rightarrow> None) (owned_runs e S)"

text \<open>Newest first: by the time it ended, then by id, both descending.\<close>

definition ended_key :: "platform \<Rightarrow> string \<times> run_row \<Rightarrow> nat list \<times> nat list" where
  "ended_key P r = (pt_collate P (storedEndedAt (row_stub P (snd r))), pt_collate P (fst r))"

definition newest_first :: "platform \<Rightarrow> (string \<times> run_row) list \<Rightarrow> (string \<times> run_row) list" where
  "newest_first P rs = rev (sort_key (ended_key P) (rev rs))"

fun first_receipt :: "moment \<Rightarrow> (string \<times> run_row) list \<Rightarrow> store_error option" where
  "first_receipt m [] = None"
| "first_receipt m (r # rs) = (case mo_receipt m (snd r) of Some e \<Rightarrow> Some e | None \<Rightarrow> first_receipt m rs)"

definition pruneFinishedGraphRuns :: "platform \<Rightarrow> moment \<Rightarrow> string \<Rightarrow> int \<Rightarrow> run_store \<Rightarrow> string list store_outcome" where
  "pruneFinishedGraphRuns P m e keep S =
     (if trim e = [] \<or> keep < 0 then (S, Inl (refuse ''error''))
      else
        (let finished = finished_runs P e S in
         if int (length finished) \<le> keep then (S, Inr [])
         else
           (let expired = drop (nat keep) (newest_first P finished) in
            case first_receipt m expired of
              Some err \<Rightarrow> (S, Inl err)
            | None \<Rightarrow> (fold (\<lambda>r. removeRunRows (fst r) (row_stub P (snd r))) expired S, Inr (map fst expired)))))"

definition deleteGraphRunsByEnvironment :: "platform \<Rightarrow> string \<Rightarrow> run_store \<Rightarrow> string list store_outcome" where
  "deleteGraphRunsByEnvironment P e S =
     (if trim e = [] then (S, Inl (refuse ''error''))
      else
        (let ids = List.map_filter (\<lambda>row. rx_id (row_stub P row)) (owned_runs e S) in
         (fold (\<lambda>r S. announce r None True (remove_rows r S)) ids S, Inr ids)))"

section \<open>The effect journal\<close>

record effect_intent =
  ei_runId :: string
  ei_key :: string
  ei_action :: string
  ei_nodeId :: string
  ei_activation :: string
  ei_owner :: string
  ei_data :: "json_record option"

datatype effect_outcome = Performed "json_record option" | NotPerformed utf16

definition GRAPH_EFFECT_MAX_KEY_CHARS :: nat where "GRAPH_EFFECT_MAX_KEY_CHARS = 512"
definition GRAPH_EFFECT_MAX_DATA_BYTES :: int where "GRAPH_EFFECT_MAX_DATA_BYTES = 64 * 1024"
definition MAX_ERROR_CHARS :: nat where "MAX_ERROR_CHARS = 2000"

definition graphEffectRowId :: "platform \<Rightarrow> string \<Rightarrow> string" where
  "graphEffectRowId P key = ''effect:'' @ pt_hash P (uni key)"

definition effectRowKey :: "platform \<Rightarrow> string \<Rightarrow> string \<Rightarrow> string" where
  "effectRowKey P r key = artifactKey r (graphEffectRowId P key)"

definition checkKey :: "string \<Rightarrow> store_error option" where
  "checkKey key = (if key = [] \<or> length key > GRAPH_EFFECT_MAX_KEY_CHARS then Some (refuse ''invalid-artifact'') else None)"

definition checkData :: "platform \<Rightarrow> json_record option \<Rightarrow> store_error option" where
  "checkData P data =
     (case data of
        None \<Rightarrow> None
      | Some ps \<Rightarrow> map_option refuse_limit
          (over ''value-bytes'' GRAPH_EFFECT_MAX_DATA_BYTES (int (utf8_bytes (stringify (pt_number P) (VObj ps))))))"

definition assertRunWritable :: "platform \<Rightarrow> moment \<Rightarrow> run_store \<Rightarrow> string \<Rightarrow> store_error option" where
  "assertRunWritable P m S r =
     (case getGraphRun P S r of
        Inl e \<Rightarrow> Some e
      | Inr None \<Rightarrow> Some (refuse ''run-not-found'')
      | Inr (Some run) \<Rightarrow> assertEnvironmentWritable m (run_environmentId run))"

text \<open>The effect a row holds, if it is one of this key.\<close>

definition effect_at :: "platform \<Rightarrow> run_store \<Rightarrow> string \<Rightarrow> string \<Rightarrow> effect_record option" where
  "effect_at P S r key =
     (case obj_get (st_arts S) (effectRowKey P r key) of
        Some (EffectRow e) \<Rightarrow> if ef_key e = key then Some e else None
      | _ \<Rightarrow> None)"

definition getGraphEffect :: "platform \<Rightarrow> run_store \<Rightarrow> string \<Rightarrow> string \<Rightarrow> store_error + effect_record option" where
  "getGraphEffect P S r key =
     (if \<not> isGraphRunId (JStr r) then Inr None
      else case checkKey key of
             Some e \<Rightarrow> Inl e
           | None \<Rightarrow> Inr (case effect_at P S r key of
                           None \<Rightarrow> None | Some e \<Rightarrow> if ef_runId e = r then Some e else None))"

definition write_effect :: "platform \<Rightarrow> string \<Rightarrow> string \<Rightarrow> effect_record \<Rightarrow> run_store \<Rightarrow> run_store" where
  "write_effect P r key e S = S\<lparr>st_arts := obj_set (effectRowKey P r key) (EffectRow e) (st_arts S)\<rparr>"

definition new_effect :: "platform \<Rightarrow> moment \<Rightarrow> effect_intent \<Rightarrow> effect_record" where
  "new_effect P m i = \<lparr>ef_id = graphEffectRowId P (ei_key i), ef_runId = ei_runId i, ef_key = ei_key i,
     ef_action = ei_action i, ef_nodeId = ei_nodeId i, ef_activation = ei_activation i,
     ef_state = EIntended, ef_attempts = 1, ef_owner = ei_owner i, ef_intendedAt = mo_now m,
     ef_settledAt = None, ef_data = ei_data i, ef_error = None\<rparr>"

text \<open>A later intent on an unsettled or failed effect: its error and settling time go.\<close>

definition claimed_effect :: "moment \<Rightarrow> effect_intent \<Rightarrow> effect_record \<Rightarrow> effect_record" where
  "claimed_effect m i e = e\<lparr>ef_activation := ei_activation i, ef_nodeId := ei_nodeId i,
     ef_state := EIntended, ef_attempts := ef_attempts e + 1, ef_owner := ei_owner i,
     ef_intendedAt := mo_now m, ef_settledAt := None, ef_error := None,
     ef_data := (case ei_data i of None \<Rightarrow> ef_data e | Some d \<Rightarrow> Some d)\<rparr>"

text \<open>The result names what was found: the record, its state and the owner of the earlier intent.\<close>

definition beginGraphEffect ::
  "platform \<Rightarrow> moment \<Rightarrow> effect_intent \<Rightarrow> run_store \<Rightarrow> (effect_record \<times> (effect_state \<times> string) option) store_outcome" where
  "beginGraphEffect P m i S =
     (if \<not> isGraphRunId (JStr (ei_runId i)) then (S, Inl (refuse ''run-not-found''))
      else case checkKey (ei_key i) of Some e \<Rightarrow> (S, Inl e) | None \<Rightarrow>
     (case checkData P (ei_data i) of Some e \<Rightarrow> (S, Inl e) | None \<Rightarrow>
     (case assertRunWritable P m S (ei_runId i) of Some e \<Rightarrow> (S, Inl e) | None \<Rightarrow>
     (case effect_at P S (ei_runId i) (ei_key i) of
        Some e \<Rightarrow>
          if ef_state e = EDone then (S, Inr (e, Some (EDone, ef_owner e)))
          else (let e' = claimed_effect m i e
                in (write_effect P (ei_runId i) (ei_key i) e' S, Inr (e', Some (ef_state e, ef_owner e))))
      | None \<Rightarrow>
          (let e' = new_effect P m i
           in (write_effect P (ei_runId i) (ei_key i) e' S, Inr (e', None)))))))"

definition recordSimulatedGraphEffect ::
  "platform \<Rightarrow> moment \<Rightarrow> effect_intent \<Rightarrow> run_store \<Rightarrow> effect_record store_outcome" where
  "recordSimulatedGraphEffect P m i S =
     (if \<not> isGraphRunId (JStr (ei_runId i)) then (S, Inl (refuse ''run-not-found''))
      else case checkKey (ei_key i) of Some e \<Rightarrow> (S, Inl e) | None \<Rightarrow>
     (case checkData P (ei_data i) of Some e \<Rightarrow> (S, Inl e) | None \<Rightarrow>
     (case getGraphRun P S (ei_runId i) of
        Inl e \<Rightarrow> (S, Inl e)
      | Inr None \<Rightarrow> (S, Inl (refuse ''run-not-found''))
      | Inr (Some run) \<Rightarrow>
     (if \<not> run_mock run then (S, Inl (refuse ''invalid-run''))
      else case assertRunWritable P m S (ei_runId i) of Some e \<Rightarrow> (S, Inl e) | None \<Rightarrow>
     (case effect_at P S (ei_runId i) (ei_key i) of
        Some e \<Rightarrow> (S, Inr e)
      | None \<Rightarrow>
          (let e' = (new_effect P m i)\<lparr>ef_state := ESimulated, ef_settledAt := Some (mo_now m)\<rparr>
           in (write_effect P (ei_runId i) (ei_key i) e' S, Inr e')))))))"

text \<open>\<open>{ ...a, ...b }\<close>.\<close>

fun merge_members :: "json_record \<Rightarrow> json_record \<Rightarrow> json_record" where
  "merge_members ps [] = ps"
| "merge_members ps ((k, v) # qs) =
     merge_members (if k \<in> fst ` set ps then map (\<lambda>p. if fst p = k then (k, v) else p) ps else ps @ [(k, v)]) qs"

definition merged_data :: "json_record option \<Rightarrow> json_record option \<Rightarrow> json_record option" where
  "merged_data old new =
     (if old = None \<and> new = None then None
      else Some (merge_members (case old of None \<Rightarrow> [] | Some ps \<Rightarrow> ps) (case new of None \<Rightarrow> [] | Some ps \<Rightarrow> ps)))"

definition settled_effect :: "moment \<Rightarrow> effect_outcome \<Rightarrow> effect_record \<Rightarrow> effect_record" where
  "settled_effect m out e =
     (case out of
        Performed data \<Rightarrow> e\<lparr>ef_state := EDone, ef_settledAt := Some (mo_now m), ef_data := merged_data (ef_data e) data\<rparr>
      | NotPerformed err \<Rightarrow> e\<lparr>ef_state := EFailed, ef_settledAt := Some (mo_now m),
          ef_error := Some (take MAX_ERROR_CHARS err)\<rparr>)"

definition settleGraphEffect ::
  "platform \<Rightarrow> moment \<Rightarrow> string \<Rightarrow> string \<Rightarrow> effect_outcome \<Rightarrow> run_store \<Rightarrow> effect_record store_outcome" where
  "settleGraphEffect P m r key out S =
     (case checkKey key of Some e \<Rightarrow> (S, Inl e) | None \<Rightarrow>
     (case (case out of Performed data \<Rightarrow> checkData P data | NotPerformed _ \<Rightarrow> None) of
        Some e \<Rightarrow> (S, Inl e)
      | None \<Rightarrow>
     (case effect_at P S r key of
        None \<Rightarrow> (S, Inl (refuse ''artifact-not-found''))
      | Some e \<Rightarrow>
          if ef_runId e \<noteq> r then (S, Inl (refuse ''artifact-not-found''))
          else if ef_state e = EDone then (S, Inr e)
          else (let e' = settled_effect m out e in
                case checkData P (ef_data e') of
                  Some err \<Rightarrow> (S, Inl err)
                | None \<Rightarrow> (write_effect P r key e' S, Inr e')))))"

section \<open>Runs of operations\<close>

datatype store_op =
    Create graph_run
  | Save graph_run int "(string \<times> string list) option"
  | Put artifact
  | Supersede string "string list" string
  | DeleteMock string
  | Prune string int
  | DeleteEnvironment string
  | BeginEffect effect_intent
  | SimulateEffect effect_intent
  | SettleEffect string string effect_outcome

text \<open>The store an operation leaves at a moment.\<close>

fun exec :: "platform \<Rightarrow> run_store \<Rightarrow> moment \<times> store_op \<Rightarrow> run_store" where
  "exec P S (m, Create run) = fst (createGraphRun P m run S)"
| "exec P S (m, Save run n ids) = fst (saveGraphRun P m run n ids S)"
| "exec P S (m, Put a) = fst (putGraphArtifact P m a S)"
| "exec P S (m, Supersede r is w) = fst (supersedeGraphArtifacts r is w S)"
| "exec P S (m, DeleteMock r) = fst (deleteEnvironmentlessGraphRun P r S)"
| "exec P S (m, Prune e keep) = fst (pruneFinishedGraphRuns P m e keep S)"
| "exec P S (m, DeleteEnvironment e) = fst (deleteGraphRunsByEnvironment P e S)"
| "exec P S (m, BeginEffect i) = fst (beginGraphEffect P m i S)"
| "exec P S (m, SimulateEffect i) = fst (recordSimulatedGraphEffect P m i S)"
| "exec P S (m, SettleEffect r key out) = fst (settleGraphEffect P m r key out S)"

definition exec_all :: "platform \<Rightarrow> run_store \<Rightarrow> (moment \<times> store_op) list \<Rightarrow> run_store" where
  "exec_all P S ops = foldl (exec P) S ops"

end
