(* ===== verification/Store_Safety.thy ===== *)
theory Store_Safety
  imports Run_Store
begin

text \<open>
  What the run store keeps over any sequence of operations: rows under their own keys, owned by stored
  runs, usage rows that are exactly what a run's artifacts cost and within their budgets, artifacts that
  never change, revisions that never repeat, effects that are performed once.
\<close>

section \<open>Rows by key\<close>

lemma set_obj_set:
  "distinct (map fst xs) \<Longrightarrow> set (obj_set k v xs) = {p \<in> set xs. fst p \<noteq> k} \<union> {(k, v)}"
  by (induction k v xs rule: obj_set.induct) (auto simp: image_iff)

lemma sum_obj_set:
  fixes f :: "'v \<Rightarrow> int"
  assumes "distinct (map fst xs)"
  shows "sum_list (map (\<lambda>p. f (snd p)) (obj_set k v xs)) =
    sum_list (map (\<lambda>p. f (snd p)) xs) + f v - (case obj_get xs k of None \<Rightarrow> 0 | Some u \<Rightarrow> f u)"
  by (induction k v xs rule: obj_set.induct) (auto split: option.splits)

lemma obj_get_in: "obj_get xs k = Some v \<Longrightarrow> (k, v) \<in> set xs"
  by (simp add: obj_get_def map_of_SomeD)

lemma in_obj_get: "distinct (map fst xs) \<Longrightarrow> (k, v) \<in> set xs \<Longrightarrow> obj_get xs k = Some v"
  by (simp add: obj_get_def)

lemma fold_remove_rows:
  "fold (\<lambda>x. remove_row (g x)) rows xs = filter (\<lambda>p. fst p \<notin> g ` set rows) xs"
  by (induction rows arbitrary: xs) (auto simp: remove_row_def intro: filter_cong)

lemma distinct_filter_keys: "distinct (map fst xs) \<Longrightarrow> distinct (map fst (filter Q xs))"
  by (induction xs) auto

lemma obj_get_filter:
  assumes d: "distinct (map fst xs)"
  shows "obj_get (filter Q xs) k = (case obj_get xs k of None \<Rightarrow> None | Some v \<Rightarrow> if Q (k, v) then Some v else None)"
proof (cases "obj_get xs k")
  case None
  then have "k \<notin> fst ` set (filter Q xs)" by (auto simp: obj_get_None_iff)
  then have "obj_get (filter Q xs) k = None" by (simp only: obj_get_None_iff not_False_eq_True)
  with None show ?thesis by simp
next
  case (Some v)
  show ?thesis
  proof (cases "Q (k, v)")
    case True
    with obj_get_in [OF Some] have "(k, v) \<in> set (filter Q xs)" by simp
    from in_obj_get [OF distinct_filter_keys [OF d] this] Some True show ?thesis by simp
  next
    case False
    have "obj_get (filter Q xs) k = None"
    proof (rule ccontr)
      assume "obj_get (filter Q xs) k \<noteq> None"
      then obtain w where w: "obj_get (filter Q xs) k = Some w" by (cases "obj_get (filter Q xs) k") auto
      from obj_get_in [OF w] have "obj_get xs k = Some w" "Q (k, w)" using in_obj_get [OF d] by auto
      with Some False show False by simp
    qed
    with Some False show ?thesis by simp
  qed
qed

lemma run_id_no_slash: "isGraphRunId (JStr r) \<Longrightarrow> CHR ''/'' \<notin> set r"
  by (auto simp: isGraphRunId_def GRAPH_RUN_ID_PATTERN_def list_all_iff run_id_char_def is_alnum_def
    is_digit_def is_lower_def is_upper_def split: list.splits)

lemma artifactKey_inject:
  assumes "isGraphRunId (JStr r)" and "isGraphRunId (JStr r')"
  shows "artifactKey r i = artifactKey r' i' \<longleftrightarrow> r = r' \<and> i = i'"
proof
  assume "artifactKey r i = artifactKey r' i'"
  then have "split_on CHR ''/'' (r @ CHR ''/'' # i) = split_on CHR ''/'' (r' @ CHR ''/'' # i')"
    by (simp add: artifactKey_def)
  then have "r = r'" using assms by (simp add: split_on_append_sep run_id_no_slash)
  with \<open>artifactKey r i = artifactKey r' i'\<close> show "r = r' \<and> i = i'" by (simp add: artifactKey_def)
qed simp

lemma artifactKey_no_run: "isGraphRunId (JStr r) \<Longrightarrow> artifactKey q i \<noteq> r"
  using run_id_no_slash [of r] by (auto simp: artifactKey_def)

section \<open>The invariant of the artifact rows\<close>

definition artifact_cost :: "platform \<Rightarrow> artifact \<Rightarrow> artifact_footprint" where
  "artifact_cost P a =
     (case graphArtifactFootprint (pt_number P) (art_body a) of Inl _ \<Rightarrow> \<lparr>ft_inline = 0, ft_disk = 0\<rparr> | Inr f \<Rightarrow> f)"

definition cost_of :: "(artifact \<Rightarrow> int) \<Rightarrow> string \<Rightarrow> art_row \<Rightarrow> int" where
  "cost_of f r row = (case row of ArtifactRow a \<Rightarrow> if art_runId a = r then f a else 0 | _ \<Rightarrow> 0)"

definition cost_sum :: "(artifact \<Rightarrow> int) \<Rightarrow> string \<Rightarrow> (string \<times> art_row) list \<Rightarrow> int" where
  "cost_sum f r arts = sum_list (map (\<lambda>p. cost_of f r (snd p)) arts)"

text \<open>What the artifacts of a run cost, counted from the artifacts themselves.\<close>

definition artifacts_cost :: "platform \<Rightarrow> string \<Rightarrow> (string \<times> art_row) list \<Rightarrow> artifact_usage" where
  "artifacts_cost P r arts =
     \<lparr>au_artifacts = cost_sum (\<lambda>_. 1) r arts,
      au_inlineBytes = cost_sum (\<lambda>a. ft_inline (artifact_cost P a)) r arts,
      au_diskBytes = cost_sum (\<lambda>a. ft_disk (artifact_cost P a)) r arts\<rparr>"

definition within_budgets :: "artifact_usage \<Rightarrow> bool" where
  "within_budgets u \<longleftrightarrow> au_artifacts u \<le> maxArtifactsPerRun \<and> au_inlineBytes u \<le> maxInlineBytesPerRun
     \<and> au_diskBytes u \<le> maxDiskBytesPerRun"

definition art_row_ok :: "platform \<Rightarrow> string \<Rightarrow> art_row \<Rightarrow> bool" where
  "art_row_ok P k row \<longleftrightarrow> k = row_key (row_owner row) row \<and> isGraphRunId (JStr (row_owner row))
     \<and> (case row of
          ArtifactRow a \<Rightarrow> GRAPH_SHA256_PATTERN (art_id a)
            \<and> verifyGraphArtifactIdentity (pt_number P) (pt_hash P) a = None
        | EffectRow e \<Rightarrow> ef_id e = graphEffectRowId P (ef_key e)
        | OtherRow r i \<Rightarrow> \<not> GRAPH_SHA256_PATTERN i
        | UsageRow r u \<Rightarrow> True)"

definition arts_ok :: "platform \<Rightarrow> string set \<Rightarrow> (string \<times> art_row) list \<Rightarrow> bool" where
  "arts_ok P K arts \<longleftrightarrow> distinct (map fst arts)
     \<and> (\<forall>p\<in>set arts. art_row_ok P (fst p) (snd p) \<and> row_owner (snd p) \<in> K)
     \<and> (\<forall>r. stored_usage (obj_get arts r) = artifacts_cost P r arts)
     \<and> (\<forall>r. within_budgets (artifacts_cost P r arts))"

definition is_usage :: "art_row \<Rightarrow> bool" where
  "is_usage row \<longleftrightarrow> (case row of UsageRow _ _ \<Rightarrow> True | _ \<Rightarrow> False)"

lemma arts_okD:
  assumes "arts_ok P K arts"
  shows "distinct (map fst arts)"
    and "(k, row) \<in> set arts \<Longrightarrow> art_row_ok P k row \<and> row_owner row \<in> K"
    and "stored_usage (obj_get arts r) = artifacts_cost P r arts"
    and "within_budgets (artifacts_cost P r arts)"
  using assms by (auto simp: arts_ok_def)

lemma arts_ok_mono: "arts_ok P K arts \<Longrightarrow> K \<subseteq> K' \<Longrightarrow> arts_ok P K' arts"
  by (auto simp: arts_ok_def)

lemma cost_sum_set:
  "distinct (map fst arts) \<Longrightarrow> cost_sum f r (obj_set k v arts) =
     cost_sum f r arts + cost_of f r v - (case obj_get arts k of None \<Rightarrow> 0 | Some u \<Rightarrow> cost_of f r u)"
  by (simp add: cost_sum_def sum_obj_set)

lemma stored_usage_set:
  assumes "\<not> is_usage row" and "\<forall>old. obj_get arts k = Some old \<longrightarrow> \<not> is_usage old"
  shows "stored_usage (obj_get (obj_set k row arts) r) = stored_usage (obj_get arts r)"
  using assms by (cases "obj_get arts k")
    (auto simp: stored_usage_def is_usage_def split: option.splits art_row.splits)

text \<open>Writing a row that costs its run what the row it replaces did keeps the invariant.\<close>

lemma arts_ok_write:
  assumes ok: "arts_ok P K arts" and row: "art_row_ok P k row" "row_owner row \<in> K" "\<not> is_usage row"
    and old: "\<forall>x. obj_get arts k = Some x \<longrightarrow> \<not> is_usage x"
    and cost: "\<And>r. cost_of (\<lambda>_. 1) r row = (case obj_get arts k of None \<Rightarrow> 0 | Some x \<Rightarrow> cost_of (\<lambda>_. 1) r x)"
      "\<And>r. cost_of (\<lambda>a. ft_inline (artifact_cost P a)) r row =
        (case obj_get arts k of None \<Rightarrow> 0 | Some x \<Rightarrow> cost_of (\<lambda>a. ft_inline (artifact_cost P a)) r x)"
      "\<And>r. cost_of (\<lambda>a. ft_disk (artifact_cost P a)) r row =
        (case obj_get arts k of None \<Rightarrow> 0 | Some x \<Rightarrow> cost_of (\<lambda>a. ft_disk (artifact_cost P a)) r x)"
  shows "arts_ok P K (obj_set k row arts)"
proof -
  note d = arts_okD(1) [OF ok]
  have sums: "artifacts_cost P r (obj_set k row arts) = artifacts_cost P r arts" for r
    using cost [of r] by (simp add: artifacts_cost_def cost_sum_set [OF d])
  show ?thesis
    unfolding arts_ok_def sums stored_usage_set [OF row(3) old]
    using ok row d by (auto simp: arts_ok_def set_obj_set [OF d])
qed

lemma effect_row_id_not_artifact: "\<not> GRAPH_SHA256_PATTERN (graphEffectRowId P k)"
  by (simp add: GRAPH_SHA256_PATTERN_def graphEffectRowId_def hex_char_def is_digit_def)

lemma verify_ignores_state:
  "verifyGraphArtifactIdentity nt h (a\<lparr>art_state := s, art_supersededBy := w\<rparr>) = verifyGraphArtifactIdentity nt h a"
  by (simp add: verifyGraphArtifactIdentity_def identity_of_def
    cong del: option.case_cong_weak sum.case_cong_weak if_weak_cong)

lemma cost_ignores_state [simp]: "artifact_cost P (a\<lparr>art_state := s, art_supersededBy := w\<rparr>) = artifact_cost P a"
  by (cases a) (simp add: artifact_cost_def)

lemma arts_ok_supersede:
  "arts_ok P K arts \<Longrightarrow> markSuperseded r is w (arts, n) = Inr (arts', n') \<Longrightarrow> arts_ok P K arts'"
proof (induction r "is" w "(arts, n)" arbitrary: arts n rule: markSuperseded.induct)
  case (2 r i "is" w arts n)
  note ok = \<open>arts_ok P K arts\<close>
  show ?case
  proof (cases "obj_get arts (artifactKey r i)")
    case None
    with "2.prems" show ?thesis by simp
  next
    case (Some row)
    from arts_okD(2) [OF ok obj_get_in [OF Some]]
    have row: "art_row_ok P (artifactKey r i) row" "row_owner row \<in> K" by auto
    show ?thesis
    proof (cases row)
      case (UsageRow q u)
      with 2 Some show ?thesis by (auto split: if_splits)
    next
      case (ArtifactRow a)
      let ?a = "a\<lparr>art_state := ASuperseded, art_supersededBy := Some w\<rparr>"
      have "arts_ok P K (obj_set (artifactKey r i) (ArtifactRow ?a) arts)"
      proof (rule arts_ok_write [OF ok])
        show "art_row_ok P (artifactKey r i) (ArtifactRow ?a)" "row_owner (ArtifactRow ?a) \<in> K"
          using row ArtifactRow by (auto simp: art_row_ok_def row_owner_def row_key_def verify_ignores_state)
      qed (use Some ArtifactRow in \<open>auto simp: is_usage_def cost_of_def\<close>)
      with 2 Some ArtifactRow show ?thesis by (auto split: if_splits)
    next
      case (EffectRow e)
      have "arts_ok P K (obj_set (artifactKey r i) (OtherRow r (ef_id e)) arts)" if "ef_runId e = r"
      proof (rule arts_ok_write [OF ok])
        show "art_row_ok P (artifactKey r i) (OtherRow r (ef_id e))" "row_owner (OtherRow r (ef_id e)) \<in> K"
          using row EffectRow that effect_row_id_not_artifact
          by (auto simp: art_row_ok_def row_owner_def row_key_def)
      qed (use Some EffectRow in \<open>auto simp: is_usage_def cost_of_def\<close>)
      with 2 Some EffectRow show ?thesis by (auto split: if_splits)
    next
      case (OtherRow q j)
      with 2 Some show ?thesis by (auto split: if_splits)
    qed
  qed
qed simp

lemma arts_ok_effect:
  assumes ok: "arts_ok P K arts" and e: "isGraphRunId (JStr (ef_runId e))" "ef_runId e \<in> K"
    "ef_id e = graphEffectRowId P (ef_key e)"
    and old: "\<forall>x. obj_get arts (effectRowKey P (ef_runId e) (ef_key e)) = Some x \<longrightarrow> \<not> is_usage x \<and> (\<forall>a. x \<noteq> ArtifactRow a)"
  shows "arts_ok P K (obj_set (effectRowKey P (ef_runId e) (ef_key e)) (EffectRow e) arts)"
  by (rule arts_ok_write [OF ok])
    (use e old in \<open>auto simp: art_row_ok_def row_owner_def row_key_def effectRowKey_def is_usage_def cost_of_def
      split: option.split art_row.split\<close>)

lemma usage_row_key:
  assumes ok: "arts_ok P K arts" and x: "obj_get arts k = Some x"
  shows "is_usage x \<longleftrightarrow> row_owner x = k" and "isGraphRunId (JStr k) \<Longrightarrow> is_usage x"
proof -
  from arts_okD(2) [OF ok obj_get_in [OF x]]
  have k: "k = row_key (row_owner x) x" "isGraphRunId (JStr (row_owner x))" by (auto simp: art_row_ok_def)
  have "row_owner x \<noteq> artifactKey q i" for q i using artifactKey_no_run [OF k(2), of q i] by (rule not_sym)
  then show "is_usage x \<longleftrightarrow> row_owner x = k"
    using k(1)
    by (cases x) (auto simp: is_usage_def row_key_def row_owner_def)
  show "is_usage x" if "isGraphRunId (JStr k)"
    using k artifactKey_no_run [OF that] by (cases x) (auto simp: is_usage_def row_key_def)
qed

lemma charge_Inr:
  assumes "charge f u = Inr v"
  shows "v = \<lparr>au_artifacts = au_artifacts u + 1, au_inlineBytes = au_inlineBytes u + ft_inline f,
      au_diskBytes = au_diskBytes u + ft_disk f\<rparr>" and "within_budgets v"
  using assms by (auto simp: charge_def Let_def over_def within_budgets_def split: if_splits)

lemma arts_ok_put:
  assumes ok: "arts_ok P K arts" and r: "isGraphRunId (JStr (art_runId a))" "art_runId a \<in> K"
    and v: "GRAPH_SHA256_PATTERN (art_id a)" "verifyGraphArtifactIdentity (pt_number P) (pt_hash P) a = None"
    and f: "graphArtifactFootprint (pt_number P) (art_body a) = Inr f"
    and new: "obj_get arts (artifactKey (art_runId a) (art_id a)) = None"
    and u: "charge f (stored_usage (obj_get arts (art_runId a))) = Inr u"
  shows "arts_ok P K (obj_set (artifactKey (art_runId a) (art_id a)) (ArtifactRow a)
    (obj_set (art_runId a) (UsageRow (art_runId a) u) arts))"
    (is "arts_ok P K (obj_set ?k ?row (obj_set ?r ?usage arts))")
proof -
  note d = arts_okD(1) [OF ok]
  have d': "distinct (map fst (obj_set ?r ?usage arts))" using d by simp
  have kr: "?k \<noteq> ?r" using artifactKey_no_run [OF r(1)] by simp
  have old: "is_usage x" if "obj_get arts ?r = Some x" for x by (rule usage_row_key(2) [OF ok that r(1)])
  have free: "(case obj_get arts ?r of None \<Rightarrow> 0 | Some x \<Rightarrow> cost_of c q x) = 0" for c q
    using old by (auto simp: cost_of_def is_usage_def split: option.split art_row.split)
  have sum: "cost_sum c q (obj_set ?k ?row (obj_set ?r ?usage arts)) =
      cost_sum c q arts + (if q = ?r then c a else 0)" for c q
    using new kr free by (simp add: cost_sum_set [OF d'] cost_sum_set [OF d]) (simp add: cost_of_def)
  have cost: "artifact_cost P a = f" using f by (simp add: artifact_cost_def)
  have u': "u = \<lparr>au_artifacts = cost_sum (\<lambda>_. 1) ?r arts + 1,
      au_inlineBytes = cost_sum (\<lambda>a. ft_inline (artifact_cost P a)) ?r arts + ft_inline f,
      au_diskBytes = cost_sum (\<lambda>a. ft_disk (artifact_cost P a)) ?r arts + ft_disk f\<rparr>"
    using charge_Inr(1) [OF u] arts_okD(3) [OF ok, of ?r] by (simp add: artifacts_cost_def)
  have total: "artifacts_cost P q (obj_set ?k ?row (obj_set ?r ?usage arts)) =
      (if q = ?r then u else artifacts_cost P q arts)" for q
    unfolding artifacts_cost_def sum cost by (simp add: u')
  have stored: "stored_usage (obj_get (obj_set ?k ?row (obj_set ?r ?usage arts)) q) =
      (if q = ?r then u else stored_usage (obj_get arts q))" for q
    using kr new by (auto simp: stored_usage_def)
  have "art_row_ok P ?k ?row" "art_row_ok P ?r ?usage" "row_owner ?row = ?r" "row_owner ?usage = ?r"
    using r v by (simp_all add: art_row_ok_def row_owner_def row_key_def)
  then show ?thesis
    unfolding arts_ok_def total stored
    using ok r d charge_Inr(2) [OF u] by (auto simp: arts_ok_def set_obj_set [OF d'] set_obj_set [OF d])
qed

lemma arts_ok_remove:
  assumes ok: "arts_ok P K arts"
  shows "arts_ok P (K - {r}) (filter (\<lambda>p. row_owner (snd p) \<noteq> r) arts)" (is "arts_ok P _ ?arts")
proof -
  note d = arts_okD(1) [OF ok]
  have sum: "cost_sum c q ?arts = (if q = r then 0 else cost_sum c q arts)" for c q
  proof -
    have "cost_sum c q ?arts = sum_list (map (\<lambda>p. if row_owner (snd p) \<noteq> r then cost_of c q (snd p) else 0) arts)"
      by (simp add: cost_sum_def sum_list_map_filter')
    also have "\<dots> = (if q = r then 0 else cost_sum c q arts)"
      unfolding cost_sum_def
      by (induction arts) (auto simp: cost_of_def row_owner_def split: art_row.split)
    finally show ?thesis .
  qed
  have total: "artifacts_cost P q ?arts = (if q = r then EMPTY_USAGE else artifacts_cost P q arts)" for q
    by (simp add: artifacts_cost_def sum EMPTY_USAGE_def)
  have stored: "stored_usage (obj_get ?arts q) = (if q = r then EMPTY_USAGE else stored_usage (obj_get arts q))" for q
  proof (cases "obj_get arts q")
    case None
    then show ?thesis by (simp add: obj_get_filter [OF d] stored_usage_def)
  next
    case (Some x)
    with usage_row_key(1) [OF ok Some] show ?thesis
      by (cases x) (auto simp: obj_get_filter [OF d] stored_usage_def is_usage_def row_owner_def)
  qed
  have "within_budgets EMPTY_USAGE"
    by (simp add: within_budgets_def EMPTY_USAGE_def maxArtifactsPerRun_def maxInlineBytesPerRun_def
      maxDiskBytesPerRun_def MIB_def)
  then show ?thesis
    unfolding arts_ok_def total stored
    using ok d by (auto simp: arts_ok_def distinct_filter_keys)
qed

text \<open>Removing a run's rows one by one under their own keys removes exactly the rows it owns.\<close>

lemma remove_rows_arts:
  assumes ok: "arts_ok P K (st_arts S)"
  shows "st_arts (remove_rows r S) = filter (\<lambda>p. row_owner (snd p) \<noteq> r) (st_arts S)"
proof -
  have "fst p \<in> row_key r ` set (owned_rows r S) \<longleftrightarrow> row_owner (snd p) = r" if p: "p \<in> set (st_arts S)" for p
  proof
    assume "row_owner (snd p) = r"
    moreover have "fst p = row_key (row_owner (snd p)) (snd p)"
      using arts_okD(2) [OF ok, of "fst p" "snd p"] p by (simp add: art_row_ok_def)
    ultimately show "fst p \<in> row_key r ` set (owned_rows r S)"
      using p by (auto simp: owned_rows_def)
  next
    assume "fst p \<in> row_key r ` set (owned_rows r S)"
    then obtain q where q: "q \<in> set (st_arts S)" "row_owner (snd q) = r" "fst p = row_key r (snd q)"
      by (auto simp: owned_rows_def)
    then have "fst p = fst q"
      using arts_okD(2) [OF ok, of "fst q" "snd q"] by (simp add: art_row_ok_def)
    then have "p = q" using p q(1) arts_okD(1) [OF ok] by (auto simp: distinct_map inj_on_def)
    with q(2) show "row_owner (snd p) = r" by simp
  qed
  then have "filter (\<lambda>p. fst p \<notin> row_key r ` set (owned_rows r S)) (st_arts S) =
      filter (\<lambda>p. row_owner (snd p) \<noteq> r) (st_arts S)"
    by (intro filter_cong refl) simp
  then show ?thesis by (simp add: remove_rows_def fold_remove_rows)
qed

section \<open>The invariant of the store\<close>

definition runs_ok :: "platform \<Rightarrow> (string \<times> run_row) list \<Rightarrow> bool" where
  "runs_ok P rows \<longleftrightarrow> distinct (map fst rows) \<and> (\<forall>p\<in>set rows. rx_id (row_stub P (snd p)) = Some (fst p))"

definition store_inv :: "platform \<Rightarrow> run_store \<Rightarrow> bool" where
  "store_inv P S \<longleftrightarrow> runs_ok P (st_runs S) \<and> arts_ok P (fst ` set (st_runs S)) (st_arts S)"

lemma store_inv_empty: "store_inv P empty_store"
  by (auto simp: store_inv_def runs_ok_def arts_ok_def empty_store_def stored_usage_def artifacts_cost_def
    cost_sum_def EMPTY_USAGE_def within_budgets_def maxArtifactsPerRun_def maxInlineBytesPerRun_def
    maxDiskBytesPerRun_def MIB_def)

lemma store_inv_announce [simp]: "store_inv P (announce r p d S) = store_inv P S"
  by (simp add: store_inv_def announce_def)

lemma announce_simps [simp]: "st_runs (announce r p d S) = st_runs S" "st_arts (announce r p d S) = st_arts S"
  by (simp_all add: announce_def)

lemma row_stub_current: "rx_id (row_stub P (CurrentRun r)) = Some (run_id r)"
  by (simp add: row_stub_def)

lemma runs_ok_set: "runs_ok P rows \<Longrightarrow> runs_ok P (obj_set (run_id r) (CurrentRun r) rows)"
  by (auto simp: runs_ok_def set_obj_set row_stub_current)

lemma store_inv_set_run:
  "store_inv P S \<Longrightarrow> arts_ok P (fst ` set (st_runs S)) arts \<Longrightarrow>
     store_inv P (S\<lparr>st_runs := obj_set (run_id r) (CurrentRun r) (st_runs S), st_arts := arts\<rparr>)"
  by (auto simp: store_inv_def runs_ok_set keys_obj_set intro: arts_ok_mono)

lemma store_inv_set_arts:
  "store_inv P S \<Longrightarrow> arts_ok P (fst ` set (st_runs S)) arts \<Longrightarrow> store_inv P (S\<lparr>st_arts := arts\<rparr>)"
  by (simp add: store_inv_def)

lemma store_inv_remove: "store_inv P S \<Longrightarrow> store_inv P (remove_rows r S)"
proof -
  assume inv: "store_inv P S"
  then have ok: "arts_ok P (fst ` set (st_runs S)) (st_arts S)" by (simp add: store_inv_def)
  have "st_runs (remove_rows r S) = filter (\<lambda>p. fst p \<noteq> r) (st_runs S)"
    by (simp add: remove_rows_def remove_row_def)
  moreover have "fst ` set (filter (\<lambda>p. fst p \<noteq> r) (st_runs S)) = fst ` set (st_runs S) - {r}" by auto
  ultimately show ?thesis
    using inv arts_ok_remove [OF ok, of r] remove_rows_arts [OF ok, of r]
    by (simp add: store_inv_def runs_ok_def distinct_filter_keys)
qed

lemma store_inv_removals:
  "store_inv P S \<Longrightarrow> store_inv P (fold (\<lambda>x S. announce (f x) (g x) True (remove_rows (f x) S)) xs S)"
  by (induction xs arbitrary: S) (simp_all add: store_inv_remove)

section \<open>What each operation changes\<close>

definition unchanged :: "run_store \<Rightarrow> run_store \<Rightarrow> bool" where
  "unchanged T S \<longleftrightarrow> st_runs T = st_runs S \<and> st_arts T = st_arts S"

lemma unchanged_refl [simp]: "unchanged S S"
  by (simp add: unchanged_def)

definition created :: "run_store \<Rightarrow> run_store \<Rightarrow> bool" where
  "created T S \<longleftrightarrow> (\<exists>c. run_revision c = 1 \<and> obj_get (st_runs S) (run_id c) = None
     \<and> st_runs T = obj_set (run_id c) (CurrentRun c) (st_runs S) \<and> st_arts T = st_arts S)"

lemma create_changes: "unchanged (fst (createGraphRun P m run S)) S \<or> created (fst (createGraphRun P m run S)) S"
proof -
  define c where "c = run\<lparr>run_revision := 1, run_updatedAt := mo_now m\<rparr>"
  have c: "run_revision c = 1" by (simp add: c_def)
  show ?thesis
    unfolding createGraphRun_def c_def [symmetric] Let_def
    using c by (auto simp: unchanged_def created_def split: option.split)
qed

text \<open>A save replaces the row it read at the revision before, in the same project with the same plan.\<close>

definition follows :: "platform \<Rightarrow> run_row \<Rightarrow> graph_run \<Rightarrow> bool" where
  "follows P row c \<longleftrightarrow> rx_revision (row_stub P row) = Some (run_revision c - 1)
     \<and> rx_planDigest (row_stub P row) = Some (pt_planDigest P (run_plan c))
     \<and> rx_projectId (row_stub P row) = Some (run_projectId c)
     \<and> (rx_environmentId (row_stub P row) = None \<or> rx_environmentId (row_stub P row) = run_environmentId c)"

definition superseded_by :: "string \<Rightarrow> (string \<times> art_row) list \<Rightarrow> (string \<times> art_row) list \<Rightarrow> string list \<Rightarrow> bool" where
  "superseded_by r arts' arts is \<longleftrightarrow> (\<exists>w n. markSuperseded r is w (arts, 0) = Inr (arts', n))"

definition saved :: "platform \<Rightarrow> run_store \<Rightarrow> run_store \<Rightarrow> string list \<Rightarrow> bool" where
  "saved P T S is \<longleftrightarrow> (\<exists>c row. obj_get (st_runs S) (run_id c) = Some row \<and> follows P row c
     \<and> st_runs T = obj_set (run_id c) (CurrentRun c) (st_runs S)
     \<and> superseded_by (run_id c) (st_arts T) (st_arts S) is)"

lemma save_refusal_None:
  assumes "save_refusal P row c n = None"
  obtains x where "row = Some x" and "rx_revision (row_stub P x) = Some n"
    and "rx_planDigest (row_stub P x) = Some (pt_planDigest P (run_plan c))"
    and "rx_projectId (row_stub P x) = Some (run_projectId c)"
    and "rx_environmentId (row_stub P x) = None \<or> rx_environmentId (row_stub P x) = run_environmentId c"
  using assms
  by (auto simp: save_refusal_def Let_def split: option.splits run_row.splits if_splits)

lemma save_changes:
  "unchanged (fst (saveGraphRun P m run n ids S)) S \<or>
   saved P (fst (saveGraphRun P m run n ids S)) S (case ids of None \<Rightarrow> [] | Some (w, is) \<Rightarrow> is)"
proof -
  define c where "c = run\<lparr>run_revision := n + 1, run_updatedAt := mo_now m\<rparr>"
  define sa where "sa = (case ids of None \<Rightarrow> Inr (st_arts S, 0)
      | Some (w, is) \<Rightarrow> markSuperseded (run_id c) is w (st_arts S, 0))"
  let ?T = "\<lambda>arts. announce (run_id c) (Some (run_projectId c)) False
      (S\<lparr>st_runs := obj_set (run_id c) (CurrentRun c) (st_runs S), st_arts := arts\<rparr>)"
  have c: "run_revision c = n + 1" by (simp add: c_def)
  have saved: "saved P (?T arts) S (case ids of None \<Rightarrow> [] | Some (w, is) \<Rightarrow> is)"
    if "save_refusal P (obj_get (st_runs S) (run_id c)) c n = None" and "sa = Inr (arts, k)" for arts k
  proof -
    from that(1) obtain x where x: "obj_get (st_runs S) (run_id c) = Some x" "follows P x c"
      by (rule save_refusal_None) (simp add: follows_def c)
    have "superseded_by (run_id c) arts (st_arts S) (case ids of None \<Rightarrow> [] | Some (w, is) \<Rightarrow> is)"
      using that(2) by (auto simp: superseded_by_def sa_def split: option.splits)
    with x show ?thesis unfolding saved_def by auto
  qed
  show ?thesis
    unfolding saveGraphRun_def c_def [symmetric] Let_def sa_def [symmetric]
    using saved by (auto split: option.split sum.split)
qed

definition put :: "platform \<Rightarrow> run_store \<Rightarrow> run_store \<Rightarrow> artifact \<Rightarrow> bool" where
  "put P T S a \<longleftrightarrow> put_refusal P a = None \<and> st_runs T = st_runs S \<and> obj_get (st_runs S) (art_runId a) \<noteq> None
     \<and> obj_get (st_arts S) (artifactKey (art_runId a) (art_id a)) = None
     \<and> (\<exists>f u. graphArtifactFootprint (pt_number P) (art_body a) = Inr f
          \<and> charge f (stored_usage (obj_get (st_arts S) (art_runId a))) = Inr u
          \<and> st_arts T = obj_set (artifactKey (art_runId a) (art_id a)) (ArtifactRow a)
                (obj_set (art_runId a) (UsageRow (art_runId a) u) (st_arts S)))"

lemma put_changes: "unchanged (fst (putGraphArtifact P m a S)) S \<or> put P (fst (putGraphArtifact P m a S)) S a"
  by (auto simp: putGraphArtifact_def put_def split: option.split sum.split)

lemma supersede_changes:
  "unchanged (fst (supersedeGraphArtifacts r is w S)) S \<or>
   st_runs (fst (supersedeGraphArtifacts r is w S)) = st_runs S \<and>
   superseded_by r (st_arts (fst (supersedeGraphArtifacts r is w S))) (st_arts S) is"
  by (auto simp: supersedeGraphArtifacts_def superseded_by_def split: sum.split)

text \<open>Removals of runs.\<close>

definition removes :: "run_store \<Rightarrow> run_store \<Rightarrow> bool" where
  "removes T S \<longleftrightarrow> (\<exists>xs :: (string \<times> string option) list.
     T = fold (\<lambda>x S. announce (fst x) (snd x) True (remove_rows (fst x) S)) xs S)"

lemma removes_none: "removes S S"
  unfolding removes_def by (intro exI [of _ "[]"]) simp

lemma removes_one: "removes (announce r p True (remove_rows r S)) S"
  unfolding removes_def by (intro exI [of _ "[(r, p)]"]) simp

lemma delete_changes: "removes (fst (deleteEnvironmentlessGraphRun P r S)) S"
  by (auto simp: deleteEnvironmentlessGraphRun_def Let_def removeRunRows_def removes_none removes_one split: option.split)

lemma fold_map_pair: "fold (\<lambda>x. h (f x) (g x)) xs S = fold (\<lambda>x. h (fst x) (snd x)) (map (\<lambda>x. (f x, g x)) xs) S"
  by (induction xs arbitrary: S) auto

lemma prune_changes: "removes (fst (pruneFinishedGraphRuns P m e keep S)) S"
proof -
  have "removes (fold (\<lambda>r. removeRunRows (fst r) (row_stub P (snd r))) rs S) S" for rs
    unfolding removes_def removeRunRows_def
    using fold_map_pair [of "\<lambda>r p S. announce r p True (remove_rows r S)" fst "\<lambda>r. rx_projectId (row_stub P (snd r))" rs S]
    by blast
  then show ?thesis
    by (auto simp: pruneFinishedGraphRuns_def Let_def removes_none split: option.split)
qed

lemma delete_environment_changes: "removes (fst (deleteGraphRunsByEnvironment P e S)) S"
proof -
  have "removes (fold (\<lambda>r S. announce r None True (remove_rows r S)) rs S) S" for rs
    unfolding removes_def
    using fold_map_pair [of "\<lambda>r p S. announce r p True (remove_rows r S)" "\<lambda>r. r" "\<lambda>r. None" rs S] by blast
  then show ?thesis by (auto simp: deleteGraphRunsByEnvironment_def Let_def removes_none)
qed

text \<open>A write of the effect journal: over an effect that is not done, or a new one of a stored run.\<close>

definition wrote_effect :: "platform \<Rightarrow> run_store \<Rightarrow> run_store \<Rightarrow> string \<Rightarrow> effect_record \<Rightarrow> bool" where
  "wrote_effect P T S r e \<longleftrightarrow> T = write_effect P r (ef_key e) e S
     \<and> (case effect_at P S r (ef_key e) of
          Some old \<Rightarrow> ef_state old \<noteq> EDone \<and> ef_id e = ef_id old \<and> ef_runId e = ef_runId old
            \<and> ef_attempts old \<le> ef_attempts e
        | None \<Rightarrow> ef_id e = graphEffectRowId P (ef_key e) \<and> ef_runId e = r \<and> isGraphRunId (JStr r)
            \<and> obj_get (st_runs S) r \<noteq> None)"

definition journaled :: "platform \<Rightarrow> run_store \<Rightarrow> run_store \<Rightarrow> string set \<Rightarrow> bool" where
  "journaled P T S K \<longleftrightarrow> (\<exists>r e. wrote_effect P T S r e \<and> ef_key e \<in> K)"

lemma effect_atD: "effect_at P S r key = Some e \<Longrightarrow> obj_get (st_arts S) (effectRowKey P r key) = Some (EffectRow e) \<and> ef_key e = key"
  by (auto simp: effect_at_def split: option.splits art_row.splits if_splits)

lemma getGraphRun_stored: "getGraphRun P S r = Inr (Some run) \<Longrightarrow> obj_get (st_runs S) r \<noteq> None"
  by (auto simp: getGraphRun_def parseStoredRun_def split: option.splits if_splits)

lemma assertRunWritable_stored: "assertRunWritable P m S r = None \<Longrightarrow> obj_get (st_runs S) r \<noteq> None"
  using getGraphRun_stored by (auto simp: assertRunWritable_def split: sum.splits option.splits)

lemma journaledI: "wrote_effect P T S r e \<Longrightarrow> ef_key e \<in> K \<Longrightarrow> journaled P T S K"
  by (auto simp: journaled_def)

lemma new_journaled:
  assumes "effect_at P S (ei_runId i) (ei_key i) = None" and "isGraphRunId (JStr (ei_runId i))"
    and "assertRunWritable P m S (ei_runId i) = None"
    and "ef_id e = graphEffectRowId P (ei_key i)" and "ef_runId e = ei_runId i" and "ef_key e = ei_key i"
  shows "journaled P (write_effect P (ei_runId i) (ei_key i) e S) S {ei_key i}"
  by (rule journaledI [of _ _ _ "ei_runId i" e])
    (use assms assertRunWritable_stored [OF assms(3)] in \<open>auto simp: wrote_effect_def\<close>)

lemma begin_changes:
  "unchanged (fst (beginGraphEffect P m i S)) S \<or> journaled P (fst (beginGraphEffect P m i S)) S {ei_key i}"
proof -
  let ?r = "ei_runId i" and ?k = "ei_key i"
  have claim: "journaled P (write_effect P ?r ?k (claimed_effect m i e) S) S {?k}"
    if "effect_at P S ?r ?k = Some e" "ef_state e \<noteq> EDone" for e
    by (rule journaledI [of _ _ _ ?r "claimed_effect m i e"])
      (use that effect_atD [OF that(1)] in \<open>auto simp: wrote_effect_def claimed_effect_def\<close>)
  have new: "journaled P (write_effect P ?r ?k (new_effect P m i) S) S {?k}"
    if "effect_at P S ?r ?k = None" "isGraphRunId (JStr ?r)" "assertRunWritable P m S ?r = None"
    by (rule new_journaled [OF that]) (simp_all add: new_effect_def)
  show ?thesis
    using claim new by (auto simp: beginGraphEffect_def Let_def split: option.split)
qed

lemma simulate_changes:
  "unchanged (fst (recordSimulatedGraphEffect P m i S)) S \<or>
   journaled P (fst (recordSimulatedGraphEffect P m i S)) S {ei_key i}"
proof -
  let ?r = "ei_runId i" and ?k = "ei_key i"
  let ?e = "(new_effect P m i)\<lparr>ef_state := ESimulated, ef_settledAt := Some (mo_now m)\<rparr>"
  have "journaled P (write_effect P ?r ?k ?e S) S {?k}"
    if "effect_at P S ?r ?k = None" "isGraphRunId (JStr ?r)" "assertRunWritable P m S ?r = None"
    by (rule new_journaled [OF that]) (simp_all add: new_effect_def)
  then show ?thesis
    by (auto simp: recordSimulatedGraphEffect_def Let_def split: option.split sum.split)
qed

lemma settle_changes:
  "unchanged (fst (settleGraphEffect P m r key out S)) S \<or>
   journaled P (fst (settleGraphEffect P m r key out S)) S {key}"
proof -
  have "journaled P (write_effect P r key (settled_effect m out e) S) S {key}"
    if "effect_at P S r key = Some e" "ef_state e \<noteq> EDone" for e
    by (rule journaledI [of _ _ _ r "settled_effect m out e"])
      (use that effect_atD [OF that(1)] in \<open>auto simp: wrote_effect_def settled_effect_def split: effect_outcome.split\<close>)
  then show ?thesis
    by (auto simp: settleGraphEffect_def Let_def split: option.split)
qed

section \<open>Every operation keeps the invariant\<close>

lemma store_inv_run:
  assumes inv: "store_inv P S" and arts: "arts_ok P (fst ` set (st_runs S)) (st_arts T)"
    and T: "st_runs T = obj_set (run_id c) (CurrentRun c) (st_runs S)"
  shows "store_inv P T"
proof -
  have "arts_ok P (insert (run_id c) (fst ` set (st_runs S))) (st_arts T)"
    by (rule arts_ok_mono [OF arts]) blast
  with inv show ?thesis by (simp add: store_inv_def T runs_ok_set keys_obj_set)
qed

lemma created_inv: "store_inv P S \<Longrightarrow> created T S \<Longrightarrow> store_inv P T"
proof -
  assume inv: "store_inv P S" and "created T S"
  then obtain c where c: "st_runs T = obj_set (run_id c) (CurrentRun c) (st_runs S)" "st_arts T = st_arts S"
    by (auto simp: created_def)
  from inv have "arts_ok P (fst ` set (st_runs S)) (st_arts T)" by (simp add: store_inv_def c(2))
  from store_inv_run [OF inv this c(1)] show ?thesis .
qed

lemma saved_inv:
  assumes inv: "store_inv P S" and "saved P T S is"
  shows "store_inv P T"
proof -
  from assms(2) obtain c w n where T: "st_runs T = obj_set (run_id c) (CurrentRun c) (st_runs S)"
    and m: "markSuperseded (run_id c) is w (st_arts S, 0) = Inr (st_arts T, n)"
    by (auto simp: saved_def superseded_by_def)
  from inv have "arts_ok P (fst ` set (st_runs S)) (st_arts S)" by (simp add: store_inv_def)
  from store_inv_run [OF inv arts_ok_supersede [OF this m] T] show ?thesis .
qed

lemma put_refusal_None:
  assumes "put_refusal P a = None"
  shows "isGraphRunId (JStr (art_runId a))" and "GRAPH_SHA256_PATTERN (art_id a)"
    and "verifyGraphArtifactIdentity (pt_number P) (pt_hash P) a = None"
    and "art_state a = ALive" and "art_supersededBy a = None"
  using assms by (auto simp: put_refusal_def validateGraphArtifact_def split: option.splits if_splits)

lemma stored_put_inv: "store_inv P S \<Longrightarrow> put P T S a \<Longrightarrow> store_inv P T"
proof -
  assume inv: "store_inv P S" and p: "put P T S a"
  have "art_runId a \<in> fst ` set (st_runs S)" using p by (auto simp: put_def obj_get_None_iff)
  moreover from p obtain f u where f: "graphArtifactFootprint (pt_number P) (art_body a) = Inr f"
    and u: "charge f (stored_usage (obj_get (st_arts S) (art_runId a))) = Inr u"
    and T: "st_runs T = st_runs S" "st_arts T = obj_set (artifactKey (art_runId a) (art_id a)) (ArtifactRow a)
      (obj_set (art_runId a) (UsageRow (art_runId a) u) (st_arts S))"
    and r: "put_refusal P a = None" and new: "obj_get (st_arts S) (artifactKey (art_runId a) (art_id a)) = None"
    unfolding put_def by blast
  moreover have "arts_ok P (fst ` set (st_runs S)) (st_arts S)" using inv by (simp add: store_inv_def)
  ultimately have "arts_ok P (fst ` set (st_runs S)) (st_arts T)"
    unfolding T(2) using put_refusal_None [OF r] by (intro arts_ok_put) auto
  then show ?thesis using inv T(1) by (simp add: store_inv_def)
qed

lemma removes_inv: "store_inv P S \<Longrightarrow> removes T S \<Longrightarrow> store_inv P T"
  by (auto simp: removes_def store_inv_removals)

text \<open>The row under an effect's key is not an artifact and not a usage row, and it is the run's.\<close>

lemma effect_key_row:
  assumes ok: "arts_ok P K arts" and x: "obj_get arts (effectRowKey P r k) = Some x" and r: "isGraphRunId (JStr r)"
  shows "row_owner x = r" and "\<not> is_usage x" and "x \<noteq> ArtifactRow a"
proof -
  from arts_okD(2) [OF ok obj_get_in [OF x]]
  have k: "artifactKey r (graphEffectRowId P k) = row_key (row_owner x) x" "isGraphRunId (JStr (row_owner x))"
    "\<And>a. x = ArtifactRow a \<Longrightarrow> GRAPH_SHA256_PATTERN (art_id a)"
    by (auto simp: art_row_ok_def effectRowKey_def)
  show u: "\<not> is_usage x"
    using k artifactKey_no_run [OF k(2)] by (cases x) (auto simp: is_usage_def row_key_def row_owner_def)
  then obtain i where i: "row_key (row_owner x) x = artifactKey (row_owner x) i" "\<And>a. x = ArtifactRow a \<Longrightarrow> i = art_id a"
    by (cases x) (auto simp: is_usage_def row_key_def row_owner_def)
  with k artifactKey_inject [OF r k(2)] have eq: "r = row_owner x" "graphEffectRowId P k = i" by auto
  show "row_owner x = r" using eq by simp
  show "x \<noteq> ArtifactRow a" using eq(2) i(2) k(3) effect_row_id_not_artifact by metis
qed

lemma journaled_inv:
  assumes inv: "store_inv P S" and j: "journaled P T S K"
  shows "store_inv P T"
proof -
  from inv have ok: "arts_ok P (fst ` set (st_runs S)) (st_arts S)" by (simp add: store_inv_def)
  from j obtain r e where w: "wrote_effect P T S r e" by (auto simp: journaled_def)
  let ?k = "effectRowKey P r (ef_key e)"
  have e: "isGraphRunId (JStr r) \<and> ef_runId e = r \<and> r \<in> fst ` set (st_runs S) \<and> ef_id e = graphEffectRowId P (ef_key e)"
  proof (cases "effect_at P S r (ef_key e)")
    case None
    with w show ?thesis by (auto simp: wrote_effect_def obj_get_None_iff)
  next
    case (Some old)
    from effect_atD [OF Some] have o: "obj_get (st_arts S) ?k = Some (EffectRow old)" "ef_key old = ef_key e" by auto
    from arts_okD(2) [OF ok obj_get_in [OF o(1)]] o(2)
    have old: "?k = artifactKey (ef_runId old) (ef_id old)" "isGraphRunId (JStr (ef_runId old))"
      "ef_id old = graphEffectRowId P (ef_key e)" "ef_runId old \<in> fst ` set (st_runs S)"
      by (auto simp: art_row_ok_def row_key_def row_owner_def)
    then have "r = ef_runId old" by (simp add: effectRowKey_def artifactKey_def)
    with old w Some show ?thesis by (simp add: wrote_effect_def)
  qed
  then have r: "isGraphRunId (JStr r)" "ef_runId e = r" by auto
  have "arts_ok P (fst ` set (st_runs S)) (obj_set (effectRowKey P (ef_runId e) (ef_key e)) (EffectRow e) (st_arts S))"
    by (rule arts_ok_effect [OF ok]) (use e effect_key_row [OF ok _ r(1)] in auto)
  with inv w r show ?thesis by (simp add: wrote_effect_def write_effect_def store_inv_def)
qed

lemma unchanged_inv: "store_inv P S \<Longrightarrow> unchanged T S \<Longrightarrow> store_inv P T"
  by (simp add: unchanged_def store_inv_def)

text \<open>The shapes of a change, for case analysis on what an operation did.\<close>

definition superseded :: "run_store \<Rightarrow> run_store \<Rightarrow> string list \<Rightarrow> bool" where
  "superseded T S is \<longleftrightarrow> st_runs T = st_runs S \<and> (\<exists>r. superseded_by r (st_arts T) (st_arts S) is)"

fun marked_ids :: "store_op \<Rightarrow> string list" where
  "marked_ids (Save run n ids) = (case ids of None \<Rightarrow> [] | Some (w, is) \<Rightarrow> is)"
| "marked_ids (Supersede r is w) = is"
| "marked_ids _ = []"

text \<open>The keys an operation writes effects under.\<close>

fun effect_keys :: "store_op \<Rightarrow> string set" where
  "effect_keys (BeginEffect i) = {ei_key i}"
| "effect_keys (SimulateEffect i) = {ei_key i}"
| "effect_keys (SettleEffect r k out) = {k}"
| "effect_keys _ = {}"

fun removing :: "store_op \<Rightarrow> bool" where
  "removing (DeleteMock r) \<longleftrightarrow> True"
| "removing (Prune e keep) \<longleftrightarrow> True"
| "removing (DeleteEnvironment e) \<longleftrightarrow> True"
| "removing _ \<longleftrightarrow> False"

lemma exec_changes:
  obtains "unchanged (exec P S (m, op)) S"
  | "created (exec P S (m, op)) S"
  | "saved P (exec P S (m, op)) S (marked_ids op)"
  | a where "put P (exec P S (m, op)) S a"
  | "superseded (exec P S (m, op)) S (marked_ids op)"
  | "removing op" and "removes (exec P S (m, op)) S"
  | "journaled P (exec P S (m, op)) S (effect_keys op)"
proof (cases op)
  case (Save run n ids)
  with save_changes [of P m run n ids S] that(1,3) show ?thesis by (auto split: option.splits)
next
  case (Supersede r "is" w)
  with supersede_changes [of r "is" w S] that(1,5) show ?thesis by (auto simp: superseded_def)
next
  case (Create run)
  with create_changes that(1,2) show ?thesis by auto
next
  case (Put a)
  with put_changes [of P m a S] that(1,4) show ?thesis by auto
next
  case (DeleteMock r)
  with delete_changes that(6) show ?thesis by auto
next
  case (Prune e keep)
  with prune_changes that(6) show ?thesis by auto
next
  case (DeleteEnvironment e)
  with delete_environment_changes that(6) show ?thesis by auto
next
  case (BeginEffect i)
  with begin_changes that(1,7) show ?thesis by auto
next
  case (SimulateEffect i)
  with simulate_changes that(1,7) show ?thesis by auto
next
  case (SettleEffect r k out)
  with settle_changes [of P m r k out S] that(1,7) show ?thesis by auto
qed

lemma superseded_inv: "store_inv P S \<Longrightarrow> superseded T S is \<Longrightarrow> store_inv P T"
  by (auto simp: superseded_def superseded_by_def store_inv_def dest: arts_ok_supersede)

lemma exec_inv: "store_inv P S \<Longrightarrow> store_inv P (exec P S x)"
proof -
  assume inv: "store_inv P S"
  obtain m op where x: "x = (m, op)" by (cases x)
  show ?thesis unfolding x
    by (cases rule: exec_changes [of P S m op])
      (use inv in \<open>auto intro: unchanged_inv created_inv saved_inv stored_put_inv superseded_inv removes_inv journaled_inv\<close>)
qed

interpretation store: invariant_machine "\<lambda>S x. Inr (exec P S x) :: unit + run_store" "store_inv P" "\<lambda>_. True"
  for P
  by unfold_locales (auto intro: exec_inv)

lemma run_steps_exec: "run_steps (\<lambda>S x. Inr (exec P S x) :: unit + run_store) S ops = Inr (exec_all P S ops)"
  by (induction ops arbitrary: S) (simp_all add: exec_all_def)

lemma exec_all_inv: "store_inv P S \<Longrightarrow> store_inv P (exec_all P S ops)"
  by (rule store.run_inv [OF _ _ run_steps_exec]) simp_all

lemma exec_all_append: "exec_all P S (xs @ ys) = exec_all P (exec_all P S xs) ys"
  by (simp add: exec_all_def)

section \<open>What only moves forward\<close>

text \<open>An artifact only ever gets the mark of the rewind that superseded it.\<close>

definition art_le :: "artifact \<Rightarrow> artifact \<Rightarrow> bool" where
  "art_le a b \<longleftrightarrow> b = a \<or> (art_state a \<noteq> ASuperseded \<and> (\<exists>w. b = a\<lparr>art_state := ASuperseded, art_supersededBy := Some w\<rparr>))"

text \<open>An effect keeps its key and run; once done it keeps everything.\<close>

definition effect_le :: "effect_record \<Rightarrow> effect_record \<Rightarrow> bool" where
  "effect_le e f \<longleftrightarrow> ef_key f = ef_key e \<and> ef_runId f = ef_runId e \<and> ef_id f = ef_id e
     \<and> ef_attempts e \<le> ef_attempts f \<and> (ef_state e = EDone \<longrightarrow> f = e)"

text \<open>A run's record changes only to a later revision, in its project, with its plan and its environment.\<close>

definition run_le :: "platform \<Rightarrow> run_row \<Rightarrow> run_row \<Rightarrow> bool" where
  "run_le P x y \<longleftrightarrow> y = x \<or> (\<exists>c n. y = CurrentRun c \<and> rx_revision (row_stub P x) = Some n \<and> n < run_revision c
     \<and> rx_planDigest (row_stub P x) = Some (pt_planDigest P (run_plan c))
     \<and> rx_projectId (row_stub P x) = Some (run_projectId c)
     \<and> (rx_environmentId (row_stub P x) = None \<or> rx_environmentId (row_stub P x) = run_environmentId c))"

definition row_le :: "art_row option \<Rightarrow> art_row option \<Rightarrow> bool" where
  "row_le x y \<longleftrightarrow>
     (case x of
        Some (ArtifactRow a) \<Rightarrow> (\<exists>b. y = Some (ArtifactRow b) \<and> art_le a b)
      | _ \<Rightarrow> True)"

definition store_le :: "platform \<Rightarrow> run_store \<Rightarrow> run_store \<Rightarrow> bool" where
  "store_le P S T \<longleftrightarrow> (\<forall>k. row_le (obj_get (st_arts S) k) (obj_get (st_arts T) k))
     \<and> (\<forall>k x. obj_get (st_runs S) k = Some x \<longrightarrow> (\<exists>y. obj_get (st_runs T) k = Some y \<and> run_le P x y))"

lemma art_le_trans: "art_le a b \<Longrightarrow> art_le b c \<Longrightarrow> art_le a c"
  by (auto simp: art_le_def)

lemma art_le_mark: "art_state a \<noteq> ASuperseded \<Longrightarrow> art_le a (a\<lparr>art_state := ASuperseded, art_supersededBy := Some w\<rparr>)"
  unfolding art_le_def by blast

lemma effect_le_trans: "effect_le e f \<Longrightarrow> effect_le f g \<Longrightarrow> effect_le e g"
  by (auto simp: effect_le_def)

lemma run_le_trans: "run_le P x y \<Longrightarrow> run_le P y z \<Longrightarrow> run_le P x z"
  by (auto simp: run_le_def row_stub_def)

lemma row_le_refl: "row_le x x"
  by (auto simp: row_le_def art_le_def split: option.split art_row.split)

lemma row_le_trans: "row_le x y \<Longrightarrow> row_le y z \<Longrightarrow> row_le x z"
  by (auto simp: row_le_def split: option.splits art_row.splits intro: art_le_trans)

lemma store_le_refl: "store_le P S S"
  by (auto simp: store_le_def row_le_refl run_le_def)

lemma store_le_trans: "store_le P S T \<Longrightarrow> store_le P T U \<Longrightarrow> store_le P S U"
  unfolding store_le_def by (metis row_le_trans run_le_trans)

lemma row_le_set: "row_le (obj_get xs i) (Some v) \<Longrightarrow> row_le (obj_get xs k) (obj_get (obj_set i v xs) k)"
  by (cases "k = i") (simp_all add: row_le_refl)

lemma supersede_le:
  assumes "markSuperseded r is w (arts, n) = Inr (arts', n')"
  shows "row_le (obj_get arts k) (obj_get arts' k)"
  using assms
proof (induction r "is" w "(arts, n)" arbitrary: arts n rule: markSuperseded.induct)
  case (1 r w arts n)
  then show ?case by (simp add: row_le_refl)
next
  case (2 r i "is" w arts n)
  show ?case
  proof (cases "obj_get arts (artifactKey r i)")
    case None
    with "2.prems" show ?thesis by simp
  next
    case (Some row)
    have one: "row_le (obj_get arts k) (obj_get (obj_set (artifactKey r i) x arts) k)"
      if "row_le (Some row) (Some x)" for x
      by (rule row_le_set) (use Some that in simp)
    show ?thesis
    proof (cases row)
      case (ArtifactRow a)
      let ?x = "ArtifactRow (a\<lparr>art_state := ASuperseded, art_supersededBy := Some w\<rparr>)"
      have "row_le (obj_get arts k) (obj_get (obj_set (artifactKey r i) ?x arts) k)" if "art_state a \<noteq> ASuperseded"
        by (rule one) (use art_le_mark [OF that, of w] ArtifactRow in \<open>simp add: row_le_def\<close>)
      with 2 Some ArtifactRow show ?thesis by (auto split: if_splits intro: row_le_trans)
    next
      case (EffectRow e)
      have "row_le (obj_get arts k) (obj_get (obj_set (artifactKey r i) (OtherRow r (ef_id e)) arts) k)"
        by (rule one) (simp add: EffectRow row_le_def)
      with 2 Some EffectRow show ?thesis by (auto split: if_splits intro: row_le_trans)
    qed (use 2 Some in \<open>auto split: if_splits\<close>)
  qed
qed

lemma set_run_le:
  assumes "st_runs T = obj_set (run_id c) (CurrentRun c) (st_runs S)"
    and "\<forall>x. obj_get (st_runs S) (run_id c) = Some x \<longrightarrow> run_le P x (CurrentRun c)"
    and "\<And>k. row_le (obj_get (st_arts S) k) (obj_get (st_arts T) k)"
  shows "store_le P S T"
  unfolding store_le_def using assms by (auto simp: run_le_def)

lemma same_runs_le:
  assumes "st_runs T = st_runs S" and "\<And>k. row_le (obj_get (st_arts S) k) (obj_get (st_arts T) k)"
  shows "store_le P S T"
  unfolding store_le_def using assms by (auto simp: run_le_def)

lemma created_le: "created T S \<Longrightarrow> store_le P S T"
  by (auto simp: created_def intro!: set_run_le intro: row_le_refl)

lemma follows_le: "follows P x c \<Longrightarrow> run_le P x (CurrentRun c)"
  by (auto simp: follows_def run_le_def)

lemma inv_arts: "store_inv P S \<Longrightarrow> arts_ok P (fst ` set (st_runs S)) (st_arts S)"
  by (simp add: store_inv_def)

lemma saved_le:
  assumes s: "saved P T S is"
  shows "store_le P S T"
proof -
  from s obtain c x w n where c: "obj_get (st_runs S) (run_id c) = Some x" "follows P x c"
    "st_runs T = obj_set (run_id c) (CurrentRun c) (st_runs S)"
    and m: "markSuperseded (run_id c) is w (st_arts S, 0) = Inr (st_arts T, n)"
    by (auto simp: saved_def superseded_by_def)
  show ?thesis
    by (rule set_run_le [OF c(3) _ supersede_le [OF m]]) (use c(1) follows_le [OF c(2)] in simp)
qed

lemma superseded_le:
  assumes s: "superseded T S is"
  shows "store_le P S T"
proof -
  from s obtain r w n where m: "markSuperseded r is w (st_arts S, 0) = Inr (st_arts T, n)" and r: "st_runs T = st_runs S"
    by (auto simp: superseded_def superseded_by_def)
  show ?thesis by (rule same_runs_le [OF r supersede_le [OF m]])
qed

lemma put_le:
  assumes inv: "store_inv P S" and p: "put P T S a"
  shows "store_le P S T"
proof -
  have r: "isGraphRunId (JStr (art_runId a))" using p put_refusal_None(1) by (auto simp: put_def)
  have old: "is_usage x" if "obj_get (st_arts S) (art_runId a) = Some x" for x
    by (rule usage_row_key(2) [OF inv_arts [OF inv] that r])
  show ?thesis
  proof (rule same_runs_le)
    show "st_runs T = st_runs S" using p by (simp add: put_def)
    show "row_le (obj_get (st_arts S) k) (obj_get (st_arts T) k)" for k
      using p old by (cases "obj_get (st_arts S) k")
        (auto simp: put_def row_le_def is_usage_def art_le_def split: art_row.splits)
  qed
qed

lemma journaled_le:
  assumes inv: "store_inv P S" and j: "journaled P T S K"
  shows "store_le P S T"
proof -
  from j obtain r e where w: "wrote_effect P T S r e" by (auto simp: journaled_def)
  let ?k = "effectRowKey P r (ef_key e)"
  have T: "st_arts T = obj_set ?k (EffectRow e) (st_arts S)" "st_runs T = st_runs S"
    using w by (simp_all add: wrote_effect_def write_effect_def)
  have "x \<noteq> ArtifactRow a" if x: "obj_get (st_arts S) ?k = Some x" for x a
  proof (cases "effect_at P S r (ef_key e)")
    case (Some old)
    with effect_atD [OF Some] x show ?thesis by simp
  next
    case None
    with w have "isGraphRunId (JStr r)" by (simp add: wrote_effect_def)
    then show ?thesis using effect_key_row(3) [OF inv_arts [OF inv] x] by blast
  qed
  then have "row_le (obj_get (st_arts S) ?k) (Some (EffectRow e))"
    by (auto simp: row_le_def split: option.split art_row.split)
  then have "row_le (obj_get (st_arts S) k) (obj_get (st_arts T) k)" for k
    unfolding T(1) by (rule row_le_set)
  then show ?thesis by (rule same_runs_le [OF T(2)])
qed

lemma unchanged_le: "unchanged T S \<Longrightarrow> store_le P S T"
  by (auto simp: unchanged_def intro!: same_runs_le row_le_refl)

lemma exec_le:
  assumes "store_inv P S" and "\<not> removing op"
  shows "store_le P S (exec P S (m, op))"
  by (cases rule: exec_changes [of P S m op])
    (use assms in \<open>auto intro: unchanged_le created_le saved_le put_le superseded_le journaled_le\<close>)

interpretation history: forward_machine "\<lambda>S x. Inr (exec P S x) :: unit + run_store" "store_inv P"
  "\<lambda>x. \<not> removing (snd x)" "store_le P" for P
  by unfold_locales (auto intro: exec_inv exec_le store_le_refl store_le_trans)

lemma exec_all_le:
  assumes "store_inv P S" and "list_all (\<lambda>x. \<not> removing (snd x)) ops"
  shows "store_le P S (exec_all P S ops)"
  by (rule history.run_le [OF assms run_steps_exec])

end
