(* ===== verification/Store_History.thy ===== *)
theory Store_History
  imports Store_Safety "HOL-Library.Multiset"
begin

text \<open>
  The effect journal of the run store moves forward, a save and its rewind's marks commit together,
  pruning removes exactly the oldest finished runs; and the properties of the store over sequences of
  operations.
\<close>

section \<open>The effect journal\<close>

text \<open>The keys effects are recorded under, whose hashes differ.\<close>

definition keys_apart :: "platform \<Rightarrow> string set \<Rightarrow> bool" where
  "keys_apart P K \<longleftrightarrow> inj_on (\<lambda>k. pt_hash P (uni k)) K"

definition journal_inv :: "platform \<Rightarrow> string set \<Rightarrow> run_store \<Rightarrow> bool" where
  "journal_inv P K S \<longleftrightarrow> store_inv P S \<and> keys_apart P K
     \<and> (\<forall>k e. obj_get (st_arts S) k = Some (EffectRow e) \<longrightarrow> ef_key e \<in> K)"

definition journal_le :: "run_store \<Rightarrow> run_store \<Rightarrow> bool" where
  "journal_le S T \<longleftrightarrow> (\<forall>k e. obj_get (st_arts S) k = Some (EffectRow e) \<longrightarrow>
     (\<exists>f. obj_get (st_arts T) k = Some (EffectRow f) \<and> effect_le e f))"

text \<open>An operation of the journal's callers: artifacts are superseded by their ids.\<close>

definition journal_op :: "string set \<Rightarrow> moment \<times> store_op \<Rightarrow> bool" where
  "journal_op K x \<longleftrightarrow> \<not> removing (snd x) \<and> effect_keys (snd x) \<subseteq> K \<and> list_all GRAPH_SHA256_PATTERN (marked_ids (snd x))"

lemma effect_le_refl [simp]: "effect_le e e"
  by (simp add: effect_le_def)

lemma journal_le_refl: "journal_le S S"
  by (auto simp: journal_le_def)

lemma journal_le_trans: "journal_le S T \<Longrightarrow> journal_le T U \<Longrightarrow> journal_le S U"
  unfolding journal_le_def by (metis effect_le_trans)

text \<open>A change that leaves the effects as they are.\<close>

definition same_effects :: "(string \<times> art_row) list \<Rightarrow> (string \<times> art_row) list \<Rightarrow> bool" where
  "same_effects xs ys \<longleftrightarrow> (\<forall>k e. obj_get ys k = Some (EffectRow e) \<longleftrightarrow> obj_get xs k = Some (EffectRow e))"

lemma same_effects_journal: "same_effects (st_arts S) (st_arts T) \<Longrightarrow> journal_le S T"
  by (auto simp: same_effects_def journal_le_def)

lemma same_effects_set:
  "\<forall>e. v \<noteq> EffectRow e \<Longrightarrow> \<forall>e. obj_get xs k \<noteq> Some (EffectRow e) \<Longrightarrow> same_effects xs (obj_set k v xs)"
  by (auto simp: same_effects_def)

lemma same_effects_trans: "same_effects xs ys \<Longrightarrow> same_effects ys zs \<Longrightarrow> same_effects xs zs"
  by (auto simp: same_effects_def)

lemma same_effects_refl [simp]: "same_effects xs xs"
  by (simp add: same_effects_def)

lemma supersede_effects:
  assumes "arts_ok P K arts" and "markSuperseded r is w (arts, n) = Inr (arts', n')" and "list_all GRAPH_SHA256_PATTERN is"
  shows "same_effects arts arts'"
  using assms
proof (induction r "is" w "(arts, n)" arbitrary: arts n rule: markSuperseded.induct)
  case (2 r i "is" w arts n)
  note ok = \<open>arts_ok P K arts\<close>
  show ?case
  proof (cases "obj_get arts (artifactKey r i)")
    case None
    with "2.prems" show ?thesis by simp
  next
    case (Some row)
    have sha: "GRAPH_SHA256_PATTERN i" using "2.prems"(3) by simp
    show ?thesis
    proof (cases row)
      case (ArtifactRow a)
      let ?arts = "obj_set (artifactKey r i) (ArtifactRow (a\<lparr>art_state := ASuperseded, art_supersededBy := Some w\<rparr>)) arts"
      have "arts_ok P K ?arts" if "art_runId a = r" "art_state a \<noteq> ASuperseded"
        by (rule arts_ok_supersede [OF ok, of r "[i]" w n _ "n + 1"]) (use Some ArtifactRow that in simp)
      moreover have "same_effects arts ?arts" using Some ArtifactRow by (intro same_effects_set) auto
      ultimately show ?thesis using 2 Some ArtifactRow by (auto split: if_splits intro: same_effects_trans)
    next
      case (EffectRow e)
      from arts_okD(2) [OF ok obj_get_in [OF Some]] EffectRow
      have e: "artifactKey r i = artifactKey (ef_runId e) (ef_id e)" "ef_id e = graphEffectRowId P (ef_key e)"
        by (auto simp: art_row_ok_def row_key_def row_owner_def)
      have "ef_runId e \<noteq> r"
      proof
        assume "ef_runId e = r"
        with e have "i = graphEffectRowId P (ef_key e)" by (simp add: artifactKey_def)
        with sha effect_row_id_not_artifact show False by simp
      qed
      with "2.prems"(2) Some EffectRow show ?thesis by simp
    qed (use 2 Some in \<open>auto split: if_splits\<close>)
  qed
qed simp

lemma put_effects:
  assumes inv: "store_inv P S" and p: "put P T S a"
  shows "same_effects (st_arts S) (st_arts T)"
proof -
  have r: "isGraphRunId (JStr (art_runId a))" using p put_refusal_None(1) by (auto simp: put_def)
  have old: "is_usage x" if "obj_get (st_arts S) (art_runId a) = Some x" for x
    by (rule usage_row_key(2) [OF inv_arts [OF inv] that r])
  from p obtain u where T: "st_arts T = obj_set (artifactKey (art_runId a) (art_id a)) (ArtifactRow a)
      (obj_set (art_runId a) (UsageRow (art_runId a) u) (st_arts S))"
    and new: "obj_get (st_arts S) (artifactKey (art_runId a) (art_id a)) = None" by (auto simp: put_def)
  have "obj_get (st_arts S) (art_runId a) \<noteq> Some (EffectRow e)" for e
    using old [of "EffectRow e"] by (auto simp: is_usage_def)
  then have 1: "same_effects (st_arts S) (obj_set (art_runId a) (UsageRow (art_runId a) u) (st_arts S))"
    by (intro same_effects_set) auto
  have "artifactKey (art_runId a) (art_id a) \<noteq> art_runId a" by (rule artifactKey_no_run [OF r])
  then have "same_effects (obj_set (art_runId a) (UsageRow (art_runId a) u) (st_arts S)) (st_arts T)"
    unfolding T using new by (intro same_effects_set) auto
  with 1 show ?thesis by (rule same_effects_trans)
qed

text \<open>The effect written at a key is the successor of the one recorded there.\<close>

lemma journaled_effects:
  assumes inv: "journal_inv P K S" and j: "journaled P T S J" and J: "J \<subseteq> K"
  shows "journal_le S T \<and> (\<forall>k e. obj_get (st_arts T) k = Some (EffectRow e) \<longrightarrow> ef_key e \<in> K)"
proof -
  from j obtain r e where w: "wrote_effect P T S r e" and K: "ef_key e \<in> K" using J by (auto simp: journaled_def)
  let ?k = "effectRowKey P r (ef_key e)"
  have T: "st_arts T = obj_set ?k (EffectRow e) (st_arts S)" using w by (simp add: wrote_effect_def write_effect_def)
  have "effect_le f e" if f: "obj_get (st_arts S) ?k = Some (EffectRow f)" for f
  proof (cases "effect_at P S r (ef_key e)")
    case (Some old)
    with effect_atD [OF Some] f w show ?thesis by (auto simp: wrote_effect_def effect_le_def)
  next
    case None
    with w have r: "isGraphRunId (JStr r)" by (simp add: wrote_effect_def)
    have ok: "arts_ok P (fst ` set (st_runs S)) (st_arts S)" using inv inv_arts by (simp add: journal_inv_def)
    from arts_okD(2) [OF ok obj_get_in [OF f]] effect_key_row(1) [OF ok f r]
    have "graphEffectRowId P (ef_key e) = graphEffectRowId P (ef_key f)"
      by (auto simp: art_row_ok_def row_key_def row_owner_def effectRowKey_def artifactKey_def)
    then have "pt_hash P (uni (ef_key e)) = pt_hash P (uni (ef_key f))" by (simp add: graphEffectRowId_def)
    moreover have "ef_key f \<in> K" using inv f by (auto simp: journal_inv_def)
    ultimately have "ef_key e = ef_key f" using inv K by (auto simp: journal_inv_def keys_apart_def inj_on_def)
    with None f show ?thesis by (simp add: effect_at_def)
  qed
  then have "journal_le S T" by (auto simp: journal_le_def T)
  moreover have "ef_key f \<in> K" if "obj_get (st_arts T) k = Some (EffectRow f)" for k f
    using that inv K by (auto simp: T journal_inv_def split: if_splits)
  ultimately show ?thesis by blast
qed

lemma removing_not_journal: "journal_op K x \<Longrightarrow> \<not> removing (snd x)"
  by (simp add: journal_op_def)

lemma journal_step:
  assumes inv: "journal_inv P K S" and op: "journal_op K x"
  shows "journal_inv P K (exec P S x) \<and> journal_le S (exec P S x)"
proof -
  obtain m op where x: "x = (m, op)" by (cases x)
  let ?T = "exec P S (m, op)"
  have S: "store_inv P S" and ids: "list_all GRAPH_SHA256_PATTERN (marked_ids op)" and K: "effect_keys op \<subseteq> K"
    using inv op by (simp_all add: journal_inv_def journal_op_def x)
  have same: "journal_le S ?T \<and> (\<forall>k e. obj_get (st_arts ?T) k = Some (EffectRow e) \<longrightarrow> ef_key e \<in> K)"
    if "same_effects (st_arts S) (st_arts ?T)"
    using that inv same_effects_journal [OF that] by (auto simp: same_effects_def journal_inv_def)
  have "journal_le S ?T \<and> (\<forall>k e. obj_get (st_arts ?T) k = Some (EffectRow e) \<longrightarrow> ef_key e \<in> K)"
  proof (cases rule: exec_changes [of P S m op])
    case 3
    then obtain r w n where "markSuperseded r (marked_ids op) w (st_arts S, 0) = Inr (st_arts ?T, n)"
      by (auto simp: saved_def superseded_by_def)
    from same [OF supersede_effects [OF inv_arts [OF S] this ids]] show ?thesis .
  next
    case (4 a)
    from same [OF put_effects [OF S this]] show ?thesis .
  next
    case 5
    then obtain r w n where "markSuperseded r (marked_ids op) w (st_arts S, 0) = Inr (st_arts ?T, n)"
      by (auto simp: superseded_def superseded_by_def)
    from same [OF supersede_effects [OF inv_arts [OF S] this ids]] show ?thesis .
  next
    case 6
    with op show ?thesis by (simp add: journal_op_def x)
  next
    case 7
    from journaled_effects [OF inv this K] show ?thesis .
  qed (use same in \<open>auto simp: unchanged_def created_def\<close>)
  moreover have "store_inv P ?T" by (rule exec_inv [OF S])
  ultimately show ?thesis using inv by (auto simp: journal_inv_def x)
qed

interpretation journal: forward_machine "\<lambda>S x. Inr (exec P S x) :: unit + run_store" "journal_inv P K"
  "journal_op K" journal_le for P K
  by unfold_locales (auto intro: journal_le_refl journal_le_trans dest: journal_step)

text \<open>The stores operations reach.\<close>

definition store_after :: "platform \<Rightarrow> (moment \<times> store_op) list \<Rightarrow> run_store" where
  "store_after P ops = exec_all P empty_store ops"

lemma store_after_inv: "store_inv P (store_after P ops)"
  unfolding store_after_def by (rule exec_all_inv [OF store_inv_empty])

lemma journal_start: "keys_apart P K \<Longrightarrow> journal_inv P K empty_store"
  by (simp add: journal_inv_def store_inv_empty) (simp add: empty_store_def)

text \<open>What the orders say of one row.\<close>

lemma store_leD:
  assumes "store_le P S T"
  shows "obj_get (st_arts S) k = Some (ArtifactRow a) \<Longrightarrow> \<exists>b. obj_get (st_arts T) k = Some (ArtifactRow b) \<and> art_le a b"
    and "obj_get (st_runs S) k = Some x \<Longrightarrow> \<exists>y. obj_get (st_runs T) k = Some y \<and> run_le P x y"
proof -
  from assms have "row_le (obj_get (st_arts S) k) (obj_get (st_arts T) k)" unfolding store_le_def by blast
  then show "\<exists>b. obj_get (st_arts T) k = Some (ArtifactRow b) \<and> art_le a b"
    if "obj_get (st_arts S) k = Some (ArtifactRow a)"
    using that by (simp add: row_le_def)
qed (use assms in \<open>unfold store_le_def, blast\<close>)

lemma journal_leD:
  assumes "journal_le S T" and "obj_get (st_arts S) k = Some (EffectRow e)" and "ef_state e = EDone"
  shows "obj_get (st_arts T) k = Some (EffectRow e)"
proof -
  from assms(1,2) obtain f where "obj_get (st_arts T) k = Some (EffectRow f)" "effect_le e f"
    unfolding journal_le_def by blast
  with assms(3) show ?thesis by (auto simp: effect_le_def)
qed

section \<open>Saves with their marks, and pruning\<close>

text \<open>Every listed artifact is superseded afterwards, and no other row has changed.\<close>

lemma markSuperseded_marks:
  assumes "arts_ok P K arts" and "markSuperseded r is w (arts, n) = Inr (arts', n')" and "list_all GRAPH_SHA256_PATTERN is"
  shows "(\<forall>i\<in>set is. \<exists>a. obj_get arts' (artifactKey r i) = Some (ArtifactRow a) \<and> art_state a = ASuperseded)
    \<and> (\<forall>k. k \<notin> artifactKey r ` set is \<longrightarrow> obj_get arts' k = obj_get arts k)"
  using assms
proof (induction "is" arbitrary: arts n)
  case (Cons i "is")
  note ok = Cons.prems(1)
  have sha: "GRAPH_SHA256_PATTERN i" and shas: "list_all GRAPH_SHA256_PATTERN is" using Cons.prems(3) by simp_all
  from Cons.prems(2) obtain row where row: "obj_get arts (artifactKey r i) = Some row" by (cases "obj_get arts (artifactKey r i)") auto
  have rok: "art_row_ok P (artifactKey r i) row" by (rule arts_okD(2) [OF ok obj_get_in [OF row], THEN conjunct1])
  obtain a where a: "row = ArtifactRow a" "art_runId a = r"
  proof (cases row)
    case (UsageRow q u)
    with rok have "artifactKey r i = q" "isGraphRunId (JStr q)" by (auto simp: art_row_ok_def row_key_def row_owner_def)
    with artifactKey_no_run [of q r i] show ?thesis by simp
  next
    case (EffectRow e)
    with Cons.prems(2) row have "ef_runId e = r" by (simp split: if_splits)
    with rok EffectRow have "i = graphEffectRowId P (ef_key e)"
      by (simp add: art_row_ok_def row_key_def row_owner_def artifactKey_def)
    with sha effect_row_id_not_artifact show ?thesis by simp
  next
    case (OtherRow q j)
    with Cons.prems(2) row have "q = r" by (simp split: if_splits)
    with rok OtherRow sha show ?thesis by (auto simp: art_row_ok_def row_key_def row_owner_def artifactKey_def)
  qed (use Cons.prems(2) row that in \<open>simp split: if_splits\<close>)
  let ?b = "a\<lparr>art_state := ASuperseded, art_supersededBy := Some w\<rparr>"
  obtain arts1 n1 b where one: "arts_ok P K arts1" "markSuperseded r is w (arts1, n1) = Inr (arts', n')"
      "obj_get arts1 (artifactKey r i) = Some (ArtifactRow b)" "art_state b = ASuperseded"
      "\<forall>k. k \<noteq> artifactKey r i \<longrightarrow> obj_get arts1 k = obj_get arts k"
      "(\<forall>j\<in>set is. \<exists>a. obj_get arts' (artifactKey r j) = Some (ArtifactRow a) \<and> art_state a = ASuperseded)
       \<and> (\<forall>k. k \<notin> artifactKey r ` set is \<longrightarrow> obj_get arts' k = obj_get arts1 k)"
  proof (cases "art_state a = ASuperseded")
    case True
    with Cons.prems(2) row a have m: "markSuperseded r is w (arts, n) = Inr (arts', n')" by simp
    from Cons.IH [OF ok m shas] row a(1) True m ok that show ?thesis by auto
  next
    case False
    let ?arts = "obj_set (artifactKey r i) (ArtifactRow ?b) arts"
    have m: "markSuperseded r is w (?arts, n + 1) = Inr (arts', n')" using Cons.prems(2) row a False by simp
    have ok1: "arts_ok P K ?arts"
      by (rule arts_ok_supersede [OF ok, of r "[i]" w n _ "n + 1"]) (use row a False in simp)
    from Cons.IH [OF ok1 m shas] m ok1 that [of ?arts "n + 1" ?b] show ?thesis by auto
  qed
  have "row_le (obj_get arts1 (artifactKey r i)) (obj_get arts' (artifactKey r i))"
    by (rule supersede_le [OF one(2)])
  with one(3,4) have "\<exists>a. obj_get arts' (artifactKey r i) = Some (ArtifactRow a) \<and> art_state a = ASuperseded"
    by (auto simp: row_le_def art_le_def)
  with one(5,6) show ?case by auto
qed simp

text \<open>A save that commits: its record, its marks and nothing else.\<close>

definition save_commits :: "graph_run \<Rightarrow> string list \<Rightarrow> run_store \<Rightarrow> run_store \<Rightarrow> bool" where
  "save_commits c is S T \<longleftrightarrow>
     obj_get (st_runs T) (run_id c) = Some (CurrentRun c)
     \<and> (\<forall>k. k \<noteq> run_id c \<longrightarrow> obj_get (st_runs T) k = obj_get (st_runs S) k)
     \<and> (\<forall>i\<in>set is. \<exists>a. obj_get (st_arts T) (artifactKey (run_id c) i) = Some (ArtifactRow a) \<and> art_state a = ASuperseded)
     \<and> (\<forall>k. k \<notin> artifactKey (run_id c) ` set is \<longrightarrow> obj_get (st_arts T) k = obj_get (st_arts S) k)"

text \<open>Removing runs one after the other removes their records and exactly the rows they own.\<close>

lemma removals_exact:
  assumes "store_inv P S"
  shows "st_runs (fold (\<lambda>r. removeRunRows (fst r) (g r)) rs S) = filter (\<lambda>p. fst p \<notin> fst ` set rs) (st_runs S) \<and>
    st_arts (fold (\<lambda>r. removeRunRows (fst r) (g r)) rs S) = filter (\<lambda>p. row_owner (snd p) \<notin> fst ` set rs) (st_arts S)"
  using assms
proof (induction rs arbitrary: S)
  case (Cons r rs)
  let ?S = "removeRunRows (fst r) (g r) S"
  have "store_inv P ?S" by (simp add: removeRunRows_def store_inv_remove Cons.prems)
  from Cons.IH [OF this] have "st_runs (fold (\<lambda>r. removeRunRows (fst r) (g r)) rs ?S) = filter (\<lambda>p. fst p \<notin> fst ` set rs) (st_runs ?S)"
    "st_arts (fold (\<lambda>r. removeRunRows (fst r) (g r)) rs ?S) = filter (\<lambda>p. row_owner (snd p) \<notin> fst ` set rs) (st_arts ?S)"
    by simp_all
  moreover have "st_arts ?S = filter (\<lambda>p. row_owner (snd p) \<noteq> fst r) (st_arts S)"
    using remove_rows_arts [OF inv_arts [OF Cons.prems], of "fst r"] by (simp add: removeRunRows_def)
  moreover have "st_runs ?S = filter (\<lambda>p. fst p \<noteq> fst r) (st_runs S)"
    by (simp add: removeRunRows_def remove_rows_def remove_row_def)
  ultimately show ?case by (auto intro!: filter_cong)
qed simp

lemma newest_first_sorted: "sorted_wrt (\<lambda>a b. ended_key P b \<le> ended_key P a) (newest_first P rs)"
proof -
  have "sorted_wrt (\<lambda>a b. ended_key P a \<le> ended_key P b) (sort_key (ended_key P) (rev rs))"
    using sorted_sort_key [of "ended_key P" "rev rs"] by (simp add: sorted_map)
  then show ?thesis by (simp add: newest_first_def sorted_wrt_rev)
qed

lemma mset_newest_first: "mset (newest_first P rs) = mset rs"
  by (simp add: newest_first_def)

text \<open>The newest of a list and the rest.\<close>

lemma newest_first_split:
  "g \<in> set (drop n (newest_first P rs)) \<Longrightarrow> k \<in> set (take n (newest_first P rs)) \<Longrightarrow> ended_key P g \<le> ended_key P k"
  using newest_first_sorted [of P rs] sorted_wrt_append [of _ "take n (newest_first P rs)" "drop n (newest_first P rs)"]
  by (simp only: append_take_drop_id)

section \<open>A small store\<close>

definition a_hash :: string where "a_hash = replicate 64 (CHR ''a'')"

definition example_platform :: platform where
  "example_platform = \<lparr>pt_number = (\<lambda>_. [49]), pt_hash = (\<lambda>_. a_hash), pt_utc = (\<lambda>_. True), pt_guard = (\<lambda>_. True),
     pt_size = (\<lambda>_. 0), pt_planDigest = (\<lambda>_. []), pt_collate = map of_char\<rparr>"

definition example_moment :: moment where
  "example_moment = \<lparr>mo_now = ''2026'', mo_env = (\<lambda>_. EnvWritable), mo_receipt = (\<lambda>_. None)\<rparr>"

definition stored_run :: "run_status \<Rightarrow> graph_run" where
  "stored_run s = \<lparr>run_id = ''r1'', run_projectId = ''p'', run_environmentId = Some ''e'', run_template = JNull,
     run_bindings = \<lparr>rb_roles = [], rb_params = [], rb_inputs = []\<rparr>, run_launch = None, run_mockOptions = None,
     run_plan = \<lparr>plan_outputs = [], plan_nodes = [], plan_edges = [], plan_loops = [], plan_subgraphs = None,
       plan_limits = \<lparr>li_maxAgentSessions = 1, li_maxConcurrentAgents = 1, li_maxTokens = None, li_maxWallClockMs = None\<rparr>\<rparr>,
     run_status = s, run_mock = False, run_activations = [], run_rewinds = [], run_loopIterations = [],
     run_fanOuts = None, run_usage = \<lparr>us_agentSessions = 0, us_tokens = 0, us_cacheReadTokens = None\<rparr>,
     run_revision = 0, run_createdAt = ''2026'', run_updatedAt = ''2026'', run_startedAt = None,
     run_finishedAt = None, run_cancelRequestedAt = None, run_error = None, run_errorCause = None\<rparr>"

definition example_artifact :: artifact where
  "example_artifact = \<lparr>art_id = a_hash, art_digest = a_hash, art_type = ''text@1'', art_runId = ''r1'',
     art_producer = \<lparr>ap_nodeId = ''$input'', ap_activation = ''$input'', ap_port = ''goal''\<rparr>, art_inputs = [],
     art_workspace = None, art_createdAt = ''2026'', art_bytes = 4, art_body = \<lparr>ab_file = None, ab_value = Some VNull\<rparr>,
     art_itemIds = None, art_itemSources = None, art_sourceItem = None, art_state = ALive, art_supersededBy = None\<rparr>"

lemma a_hash_ok: "GRAPH_SHA256_PATTERN a_hash"
  by (simp add: GRAPH_SHA256_PATTERN_def a_hash_def hex_char_def numeral_eq_Suc)

lemma example_moment_simps: "mo_now example_moment = ''2026''" "mo_env example_moment = (\<lambda>_. EnvWritable)"
    "mo_receipt example_moment = (\<lambda>_. None)"
  by (simp_all add: example_moment_def)

lemma example_artifact_simps:
  "art_id example_artifact = a_hash" "art_digest example_artifact = a_hash" "art_type example_artifact = ''text@1''"
  "art_runId example_artifact = ''r1''" "art_inputs example_artifact = []" "art_workspace example_artifact = None"
  "art_producer example_artifact = \<lparr>ap_nodeId = ''$input'', ap_activation = ''$input'', ap_port = ''goal''\<rparr>"
  "art_createdAt example_artifact = ''2026''" "art_bytes example_artifact = 4"
  "art_body example_artifact = \<lparr>ab_file = None, ab_value = Some VNull\<rparr>"
  "art_itemIds example_artifact = None" "art_itemSources example_artifact = None" "art_sourceItem example_artifact = None"
  "art_state example_artifact = ALive" "art_supersededBy example_artifact = None"
  by (simp_all add: example_artifact_def)

lemmas example_platform_simps =
  arg_cong [OF example_platform_def, of pt_number, simplified] arg_cong [OF example_platform_def, of pt_hash, simplified]
  arg_cong [OF example_platform_def, of pt_utc, simplified] arg_cong [OF example_platform_def, of pt_guard, simplified]
  arg_cong [OF example_platform_def, of pt_size, simplified] arg_cong [OF example_platform_def, of pt_planDigest, simplified]

lemma example_inline:
  "graphArtifactInlineBytes nt \<lparr>ab_file = None, ab_value = Some VNull\<rparr> = Inr 4"
  by (simp add: graphArtifactInlineBytes_def canonicalJson_def uni_def unit_bytes_def is_high_surrogate_def)

lemma example_type: "case parseGraphTypeRef ''text@1'' of None \<Rightarrow> False | Some r \<Rightarrow> tr_depth r = 0"
  by code_simp

lemma example_keys: "GRAPH_RUN_ID_PATTERN ''r1''" "isGraphKey (JStr ''goal'')"
  by code_simp+

lemma example_put: "put_refusal example_platform example_artifact = None"
proof -
  have "validateGraphArtifact (\<lambda>_. [49]) (\<lambda>_. True) example_artifact"
    using example_type example_keys
    by (simp add: validateGraphArtifact_def example_artifact_simps a_hash_ok checkProducer_def checkBody_def
      checkItems_def GRAPH_RUN_INPUT_PRODUCER_def checkBoundedJson_def maxValueBytes_def maxReferenceBytes_def
      MIB_def uni_def unit_bytes_def is_high_surrogate_def)
  moreover obtain t where "canonicalJson (\<lambda>_. [49]) (identity_value (identity_of example_artifact a_hash)) 64 = Inr t"
    using identity_text by blast
  then have "verifyGraphArtifactIdentity (\<lambda>_. [49]) (\<lambda>_. a_hash) example_artifact = None"
    by (simp add: verifyGraphArtifactIdentity_def example_artifact_simps graphArtifactDigest_def graphArtifactId_def
      example_inline graphArtifactDigestText_def digestPayload_def canonicalJson_def)
  moreover have "graphArtifactLimitViolation (\<lambda>_. [49]) example_artifact = None"
    by (simp add: graphArtifactLimitViolation_def example_artifact_simps example_inline item_count_def over_def
      maxValueBytes_def maxArtifactInputs_def maxItemIds_def)
  ultimately show ?thesis by (simp add: put_refusal_def example_platform_simps example_artifact_simps)
qed

lemma example_footprint:
  "graphArtifactFootprint nt \<lparr>ab_file = None, ab_value = Some VNull\<rparr> = Inr \<lparr>ft_inline = 4, ft_disk = 0\<rparr>"
  by (simp add: graphArtifactFootprint_def example_inline)

lemma example_create:
  "exec_all example_platform empty_store [(example_moment, Create (stored_run s))] =
     \<lparr>st_runs = [(''r1'', CurrentRun (stored_run s\<lparr>run_revision := 1\<rparr>))], st_arts = [],
      st_announced = [(''r1'', Some ''p'', False)]\<rparr>"
  by (simp add: exec_all_def createGraphRun_def empty_store_def example_platform_def example_moment_def stored_run_def
    checkedRun_def graphRunLimitViolation_def over_def longest_error_def assertEnvironmentWritable_def announce_def
    maxActivationHistory_def maxActivations_def maxRewinds_def maxErrorChars_def maxRecordBytes_def MIB_def Let_def)

lemma exec_all_snoc: "exec_all P S (ops @ [x]) = exec P (exec_all P S ops) x"
  by (simp add: exec_all_def)

definition example_ops :: "run_status \<Rightarrow> (moment \<times> store_op) list" where
  "example_ops s = [(example_moment, Create (stored_run s)), (example_moment, Put example_artifact)]"

lemma example_put_store:
  "store_after example_platform (example_ops s) =
     \<lparr>st_runs = [(''r1'', CurrentRun (stored_run s\<lparr>run_revision := 1\<rparr>))],
      st_arts = [(''r1'', UsageRow ''r1'' \<lparr>au_artifacts = 1, au_inlineBytes = 4, au_diskBytes = 0\<rparr>),
                 (artifactKey ''r1'' a_hash, ArtifactRow example_artifact)],
      st_announced = [(''r1'', Some ''p'', False)]\<rparr>"
proof -
  have k: "artifactKey ''r1'' a_hash \<noteq> ''r1''" by (rule artifactKey_no_run) (simp add: example_keys)
  have e: "run_environmentId (stored_run s) = Some ''e''" by (simp add: stored_run_def)
  have ops: "example_ops s = [(example_moment, Create (stored_run s))] @ [(example_moment, Put example_artifact)]"
    by (simp add: example_ops_def)
  show ?thesis
    unfolding store_after_def ops exec_all_snoc example_create using k k [symmetric]
    by (simp add: putGraphArtifact_def example_put example_artifact_simps example_footprint e
      row_environment_def assertEnvironmentWritable_def example_moment_simps stored_usage_def EMPTY_USAGE_def charge_def
      over_def maxArtifactsPerRun_def maxInlineBytesPerRun_def maxDiskBytesPerRun_def MIB_def Let_def)
qed

text \<open>An effect of that run, performed.\<close>

definition example_intent :: effect_intent where
  "example_intent = \<lparr>ei_runId = ''r1'', ei_key = ''k'', ei_action = ''push'', ei_nodeId = ''n'', ei_activation = ''n'',
     ei_owner = ''o'', ei_data = None\<rparr>"

definition example_done :: effect_record where
  "example_done = (new_effect example_platform example_moment example_intent)
     \<lparr>ef_state := EDone, ef_settledAt := Some ''2026'', ef_data := None\<rparr>"

definition example_effects :: "(moment \<times> store_op) list" where
  "example_effects = [(example_moment, Create (stored_run RRunning)), (example_moment, BeginEffect example_intent),
     (example_moment, SettleEffect ''r1'' ''k'' (Performed None))]"

lemma example_effect_store:
  "getGraphEffect example_platform (store_after example_platform example_effects) ''r1'' ''k'' = Inr (Some example_done)"
proof -
  let ?r = "stored_run RRunning\<lparr>run_revision := 1\<rparr>"
  let ?S = "\<lambda>arts. \<lparr>st_runs = [(''r1'', CurrentRun ?r)], st_arts = arts, st_announced = [(''r1'', Some ''p'', False)]\<rparr>"
  let ?k = "effectRowKey example_platform ''r1'' ''k''"
  let ?e = "new_effect example_platform example_moment example_intent"
  have run: "getGraphRun example_platform (?S arts) ''r1'' = Inr (Some ?r)" for arts
    by (simp add: getGraphRun_def parseStoredRun_def example_keys example_platform_simps) (simp add: stored_run_def)
  have w: "assertRunWritable example_platform example_moment (?S []) ''r1'' = None"
    unfolding assertRunWritable_def run
    by (simp add: assertEnvironmentWritable_def example_moment_simps stored_run_def)
  have c: "checkKey ''k'' = None" by (simp add: checkKey_def GRAPH_EFFECT_MAX_KEY_CHARS_def)
  have i: "ei_runId example_intent = ''r1''" "ei_key example_intent = ''k''" "ei_data example_intent = None"
    by (simp_all add: example_intent_def)
  have e: "ef_key ?e = ''k''" "ef_runId ?e = ''r1''" "ef_state ?e = EIntended" "ef_data ?e = None"
    by (simp_all add: new_effect_def i)
  have b: "exec example_platform (?S []) (example_moment, BeginEffect example_intent) = ?S [(?k, EffectRow ?e)]"
    by (simp add: beginGraphEffect_def i c checkData_def w effect_at_def write_effect_def example_keys Let_def)
  have d: "settled_effect example_moment (Performed None) ?e = example_done"
    by (simp add: settled_effect_def example_done_def merged_data_def e example_moment_simps)
  have f: "ef_data example_done = None" "ef_key example_done = ''k''" "ef_runId example_done = ''r1''"
    using e by (simp_all add: example_done_def)
  have s: "exec example_platform (?S [(?k, EffectRow ?e)]) (example_moment, SettleEffect ''r1'' ''k'' (Performed None)) =
      ?S [(?k, EffectRow example_done)]"
    by (simp add: settleGraphEffect_def c checkData_def effect_at_def e d f write_effect_def Let_def)
  have ops: "example_effects = ([(example_moment, Create (stored_run RRunning))] @ [(example_moment, BeginEffect example_intent)])
      @ [(example_moment, SettleEffect ''r1'' ''k'' (Performed None))]"
    by (simp add: example_effects_def)
  have "store_after example_platform example_effects = ?S [(?k, EffectRow example_done)]"
    unfolding store_after_def ops exec_all_snoc example_create b s ..
  then show ?thesis by (simp add: getGraphEffect_def example_keys c effect_at_def f)
qed

section \<open>Properties\<close>

text \<open>C8. After any operations on the stores, in any order and at any times, whether they succeed or not,
  the totals kept for a run are exactly what its stored artifacts count, and within the run's three budgets.
\<close>

theorem store_budgets_exact:
  "graphArtifactUsage (store_after P ops) r = artifacts_cost P r (st_arts (store_after P ops)) \<and>
   within_budgets (graphArtifactUsage (store_after P ops) r)"
proof -
  let ?S = "store_after P ops"
  note ok = inv_arts [OF store_after_inv [of P ops]]
  have "stored_usage (obj_get (st_arts ?S) r) = EMPTY_USAGE" if r: "\<not> isGraphRunId (JStr r)"
  proof (cases "obj_get (st_arts ?S) r")
    case (Some x)
    from arts_okD(2) [OF ok obj_get_in [OF Some]] usage_row_key(1) [OF ok Some] r
    have "\<not> is_usage x" by (auto simp: art_row_ok_def)
    with Some show ?thesis by (cases x) (auto simp: stored_usage_def is_usage_def)
  qed (simp add: stored_usage_def)
  then have "graphArtifactUsage ?S r = stored_usage (obj_get (st_arts ?S) r)"
    by (simp add: graphArtifactUsage_def)
  then show ?thesis using arts_okD(3,4) [OF ok, of r] by simp
qed

text \<open>C13. A stored artifact is never rewritten: whatever runs, artifacts and effects are written after it,
  as long as no run is removed, its row keeps it as it is but for the mark of the first rewind that
  superseded it, and its digest, id and size still follow from its content.
\<close>

theorem artifacts_never_rewritten:
  assumes "list_all (\<lambda>x. \<not> removing (snd x)) later"
    and "obj_get (st_arts (store_after P ops)) k = Some (ArtifactRow a)"
  shows "\<exists>b. obj_get (st_arts (store_after P (ops @ later))) k = Some (ArtifactRow b) \<and>
    (b = a \<or> art_state a = ALive \<and> (\<exists>w. b = a\<lparr>art_state := ASuperseded, art_supersededBy := Some w\<rparr>)) \<and>
    verifyGraphArtifactIdentity (pt_number P) (pt_hash P) b = None"
proof -
  have "store_le P (store_after P ops) (store_after P (ops @ later))"
    using exec_all_le [OF store_after_inv [of P ops] assms(1)] by (simp add: store_after_def exec_all_append)
  with assms(2) obtain b where b: "obj_get (st_arts (store_after P (ops @ later))) k = Some (ArtifactRow b)" "art_le a b"
    using store_leD(1) by blast
  have "art_state a \<noteq> ASuperseded \<longleftrightarrow> art_state a = ALive" by (cases "art_state a") auto
  moreover have "verifyGraphArtifactIdentity (pt_number P) (pt_hash P) b = None"
    using arts_okD(2) [OF inv_arts [OF store_after_inv] obj_get_in [OF b(1)]] by (simp add: art_row_ok_def)
  ultimately show ?thesis using b by (auto simp: art_le_def)
qed

theorem artifacts_never_rewritten_witness:
  "\<exists>b. obj_get (st_arts (store_after example_platform
        (example_ops RRunning @ [(example_moment, Supersede ''r1'' [a_hash] ''w'')]))) (artifactKey ''r1'' a_hash) = Some (ArtifactRow b) \<and>
    (b = example_artifact \<or> art_state example_artifact = ALive \<and>
       (\<exists>w. b = example_artifact\<lparr>art_state := ASuperseded, art_supersededBy := Some w\<rparr>)) \<and>
    verifyGraphArtifactIdentity (pt_number example_platform) (pt_hash example_platform) b = None"
proof (rule artifacts_never_rewritten)
  have "artifactKey ''r1'' a_hash \<noteq> ''r1''" by (rule artifactKey_no_run) (simp add: example_keys)
  then show "obj_get (st_arts (store_after example_platform (example_ops RRunning))) (artifactKey ''r1'' a_hash) =
      Some (ArtifactRow example_artifact)" by (simp add: example_put_store)
qed simp

text \<open>C10. No update of a run is lost: as long as no run is removed, a stored record stays as it is or gives way to one of a
  later revision, in the same project, with the same frozen plan and in the environment it had once it
  had one.
\<close>

theorem run_revisions_linear:
  assumes "list_all (\<lambda>x. \<not> removing (snd x)) later"
    and "obj_get (st_runs (store_after P ops)) k = Some (CurrentRun r)"
  shows "\<exists>c. obj_get (st_runs (store_after P (ops @ later))) k = Some (CurrentRun c) \<and>
    (c = r \<or> run_revision r < run_revision c \<and> pt_planDigest P (run_plan c) = pt_planDigest P (run_plan r)
       \<and> run_projectId c = run_projectId r \<and> run_environmentId r \<in> {None, run_environmentId c})"
proof -
  have "store_le P (store_after P ops) (store_after P (ops @ later))"
    using exec_all_le [OF store_after_inv [of P ops] assms(1)] by (simp add: store_after_def exec_all_append)
  with assms(2) obtain y where y: "obj_get (st_runs (store_after P (ops @ later))) k = Some y" "run_le P (CurrentRun r) y"
    using store_leD(2) by blast
  then show ?thesis by (auto simp: run_le_def row_stub_def)
qed

theorem run_revisions_linear_witness:
  "\<exists>c. obj_get (st_runs (store_after example_platform
        (example_ops RRunning @ [(example_moment, Save (stored_run RComplete) 1 None)]))) ''r1'' = Some (CurrentRun c) \<and>
    (c = stored_run RRunning\<lparr>run_revision := 1\<rparr> \<or>
     run_revision (stored_run RRunning\<lparr>run_revision := 1\<rparr>) < run_revision c \<and>
     pt_planDigest example_platform (run_plan c) =
       pt_planDigest example_platform (run_plan (stored_run RRunning\<lparr>run_revision := 1\<rparr>)) \<and>
     run_projectId c = run_projectId (stored_run RRunning\<lparr>run_revision := 1\<rparr>) \<and>
     run_environmentId (stored_run RRunning\<lparr>run_revision := 1\<rparr>) \<in> {None, run_environmentId c})"
  by (rule run_revisions_linear) (simp_all add: example_put_store)

text \<open>C11. A side effect recorded as done is performed once: whatever is written after it, its record stays
  as it is, and beginning it again replays that record and writes nothing.
\<close>

theorem done_effect_is_final:
  assumes "keys_apart P K" and "list_all (journal_op K) (ops @ later)"
    and "getGraphEffect P (store_after P ops) r key = Inr (Some e)" and "ef_state e = EDone"
    and "ei_runId i = r" and "ei_key i = key"
  shows "getGraphEffect P (store_after P (ops @ later)) r key = Inr (Some e) \<and>
    fst (beginGraphEffect P m i (store_after P (ops @ later))) = store_after P (ops @ later) \<and>
    (case snd (beginGraphEffect P m i (store_after P (ops @ later))) of
       Inl err \<Rightarrow> True | Inr (f, found) \<Rightarrow> f = e \<and> found = Some (EDone, ef_owner e))"
proof -
  let ?S = "store_after P ops" and ?T = "store_after P (ops @ later)"
  have ops: "list_all (journal_op K) ops" and later: "list_all (journal_op K) later"
    using assms(2) by simp_all
  have inv: "journal_inv P K ?S"
    unfolding store_after_def by (rule journal.run_inv [OF journal_start [OF assms(1)] ops run_steps_exec])
  have le: "journal_le ?S ?T"
    using journal.run_le [OF inv later run_steps_exec] by (simp add: store_after_def exec_all_append)
  have S: "effect_at P ?S r key = Some e" "ef_runId e = r"
    and g: "isGraphRunId (JStr r)" "checkKey key = None"
    using assms(3) by (auto simp: getGraphEffect_def split: if_splits option.splits)
  from effect_atD [OF S(1)] have e: "obj_get (st_arts ?S) (effectRowKey P r key) = Some (EffectRow e)" "ef_key e = key"
    by auto
  have T: "effect_at P ?T r key = Some e"
    using journal_leD [OF le e(1) assms(4)] e(2) by (simp add: effect_at_def)
  then have "getGraphEffect P ?T r key = Inr (Some e)" using S(2) g by (simp add: getGraphEffect_def)
  then show ?thesis
    using T assms(4-6) by (auto simp: beginGraphEffect_def split: option.split)
qed

theorem done_effect_is_final_witness:
  "getGraphEffect example_platform (store_after example_platform (example_effects @ [(example_moment, BeginEffect example_intent)]))
     ''r1'' ''k'' = Inr (Some example_done)"
  by (rule done_effect_is_final [where K = "{''k''}" and i = example_intent and m = example_moment
        and ops = example_effects, OF _ _ example_effect_store, THEN conjunct1])
    (simp_all add: keys_apart_def journal_op_def example_effects_def example_intent_def example_done_def)

text \<open>C15. A save with the marks of its rewind is all or nothing: either neither table changes, or the record
  is stored at the next revision, every listed artifact is superseded, and no other row of either table
  has changed; only the coordinators' receipt can refuse after that.
\<close>

theorem save_and_marks_together:
  assumes "list_all GRAPH_SHA256_PATTERN is"
    and "saveGraphRun P m run n (Some (w, is)) (store_after P ops) = (T, res)"
  shows "T = store_after P ops \<and> (\<exists>e. res = Inl e) \<or>
    save_commits (run\<lparr>run_revision := n + 1, run_updatedAt := mo_now m\<rparr>) is (store_after P ops) T \<and>
    res = (case mo_receipt m (CurrentRun (run\<lparr>run_revision := n + 1, run_updatedAt := mo_now m\<rparr>)) of
             Some e \<Rightarrow> Inl e | None \<Rightarrow> Inr (run\<lparr>run_revision := n + 1, run_updatedAt := mo_now m\<rparr>))"
proof -
  define c where "c = run\<lparr>run_revision := n + 1, run_updatedAt := mo_now m\<rparr>"
  let ?S = "store_after P ops"
  let ?T = "\<lambda>arts. announce (run_id c) (Some (run_projectId c)) False
      (?S\<lparr>st_runs := obj_set (run_id c) (CurrentRun c) (st_runs ?S), st_arts := arts\<rparr>)"
  have commits: "save_commits c is ?S (?T arts)" if "markSuperseded (run_id c) is w (st_arts ?S, 0) = Inr (arts, k)" for arts k
    using markSuperseded_marks [OF inv_arts [OF store_after_inv] that assms(1)] by (simp add: save_commits_def)
  have "T = ?S \<and> (\<exists>e. res = Inl e) \<or>
    (\<exists>arts k. markSuperseded (run_id c) is w (st_arts ?S, 0) = Inr (arts, k) \<and> T = ?T arts \<and>
      res = (case mo_receipt m (CurrentRun c) of Some e \<Rightarrow> Inl e | None \<Rightarrow> Inr c))"
    using assms(2) unfolding saveGraphRun_def c_def [symmetric] Let_def
    by (simp split: if_splits option.splits sum.splits prod.splits) blast+
  with commits show ?thesis unfolding c_def by blast
qed

theorem save_and_marks_together_witness:
  "\<exists>T res. saveGraphRun example_platform example_moment (stored_run RRunning) 1 (Some (''w'', [a_hash]))
      (store_after example_platform (example_ops RRunning)) = (T, res) \<and>
    (T = store_after example_platform (example_ops RRunning) \<and> (\<exists>e. res = Inl e) \<or>
     save_commits (stored_run RRunning\<lparr>run_revision := 1 + 1, run_updatedAt := mo_now example_moment\<rparr>) [a_hash]
       (store_after example_platform (example_ops RRunning)) T)"
proof -
  obtain T res where save: "saveGraphRun example_platform example_moment (stored_run RRunning) 1 (Some (''w'', [a_hash]))
      (store_after example_platform (example_ops RRunning)) = (T, res)"
    by (cases "saveGraphRun example_platform example_moment (stored_run RRunning) 1 (Some (''w'', [a_hash]))
      (store_after example_platform (example_ops RRunning))")
  from save_and_marks_together [OF _ save] a_hash_ok save show ?thesis by auto
qed

text \<open>Pruning an environment removes its oldest finished runs beyond the number to keep: their records
  and exactly the artifacts, effects and totals they own, and nothing else.
\<close>

theorem prune_keeps_newest:
  assumes "pruneFinishedGraphRuns P m e keep (store_after P ops) = (T, Inr ids)"
  shows "\<exists>gone kept. mset (finished_runs P e (store_after P ops)) = mset gone + mset kept \<and> ids = map fst gone \<and>
    int (length kept) = min keep (int (length (finished_runs P e (store_after P ops)))) \<and>
    (\<forall>g\<in>set gone. \<forall>k\<in>set kept. ended_key P g \<le> ended_key P k) \<and>
    st_runs T = filter (\<lambda>p. fst p \<notin> set ids) (st_runs (store_after P ops)) \<and>
    st_arts T = filter (\<lambda>p. row_owner (snd p) \<notin> set ids) (st_arts (store_after P ops))"
proof -
  let ?S = "store_after P ops"
  let ?rs = "finished_runs P e ?S"
  have keep: "0 \<le> keep" using assms by (auto simp: pruneFinishedGraphRuns_def split: if_splits)
  show ?thesis
  proof (cases "int (length ?rs) \<le> keep")
    case True
    with assms have "T = ?S" "ids = []" by (auto simp: pruneFinishedGraphRuns_def Let_def split: if_splits)
    with True show ?thesis by (intro exI [of _ "[]"] exI [of _ ?rs]) simp
  next
    case False
    let ?ns = "newest_first P ?rs"
    let ?gone = "drop (nat keep) ?ns"
    from False assms have T: "T = fold (\<lambda>r. removeRunRows (fst r) (row_stub P (snd r))) ?gone ?S" "ids = map fst ?gone"
      by (auto simp: pruneFinishedGraphRuns_def Let_def split: if_splits option.splits)
    have n: "length ?ns = length ?rs" using mset_newest_first [of P ?rs] by (metis size_mset)
    have "mset ?rs = mset ?gone + mset (take (nat keep) ?ns)"
      by (metis append_take_drop_id mset_append mset_newest_first union_commute)
    then show ?thesis
      using removals_exact [OF store_after_inv [of P ops], of "\<lambda>r. row_stub P (snd r)" ?gone] newest_first_split [of _ "nat keep" P ?rs]
        n keep False
      by (intro exI [of _ ?gone] exI [of _ "take (nat keep) ?ns"]) (simp add: T)
  qed
qed

theorem prune_keeps_newest_witness:
  "\<exists>gone kept. mset (finished_runs example_platform ''e'' (store_after example_platform (example_ops RComplete))) =
      mset gone + mset kept \<and> [''r1''] = map fst gone \<and> int (length kept) = 0"
proof -
  let ?S = "store_after example_platform (example_ops RComplete)"
  let ?row = "CurrentRun (stored_run RComplete\<lparr>run_revision := 1\<rparr>)"
  have r: "row_stub example_platform ?row = \<lparr>rx_id = Some ''r1'', rx_revision = Some 1, rx_planDigest = Some [],
      rx_projectId = Some ''p'', rx_environmentId = Some ''e'', rx_status = Some ''complete'', rx_finishedAt = None,
      rx_updatedAt = Some ''2026'', rx_createdAt = Some ''2026''\<rparr>"
    by (simp add: row_stub_def stored_run_def example_platform_simps)
  have e: "row_environment ?row = Some ''e''" by (simp add: row_environment_def stored_run_def)
  have f: "finished_runs example_platform ''e'' ?S = [(''r1'', ?row)]"
    unfolding finished_runs_def owned_runs_def example_put_store
    by (simp add: List.map_filter_def e r example_keys GRAPH_RUN_TERMINAL_STATUSES_def)
  have t: "trim ''e'' = ''e''" by code_simp
  have "snd (pruneFinishedGraphRuns example_platform example_moment ''e'' 0 ?S) = Inr [''r1'']"
    by (simp add: pruneFinishedGraphRuns_def t f newest_first_def example_moment_simps Let_def)
  then obtain T where "pruneFinishedGraphRuns example_platform example_moment ''e'' 0 ?S = (T, Inr [''r1''])"
    by (cases "pruneFinishedGraphRuns example_platform example_moment ''e'' 0 ?S") simp
  from prune_keeps_newest [OF this] show ?thesis by (auto simp: f)
qed

end
