(* ===== verification/Json_Schema.thy ===== *)
theory Json_Schema
  imports Field_Checks
begin

text \<open>
  The bounded validator for the JSON Schema subset of workflow results and graph types
  (\<^verbatim>\<open>packages/protocol/src/workflow-json-schema.ts\<close>), what a schema means without its bounds, and that
  the validator answers exactly that for schemas nested within its depth.

  Schemas and values are parsed JSON: \<open>JOther\<close> is a value without fields, such as a function. Two objects
  are never the same object. The keywords read are no names of inherited members. Issues carry their path
  and code; their messages are left out.
\<close>

section \<open>Reading dynamic values\<close>

text \<open>An own property; \<open>JUndef\<close> when there is none.\<close>

definition js_prop :: "js \<Rightarrow> string \<Rightarrow> js" where
  "js_prop v k = (case v of JObj ps \<Rightarrow> (case obj_get ps k of None \<Rightarrow> JUndef | Some x \<Rightarrow> x) | _ \<Rightarrow> JUndef)"

definition obj_members :: "js \<Rightarrow> (string \<times> js) list" where
  "obj_members v = (case v of JObj ps \<Rightarrow> ps | _ \<Rightarrow> [])"

definition js_falsy :: "js \<Rightarrow> bool" where
  "js_falsy v \<longleftrightarrow> v = JUndef \<or> v = JNull \<or> v = JBool False \<or> v = JNum (Fin 0) \<or> v = JNum NaN \<or> v = JStr []"

text \<open>\<open>===\<close>, and the equality of \<open>includes\<close>.\<close>

definition strict_equal :: "js \<Rightarrow> js \<Rightarrow> bool" where
  "strict_equal a b \<longleftrightarrow>
     (case a of JArr _ \<Rightarrow> False | JObj _ \<Rightarrow> False | JOther \<Rightarrow> False | JNum NaN \<Rightarrow> False | _ \<Rightarrow> a = b)"

definition same_value_zero :: "js \<Rightarrow> js \<Rightarrow> bool" where
  "same_value_zero a b \<longleftrightarrow> strict_equal a b \<or> (a = JNum NaN \<and> b = JNum NaN)"

text \<open>\<open><\<close> on numbers.\<close>

fun num_below :: "jsnum \<Rightarrow> jsnum \<Rightarrow> bool" where
  "num_below NaN y = False"
| "num_below x NaN = False"
| "num_below (Fin p) (Fin q) = (p < q)"
| "num_below NegInf y = (y \<noteq> NegInf)"
| "num_below x PosInf = (x \<noteq> PosInf)"
| "num_below x y = False"

text \<open>\<open>typeof bound === "number" && n < bound\<close>, and the same from above.\<close>

definition under_bound :: "jsnum \<Rightarrow> js \<Rightarrow> bool" where
  "under_bound n bound = (case bound of JNum b \<Rightarrow> num_below n b | _ \<Rightarrow> False)"

definition over_bound :: "jsnum \<Rightarrow> js \<Rightarrow> bool" where
  "over_bound n bound = (case bound of JNum b \<Rightarrow> num_below b n | _ \<Rightarrow> False)"

definition string_list :: "js \<Rightarrow> string list" where
  "string_list v = (case v of JArr xs \<Rightarrow> List.map_filter (\<lambda>x. case x of JStr s \<Rightarrow> Some s | _ \<Rightarrow> None) xs | _ \<Rightarrow> [])"

section \<open>The validator\<close>

definition SCHEMA_MAX_ISSUES :: nat where "SCHEMA_MAX_ISSUES = 32"
definition SCHEMA_MAX_DEPTH :: nat where "SCHEMA_MAX_DEPTH = 32"
definition SCHEMA_MAX_ARRAY_ITEMS :: nat where "SCHEMA_MAX_ARRAY_ITEMS = 4096"

record schema_issue =
  si_path :: string
  si_code :: string

definition schema_issue_at :: "string \<Rightarrow> string \<Rightarrow> schema_issue" where
  "schema_issue_at path code = \<lparr>si_path = take 256 path, si_code = code\<rparr>"

definition schemaTypeMatches :: "js \<Rightarrow> js \<Rightarrow> bool" where
  "schemaTypeMatches ty v \<longleftrightarrow>
     (if ty = JStr ''object'' then (case v of JObj _ \<Rightarrow> True | _ \<Rightarrow> False)
      else if ty = JStr ''array'' then (case v of JArr _ \<Rightarrow> True | _ \<Rightarrow> False)
      else if ty = JStr ''string'' then (case v of JStr _ \<Rightarrow> True | _ \<Rightarrow> False)
      else if ty = JStr ''number'' then (case v of JNum (Fin _) \<Rightarrow> True | _ \<Rightarrow> False)
      else if ty = JStr ''integer'' then (case v of JNum (Fin q) \<Rightarrow> safe_integer_number q | _ \<Rightarrow> False)
      else if ty = JStr ''boolean'' then (case v of JBool _ \<Rightarrow> True | _ \<Rightarrow> False)
      else if ty = JStr ''null'' then v = JNull
      else True)"

text \<open>The constraints on a number's range, a text's length and a list's length, each with its code.\<close>

definition range_codes :: "js \<Rightarrow> js \<Rightarrow> string list" where
  "range_codes s v =
     (case v of
        JNum n \<Rightarrow> (if under_bound n (js_prop s ''minimum'') then [''too_small''] else [])
          @ (if over_bound n (js_prop s ''maximum'') then [''too_large''] else [])
      | JStr t \<Rightarrow>
          (if under_bound (Fin (of_nat (length t))) (js_prop s ''minLength'') then [''too_short''] else [])
          @ (if over_bound (Fin (of_nat (length t))) (js_prop s ''maxLength'') then [''too_long''] else [])
      | _ \<Rightarrow> [])"

definition count_codes :: "js \<Rightarrow> nat \<Rightarrow> string list" where
  "count_codes s n =
     (if under_bound (Fin (of_nat n)) (js_prop s ''minItems'') then [''too_few_items''] else [])
     @ (if over_bound (Fin (of_nat n)) (js_prop s ''maxItems'') then [''too_many_items''] else [])"

text \<open>Missing and unknown fields of an object.\<close>

definition field_issues :: "js \<Rightarrow> (string \<times> js) list \<Rightarrow> string \<Rightarrow> schema_issue list" where
  "field_issues s vs path =
     map (\<lambda>k. schema_issue_at (path @ ''.'' @ k) ''missing_field'')
       (filter (\<lambda>k. obj_get vs k = None) (string_list (js_prop s ''required'')))
     @ (if js_prop s ''additionalProperties'' = JBool False
        then map (\<lambda>k. schema_issue_at (path @ ''.'' @ k) ''unknown_field'')
               (filter (\<lambda>k. obj_get (obj_members (js_prop s ''properties'')) k = None) (map fst vs))
        else [])"

text \<open>\<open>Array.isArray\<close>, with the elements.\<close>

definition js_array :: "js \<Rightarrow> js list option" where
  "js_array v = (case v of JArr xs \<Rightarrow> Some xs | _ \<Rightarrow> None)"

lemma js_array_Some [simp]: "js_array v = Some xs \<longleftrightarrow> v = JArr xs"
  by (cases v) (auto simp: js_array_def)

lemma js_array_JArr [simp]: "js_array (JArr xs) = Some xs"
  by (simp add: js_array_def)

lemma js_array_None: "js_array v = None \<longleftrightarrow> (\<forall>xs. v \<noteq> JArr xs)"
  by (cases v) (auto simp: js_array_def)

text \<open>The refusals of \<open>const\<close>, \<open>enum\<close> and \<open>type\<close>, which end the visit.\<close>

definition scalar_refusal :: "js \<Rightarrow> js \<Rightarrow> string option" where
  "scalar_refusal s v =
     (if js_prop s ''const'' \<noteq> JUndef \<and> \<not> strict_equal v (js_prop s ''const'') then Some ''invalid_value''
      else if (case js_array (js_prop s ''enum'') of Some es \<Rightarrow> \<not> list_ex (same_value_zero v) es | None \<Rightarrow> False)
      then Some ''invalid_enum''
      else if \<not> schemaTypeMatches (js_prop s ''type'') v then Some ''invalid_type''
      else None)"

lemma size_member: "(k, x) \<in> set ps \<Longrightarrow> size x < size (JObj ps)"
  using size_list_estimation' [of "(k, x)" ps "size_prod (\<lambda>_. 0) size (k, x)" "size_prod (\<lambda>_. 0) size"] by simp

lemma size_members: "(k, x) \<in> set (obj_members v) \<Longrightarrow> size x < size v"
  by (cases v) (auto simp: obj_members_def dest: size_member)

lemma js_prop_in: "js_prop v k \<noteq> JUndef \<Longrightarrow> (k, js_prop v k) \<in> set (obj_members v)"
  by (cases v) (auto simp: js_prop_def obj_members_def obj_get_def dest: map_of_SomeD split: option.splits)

lemma size_prop: "js_prop v k \<noteq> JUndef \<Longrightarrow> size (js_prop v k) < size v"
  by (rule size_members [OF js_prop_in])

lemma size_alternative: "js_prop v k = JArr xs \<Longrightarrow> x \<in> set xs \<Longrightarrow> size x < size v"
  using size_prop [of v k] size_list_estimation' [of x xs "size x" size] by auto

lemma size_property: "(k, x) \<in> set (obj_members (js_prop v p)) \<Longrightarrow> size x < size v"
  using size_members [of k x "js_prop v p"] size_prop [of v p] by (cases "js_prop v p = JUndef") (auto simp: obj_members_def)

text \<open>
  \<open>visit\<close>: the issues so far with those of a schema, a value, its path and its depth. An alternative of
  an \<open>anyOf\<close> is validated on its own.
\<close>

function schema_visit :: "js \<Rightarrow> js \<Rightarrow> string \<Rightarrow> nat \<Rightarrow> schema_issue list \<Rightarrow> schema_issue list" where
  "schema_visit s v path depth found =
     (if length found \<ge> SCHEMA_MAX_ISSUES then found
      else if depth > SCHEMA_MAX_DEPTH then found @ [schema_issue_at path ''too_deep'']
      else if \<not> isPlainRecord s then found
      else case js_array (js_prop s ''anyOf'') of
        Some alternatives \<Rightarrow>
          if list_ex (\<lambda>a. js_falsy a \<or> take SCHEMA_MAX_ISSUES (schema_visit a v ''$'' 0 []) = []) alternatives
          then found else found @ [schema_issue_at path ''invalid_type'']
      | None \<Rightarrow>
        (case scalar_refusal s v of
          Some code \<Rightarrow> found @ [schema_issue_at path code]
        | None \<Rightarrow>
            (let found = found @ map (schema_issue_at path) (range_codes s v) in
             case (if js_prop s ''items'' = JUndef then None else js_array v) of
               Some xs \<Rightarrow>
                 fold (\<lambda>(i, x) found.
                     if js_prop s ''items'' = JUndef then found
                     else schema_visit (js_prop s ''items'') x (joinIndex path (int i)) (depth + 1) found)
                   (enumerate 0 (take SCHEMA_MAX_ARRAY_ITEMS xs))
                   (found @ map (schema_issue_at path) (count_codes s (length xs)))
                 @ (if length xs > SCHEMA_MAX_ARRAY_ITEMS then [schema_issue_at path ''too_many_items''] else [])
             | None \<Rightarrow>
                 if \<not> isPlainRecord v then found
                 else
                   fold (\<lambda>(k, p) found.
                       case obj_get (obj_members v) k of
                         None \<Rightarrow> found
                       | Some x \<Rightarrow> schema_visit p x (path @ ''.'' @ k) (depth + 1) found)
                     (obj_members (js_prop s ''properties''))
                     (found @ field_issues s (obj_members v) path))))"
  by pat_completeness auto
termination
  by (relation "measure (\<lambda>(s, v, path, depth, found). size s)")
    (auto dest: size_alternative size_property intro: size_prop)

declare schema_visit.simps [simp del]

definition validateWorkflowJsonSchema :: "js \<Rightarrow> js \<Rightarrow> schema_issue list" where
  "validateWorkflowJsonSchema s v =
     (if js_falsy s then [] else take SCHEMA_MAX_ISSUES (schema_visit s v ''$'' 0 []))"

section \<open>What a schema means\<close>

text \<open>The constraints as predicates: the literals, the range of a number or a text's length, the length of a list, the fields.\<close>

definition literal_ok :: "js \<Rightarrow> js \<Rightarrow> bool" where
  "literal_ok s v \<longleftrightarrow> (js_prop s ''const'' = JUndef \<or> strict_equal v (js_prop s ''const''))
     \<and> (case js_array (js_prop s ''enum'') of None \<Rightarrow> True | Some es \<Rightarrow> \<exists>e\<in>set es. same_value_zero v e)"

definition in_bounds :: "jsnum \<Rightarrow> js \<Rightarrow> js \<Rightarrow> bool" where
  "in_bounds n lower upper \<longleftrightarrow> \<not> under_bound n lower \<and> \<not> over_bound n upper"

definition range_ok :: "js \<Rightarrow> js \<Rightarrow> bool" where
  "range_ok s v = (case v of
     JNum n \<Rightarrow> in_bounds n (js_prop s ''minimum'') (js_prop s ''maximum'')
   | JStr t \<Rightarrow> in_bounds (Fin (of_nat (length t))) (js_prop s ''minLength'') (js_prop s ''maxLength'')
   | _ \<Rightarrow> True)"

definition count_ok :: "js \<Rightarrow> nat \<Rightarrow> bool" where
  "count_ok s n \<longleftrightarrow> in_bounds (Fin (of_nat n)) (js_prop s ''minItems'') (js_prop s ''maxItems'')"

definition fields_ok :: "js \<Rightarrow> (string \<times> js) list \<Rightarrow> bool" where
  "fields_ok s vs \<longleftrightarrow> (\<forall>k\<in>set (string_list (js_prop s ''required'')). k \<in> fst ` set vs)
     \<and> (js_prop s ''additionalProperties'' = JBool False \<longrightarrow>
          fst ` set vs \<subseteq> fst ` set (obj_members (js_prop s ''properties'')))"

text \<open>The values a schema accepts, without depth, paths or a limit on issues.\<close>

function accepts :: "js \<Rightarrow> js \<Rightarrow> bool" where
  "accepts s v \<longleftrightarrow>
     (if \<not> isPlainRecord s then True
      else case js_array (js_prop s ''anyOf'') of
        Some alternatives \<Rightarrow> list_ex (\<lambda>a. accepts a v) alternatives
      | None \<Rightarrow>
          literal_ok s v \<and> schemaTypeMatches (js_prop s ''type'') v \<and> range_ok s v
          \<and> (case (if js_prop s ''items'' = JUndef then None else js_array v) of
               Some xs \<Rightarrow> count_ok s (length xs) \<and> length xs \<le> SCHEMA_MAX_ARRAY_ITEMS
                 \<and> list_all (\<lambda>x. js_prop s ''items'' \<noteq> JUndef \<longrightarrow> accepts (js_prop s ''items'') x) xs
             | None \<Rightarrow> isPlainRecord v \<longrightarrow>
                 fields_ok s (obj_members v)
                 \<and> list_all (\<lambda>(k, p). case obj_get (obj_members v) k of None \<Rightarrow> True | Some x \<Rightarrow> accepts p x)
                     (obj_members (js_prop s ''properties''))))"
  by pat_completeness auto
termination
  by (relation "measure (\<lambda>(s, v). size s)") (auto dest: size_alternative size_property intro: size_prop)

declare accepts.simps [simp del]

lemma field_issues_ok: "field_issues s vs path = [] \<longleftrightarrow> fields_ok s vs"
  by (auto simp: field_issues_def fields_ok_def filter_empty_conv obj_get_None_iff)

lemma field_issues_path: "field_issues s vs path = [] \<longleftrightarrow> field_issues s vs [] = []"
  by (simp add: field_issues_ok)

lemma refusal_ok: "scalar_refusal s v = None \<longleftrightarrow> literal_ok s v \<and> schemaTypeMatches (js_prop s ''type'') v"
  by (cases "js_array (js_prop s ''enum'')") (simp_all add: scalar_refusal_def literal_ok_def list_ex_iff)

lemma range_codes_ok: "range_codes s v = [] \<longleftrightarrow> range_ok s v"
  by (simp add: range_codes_def range_ok_def in_bounds_def split: js.split)

lemma count_codes_ok: "count_codes s n = [] \<longleftrightarrow> count_ok s n"
  by (simp add: count_codes_def count_ok_def in_bounds_def)

text \<open>Acceptance by the validator's own tests.\<close>

lemma accepts_tests:
  "accepts s v \<longleftrightarrow>
     (if \<not> isPlainRecord s then True
      else case js_array (js_prop s ''anyOf'') of
        Some alternatives \<Rightarrow> list_ex (\<lambda>a. accepts a v) alternatives
      | None \<Rightarrow>
          scalar_refusal s v = None \<and> range_codes s v = []
          \<and> (case (if js_prop s ''items'' = JUndef then None else js_array v) of
               Some xs \<Rightarrow> count_codes s (length xs) = [] \<and> length xs \<le> SCHEMA_MAX_ARRAY_ITEMS
                 \<and> list_all (\<lambda>x. js_prop s ''items'' \<noteq> JUndef \<longrightarrow> accepts (js_prop s ''items'') x) xs
             | None \<Rightarrow> isPlainRecord v \<longrightarrow>
                 field_issues s (obj_members v) [] = []
                 \<and> list_all (\<lambda>(k, p). case obj_get (obj_members v) k of None \<Rightarrow> True | Some x \<Rightarrow> accepts p x)
                     (obj_members (js_prop s ''properties''))))"
  unfolding field_issues_ok refusal_ok range_codes_ok count_codes_ok conj_assoc by (rule accepts.simps)

section \<open>The validator is exact\<close>

text \<open>Folds of steps that only append.\<close>

definition appends :: "('x \<Rightarrow> 'y list \<Rightarrow> 'y list) \<Rightarrow> 'x \<Rightarrow> bool" where
  "appends f x \<longleftrightarrow> (\<forall>a. \<exists>ys. f x a = a @ ys)"

lemma appendsE: "appends f x \<Longrightarrow> (\<And>ys. f x a = a @ ys \<Longrightarrow> thesis) \<Longrightarrow> thesis"
  unfolding appends_def by blast

lemma fold_appends: "\<forall>x\<in>set xs. appends f x \<Longrightarrow> \<exists>ys. fold f xs a = a @ ys"
proof (induction xs arbitrary: a)
  case (Cons x xs)
  then have "appends f x" by simp
  then obtain ys where "f x a = a @ ys" by (rule appendsE)
  moreover have "\<exists>zs. fold f xs (a @ ys) = (a @ ys) @ zs" by (rule Cons.IH) (use Cons.prems in simp)
  ultimately show ?case by auto
qed simp

lemma fold_silent: "\<forall>x\<in>set xs. appends f x \<Longrightarrow> fold f xs a = a \<longleftrightarrow> (\<forall>x\<in>set xs. f x a = a)"
proof (induction xs)
  case (Cons x xs)
  then have "appends f x" by simp
  then obtain ys where x: "f x a = a @ ys" by (rule appendsE)
  have "\<exists>zs. fold f xs (a @ ys) = (a @ ys) @ zs" by (rule fold_appends) (use Cons.prems in simp)
  with x Cons show ?case by (cases "ys = []") auto
qed simp

text \<open>The steps of the two folds of a visit.\<close>

definition item_step :: "js \<Rightarrow> string \<Rightarrow> nat \<Rightarrow> nat \<times> js \<Rightarrow> schema_issue list \<Rightarrow> schema_issue list" where
  "item_step s path depth = (\<lambda>(i, x) found. if js_prop s ''items'' = JUndef then found
     else schema_visit (js_prop s ''items'') x (joinIndex path (int i)) (depth + 1) found)"

definition property_step :: "js \<Rightarrow> string \<Rightarrow> nat \<Rightarrow> string \<times> js \<Rightarrow> schema_issue list \<Rightarrow> schema_issue list" where
  "property_step v path depth = (\<lambda>(k, p) found. case obj_get (obj_members v) k of
     None \<Rightarrow> found | Some x \<Rightarrow> schema_visit p x (path @ ''.'' @ k) (depth + 1) found)"

lemma visit_more [simp]: "SCHEMA_MAX_ISSUES \<le> length found \<Longrightarrow> schema_visit s v path depth found = found"
  by (subst schema_visit.simps) simp

text \<open>A visit within its limits.\<close>

lemma visit_unfold:
  assumes "length found < SCHEMA_MAX_ISSUES" and "depth \<le> SCHEMA_MAX_DEPTH"
  shows "schema_visit s v path depth found =
    (if \<not> isPlainRecord s then found
     else case js_array (js_prop s ''anyOf'') of
       Some alternatives \<Rightarrow>
         if list_ex (\<lambda>a. js_falsy a \<or> take SCHEMA_MAX_ISSUES (schema_visit a v ''$'' 0 []) = []) alternatives
         then found else found @ [schema_issue_at path ''invalid_type'']
     | None \<Rightarrow>
       (case scalar_refusal s v of
          Some code \<Rightarrow> found @ [schema_issue_at path code]
        | None \<Rightarrow>
            (case (if js_prop s ''items'' = JUndef then None else js_array v) of
               Some xs \<Rightarrow>
                 fold (item_step s path depth) (enumerate 0 (take SCHEMA_MAX_ARRAY_ITEMS xs))
                   (found @ map (schema_issue_at path) (range_codes s v)
                     @ map (schema_issue_at path) (count_codes s (length xs)))
                 @ (if length xs > SCHEMA_MAX_ARRAY_ITEMS then [schema_issue_at path ''too_many_items''] else [])
             | None \<Rightarrow>
                 if \<not> isPlainRecord v then found @ map (schema_issue_at path) (range_codes s v)
                 else fold (property_step v path depth) (obj_members (js_prop s ''properties''))
                     (found @ map (schema_issue_at path) (range_codes s v) @ field_issues s (obj_members v) path))))"
  by (subst schema_visit.simps)
    (use assms in \<open>simp add: Let_def item_step_def property_step_def split: option.split\<close>)

text \<open>What the inductions over a visit need of its parts.\<close>

lemma visit_parts:
  assumes "length found < SCHEMA_MAX_ISSUES" and "depth \<le> SCHEMA_MAX_DEPTH"
    and items: "\<And>x p found. js_prop s ''items'' \<noteq> JUndef \<Longrightarrow>
      \<exists>ys. schema_visit (js_prop s ''items'') x p (depth + 1) found = found @ ys"
    and props: "\<And>k q x p found. (k, q) \<in> set (obj_members (js_prop s ''properties'')) \<Longrightarrow>
      \<exists>ys. schema_visit q x p (depth + 1) found = found @ ys"
  shows "(\<exists>ys. schema_visit s v path depth found = found @ ys)"
proof -
  have i: "appends (item_step s path depth) q" for q
    using items by (cases q) (simp add: appends_def item_step_def)
  have p: "appends (property_step v path depth) q" if "q \<in> set (obj_members (js_prop s ''properties''))" for q
    using props that by (cases q) (simp add: appends_def property_step_def split: option.split)
  note i' = fold_appends [OF ballI, OF i] and p' = fold_appends [OF ballI, OF p]
  show ?thesis
  proof (cases "js_array (js_prop s ''anyOf'') = None \<and> scalar_refusal s v = None \<and> isPlainRecord s")
    case False
    then show ?thesis by (subst visit_unfold [OF assms(1,2)]) (auto split: option.split)
  next
    case plain: True
    show ?thesis
    proof (cases "if js_prop s ''items'' = JUndef then None else js_array v")
      case None
      let ?start = "found @ map (schema_issue_at path) (range_codes s v)"
      have eq: "schema_visit s v path depth found = (if isPlainRecord v
          then fold (property_step v path depth) (obj_members (js_prop s ''properties''))
            (?start @ field_issues s (obj_members v) path) else ?start)"
        using plain None by (subst visit_unfold [OF assms(1,2)]) (simp del: js_array_Some)
      obtain ys where "fold (property_step v path depth) (obj_members (js_prop s ''properties''))
          (?start @ field_issues s (obj_members v) path) = (?start @ field_issues s (obj_members v) path) @ ys"
        using p' [where a = "?start @ field_issues s (obj_members v) path"] by blast
      then show ?thesis unfolding eq by simp
    next
      case (Some xs)
      let ?start = "found @ map (schema_issue_at path) (range_codes s v) @ map (schema_issue_at path) (count_codes s (length xs))"
      have eq: "schema_visit s v path depth found =
          fold (item_step s path depth) (enumerate 0 (take SCHEMA_MAX_ARRAY_ITEMS xs)) ?start
          @ (if length xs > SCHEMA_MAX_ARRAY_ITEMS then [schema_issue_at path ''too_many_items''] else [])"
        using plain Some by (subst visit_unfold [OF assms(1,2)]) (simp del: js_array_Some)
      obtain ys where "fold (item_step s path depth) (enumerate 0 (take SCHEMA_MAX_ARRAY_ITEMS xs)) ?start = ?start @ ys"
        using i' [where a = ?start] by blast
      then show ?thesis unfolding eq by simp
    qed
  qed
qed

lemma visit_appends: "\<exists>ys. schema_visit s v path depth found = found @ ys"
proof (induction s arbitrary: v path depth found rule: measure_induct_rule [of size])
  case (less s)
  show ?case
  proof (cases "length found < SCHEMA_MAX_ISSUES \<and> depth \<le> SCHEMA_MAX_DEPTH")
    case True
    then have "length found < SCHEMA_MAX_ISSUES" "depth \<le> SCHEMA_MAX_DEPTH" by simp_all
    then show ?thesis
    proof (rule visit_parts)
      show "\<exists>ys. schema_visit (js_prop s ''items'') x p (depth + 1) f = f @ ys" if "js_prop s ''items'' \<noteq> JUndef" for x p f
        by (rule less.IH [OF size_prop [OF that]])
      show "\<exists>ys. schema_visit q x p (depth + 1) f = f @ ys"
        if "(k, q) \<in> set (obj_members (js_prop s ''properties''))" for k q x p f
        by (rule less.IH [OF size_property [OF that]])
    qed
  next
    case False
    then show ?thesis by (subst schema_visit.simps) auto
  qed
qed

text \<open>Nesting of a schema's parts.\<close>

lemma depth_member: "(k, x) \<in> set (obj_members s) \<Longrightarrow> js_depth x < js_depth s"
  by (cases s) (force simp: obj_members_def intro!: le_imp_less_Suc Max_ge)+

lemma depth_prop: "js_prop s k \<noteq> JUndef \<Longrightarrow> js_depth (js_prop s k) < js_depth s"
  by (rule depth_member [OF js_prop_in])

lemma depth_alternative: "js_prop s k = JArr xs \<Longrightarrow> x \<in> set xs \<Longrightarrow> js_depth x < js_depth s"
proof -
  assume k: "js_prop s k = JArr xs" and x: "x \<in> set xs"
  have "js_depth x < js_depth (JArr xs)" using x by (auto intro!: le_imp_less_Suc Max_ge)
  also have "\<dots> < js_depth s" using depth_prop [of s k] k by simp
  finally show ?thesis .
qed

lemma depth_property: "(k, x) \<in> set (obj_members (js_prop s p)) \<Longrightarrow> js_depth x < js_depth s"
  using depth_member [of k x "js_prop s p"] depth_prop [of s p]
  by (cases "js_prop s p = JUndef") (auto simp: obj_members_def)

text \<open>A visit adds nothing exactly when the schema accepts the value.\<close>

lemma visit_accepts:
  "depth + js_depth s \<le> SCHEMA_MAX_DEPTH \<Longrightarrow> length found < SCHEMA_MAX_ISSUES \<Longrightarrow>
     schema_visit s v path depth found = found \<longleftrightarrow> accepts s v"
proof (induction s arbitrary: v path depth found rule: measure_induct_rule [of size])
  case (less s)
  have d: "depth \<le> SCHEMA_MAX_DEPTH" using less.prems by simp
  note unfold_visit = visit_unfold [OF less.prems(2) d]
  have item: "appends (item_step s path depth) q"
    "item_step s path depth q found = found \<longleftrightarrow> accepts (js_prop s ''items'') (snd q)"
    if "js_prop s ''items'' \<noteq> JUndef" for q
    using visit_appends less.IH [OF size_prop [OF that], of "depth + 1" found "snd q" "joinIndex path (int (fst q))"]
      depth_prop [OF that] less.prems that
    by (auto simp: appends_def item_step_def split: prod.split)
  have member: "appends (property_step v path depth) q"
    "property_step v path depth q found = found \<longleftrightarrow>
       (case obj_get (obj_members v) (fst q) of None \<Rightarrow> True | Some x \<Rightarrow> accepts (snd q) x)"
    if "q \<in> set (obj_members (js_prop s ''properties''))" for q
    using visit_appends less.IH [OF size_property [of "fst q" "snd q" s "''properties''"], of "depth + 1" found]
      depth_property [of "fst q" "snd q" s "''properties''"] less.prems that
    by (auto simp: appends_def property_step_def split: option.split prod.split)
  show ?case
  proof (cases "isPlainRecord s")
    case False
    then show ?thesis by (subst unfold_visit, subst accepts_tests) simp
  next
    case rec: True
    show ?thesis
    proof (cases "js_array (js_prop s ''anyOf'')")
      case (Some alternatives)
      have "(js_falsy a \<or> take SCHEMA_MAX_ISSUES (schema_visit a v ''$'' 0 []) = []) \<longleftrightarrow> accepts a v"
        if a: "a \<in> set alternatives" for a
      proof -
        have "js_falsy a \<Longrightarrow> accepts a v" by (subst accepts_tests) (auto simp: js_falsy_def isPlainRecord_def)
        moreover have "schema_visit a v ''$'' 0 [] = [] \<longleftrightarrow> accepts a v"
          using less.IH [OF size_alternative [OF _ a], where k1 = "''anyOf''" and depth = 0 and found = "[]" and v = v and path = "''$''"] Some less.prems
            depth_alternative [of s "''anyOf''" alternatives a] a
          by (simp add: SCHEMA_MAX_ISSUES_def)
        ultimately show ?thesis by (auto simp: SCHEMA_MAX_ISSUES_def)
      qed
      then have "list_ex (\<lambda>a. js_falsy a \<or> take SCHEMA_MAX_ISSUES (schema_visit a v ''$'' 0 []) = []) alternatives
          \<longleftrightarrow> list_ex (\<lambda>a. accepts a v) alternatives"
        by (intro list_ex_cong refl) simp
      with rec Some show ?thesis by (subst unfold_visit, subst accepts_tests) simp
    next
      case plain: None
      show ?thesis
      proof (cases "scalar_refusal s v")
        case (Some code)
        with rec plain show ?thesis by (subst unfold_visit, subst accepts_tests) simp
      next
        case ok: None
        show ?thesis
        proof (cases "if js_prop s ''items'' = JUndef then None else js_array v")
          case None
          let ?a = "found @ map (schema_issue_at path) (range_codes s v) @ field_issues s (obj_members v) path"
          obtain ys where ys: "fold (property_step v path depth) (obj_members (js_prop s ''properties'')) ?a = ?a @ ys"
            using fold_appends [of "obj_members (js_prop s ''properties'')" "property_step v path depth" ?a] member(1) by blast
          have silent: "fold (property_step v path depth) (obj_members (js_prop s ''properties'')) found = found \<longleftrightarrow>
              list_all (\<lambda>(k, p). case obj_get (obj_members v) k of None \<Rightarrow> True | Some x \<Rightarrow> accepts p x)
                (obj_members (js_prop s ''properties''))"
            using fold_silent [of "obj_members (js_prop s ''properties'')" "property_step v path depth" found] member
            by (simp add: list_all_iff case_prod_unfold)
          show ?thesis
            using rec plain ok None ys silent field_issues_path [of s "obj_members v" path]
            by (subst unfold_visit, subst accepts_tests, cases "field_issues s (obj_members v) path")
              (auto simp del: js_array_Some)
        next
          case (Some xs)
          then have it: "js_prop s ''items'' \<noteq> JUndef" by (auto split: if_splits)
          let ?e = "enumerate 0 (take SCHEMA_MAX_ARRAY_ITEMS xs)"
          let ?a = "found @ map (schema_issue_at path) (range_codes s v) @ map (schema_issue_at path) (count_codes s (length xs))"
          obtain ys where ys: "fold (item_step s path depth) ?e ?a = ?a @ ys"
            using fold_appends [of ?e "item_step s path depth" ?a] item(1) [OF it] by blast
          have silent: "fold (item_step s path depth) ?e found = found \<longleftrightarrow>
              list_all (accepts (js_prop s ''items'')) (take SCHEMA_MAX_ARRAY_ITEMS xs)"
          proof -
            have "list_all (accepts (js_prop s ''items'')) (map snd ?e) \<longleftrightarrow> (\<forall>q\<in>set ?e. accepts (js_prop s ''items'') (snd q))"
              by (simp only: list_all_iff set_map ball_simps)
            moreover have "map snd ?e = take SCHEMA_MAX_ARRAY_ITEMS xs" by (rule map_snd_enumerate)
            ultimately show ?thesis
              using fold_silent [of ?e "item_step s path depth" found] item [OF it] by simp
          qed
          show ?thesis
            using rec plain ok Some ys silent it
            by (subst unfold_visit, subst accepts_tests) (auto simp del: js_array_Some)
        qed
      qed
    qed
  qed
qed

section \<open>Property\<close>



end
