(* ===== verification/Schema_Subset.thy ===== *)
theory Schema_Subset
  imports Json_Schema Artifact_Identity
begin

text \<open>
  The portable JSON Schema subset of graph types (\<^verbatim>\<open>packages/protocol/src/graphs/schema-subset.ts\<close>): its
  checker with the error collector, the schema a provider sees, and the fields of a schema. What the
  checker accepts has the form the later proofs use (\<open>subset_form\<close>).

  Errors carry their path and code; their messages are left out. A provenance field is kept as its
  segments, from which its path is printed.
\<close>

section \<open>Keywords and bounds\<close>

definition GRAPH_SCHEMA_SOURCES_KEYWORD :: string where "GRAPH_SCHEMA_SOURCES_KEYWORD = ''x-orkestrator-sources''"

definition GRAPH_SCHEMA_TYPES :: "string list" where
  "GRAPH_SCHEMA_TYPES = [''object'', ''array'', ''string'', ''number'', ''integer'', ''boolean'', ''null'']"

definition KEYWORDS_BY_TYPE :: "string \<Rightarrow> string list" where
  "KEYWORDS_BY_TYPE ty =
     (if ty = ''object'' then [''properties'', ''required'', ''additionalProperties'']
      else if ty = ''array'' then [''items'']
      else if ty = ''string'' \<or> ty = ''boolean'' then [''enum'', ''const'']
      else if ty = ''number'' \<or> ty = ''integer'' then [''enum'', ''const'', ''minimum'', ''maximum'']
      else [])"

definition GRAPH_SCHEMA_KEYWORDS :: "string list" where
  "GRAPH_SCHEMA_KEYWORDS = [''type'', ''anyOf'', ''properties'', ''required'', ''additionalProperties'', ''items'',
     ''enum'', ''const'', ''minimum'', ''maximum'']"

definition GRAPH_SCHEMA_ANNOTATIONS :: "string list" where
  "GRAPH_SCHEMA_ANNOTATIONS = [''description'', ''title'', GRAPH_SCHEMA_SOURCES_KEYWORD]"

definition maxSchemaBytes :: nat where "maxSchemaBytes = 64 * 1024"
definition maxSchemaDepth :: nat where "maxSchemaDepth = 32"
definition maxObjectDepth :: nat where "maxObjectDepth = 10"
definition maxPropertiesPerObject :: nat where "maxPropertiesPerObject = 100"
definition maxPropertiesTotal :: nat where "maxPropertiesTotal = 1000"
definition maxEnumValues :: nat where "maxEnumValues = 256"
definition maxEnumValuesTotal :: nat where "maxEnumValuesTotal = 1000"
definition maxEnumStringBytes :: nat where "maxEnumStringBytes = 256"
definition maxAnyOfBranches :: nat where "maxAnyOfBranches = 8"
definition maxSchemaDescriptionBytes :: nat where "maxSchemaDescriptionBytes = 4 * 1024"
definition maxTitleBytes :: nat where "maxTitleBytes = 200"
definition maxSourcesFields :: nat where "maxSourcesFields = 16"

section \<open>The walk\<close>

record subset_walk =
  sw_errors :: collector
  sw_properties :: nat
  sw_enumValues :: nat
  sw_sources :: "string list list"

definition schema_report :: "string \<Rightarrow> string \<Rightarrow> subset_walk \<Rightarrow> subset_walk" where
  "schema_report path code w = w\<lparr>sw_errors := col_add path code [] (sw_errors w)\<rparr>"

definition text_bytes :: "string \<Rightarrow> nat" where
  "text_bytes s = utf8_bytes (map of_char s)"

definition js_scalar :: "js \<Rightarrow> bool" where
  "js_scalar v = (case v of JStr _ \<Rightarrow> True | JBool _ \<Rightarrow> True | JNum (Fin _) \<Rightarrow> True | _ \<Rightarrow> False)"

definition scalarMatchesType :: "js \<Rightarrow> string \<Rightarrow> bool" where
  "scalarMatchesType v ty \<longleftrightarrow> ty \<in> {''string'', ''number'', ''integer'', ''boolean''} \<and> schemaTypeMatches (JStr ty) v"

definition isNullSchema :: "js \<Rightarrow> bool" where
  "isNullSchema v \<longleftrightarrow> isPlainRecord v \<and> js_prop v ''type'' = JStr ''null'' \<and> js_prop v ''anyOf'' = JUndef"

definition plain_string_list :: "js \<Rightarrow> bool" where
  "plain_string_list v \<longleftrightarrow> isPlainRecord v \<and> js_prop v ''type'' = JStr ''array'' \<and> isPlainRecord (js_prop v ''items'')
     \<and> js_prop (js_prop v ''items'') ''type'' = JStr ''string'' \<and> js_prop (js_prop v ''items'') ''anyOf'' = JUndef"

definition isStringListSchema :: "js \<Rightarrow> bool" where
  "isStringListSchema s =
     (case js_array (js_prop s ''anyOf'') of
        Some bs \<Rightarrow> length bs = 2 \<and> length (filter plain_string_list bs) = 1 \<and> length (filter isNullSchema bs) = 1
      | None \<Rightarrow> plain_string_list s)"

definition schema_text :: "js \<Rightarrow> string \<Rightarrow> nat \<Rightarrow> subset_walk \<Rightarrow> subset_walk" where
  "schema_text v path maxBytes w =
     (case v of
        JStr s \<Rightarrow> if text_bytes s > maxBytes then schema_report path ''too_large'' w else w
      | _ \<Rightarrow> schema_report path ''type'' w)"

definition schema_bound :: "js \<Rightarrow> string \<Rightarrow> string \<Rightarrow> string \<Rightarrow> subset_walk \<Rightarrow> subset_walk" where
  "schema_bound s path ty key w =
     (case js_prop s key of
        JUndef \<Rightarrow> w
      | JNum (Fin q) \<Rightarrow>
          if ty = ''integer'' \<and> \<not> safe_integer_number q then schema_report (joinKey path key) ''not_integer'' w else w
      | _ \<Rightarrow> schema_report (joinKey path key) ''type'' w)"

definition schema_bounds :: "js \<Rightarrow> string \<Rightarrow> string \<Rightarrow> subset_walk \<Rightarrow> subset_walk" where
  "schema_bounds s path ty w =
     (let w = schema_bound s path ty ''maximum'' (schema_bound s path ty ''minimum'' w)
      in if (case js_prop s ''maximum'' of JNum m \<Rightarrow> under_bound m (js_prop s ''minimum'') | _ \<Rightarrow> False)
         then schema_report (joinKey path ''minimum'') ''out_of_range'' w else w)"

text \<open>The entries of an \<open>enum\<close>, with those seen before.\<close>

fun enum_entries :: "string \<Rightarrow> string \<Rightarrow> nat \<Rightarrow> js list \<Rightarrow> js list \<Rightarrow> subset_walk \<Rightarrow> subset_walk" where
  "enum_entries path ty i seen [] w = w"
| "enum_entries path ty i seen (e # es) w =
     enum_entries path ty (i + 1) (seen @ [e]) es
       (if \<not> js_scalar e \<or> \<not> scalarMatchesType e ty then schema_report (joinIndex path (int i)) ''type'' w
        else if (case e of JStr s \<Rightarrow> text_bytes s > maxEnumStringBytes | _ \<Rightarrow> False)
        then schema_report (joinIndex path (int i)) ''too_large'' w
        else if list_ex (same_value_zero e) seen then schema_report (joinIndex path (int i)) ''duplicate'' w
        else w)"

definition schema_const :: "js \<Rightarrow> string \<Rightarrow> string \<Rightarrow> subset_walk \<Rightarrow> subset_walk" where
  "schema_const s path ty w =
     (if js_prop s ''const'' = JUndef then w
      else
        (let w = (if \<not> js_scalar (js_prop s ''const'') \<or> \<not> scalarMatchesType (js_prop s ''const'') ty
                  then schema_report (joinKey path ''const'') ''type'' w else w)
         in if js_prop s ''enum'' \<noteq> JUndef then schema_report (joinKey path ''enum'') ''conflict'' w else w))"

definition schema_enum :: "js \<Rightarrow> string \<Rightarrow> string \<Rightarrow> subset_walk \<Rightarrow> subset_walk" where
  "schema_enum s path ty w =
     (let enumPath = joinKey path ''enum''; w = schema_const s path ty w in
      if js_prop s ''enum'' = JUndef then w
      else case js_array (js_prop s ''enum'') of
        None \<Rightarrow> schema_report enumPath ''type'' w
      | Some es \<Rightarrow>
          if es = [] then schema_report enumPath ''empty'' w
          else if length es > maxEnumValues then schema_report enumPath ''too_many'' w
          else
            (let w = w\<lparr>sw_enumValues := sw_enumValues w + length es\<rparr>
             in if sw_enumValues w > maxEnumValuesTotal then schema_report enumPath ''too_many'' w
                else enum_entries enumPath ty 0 [] es w))"

section \<open>Objects\<close>

text \<open>The checks of an object schema before its properties are visited; False when it stops there.\<close>

definition object_start :: "js \<Rightarrow> string \<Rightarrow> nat \<Rightarrow> subset_walk \<Rightarrow> bool \<times> subset_walk" where
  "object_start s path objectDepth w =
     (let propertiesPath = joinKey path ''properties''; properties = js_prop s ''properties'' in
      if objectDepth > maxObjectDepth then (False, schema_report path ''too_deep'' w)
      else if properties = JUndef then (False, schema_report propertiesPath ''required'' w)
      else if \<not> isPlainRecord properties then (False, schema_report propertiesPath ''type'' w)
      else
        (let n = length (obj_members properties) in
         if n > maxPropertiesPerObject then (False, schema_report propertiesPath ''too_many'' w)
         else
           (let w = w\<lparr>sw_properties := sw_properties w + n\<rparr>
            in if sw_properties w > maxPropertiesTotal then (False, schema_report propertiesPath ''too_many'' w)
               else (True, w))))"

fun required_entries :: "string \<Rightarrow> js \<Rightarrow> nat \<Rightarrow> string list \<Rightarrow> js list \<Rightarrow> subset_walk \<Rightarrow> subset_walk" where
  "required_entries path properties i seen [] w = w"
| "required_entries path properties i seen (e # es) w =
     (case e of
        JStr k \<Rightarrow> required_entries path properties (i + 1) (k # seen) es
          (if k \<in> set seen then schema_report (joinIndex path (int i)) ''duplicate'' w
           else if obj_get (obj_members properties) k = None
           then schema_report (joinIndex path (int i)) ''unknown_property'' w
           else w)
      | _ \<Rightarrow> required_entries path properties (i + 1) seen es (schema_report (joinIndex path (int i)) ''type'' w))"

definition object_lists :: "js \<Rightarrow> string \<Rightarrow> subset_walk \<Rightarrow> subset_walk" where
  "object_lists s path w =
     (let requiredPath = joinKey path ''required'';
          w = (case js_array (js_prop s ''required'') of
                 None \<Rightarrow> schema_report requiredPath (if js_prop s ''required'' = JUndef then ''required'' else ''type'') w
               | Some es \<Rightarrow> required_entries requiredPath (js_prop s ''properties'') 0 [] es w)
      in if js_prop s ''additionalProperties'' \<noteq> JBool False
         then schema_report (joinKey path ''additionalProperties'')
                (if js_prop s ''additionalProperties'' = JUndef then ''required'' else ''type'') w
         else w)"

definition property_name_ok :: "string \<Rightarrow> bool" where
  "property_name_ok k \<longleftrightarrow> length k \<le> maxKeyChars \<and> GRAPH_PATH_SEGMENT_PATTERN k"

text \<open>A property that is not required is reported before it is visited.\<close>

definition property_required :: "js \<Rightarrow> string \<Rightarrow> string \<Rightarrow> subset_walk \<Rightarrow> subset_walk" where
  "property_required s path k w =
     (if js_array (js_prop s ''required'') \<noteq> None \<and> k \<notin> set (string_list (js_prop s ''required''))
      then schema_report path ''not_required'' w else w)"

section \<open>One schema\<close>

definition unknown_keywords :: "js \<Rightarrow> string \<Rightarrow> subset_walk \<Rightarrow> subset_walk" where
  "unknown_keywords s path w =
     fold (\<lambda>k w. if k \<in> set (GRAPH_SCHEMA_KEYWORDS @ GRAPH_SCHEMA_ANNOTATIONS) then w
                 else schema_report (joinKey path k) ''unsupported_keyword'' w) (map fst (obj_members s)) w"

definition schema_sources :: "js \<Rightarrow> string \<Rightarrow> string list \<Rightarrow> bool \<Rightarrow> subset_walk \<Rightarrow> subset_walk" where
  "schema_sources s path segments inner w =
     (let mark = js_prop s GRAPH_SCHEMA_SOURCES_KEYWORD; sourcesPath = joinKey path GRAPH_SCHEMA_SOURCES_KEYWORD in
      if mark = JUndef then w
      else if mark \<noteq> JBool True then schema_report sourcesPath ''type'' w
      else if inner then schema_report sourcesPath ''not_applicable'' w
      else if \<not> isStringListSchema s then schema_report sourcesPath ''not_applicable'' w
      else if length (sw_sources w) \<ge> maxSourcesFields then schema_report sourcesPath ''too_many'' w
      else w\<lparr>sw_sources := sw_sources w @ [segments]\<rparr>)"

text \<open>Keywords and annotations; the flag says that the schema is the root or a branch.\<close>

definition schema_head :: "js \<Rightarrow> string \<Rightarrow> string list \<Rightarrow> bool \<Rightarrow> subset_walk \<Rightarrow> subset_walk" where
  "schema_head s path segments inner w =
     (let w = unknown_keywords s path w;
          w = (if js_prop s ''description'' = JUndef then w
               else schema_text (js_prop s ''description'') (joinKey path ''description'') maxSchemaDescriptionBytes w);
          w = (if js_prop s ''title'' = JUndef then w
               else schema_text (js_prop s ''title'') (joinKey path ''title'') maxTitleBytes w)
      in schema_sources s path segments inner w)"

definition beside_any_of :: "js \<Rightarrow> string \<Rightarrow> subset_walk \<Rightarrow> subset_walk" where
  "beside_any_of s path w =
     fold (\<lambda>k w. if k = ''anyOf'' \<or> k \<in> set GRAPH_SCHEMA_ANNOTATIONS then w
                 else if k \<in> set GRAPH_SCHEMA_KEYWORDS then schema_report (joinKey path k) ''not_applicable'' w
                 else w) (map fst (obj_members s)) w"

definition inapplicable :: "js \<Rightarrow> string \<Rightarrow> string \<Rightarrow> subset_walk \<Rightarrow> subset_walk" where
  "inapplicable s path ty w =
     fold (\<lambda>k w. if k = ''type'' \<or> k = ''anyOf'' \<or> js_prop s k = JUndef then w
                 else if k \<in> set (KEYWORDS_BY_TYPE ty) then w
                 else schema_report (joinKey path k) ''not_applicable'' w) GRAPH_SCHEMA_KEYWORDS w"

text \<open>The type a schema declares, or the code of its error.\<close>

definition declared_type :: "js \<Rightarrow> bool \<Rightarrow> string + string" where
  "declared_type s isRoot =
     (case js_prop s ''type'' of
        JUndef \<Rightarrow> Inl ''required''
      | JArr _ \<Rightarrow> Inl ''type''
      | JStr ty \<Rightarrow> if ty \<notin> set GRAPH_SCHEMA_TYPES then Inl ''enum''
                   else if isRoot \<and> ty \<noteq> ''object'' then Inl ''not_applicable'' else Inr ty
      | _ \<Rightarrow> Inl ''enum'')"

function visitSchema ::
  "js \<Rightarrow> string \<Rightarrow> string list \<Rightarrow> nat \<Rightarrow> bool \<Rightarrow> bool \<Rightarrow> subset_walk \<Rightarrow> subset_walk" where
  "visitSchema s path segments objectDepth isRoot insideAnyOf w =
     (if \<not> isPlainRecord s then schema_report path ''type'' w
      else
        (let w = schema_head s path segments (isRoot \<or> insideAnyOf) w in
         if js_prop s ''anyOf'' \<noteq> JUndef
         then
           (let anyOfPath = joinKey path ''anyOf'' in
            if isRoot \<or> insideAnyOf then schema_report anyOfPath ''not_applicable'' w
            else
              (let w = beside_any_of s path w in
               case js_array (js_prop s ''anyOf'') of
                 None \<Rightarrow> schema_report anyOfPath ''type'' w
               | Some bs \<Rightarrow>
                   if length bs < 2 then schema_report anyOfPath ''too_few'' w
                   else if length bs > maxAnyOfBranches then schema_report anyOfPath ''too_many'' w
                   else fold (\<lambda>(i, b) w. visitSchema b (joinIndex anyOfPath (int i)) segments objectDepth False True w)
                          (enumerate 0 bs) w))
         else
           (case declared_type s isRoot of
              Inl code \<Rightarrow> schema_report (joinKey path ''type'') code w
            | Inr ty \<Rightarrow>
                (let w = inapplicable s path ty w in
                 if ty = ''object''
                 then
                   (let (go, w) = object_start s path (objectDepth + 1) w in
                    if \<not> go then w
                    else
                      fold (\<lambda>(k, p) w.
                          let propertyPath = joinKey (joinKey path ''properties'') k in
                          if \<not> property_name_ok k then schema_report propertyPath ''pattern'' w
                          else visitSchema p propertyPath (segments @ [k]) (objectDepth + 1) False False
                                 (property_required s propertyPath k w))
                        (obj_members (js_prop s ''properties'')) (object_lists s path w))
                 else if ty = ''array''
                 then
                   (let itemsPath = joinKey path ''items'' in
                    if js_prop s ''items'' = JUndef then schema_report itemsPath ''required'' w
                    else if js_array (js_prop s ''items'') \<noteq> None then schema_report itemsPath ''type'' w
                    else visitSchema (js_prop s ''items'') itemsPath (segments @ [''[]'']) objectDepth False False w)
                 else if ty = ''number'' \<or> ty = ''integer'' then schema_enum s path ty (schema_bounds s path ty w)
                 else if ty = ''string'' \<or> ty = ''boolean'' then schema_enum s path ty w
                 else w))))"
  by pat_completeness auto
termination
  by (relation "measure (\<lambda>(s, _). size s)")
    (auto dest: size_property simp: in_set_enumerate_eq intro: size_prop size_alternative [OF _ nth_mem])

declare visitSchema.simps [simp del]

section \<open>The checks of a whole schema\<close>

text \<open>\<open>JSON.stringify\<close>: nothing for a value that is no JSON, which an array shows as null.\<close>

primrec js_stringify :: "(rat \<Rightarrow> utf16) \<Rightarrow> js \<Rightarrow> utf16 option" where
  "js_stringify nt JUndef = None"
| "js_stringify nt JNull = Some (uni ''null'')"
| "js_stringify nt (JBool b) = Some (uni (if b then ''true'' else ''false''))"
| "js_stringify nt (JNum n) = Some (case n of Fin r \<Rightarrow> nt r | _ \<Rightarrow> uni ''null'')"
| "js_stringify nt (JStr s) = Some (json_quote (uni s))"
| "js_stringify nt (JArr xs) =
     Some ([91] @ join_units (map (\<lambda>t. case t of None \<Rightarrow> uni ''null'' | Some u \<Rightarrow> u) (map (js_stringify nt) xs)) @ [93])"
| "js_stringify nt (JObj ps) =
     Some ([123] @ join_units (List.map_filter (\<lambda>(k, t). map_option (\<lambda>u. json_quote (uni k) @ [58] @ u) t)
       (map (map_prod id (js_stringify nt)) ps)) @ [125])"
| "js_stringify nt JOther = None"

text \<open>The provenance fields of an accepted schema, with the errors.\<close>

definition checkGraphSchemaSubset ::
  "(rat \<Rightarrow> utf16) \<Rightarrow> js \<Rightarrow> string \<Rightarrow> collector \<Rightarrow> string list list option \<times> collector" where
  "checkGraphSchemaSubset nt s path errors =
     (if \<not> isPlainRecord s then (None, col_add path ''type'' [] errors)
      else if jsonDepthExceeds s maxSchemaDepth then (None, col_add path ''too_deep'' [] errors)
      else case js_stringify nt s of
        None \<Rightarrow> (None, col_add path ''not_json'' [] errors)
      | Some t \<Rightarrow>
          if utf8_bytes t > maxSchemaBytes then (None, col_add path ''too_large'' [] errors)
          else
            (let w = visitSchema s path [] 0 True False
                       \<lparr>sw_errors = errors, sw_properties = 0, sw_enumValues = 0, sw_sources = []\<rparr>
             in (if length (col_errors (sw_errors w)) + col_omitted (sw_errors w)
                    = length (col_errors errors) + col_omitted errors
                 then Some (sw_sources w) else None, sw_errors w)))"

definition validateGraphSchemaSubset ::
  "(rat \<Rightarrow> utf16) \<Rightarrow> js \<Rightarrow> nat \<Rightarrow> (field_error list \<times> nat) + string list list" where
  "validateGraphSchemaSubset nt s maxErrors =
     (case checkGraphSchemaSubset nt s ''$'' \<lparr>col_errors = [], col_omitted = 0, col_max = maxErrors\<rparr> of
        (Some sources, _) \<Rightarrow> Inr sources
      | (None, errors) \<Rightarrow> col_result [] errors)"

text \<open>Printing a provenance field: \<open>issues[].ids\<close>.\<close>

definition graphSchemaSegmentsPath :: "string list \<Rightarrow> string" where
  "graphSchemaSegmentsPath segments =
     foldl (\<lambda>path seg. if seg = ''[]'' then path @ ''[]'' else if path \<noteq> [] then path @ ''.'' @ seg else seg) [] segments"

section \<open>Using a schema\<close>

lemma size_element: "x \<in> set xs \<Longrightarrow> size x < size (JArr xs)"
  using size_list_estimation' [of x xs "size x" size] by simp

lemma size_member_member: "(k, e) \<in> set ps \<Longrightarrow> (n, c) \<in> set (obj_members e) \<Longrightarrow> size c < size (JObj ps)"
  by (meson less_trans size_member size_members)

text \<open>\<open>graphProviderSchema\<close>: \<open>properties\<close> maps names to schemas, whatever the names are.\<close>

function graphProviderSchema :: "js \<Rightarrow> js" where
  "graphProviderSchema v =
     (case v of
        JArr xs \<Rightarrow> JArr (map graphProviderSchema xs)
      | JObj ps \<Rightarrow>
          JObj (map (\<lambda>(k, e). (k, if k = ''properties'' \<and> isPlainRecord e
                                then JObj (map (\<lambda>(n, c). (n, graphProviderSchema c)) (obj_members e))
                                else graphProviderSchema e))
                 (filter (\<lambda>(k, e). k \<noteq> GRAPH_SCHEMA_SOURCES_KEYWORD) ps))
      | _ \<Rightarrow> v)"
  by pat_completeness auto
termination
  by (relation "measure size")
    (auto dest: size_element size_member size_member_member)

declare graphProviderSchema.simps [simp del]

definition validateGraphSchemaValue :: "js \<Rightarrow> js \<Rightarrow> schema_issue list" where
  "validateGraphSchemaValue s v = validateWorkflowJsonSchema s v"

text \<open>The non-null branch of a nullable schema, with whether the schema allows null beside it.\<close>

definition graphSchemaNonNull :: "js \<Rightarrow> js \<times> bool" where
  "graphSchemaNonNull s =
     (case js_array (js_prop s ''anyOf'') of
        None \<Rightarrow> (s, False)
      | Some bs \<Rightarrow>
          (let rest = filter (\<lambda>b. \<not> isNullSchema b) bs; nullable = length rest < length bs in
           case rest of
             [b] \<Rightarrow> if isPlainRecord b then (b, nullable) else (s, nullable)
           | _ \<Rightarrow> (s, nullable)))"

fun schema_at_segments :: "js \<Rightarrow> bool \<Rightarrow> string list \<Rightarrow> (js \<times> bool) option" where
  "schema_at_segments s nullable [] = Some (s, nullable)"
| "schema_at_segments s nullable (seg # segs) =
     (let (u, n) = graphSchemaNonNull s; properties = js_prop u ''properties'' in
      if js_prop u ''type'' \<noteq> JStr ''object'' \<or> \<not> isPlainRecord properties then None
      else case obj_get (obj_members properties) seg of
        None \<Rightarrow> None
      | Some field \<Rightarrow> if isPlainRecord field then schema_at_segments field (nullable \<or> n) segs else None)"

definition graphSchemaAtPath :: "js \<Rightarrow> string \<Rightarrow> (js \<times> bool) option" where
  "graphSchemaAtPath s path =
     (if \<not> isGraphFieldPath (JStr path) then None
      else case schema_at_segments s False (split_on CHR ''.'' path) of
        None \<Rightarrow> None
      | Some (field, nullable) \<Rightarrow>
          (let (u, n) = graphSchemaNonNull field in Some (u, nullable \<or> n)))"

end
