(* ===== verification/Schema_Use.thy ===== *)
theory Schema_Use
  imports Schema_Subset Edge_Transforms
begin

text \<open>
  What the checker of the portable subset guarantees: the form of an accepted schema (\<open>subset_form\<close>), that
  the schema a provider sees accepts the same values, and that a field path through a schema leads to a
  value of the schema found there.
\<close>

section \<open>The form of a subset schema\<close>

definition bound_form :: "string \<Rightarrow> js \<Rightarrow> bool" where
  "bound_form ty b = (case b of JUndef \<Rightarrow> True | JNum (Fin q) \<Rightarrow> ty = ''integer'' \<longrightarrow> safe_integer_number q | _ \<Rightarrow> False)"

definition enum_entry_form :: "string \<Rightarrow> js \<Rightarrow> bool" where
  "enum_entry_form ty e \<longleftrightarrow> js_scalar e \<and> scalarMatchesType e ty
     \<and> (case e of JStr s \<Rightarrow> text_bytes s \<le> maxEnumStringBytes | _ \<Rightarrow> True)"

definition literal_form :: "string \<Rightarrow> js \<Rightarrow> bool" where
  "literal_form ty s \<longleftrightarrow>
     (js_prop s ''const'' = JUndef \<or>
        js_scalar (js_prop s ''const'') \<and> scalarMatchesType (js_prop s ''const'') ty \<and> js_prop s ''enum'' = JUndef)
     \<and> (js_prop s ''enum'' = JUndef \<or>
        (case js_array (js_prop s ''enum'') of None \<Rightarrow> False
         | Some es \<Rightarrow> es \<noteq> [] \<and> length es \<le> maxEnumValues \<and> list_all (enum_entry_form ty) es \<and> distinct es))"

definition range_form :: "string \<Rightarrow> js \<Rightarrow> bool" where
  "range_form ty s \<longleftrightarrow> bound_form ty (js_prop s ''minimum'') \<and> bound_form ty (js_prop s ''maximum'')
     \<and> \<not> (case js_prop s ''maximum'' of JNum m \<Rightarrow> under_bound m (js_prop s ''minimum'') | _ \<Rightarrow> False)"

definition keywords_form :: "js \<Rightarrow> string list \<Rightarrow> bool" where
  "keywords_form s ks \<longleftrightarrow> set (map fst (obj_members s)) \<subseteq> set (ks @ GRAPH_SCHEMA_ANNOTATIONS)"

definition applicable_form :: "js \<Rightarrow> string \<Rightarrow> bool" where
  "applicable_form s ty \<longleftrightarrow> (\<forall>k\<in>set GRAPH_SCHEMA_KEYWORDS.
     k = ''type'' \<or> k = ''anyOf'' \<or> js_prop s k = JUndef \<or> k \<in> set (KEYWORDS_BY_TYPE ty))"

definition names_property :: "js \<Rightarrow> js \<Rightarrow> bool" where
  "names_property properties e = (case e of JStr k \<Rightarrow> obj_get (obj_members properties) k \<noteq> None | _ \<Rightarrow> False)"

definition required_form :: "js \<Rightarrow> bool" where
  "required_form s \<longleftrightarrow> js_prop s ''additionalProperties'' = JBool False
     \<and> (case js_array (js_prop s ''required'') of None \<Rightarrow> False
        | Some es \<Rightarrow> list_all (names_property (js_prop s ''properties'')) es)"

function subset_form :: "js \<Rightarrow> bool" where
  "subset_form s \<longleftrightarrow>
     isPlainRecord s \<and> keywords_form s GRAPH_SCHEMA_KEYWORDS
     \<and> (if js_prop s ''anyOf'' \<noteq> JUndef
        then keywords_form s [''anyOf'']
          \<and> (case js_array (js_prop s ''anyOf'') of None \<Rightarrow> False
             | Some bs \<Rightarrow> 2 \<le> length bs \<and> length bs \<le> maxAnyOfBranches
                 \<and> list_all (\<lambda>b. subset_form b \<and> js_prop b ''anyOf'' = JUndef) bs)
        else case declared_type s False of
          Inl _ \<Rightarrow> False
        | Inr ty \<Rightarrow>
            applicable_form s ty
            \<and> (if ty = ''object''
               then isPlainRecord (js_prop s ''properties'') \<and> required_form s
                 \<and> list_all (\<lambda>(k, p). property_name_ok k \<and> k \<in> set (string_list (js_prop s ''required'')) \<and> subset_form p)
                     (obj_members (js_prop s ''properties''))
               else if ty = ''array''
               then (if js_prop s ''items'' = JUndef then False else subset_form (js_prop s ''items''))
               else if ty = ''number'' \<or> ty = ''integer'' then range_form ty s \<and> literal_form ty s
               else if ty = ''string'' \<or> ty = ''boolean'' then literal_form ty s else True))"
  by pat_completeness auto
termination
  by (relation "measure size") (auto dest: size_alternative size_property intro: size_prop)

declare subset_form.simps [simp del]

section \<open>A check that adds nothing\<close>

abbreviation errs :: "subset_walk \<Rightarrow> nat" where "errs w \<equiv> col_count (sw_errors w)"

text \<open>A step never removes an error; what its adding none says.\<close>

definition checks_that :: "(subset_walk \<Rightarrow> subset_walk) \<Rightarrow> bool \<Rightarrow> bool" where
  "checks_that f P \<longleftrightarrow> (\<forall>w. errs w \<le> errs (f w) \<and> (errs (f w) = errs w \<longrightarrow> P))"

lemma report_errs [simp]: "errs (schema_report p c w) = Suc (errs w)"
  by (simp add: schema_report_def)

lemma checks_thatI: "(\<And>w. errs w \<le> errs (f w)) \<Longrightarrow> (\<And>w. errs (f w) = errs w \<Longrightarrow> P) \<Longrightarrow> checks_that f P"
  by (auto simp: checks_that_def)

lemma checks_comp: "checks_that f P \<Longrightarrow> checks_that g Q \<Longrightarrow> checks_that (\<lambda>w. g (f w)) (P \<and> Q)"
  unfolding checks_that_def by (metis le_antisym le_trans)

lemma checks_weaken: "checks_that f P \<Longrightarrow> (P \<Longrightarrow> Q) \<Longrightarrow> checks_that f Q"
  unfolding checks_that_def by blast

lemma checks_if:
  "(b \<Longrightarrow> checks_that f P) \<Longrightarrow> (\<not> b \<Longrightarrow> checks_that g P) \<Longrightarrow> checks_that (\<lambda>w. if b then f w else g w) P"
  by (cases b) simp_all

lemma checks_report: "checks_that (schema_report p c) P"
  by (simp add: checks_that_def)

lemma checks_none: "P \<Longrightarrow> checks_that (\<lambda>w. w) P"
  by (simp add: checks_that_def)

lemma checks_fold: "(\<And>x. x \<in> set xs \<Longrightarrow> checks_that (f x) (P x)) \<Longrightarrow> checks_that (fold f xs) (\<forall>x\<in>set xs. P x)"
proof (induction xs)
  case (Cons x xs)
  have "checks_that (\<lambda>w. fold f xs (f x w)) (P x \<and> (\<forall>x\<in>set xs. P x))"
    by (rule checks_comp) (use Cons in auto)
  then show ?case by (simp add: comp_def)
qed (simp add: checks_that_def)

lemma schema_text_checks: "checks_that (schema_text v path n) True"
  by (auto simp: checks_that_def schema_text_def split: js.split)

lemma schema_sources_checks: "checks_that (schema_sources s path segments inner) True"
  by (auto simp: checks_that_def schema_sources_def Let_def)

lemma schema_bound_checks: "checks_that (schema_bound s path ty k) (bound_form ty (js_prop s k))"
  by (auto simp: checks_that_def schema_bound_def bound_form_def split: js.split jsnum.split)

lemma schema_bounds_checks: "checks_that (schema_bounds s path ty) (range_form ty s)"
proof -
  let ?f = "\<lambda>w. schema_bound s path ty ''maximum'' (schema_bound s path ty ''minimum'' w)"
  let ?over = "case js_prop s ''maximum'' of JNum m \<Rightarrow> under_bound m (js_prop s ''minimum'') | _ \<Rightarrow> False"
  have "checks_that (\<lambda>w. (\<lambda>w. if ?over then schema_report (joinKey path ''minimum'') ''out_of_range'' w else w) (?f w))
      ((bound_form ty (js_prop s ''minimum'') \<and> bound_form ty (js_prop s ''maximum'')) \<and> \<not> ?over)"
    by (rule checks_comp [OF checks_comp [OF schema_bound_checks schema_bound_checks]], rule checks_if)
      (auto intro: checks_report checks_none)
  then show ?thesis by (simp add: schema_bounds_def [abs_def] Let_def range_form_def conj_assoc)
qed

lemma scalar_same: "js_scalar e \<Longrightarrow> same_value_zero e e"
  by (auto simp: js_scalar_def same_value_zero_def strict_equal_def split: js.splits jsnum.splits)

lemma enum_entries_checks:
  "errs w \<le> errs (enum_entries path ty i seen es w) \<and>
     (errs (enum_entries path ty i seen es w) = errs w \<longrightarrow>
        list_all (enum_entry_form ty) es \<and> distinct es \<and> set es \<inter> set seen = {})"
proof (induction es arbitrary: i seen w)
  case (Cons e es)
  let ?w = "if \<not> js_scalar e \<or> \<not> scalarMatchesType e ty then schema_report (joinIndex path (int i)) ''type'' w
        else if (case e of JStr s \<Rightarrow> text_bytes s > maxEnumStringBytes | _ \<Rightarrow> False)
        then schema_report (joinIndex path (int i)) ''too_large'' w
        else if list_ex (same_value_zero e) seen then schema_report (joinIndex path (int i)) ''duplicate'' w
        else w"
  have step: "errs w \<le> errs ?w" by simp
  have quiet: "enum_entry_form ty e \<and> e \<notin> set seen" if "errs ?w = errs w"
    using that scalar_same [of e] by (auto simp: enum_entry_form_def list_ex_iff split: if_splits js.splits)
  show ?case
    using Cons.IH [of ?w "i + 1" "seen @ [e]"] step quiet by (auto simp del: if_split)
qed simp

lemma schema_const_checks:
  "checks_that (schema_const s path ty) (js_prop s ''const'' = JUndef \<or>
     js_scalar (js_prop s ''const'') \<and> scalarMatchesType (js_prop s ''const'') ty \<and> js_prop s ''enum'' = JUndef)"
  by (auto simp: checks_that_def schema_const_def Let_def)

lemma schema_enum_checks: "checks_that (schema_enum s path ty) (literal_form ty s)"
proof -
  let ?p = "joinKey path ''enum''"
  let ?g = "\<lambda>w. if js_prop s ''enum'' = JUndef then w
      else case js_array (js_prop s ''enum'') of
        None \<Rightarrow> schema_report ?p ''type'' w
      | Some es \<Rightarrow>
          if es = [] then schema_report ?p ''empty'' w
          else if length es > maxEnumValues then schema_report ?p ''too_many'' w
          else
            (let w = w\<lparr>sw_enumValues := sw_enumValues w + length es\<rparr>
             in if sw_enumValues w > maxEnumValuesTotal then schema_report ?p ''too_many'' w
                else enum_entries ?p ty 0 [] es w)"
  let ?Q = "js_prop s ''enum'' = JUndef \<or>
        (case js_array (js_prop s ''enum'') of None \<Rightarrow> False
         | Some es \<Rightarrow> es \<noteq> [] \<and> length es \<le> maxEnumValues \<and> list_all (enum_entry_form ty) es \<and> distinct es)"
  have "checks_that ?g ?Q"
  proof (rule checks_thatI)
    show "errs w \<le> errs (?g w)" for w
      using enum_entries_checks [of "w\<lparr>sw_enumValues := sw_enumValues w + n\<rparr>" ?p ty 0 "[]" for n]
      by (auto simp: Let_def simp del: js_array_Some split: option.split)
    show "?Q" if "errs (?g w) = errs w" for w
      using that enum_entries_checks [of "w\<lparr>sw_enumValues := sw_enumValues w + n\<rparr>" ?p ty 0 "[]" for n]
      by (auto simp: Let_def simp del: js_array_Some split: option.splits if_splits)
  qed
  from checks_comp [OF schema_const_checks [of s path ty] this] show ?thesis
    by (simp add: schema_enum_def [abs_def] Let_def literal_form_def)
qed

lemma checks_after: "checks_that f Q \<Longrightarrow> checks_that g P \<Longrightarrow> checks_that (\<lambda>w. g (f w)) (Q \<and> P)"
  by (rule checks_comp)

lemma unknown_keywords_checks: "checks_that (unknown_keywords s path) (keywords_form s GRAPH_SCHEMA_KEYWORDS)"
proof -
  have "checks_that (unknown_keywords s path)
      (\<forall>k\<in>set (map fst (obj_members s)). k \<in> set (GRAPH_SCHEMA_KEYWORDS @ GRAPH_SCHEMA_ANNOTATIONS))"
    unfolding unknown_keywords_def by (rule checks_fold) (simp add: checks_that_def)
  then show ?thesis by (rule checks_weaken) (auto simp: keywords_form_def)
qed

lemma beside_any_of_checks:
  "checks_that (beside_any_of s path) (keywords_form s GRAPH_SCHEMA_KEYWORDS \<longrightarrow> keywords_form s [''anyOf''])"
proof -
  have "checks_that (beside_any_of s path)
      (\<forall>k\<in>set (map fst (obj_members s)). k \<notin> set GRAPH_SCHEMA_KEYWORDS \<or> k = ''anyOf'' \<or> k \<in> set GRAPH_SCHEMA_ANNOTATIONS)"
    unfolding beside_any_of_def
    by (rule checks_fold) (simp add: checks_that_def)
  then show ?thesis by (rule checks_weaken) (fastforce simp: keywords_form_def subset_iff)
qed

lemma inapplicable_checks: "checks_that (inapplicable s path ty) (applicable_form s ty)"
  unfolding inapplicable_def applicable_form_def
  by (rule checks_fold) (simp add: checks_that_def)

lemma schema_head_checks: "checks_that (schema_head s path segments inner) (keywords_form s GRAPH_SCHEMA_KEYWORDS)"
proof -
  let ?text = "\<lambda>k n w. if js_prop s k = JUndef then w else schema_text (js_prop s k) (joinKey path k) n w"
  have t: "checks_that (?text k n) True" for k n
    by (rule checks_if) (simp_all add: checks_none schema_text_checks)
  have "checks_that (\<lambda>w. schema_sources s path segments inner (?text ''title'' maxTitleBytes
      (?text ''description'' maxSchemaDescriptionBytes (unknown_keywords s path w))))
      (((keywords_form s GRAPH_SCHEMA_KEYWORDS \<and> True) \<and> True) \<and> True)"
    by (intro checks_comp [OF _ schema_sources_checks] checks_comp [OF _ t] unknown_keywords_checks)
  then show ?thesis by (simp add: schema_head_def [abs_def] Let_def)
qed

lemma object_start_checks:
  "errs w \<le> errs (snd (object_start s path d w)) \<and>
     (errs (snd (object_start s path d w)) = errs w \<longrightarrow>
        fst (object_start s path d w) \<and> isPlainRecord (js_prop s ''properties''))"
  by (simp add: object_start_def Let_def)

lemma required_entries_checks:
  "errs w \<le> errs (required_entries path q i seen es w) \<and>
     (errs (required_entries path q i seen es w) = errs w \<longrightarrow>
        list_all (names_property q) es)"
proof (induction es arbitrary: i seen w)
  case (Cons e es)
  show ?case
  proof (cases "\<exists>k. e = JStr k")
    case True
    then obtain k where e: "e = JStr k" by blast
    let ?w = "if k \<in> set seen then schema_report (joinIndex path (int i)) ''duplicate'' w
           else if obj_get (obj_members q) k = None
           then schema_report (joinIndex path (int i)) ''unknown_property'' w
           else w"
    have "errs w \<le> errs ?w" "errs ?w = errs w \<Longrightarrow> obj_get (obj_members q) k \<noteq> None" by (auto split: if_splits)
    then show ?thesis using Cons.IH [of ?w "i + 1" "k # seen"] by (auto simp: e names_property_def simp del: if_split)
  next
    case False
    then show ?thesis
      using Cons.IH [of "schema_report (joinIndex path (int i)) ''type'' w" "i + 1" seen]
      by (cases e) (auto simp: names_property_def)
  qed
qed simp

lemma object_lists_checks: "checks_that (object_lists s path) (required_form s)"
proof -
  let ?f = "\<lambda>w. case js_array (js_prop s ''required'') of
                 None \<Rightarrow> schema_report (joinKey path ''required'') (if js_prop s ''required'' = JUndef then ''required'' else ''type'') w
               | Some es \<Rightarrow> required_entries (joinKey path ''required'') (js_prop s ''properties'') 0 [] es w"
  let ?g = "\<lambda>w. if js_prop s ''additionalProperties'' \<noteq> JBool False
         then schema_report (joinKey path ''additionalProperties'')
                (if js_prop s ''additionalProperties'' = JUndef then ''required'' else ''type'') w
         else w"
  have f: "checks_that ?f (case js_array (js_prop s ''required'') of None \<Rightarrow> False
        | Some es \<Rightarrow> list_all (names_property (js_prop s ''properties'')) es)"
    using required_entries_checks
    by (cases "js_array (js_prop s ''required'')") (auto simp: checks_that_def simp del: js_array_Some)
  have g: "checks_that ?g (js_prop s ''additionalProperties'' = JBool False)"
    by (rule checks_if) (simp_all add: checks_report checks_none)
  from checks_comp [OF f g] show ?thesis
    by (simp add: object_lists_def [abs_def] Let_def required_form_def conj_commute)
qed

lemma property_required_checks:
  "checks_that (property_required s path k)
     (js_array (js_prop s ''required'') \<noteq> None \<longrightarrow> k \<in> set (string_list (js_prop s ''required'')))"
  by (simp add: checks_that_def property_required_def)

section \<open>The checker's guarantee\<close>

text \<open>The steps of the two folds of a visit.\<close>

definition branch_visit :: "string \<Rightarrow> string list \<Rightarrow> nat \<Rightarrow> nat \<times> js \<Rightarrow> subset_walk \<Rightarrow> subset_walk" where
  "branch_visit path segments d = (\<lambda>(i, b) w. visitSchema b (joinIndex path (int i)) segments d False True w)"

definition property_visit :: "js \<Rightarrow> string \<Rightarrow> string list \<Rightarrow> nat \<Rightarrow> string \<times> js \<Rightarrow> subset_walk \<Rightarrow> subset_walk" where
  "property_visit s path segments d = (\<lambda>(k, p) w.
     let propertyPath = joinKey (joinKey path ''properties'') k in
     if \<not> property_name_ok k then schema_report propertyPath ''pattern'' w
     else visitSchema p propertyPath (segments @ [k]) d False False (property_required s propertyPath k w))"

definition object_visit :: "js \<Rightarrow> string \<Rightarrow> string list \<Rightarrow> nat \<Rightarrow> subset_walk \<Rightarrow> subset_walk" where
  "object_visit s path segments d w =
     (let (go, w) = object_start s path d w in
      if \<not> go then w
      else fold (property_visit s path segments d) (obj_members (js_prop s ''properties'')) (object_lists s path w))"

definition items_visit :: "js \<Rightarrow> string \<Rightarrow> string list \<Rightarrow> nat \<Rightarrow> subset_walk \<Rightarrow> subset_walk" where
  "items_visit s path segments d w =
     (if js_prop s ''items'' = JUndef then schema_report (joinKey path ''items'') ''required'' w
      else if js_array (js_prop s ''items'') \<noteq> None then schema_report (joinKey path ''items'') ''type'' w
      else visitSchema (js_prop s ''items'') (joinKey path ''items'') (segments @ [''[]'']) d False False w)"

definition any_visit :: "js \<Rightarrow> string \<Rightarrow> string list \<Rightarrow> nat \<Rightarrow> subset_walk \<Rightarrow> subset_walk" where
  "any_visit s path segments d w =
     (case js_array (js_prop s ''anyOf'') of
        None \<Rightarrow> schema_report (joinKey path ''anyOf'') ''type'' w
      | Some bs \<Rightarrow>
          if length bs < 2 then schema_report (joinKey path ''anyOf'') ''too_few'' w
          else if length bs > maxAnyOfBranches then schema_report (joinKey path ''anyOf'') ''too_many'' w
          else fold (branch_visit (joinKey path ''anyOf'') segments d) (enumerate 0 bs) w)"

definition typed_visit :: "js \<Rightarrow> string \<Rightarrow> string list \<Rightarrow> nat \<Rightarrow> string \<Rightarrow> subset_walk \<Rightarrow> subset_walk" where
  "typed_visit s path segments d ty w =
     (if ty = ''object'' then object_visit s path segments (d + 1) w
      else if ty = ''array'' then items_visit s path segments d w
      else if ty = ''number'' \<or> ty = ''integer'' then schema_enum s path ty (schema_bounds s path ty w)
      else if ty = ''string'' \<or> ty = ''boolean'' then schema_enum s path ty w
      else w)"

lemma visit_steps:
  "visitSchema s path segments d isRoot inner = (\<lambda>w.
     if \<not> isPlainRecord s then schema_report path ''type'' w
     else if js_prop s ''anyOf'' \<noteq> JUndef
     then (if isRoot \<or> inner then schema_report (joinKey path ''anyOf'') ''not_applicable'' (schema_head s path segments (isRoot \<or> inner) w)
           else any_visit s path segments d (beside_any_of s path (schema_head s path segments (isRoot \<or> inner) w)))
     else (case declared_type s isRoot of
         Inl code \<Rightarrow> schema_report (joinKey path ''type'') code (schema_head s path segments (isRoot \<or> inner) w)
       | Inr ty \<Rightarrow> typed_visit s path segments d ty (inapplicable s path ty (schema_head s path segments (isRoot \<or> inner) w))))"
  by (rule ext, subst visitSchema.simps)
    (simp only: Let_def any_visit_def typed_visit_def object_visit_def items_visit_def branch_visit_def property_visit_def)

definition typed_form :: "js \<Rightarrow> string \<Rightarrow> bool" where
  "typed_form s ty \<longleftrightarrow>
     (if ty = ''object''
      then isPlainRecord (js_prop s ''properties'') \<and> required_form s
        \<and> list_all (\<lambda>(k, p). property_name_ok k \<and> k \<in> set (string_list (js_prop s ''required'')) \<and> subset_form p)
            (obj_members (js_prop s ''properties''))
      else if ty = ''array'' then js_prop s ''items'' \<noteq> JUndef \<and> subset_form (js_prop s ''items'')
      else if ty = ''number'' \<or> ty = ''integer'' then range_form ty s \<and> literal_form ty s
      else if ty = ''string'' \<or> ty = ''boolean'' then literal_form ty s else True)"

lemma subset_form_steps:
  "subset_form s \<longleftrightarrow> isPlainRecord s \<and> keywords_form s GRAPH_SCHEMA_KEYWORDS
     \<and> (if js_prop s ''anyOf'' \<noteq> JUndef
        then keywords_form s [''anyOf'']
          \<and> (\<exists>bs. js_prop s ''anyOf'' = JArr bs \<and> 2 \<le> length bs \<and> length bs \<le> maxAnyOfBranches
                 \<and> (\<forall>b\<in>set bs. subset_form b \<and> js_prop b ''anyOf'' = JUndef))
        else \<exists>ty. declared_type s False = Inr ty \<and> applicable_form s ty \<and> typed_form s ty)"
proof (cases "js_prop s ''anyOf'' = JUndef")
  case True
  have "(if js_prop s ''items'' = JUndef then False else subset_form (js_prop s ''items''))
      \<longleftrightarrow> js_prop s ''items'' \<noteq> JUndef \<and> subset_form (js_prop s ''items'')" by simp
  with True show ?thesis by (subst subset_form.simps) (simp only: typed_form_def if_True if_False not_not simp_thms, cases "declared_type s False"; simp only: sum.case; blast)
next
  case False
  show ?thesis
  proof (cases "js_array (js_prop s ''anyOf'')")
    case None
    then have "js_prop s ''anyOf'' \<noteq> JArr bs" for bs by (simp add: js_array_None)
    with False None show ?thesis by (subst subset_form.simps) simp
  next
    case (Some bs)
    with False show ?thesis by (subst subset_form.simps) (simp add: list_all_iff)
  qed
qed


lemma declared_root: "declared_type s isRoot = Inr ty \<Longrightarrow> declared_type s False = Inr ty \<and> (isRoot \<longrightarrow> ty = ''object'')
    \<and> js_prop s ''type'' = JStr ty"
  by (auto simp: declared_type_def split: js.splits if_splits)

lemma object_visit_checks:
  assumes props: "\<And>k q p g n. (k, q) \<in> set (obj_members (js_prop s ''properties'')) \<Longrightarrow>
      checks_that (visitSchema q p g n False False) (subset_form q)"
  shows "checks_that (object_visit s path segments d) (isPlainRecord (js_prop s ''properties'') \<and> required_form s
    \<and> list_all (\<lambda>(k, p). property_name_ok k \<and> k \<in> set (string_list (js_prop s ''required'')) \<and> subset_form p)
            (obj_members (js_prop s ''properties'')))" (is "checks_that _ ?P")
proof -
  let ?R = "\<lambda>q. property_name_ok (fst q) \<and> (js_array (js_prop s ''required'') \<noteq> None \<longrightarrow>
      fst q \<in> set (string_list (js_prop s ''required''))) \<and> subset_form (snd q)"
  have p: "checks_that (property_visit s path segments d q) (?R q)"
    if "q \<in> set (obj_members (js_prop s ''properties''))" for q
  proof (cases "property_name_ok (fst q)")
    case False
    then show ?thesis by (simp add: property_visit_def Let_def case_prod_unfold checks_report)
  next
    case True
    let ?p = "joinKey (joinKey path ''properties'') (fst q)"
    have "checks_that (\<lambda>w. visitSchema (snd q) ?p (segments @ [fst q]) d False False (property_required s ?p (fst q) w)) (?R q)"
      by (rule checks_weaken [OF checks_comp [OF property_required_checks props [of "fst q" "snd q"]]])
        (use that True in simp_all)
    with True show ?thesis by (simp add: property_visit_def Let_def case_prod_unfold)
  qed
  let ?lists = "\<lambda>w. fold (property_visit s path segments d) (obj_members (js_prop s ''properties'')) (object_lists s path w)"
  have lists: "checks_that ?lists (required_form s \<and> (\<forall>q\<in>set (obj_members (js_prop s ''properties'')). ?R q))"
    by (rule checks_comp [OF object_lists_checks checks_fold [OF p]])
  have form: "required_form s \<Longrightarrow> (\<forall>q\<in>set (obj_members (js_prop s ''properties'')). ?R q) \<Longrightarrow>
      isPlainRecord (js_prop s ''properties'') \<Longrightarrow> ?P"
    by (cases "js_array (js_prop s ''required'')") (auto simp: required_form_def list_all_iff)
  have step: "object_visit s path segments d w =
      (if fst (object_start s path d w) then ?lists (snd (object_start s path d w)) else snd (object_start s path d w))" for w
    by (simp add: object_visit_def case_prod_unfold)
  show ?thesis
  proof (rule checks_thatI)
    show "errs w \<le> errs (object_visit s path segments d w)" for w
      using object_start_checks [of w s path d] lists unfolding step checks_that_def by (auto intro: le_trans)
    show ?P if "errs (object_visit s path segments d w) = errs w" for w
    proof -
      let ?w = "snd (object_start s path d w)"
      have "errs w \<le> errs ?w" "errs ?w \<le> errs (?lists ?w)"
        using object_start_checks [of w s path d] lists unfolding checks_that_def by blast+
      with that have "errs ?w = errs w" "fst (object_start s path d w) \<Longrightarrow> errs (?lists ?w) = errs ?w"
        unfolding step by (auto split: if_splits)
      with object_start_checks [of w s path d] lists form show ?P unfolding checks_that_def by blast
    qed
  qed
qed

lemma typed_visit_checks:
  assumes sub: "\<And>q p g n. size q < size s \<Longrightarrow> checks_that (visitSchema q p g n False False) (subset_form q)"
  shows "checks_that (typed_visit s path segments d ty) (typed_form s ty)"
proof -
  have "checks_that (object_visit s path segments (d + 1)) (typed_form s ty)" if "ty = ''object''"
    using object_visit_checks [of s path segments "d + 1"] sub size_property [of _ _ s "''properties''"] that
    by (simp add: typed_form_def)
  moreover have "checks_that (items_visit s path segments d) (typed_form s ty)" if "ty = ''array''"
    unfolding items_visit_def [abs_def]
    by (intro checks_if checks_report) (use sub [OF size_prop [of s "''items''"]] that in \<open>simp add: typed_form_def\<close>)
  moreover have "checks_that (\<lambda>w. schema_enum s path ty (schema_bounds s path ty w)) (typed_form s ty)"
    if "ty = ''number'' \<or> ty = ''integer''"
    by (rule checks_weaken [OF checks_comp [OF schema_bounds_checks schema_enum_checks]]) (use that in \<open>auto simp: typed_form_def\<close>)
  moreover have "checks_that (schema_enum s path ty) (typed_form s ty)" if "ty = ''string'' \<or> ty = ''boolean''"
    by (rule checks_weaken [OF schema_enum_checks]) (use that in \<open>auto simp: typed_form_def\<close>)
  ultimately show ?thesis
    unfolding typed_visit_def [abs_def] by (intro checks_if checks_none) (auto simp: typed_form_def)
qed

lemma visit_checks:
  "checks_that (visitSchema s path segments d isRoot inner)
     (subset_form s \<and> (isRoot \<or> inner \<longrightarrow> js_prop s ''anyOf'' = JUndef)
      \<and> (isRoot \<longrightarrow> js_prop s ''type'' = JStr ''object''))"
proof (induction s arbitrary: path segments d isRoot inner rule: measure_induct_rule [of size])
  case (less s)
  let ?P = "subset_form s \<and> (isRoot \<or> inner \<longrightarrow> js_prop s ''anyOf'' = JUndef)
      \<and> (isRoot \<longrightarrow> js_prop s ''type'' = JStr ''object'')"
  have sub: "checks_that (visitSchema q p g n False inner') (subset_form q \<and> (inner' \<longrightarrow> js_prop q ''anyOf'' = JUndef))"
    if "size q < size s" for q p g n inner'
    using less.IH [OF that, of p g n False inner'] by simp
  let ?head = "schema_head s path segments (isRoot \<or> inner)"
  note head = schema_head_checks [of s path segments "isRoot \<or> inner"]
  consider "\<not> isPlainRecord s"
    | "isPlainRecord s" "js_prop s ''anyOf'' \<noteq> JUndef" "isRoot \<or> inner"
    | "isPlainRecord s" "js_prop s ''anyOf'' \<noteq> JUndef" "\<not> (isRoot \<or> inner)"
    | code where "isPlainRecord s" "js_prop s ''anyOf'' = JUndef" "declared_type s isRoot = Inl code"
    | ty where "isPlainRecord s" "js_prop s ''anyOf'' = JUndef" "declared_type s isRoot = Inr ty"
    by (cases "declared_type s isRoot") blast+
  then show ?case
  proof cases
    case 1
    then show ?thesis by (subst visit_steps) (simp add: checks_report)
  next
    case 2
    have "checks_that (\<lambda>w. schema_report (joinKey path ''anyOf'') ''not_applicable'' (?head w)) ?P"
      by (rule checks_weaken [OF checks_comp [OF head checks_report [where P = ?P]]]) simp
    with 2 show ?thesis by (subst visit_steps) simp
  next
    case 3
    have b: "checks_that (branch_visit p segments d q) (subset_form (snd q) \<and> js_prop (snd q) ''anyOf'' = JUndef)"
      if "js_prop s ''anyOf'' = JArr bs" "snd q \<in> set bs" for p q bs
      using sub [OF size_alternative [OF that], where inner' = True] by (simp add: branch_visit_def case_prod_unfold)
    let ?Q = "\<exists>bs. js_prop s ''anyOf'' = JArr bs \<and> 2 \<le> length bs \<and> length bs \<le> maxAnyOfBranches
                 \<and> (\<forall>b\<in>set bs. subset_form b \<and> js_prop b ''anyOf'' = JUndef)"
    have any: "checks_that (any_visit s path segments d) ?Q"
    proof (cases "js_array (js_prop s ''anyOf'')")
      case None
      then show ?thesis by (simp add: any_visit_def [abs_def] checks_report)
    next
      case (Some bs)
      have f: "checks_that (fold (branch_visit (joinKey path ''anyOf'') segments d) (enumerate 0 bs))
          (\<forall>q\<in>set (enumerate 0 bs). subset_form (snd q) \<and> js_prop (snd q) ''anyOf'' = JUndef)"
        by (rule checks_fold, rule b) (use Some in \<open>auto simp: in_set_enumerate_eq\<close>)
      moreover have "set bs = snd ` set (enumerate 0 bs)" by (metis map_snd_enumerate set_map)
      ultimately have "checks_that (fold (branch_visit (joinKey path ''anyOf'') segments d) (enumerate 0 bs))
          (\<forall>b\<in>set bs. subset_form b \<and> js_prop b ''anyOf'' = JUndef)" by simp
      then have "checks_that (\<lambda>w. if length bs < 2 then schema_report (joinKey path ''anyOf'') ''too_few'' w
            else if maxAnyOfBranches < length bs then schema_report (joinKey path ''anyOf'') ''too_many'' w
            else fold (branch_visit (joinKey path ''anyOf'') segments d) (enumerate 0 bs) w)
          (2 \<le> length bs \<and> length bs \<le> maxAnyOfBranches \<and> (\<forall>b\<in>set bs. subset_form b \<and> js_prop b ''anyOf'' = JUndef))"
        by (intro checks_if checks_report) (erule checks_weaken, simp)
      with Some show ?thesis by (simp add: any_visit_def [abs_def])
    qed
    have "checks_that (\<lambda>w. any_visit s path segments d (beside_any_of s path (?head w))) ?P"
      by (rule checks_weaken [OF checks_comp [OF checks_comp [OF head beside_any_of_checks] any]])
        (use 3 in \<open>simp add: subset_form_steps [of s]\<close>)
    with 3 show ?thesis by (subst visit_steps) simp
  next
    case 4
    have "checks_that (\<lambda>w. schema_report (joinKey path ''type'') code (?head w)) ?P"
      by (rule checks_weaken [OF checks_comp [OF head checks_report [where P = ?P]]]) simp
    with 4 show ?thesis by (subst visit_steps) simp
  next
    case 5
    have "checks_that (typed_visit s path segments d ty) (typed_form s ty)"
      by (rule typed_visit_checks) (use sub [where inner' = False] in simp)
    then have "checks_that (\<lambda>w. typed_visit s path segments d ty (inapplicable s path ty (?head w))) ?P"
      by (rule checks_weaken [OF checks_comp [OF checks_comp [OF head inapplicable_checks]]])
        (use 5 declared_root [of s isRoot ty] in \<open>simp add: subset_form_steps [of s]\<close>)
    with 5 show ?thesis by (subst visit_steps) simp
  qed
qed


lemma checked_form:
  assumes "checkGraphSchemaSubset nt s path c = (Some sources, c')"
  shows "subset_form s \<and> js_prop s ''type'' = JStr ''object'' \<and> js_depth s \<le> SCHEMA_MAX_DEPTH"
proof -
  have "js_depth s \<le> SCHEMA_MAX_DEPTH"
    using assms depth_loop_exact [of "[(s, 1)]" maxSchemaDepth]
    by (auto simp: checkGraphSchemaSubset_def jsonDepthExceeds_def maxSchemaDepth_def SCHEMA_MAX_DEPTH_def split: if_splits)
  moreover
  let ?w = "\<lparr>sw_errors = c, sw_properties = 0, sw_enumValues = 0, sw_sources = []\<rparr>"
  have "errs (visitSchema s path [] 0 True False ?w) = errs ?w"
    using assms by (auto simp: checkGraphSchemaSubset_def col_count_def Let_def split: if_splits option.splits)
  then have "subset_form s \<and> js_prop s ''type'' = JStr ''object''"
    using visit_checks [of s path "[]" 0 True False] unfolding checks_that_def by blast
  ultimately show ?thesis by simp
qed

lemma validate_accepts: "js_depth s \<le> SCHEMA_MAX_DEPTH \<Longrightarrow> validateWorkflowJsonSchema s v = [] \<longleftrightarrow> accepts s v"
  using visit_accepts [of 0 s "[]" v "''$''"] accepts_tests [of s v]
  by (auto simp: validateWorkflowJsonSchema_def SCHEMA_MAX_ISSUES_def js_falsy_def isPlainRecord_def)

section \<open>The schema a provider sees\<close>

lemma obj_get_map: "obj_get (map (\<lambda>(k, e). (k, f k e)) ps) k = map_option (f k) (obj_get ps k)"
  by (induction ps) (auto simp: obj_get_def)

lemma obj_get_filter_key: "k \<noteq> j \<Longrightarrow> obj_get (filter (\<lambda>(k, e). k \<noteq> j) ps) k = obj_get ps k"
  by (induction ps) (auto simp: obj_get_def)

definition strip_member :: "string \<Rightarrow> js \<Rightarrow> js" where
  "strip_member k e = (if k = ''properties'' \<and> isPlainRecord e
     then JObj (map (\<lambda>(n, c). (n, graphProviderSchema c)) (obj_members e)) else graphProviderSchema e)"

lemma strip_leaf [simp]:
  "graphProviderSchema JUndef = JUndef" "graphProviderSchema JNull = JNull" "graphProviderSchema (JBool b) = JBool b"
  "graphProviderSchema (JNum n) = JNum n" "graphProviderSchema (JStr x) = JStr x" "graphProviderSchema JOther = JOther"
  "graphProviderSchema (JArr xs) = JArr (map graphProviderSchema xs)"
  by (simp_all add: graphProviderSchema.simps)

lemma strip_object: "graphProviderSchema (JObj ps) =
    JObj (map (\<lambda>(k, e). (k, strip_member k e)) (filter (\<lambda>(k, e). k \<noteq> GRAPH_SCHEMA_SOURCES_KEYWORD) ps))"
  by (subst graphProviderSchema.simps) (simp add: strip_member_def)

lemma strip_record [simp]: "isPlainRecord (graphProviderSchema v) = isPlainRecord v"
  by (cases v) (simp_all add: isPlainRecord_def strip_object)

lemma strip_prop:
  assumes "isPlainRecord s" and "k \<noteq> GRAPH_SCHEMA_SOURCES_KEYWORD"
  shows "js_prop (graphProviderSchema s) k = strip_member k (js_prop s k)"
  using assms by (cases s)
    (auto simp: isPlainRecord_def strip_object js_prop_def obj_get_map obj_get_filter_key strip_member_def split: option.splits)

lemma strip_same [simp]:
  "graphProviderSchema v = JUndef \<longleftrightarrow> v = JUndef" "graphProviderSchema v = JBool b \<longleftrightarrow> v = JBool b"
  "graphProviderSchema v = JStr x \<longleftrightarrow> v = JStr x"
  by (cases v; simp add: strip_object)+

lemma strip_bounds [simp]:
  "under_bound n (graphProviderSchema b) = under_bound n b" "over_bound n (graphProviderSchema b) = over_bound n b"
  by (cases b; simp add: under_bound_def over_bound_def strip_object)+

lemma strip_string: "(case graphProviderSchema x of JStr s \<Rightarrow> Some s | _ \<Rightarrow> None) = (case x of JStr s \<Rightarrow> Some s | _ \<Rightarrow> None)"
  by (cases x) (simp_all add: strip_object)

lemma strip_strings [simp]: "string_list (graphProviderSchema b) = string_list b"
  by (cases b) (simp_all add: string_list_def strip_object List.map_filter_def strip_string comp_def filter_map)


lemma sources_keyword [simp]:
  "''anyOf'' \<noteq> GRAPH_SCHEMA_SOURCES_KEYWORD" "''const'' \<noteq> GRAPH_SCHEMA_SOURCES_KEYWORD"
  "''enum'' \<noteq> GRAPH_SCHEMA_SOURCES_KEYWORD" "''type'' \<noteq> GRAPH_SCHEMA_SOURCES_KEYWORD"
  "''items'' \<noteq> GRAPH_SCHEMA_SOURCES_KEYWORD" "''properties'' \<noteq> GRAPH_SCHEMA_SOURCES_KEYWORD"
  "''required'' \<noteq> GRAPH_SCHEMA_SOURCES_KEYWORD" "''additionalProperties'' \<noteq> GRAPH_SCHEMA_SOURCES_KEYWORD"
  "''minimum'' \<noteq> GRAPH_SCHEMA_SOURCES_KEYWORD" "''maximum'' \<noteq> GRAPH_SCHEMA_SOURCES_KEYWORD"
  "''minLength'' \<noteq> GRAPH_SCHEMA_SOURCES_KEYWORD" "''maxLength'' \<noteq> GRAPH_SCHEMA_SOURCES_KEYWORD"
  "''minItems'' \<noteq> GRAPH_SCHEMA_SOURCES_KEYWORD" "''maxItems'' \<noteq> GRAPH_SCHEMA_SOURCES_KEYWORD"
  by (simp_all add: GRAPH_SCHEMA_SOURCES_KEYWORD_def)

lemma strip_member_plain [simp]: "k \<noteq> ''properties'' \<Longrightarrow> strip_member k e = graphProviderSchema e"
  by (simp add: strip_member_def)

lemma strip_range: "isPlainRecord s \<Longrightarrow> range_codes (graphProviderSchema s) v = range_codes s v"
  by (cases v) (simp_all add: range_codes_def strip_prop)

lemma strip_count: "isPlainRecord s \<Longrightarrow> count_codes (graphProviderSchema s) n = count_codes s n"
  by (simp add: count_codes_def strip_prop)

lemma strip_property:
  "obj_members (strip_member ''properties'' e) = map (\<lambda>(n, c). (n, graphProviderSchema c)) (obj_members e)"
  by (cases e) (simp_all add: strip_member_def isPlainRecord_def obj_members_def)

lemma strip_fields: "isPlainRecord s \<Longrightarrow> field_issues (graphProviderSchema s) vs path = field_issues s vs path"
  using obj_get_map [of "\<lambda>_. graphProviderSchema" "obj_members (js_prop s ''properties'')"]
  by (simp add: field_issues_def strip_prop strip_property)

lemma strip_scalar: "js_scalar e \<Longrightarrow> graphProviderSchema e = e"
  by (cases e) (auto simp: js_scalar_def)

text \<open>The type, the literals and the parts of a schema of the subset.\<close>

lemma form_type:
  assumes "subset_form s" and "js_prop s ''anyOf'' = JUndef"
  obtains ty where "js_prop s ''type'' = JStr ty" and "ty \<in> set GRAPH_SCHEMA_TYPES" and "applicable_form s ty"
    and "typed_form s ty"
proof -
  obtain ty where ty: "declared_type s False = Inr ty" "applicable_form s ty" "typed_form s ty"
    using assms by (auto simp: subset_form_steps)
  moreover have "js_prop s ''type'' = JStr ty" "ty \<in> set GRAPH_SCHEMA_TYPES"
    using ty(1) by (auto simp: declared_type_def split: js.splits if_splits)
  ultimately show thesis using that by blast
qed

lemma form_union:
  assumes "subset_form s" and "js_prop s ''anyOf'' \<noteq> JUndef"
  obtains bs where "js_prop s ''anyOf'' = JArr bs" and "2 \<le> length bs"
    and "\<And>b. b \<in> set bs \<Longrightarrow> subset_form b \<and> js_prop b ''anyOf'' = JUndef" and "js_prop s ''type'' = JUndef"
proof -
  obtain bs where bs: "js_prop s ''anyOf'' = JArr bs" "2 \<le> length bs"
      "\<forall>b\<in>set bs. subset_form b \<and> js_prop b ''anyOf'' = JUndef" "keywords_form s [''anyOf'']"
    using assms by (auto simp: subset_form_steps)
  moreover have "js_prop s ''type'' = JUndef"
  proof (rule ccontr)
    assume "js_prop s ''type'' \<noteq> JUndef"
    then have "''type'' \<in> set (map fst (obj_members s))" by (force dest: js_prop_in)
    with bs(4) show False by (auto simp: keywords_form_def GRAPH_SCHEMA_ANNOTATIONS_def GRAPH_SCHEMA_SOURCES_KEYWORD_def)
  qed
  ultimately show thesis using that by blast
qed

lemma form_record: "subset_form s \<Longrightarrow> isPlainRecord s"
  by (simp add: subset_form_steps)

lemma form_keyword:
  "applicable_form s ty \<Longrightarrow> k \<in> set GRAPH_SCHEMA_KEYWORDS \<Longrightarrow> k \<noteq> ''type'' \<Longrightarrow> k \<noteq> ''anyOf'' \<Longrightarrow> js_prop s k \<noteq> JUndef \<Longrightarrow>
     k \<in> set (KEYWORDS_BY_TYPE ty)"
  by (auto simp: applicable_form_def)

text \<open>A keyword outside the subset is absent.\<close>

lemma form_absent:
  assumes "subset_form s" and "k \<notin> set (GRAPH_SCHEMA_KEYWORDS @ GRAPH_SCHEMA_ANNOTATIONS)"
  shows "js_prop s k = JUndef"
proof (rule ccontr)
  assume "js_prop s k \<noteq> JUndef"
  then have "k \<in> set (map fst (obj_members s))" by (force dest: js_prop_in)
  with assms show False by (auto simp: subset_form_steps keywords_form_def)
qed

lemma form_lengths:
  assumes "subset_form s"
  shows "js_prop s ''minLength'' = JUndef" "js_prop s ''maxLength'' = JUndef" "js_prop s ''minItems'' = JUndef"
    "js_prop s ''maxItems'' = JUndef"
  by (rule form_absent [OF assms],
      simp add: GRAPH_SCHEMA_KEYWORDS_def GRAPH_SCHEMA_ANNOTATIONS_def GRAPH_SCHEMA_SOURCES_KEYWORD_def)+

lemma literal_enum:
  assumes "literal_form ty s" and "js_prop s ''enum'' \<noteq> JUndef"
  shows "\<exists>es. js_prop s ''enum'' = JArr es \<and> list_all js_scalar es"
proof (cases "js_array (js_prop s ''enum'')")
  case None
  with assms show ?thesis by (simp add: literal_form_def)
next
  case (Some es)
  with assms have "list_all (enum_entry_form ty) es" by (simp add: literal_form_def)
  then have "list_all js_scalar es" by (simp add: list_all_iff enum_entry_form_def)
  with Some show ?thesis by simp
qed

lemma form_literals:
  assumes "subset_form s" and "js_prop s ''anyOf'' = JUndef"
  shows "js_prop s ''const'' = JUndef \<or> js_scalar (js_prop s ''const'')"
    and "js_prop s ''enum'' = JUndef \<or> (\<exists>es. js_prop s ''enum'' = JArr es \<and> list_all js_scalar es)"
proof -
  obtain ty where ty: "ty \<in> set GRAPH_SCHEMA_TYPES" "applicable_form s ty" "typed_form s ty"
    using assms by (rule form_type)
  have none: "js_prop s k = JUndef" if "ty \<in> {''object'', ''array'', ''null''}" "k \<in> {''const'', ''enum''}" for k
  proof (rule ccontr)
    assume "js_prop s k \<noteq> JUndef"
    moreover have "k \<in> set GRAPH_SCHEMA_KEYWORDS" "k \<noteq> ''type''" "k \<noteq> ''anyOf''"
      using that(2) by (auto simp: GRAPH_SCHEMA_KEYWORDS_def)
    ultimately have "k \<in> set (KEYWORDS_BY_TYPE ty)" using form_keyword [OF ty(2)] by blast
    with that show False by (auto simp: KEYWORDS_BY_TYPE_def)
  qed
  consider "literal_form ty s" | "ty \<in> {''object'', ''array'', ''null''}"
    using ty(1,3) by (auto simp: typed_form_def GRAPH_SCHEMA_TYPES_def)
  then show "js_prop s ''const'' = JUndef \<or> js_scalar (js_prop s ''const'')"
  proof cases
    case 1
    then show ?thesis unfolding literal_form_def by blast
  next
    case 2
    then show ?thesis using none [of "''const''"] by simp
  qed
  consider "literal_form ty s" | "ty \<in> {''object'', ''array'', ''null''}"
    using ty(1,3) by (auto simp: typed_form_def GRAPH_SCHEMA_TYPES_def)
  then show "js_prop s ''enum'' = JUndef \<or> (\<exists>es. js_prop s ''enum'' = JArr es \<and> list_all js_scalar es)"
  proof cases
    case 1
    then show ?thesis using literal_enum by blast
  next
    case 2
    then show ?thesis using none [of "''enum''"] by simp
  qed
qed

lemma form_items:
  assumes "subset_form s" and "js_prop s ''anyOf'' = JUndef" and "js_prop s ''items'' \<noteq> JUndef"
  shows "subset_form (js_prop s ''items'')"
proof -
  obtain ty where ty: "applicable_form s ty" "typed_form s ty" using assms(1,2) by (rule form_type)
  have "''items'' \<in> set (KEYWORDS_BY_TYPE ty)"
    by (rule form_keyword [OF ty(1)]) (use assms(3) in \<open>simp_all add: GRAPH_SCHEMA_KEYWORDS_def\<close>)
  with ty(2) show ?thesis by (auto simp: typed_form_def KEYWORDS_BY_TYPE_def split: if_splits)
qed

lemma form_property:
  assumes "subset_form s" and "js_prop s ''anyOf'' = JUndef" and "(k, p) \<in> set (obj_members (js_prop s ''properties''))"
  shows "subset_form p"
proof -
  obtain ty where ty: "applicable_form s ty" "typed_form s ty" using assms(1,2) by (rule form_type)
  have "js_prop s ''properties'' \<noteq> JUndef" using assms(3) by (auto simp: obj_members_def)
  then have "''properties'' \<in> set (KEYWORDS_BY_TYPE ty)"
    by (intro form_keyword [OF ty(1)]) (simp_all add: GRAPH_SCHEMA_KEYWORDS_def)
  with ty(2) assms(3) show ?thesis by (auto simp: typed_form_def KEYWORDS_BY_TYPE_def list_all_iff split: if_splits)
qed

lemma strip_refusal:
  assumes "subset_form s" and "js_prop s ''anyOf'' = JUndef"
  shows "scalar_refusal (graphProviderSchema s) v = scalar_refusal s v"
proof -
  have "isPlainRecord s" using assms by (simp add: subset_form_steps)
  moreover have "graphProviderSchema (js_prop s ''const'') = js_prop s ''const''"
    using form_literals [OF assms] by (auto simp: strip_scalar)
  moreover have "graphProviderSchema (js_prop s ''enum'') = js_prop s ''enum''"
    using form_literals [OF assms] by (auto simp: strip_scalar list_all_iff intro!: map_idI)
  moreover have "graphProviderSchema (js_prop s ''type'') = js_prop s ''type''"
    using form_type [OF assms] by (metis strip_leaf(5))
  ultimately show ?thesis by (simp add: scalar_refusal_def strip_prop)
qed

text \<open>Acceptance by a schema that is no union, and by a union.\<close>

lemma accepts_plain:
  assumes "isPlainRecord s" and "js_prop s ''anyOf'' = JUndef"
  shows "accepts s v \<longleftrightarrow> scalar_refusal s v = None \<and> range_codes s v = []
    \<and> (\<forall>xs. js_prop s ''items'' \<noteq> JUndef \<longrightarrow> v = JArr xs \<longrightarrow>
        count_codes s (length xs) = [] \<and> length xs \<le> SCHEMA_MAX_ARRAY_ITEMS \<and> (\<forall>x\<in>set xs. accepts (js_prop s ''items'') x))
    \<and> (\<forall>vs. v = JObj vs \<longrightarrow> field_issues s vs [] = []
        \<and> (\<forall>q\<in>set (obj_members (js_prop s ''properties'')). \<forall>x. obj_get vs (fst q) = Some x \<longrightarrow> accepts (snd q) x))"
proof -
  have "accepts s v \<longleftrightarrow> scalar_refusal s v = None \<and> range_codes s v = []
          \<and> (case (if js_prop s ''items'' = JUndef then None else js_array v) of
               Some xs \<Rightarrow> count_codes s (length xs) = [] \<and> length xs \<le> SCHEMA_MAX_ARRAY_ITEMS
                 \<and> list_all (\<lambda>x. js_prop s ''items'' \<noteq> JUndef \<longrightarrow> accepts (js_prop s ''items'') x) xs
             | None \<Rightarrow> isPlainRecord v \<longrightarrow>
                 field_issues s (obj_members v) [] = []
                 \<and> list_all (\<lambda>(k, p). case obj_get (obj_members v) k of None \<Rightarrow> True | Some x \<Rightarrow> accepts p x)
                     (obj_members (js_prop s ''properties'')))"
    using assms by (subst accepts_tests) (simp add: js_array_def)
  also have "\<dots> \<longleftrightarrow> scalar_refusal s v = None \<and> range_codes s v = []
    \<and> (\<forall>xs. js_prop s ''items'' \<noteq> JUndef \<longrightarrow> v = JArr xs \<longrightarrow>
        count_codes s (length xs) = [] \<and> length xs \<le> SCHEMA_MAX_ARRAY_ITEMS \<and> (\<forall>x\<in>set xs. accepts (js_prop s ''items'') x))
    \<and> (\<forall>vs. v = JObj vs \<longrightarrow> field_issues s vs [] = []
        \<and> (\<forall>q\<in>set (obj_members (js_prop s ''properties'')). \<forall>x. obj_get vs (fst q) = Some x \<longrightarrow> accepts (snd q) x))"
    by (cases v) (auto simp: js_array_def isPlainRecord_def obj_members_def list_all_iff split: option.split)
  finally show ?thesis .
qed

lemma accepts_union:
  "isPlainRecord s \<Longrightarrow> js_prop s ''anyOf'' = JArr bs \<Longrightarrow> accepts s v \<longleftrightarrow> (\<exists>b\<in>set bs. accepts b v)"
  by (subst accepts_tests) (simp add: list_ex_iff)

lemma provider_accepts: "subset_form s \<Longrightarrow> accepts (graphProviderSchema s) v \<longleftrightarrow> accepts s v"
proof (induction s arbitrary: v rule: measure_induct_rule [of size])
  case (less s)
  have r: "isPlainRecord s" using less.prems by (simp add: subset_form_steps)
  show ?case
  proof (cases "js_prop s ''anyOf'' = JUndef")
    case False
    then obtain bs where bs: "js_prop s ''anyOf'' = JArr bs" "\<forall>b\<in>set bs. subset_form b"
      using less.prems by (auto simp: subset_form_steps)
    have "accepts (graphProviderSchema b) v \<longleftrightarrow> accepts b v" if "b \<in> set bs" for b
      using less.IH [OF size_alternative [OF bs(1) that]] bs(2) that by simp
    then have "list_ex (\<lambda>a. accepts a v) (map graphProviderSchema bs) \<longleftrightarrow> list_ex (\<lambda>a. accepts a v) bs"
      by (auto simp: list_ex_iff)
    with r bs show ?thesis by (subst (1 2) accepts_tests) (simp add: strip_prop)
  next
    case True
    note refusal = strip_refusal [OF less.prems True]
    have items: "accepts (graphProviderSchema (js_prop s ''items'')) x \<longleftrightarrow> accepts (js_prop s ''items'') x"
      if "js_prop s ''items'' \<noteq> JUndef" for x
      using less.IH [OF size_prop [OF that] form_items [OF less.prems True that]] .
    let ?props = "obj_members (js_prop s ''properties'')"
    have props: "accepts (graphProviderSchema (snd q)) x \<longleftrightarrow> accepts (snd q) x" if "q \<in> set ?props" for q x
      using less.IH [OF size_property [of "fst q" "snd q" s "''properties''"] form_property [OF less.prems True, of "fst q" "snd q"]] that
      by simp
    have r': "isPlainRecord (graphProviderSchema s)" "js_prop (graphProviderSchema s) ''anyOf'' = JUndef"
      using r True by (simp_all add: strip_prop)
    show ?thesis
      unfolding accepts_plain [OF r True] accepts_plain [OF r'] strip_fields [OF r] strip_range [OF r] strip_count [OF r] refusal
        strip_prop [OF r sources_keyword(5)] strip_prop [OF r sources_keyword(6)] strip_property
      by (simp add: items props case_prod_unfold cong: ball_cong)
  qed
qed

lemma depth_obj_le: "js_depth (JObj ps) \<le> Suc m \<longleftrightarrow> (\<forall>q\<in>set ps. js_depth (snd q) \<le> m)"
  by (auto simp: Max_le_iff)

lemma depth_arr_le: "js_depth (JArr xs) \<le> Suc m \<longleftrightarrow> (\<forall>x\<in>set xs. js_depth x \<le> m)"
  by (auto simp: Max_le_iff)

lemma depth_member_le: "(k, x) \<in> set ps \<Longrightarrow> js_depth x \<le> js_depth (JObj ps) - 1"
  using depth_member [of k x "JObj ps"] by (simp add: obj_members_def)

lemma strip_depth: "js_depth (graphProviderSchema v) \<le> js_depth v"
proof (induction v rule: measure_induct_rule [of size])
  case (less v)
  show ?case
  proof (cases v)
    case (JArr xs)
    have "js_depth (graphProviderSchema x) \<le> js_depth v - 1" if "x \<in> set xs" for x
    proof -
      have "js_depth x < js_depth v" using that JArr by (auto simp: less_Suc_eq_le)
      with less.IH [of x] size_element [OF that] JArr show ?thesis by simp
    qed
    then have "js_depth (graphProviderSchema v) \<le> Suc (js_depth v - 1)" using JArr by (simp only: strip_leaf depth_arr_le) auto
    then show ?thesis using JArr by simp
  next
    case (JObj ps)
    have "js_depth (strip_member k e) \<le> js_depth v - 1" if ke: "(k, e) \<in> set ps" for k e
    proof (cases "k = ''properties'' \<and> isPlainRecord e")
      case False
      then have "strip_member k e = graphProviderSchema e" by (auto simp: strip_member_def)
      with less.IH [of e] size_member [OF ke] depth_member_le [OF ke] JObj show ?thesis by (simp del: js_depth.simps)
    next
      case True
      then obtain qs where e: "e = JObj qs" by (cases e) (auto simp: isPlainRecord_def)
      have "js_depth (graphProviderSchema c) \<le> js_depth e - 1" if "(n, c) \<in> set qs" for n c
        using less.IH [of c] size_member_member [OF ke, of n c] depth_member_le [OF that] that JObj e
        by (simp add: obj_members_def del: js_depth.simps)
      then have "js_depth (strip_member k e) \<le> Suc (js_depth e - 1)"
        using True e by (simp only: strip_member_def obj_members_def depth_obj_le js.case if_True simp_thms) auto
      then have "js_depth (strip_member k e) \<le> js_depth e" using e by simp
      with depth_member_le [OF ke] JObj show ?thesis by (simp del: js_depth.simps)
    qed
    then have "js_depth (graphProviderSchema v) \<le> Suc (js_depth v - 1)"
      using JObj by (simp only: strip_object depth_obj_le) auto
    then show ?thesis using JObj by simp
  qed simp_all
qed

section \<open>Field paths\<close>

lemma null_schema_accepts: "isNullSchema b \<Longrightarrow> accepts b v \<Longrightarrow> v = JNull"
  by (auto simp: isNullSchema_def accepts_plain scalar_refusal_def schemaTypeMatches_def split: if_splits)

lemma non_null_form: "subset_form s \<Longrightarrow> graphSchemaNonNull s = (u, n) \<Longrightarrow> subset_form u"
proof (cases "js_prop s ''anyOf'' = JUndef")
  case False
  assume s: "subset_form s" "graphSchemaNonNull s = (u, n)"
  obtain bs where bs: "js_prop s ''anyOf'' = JArr bs" "\<And>b. b \<in> set bs \<Longrightarrow> subset_form b"
    using s(1) False by (rule form_union) blast
  have "b \<in> set bs" if "filter (\<lambda>b. \<not> isNullSchema b) bs = [b]" for b
    using that filter_is_subset [of "\<lambda>b. \<not> isNullSchema b" bs] by simp
  with s bs show ?thesis by (auto simp: graphSchemaNonNull_def Let_def split: list.splits if_splits)
qed (auto simp: graphSchemaNonNull_def js_array_def)

lemma non_null_accepts:
  assumes "subset_form s" and "graphSchemaNonNull s = (u, n)" and "accepts s v"
  shows "accepts u v \<or> n \<and> v = JNull"
proof (cases "js_prop s ''anyOf'' = JUndef")
  case False
  obtain bs where bs: "js_prop s ''anyOf'' = JArr bs" using assms(1) False by (rule form_union) blast
  obtain b where b: "b \<in> set bs" "accepts b v"
    using assms(3) accepts_union [OF form_record [OF assms(1)] bs] by blast
  show ?thesis
  proof (cases "\<exists>c. filter (\<lambda>b. \<not> isNullSchema b) bs = [c] \<and> isPlainRecord c")
    case False
    with assms bs have "u = s" by (auto simp: graphSchemaNonNull_def Let_def split: list.splits if_splits)
    with assms(3) show ?thesis by simp
  next
    case True
    then obtain c where c: "filter (\<lambda>b. \<not> isNullSchema b) bs = [c]" "isPlainRecord c" by blast
    with assms bs have u: "u = c" "n = (length (filter (\<lambda>b. \<not> isNullSchema b) bs) < length bs)"
      by (auto simp: graphSchemaNonNull_def)
    show ?thesis
    proof (cases "isNullSchema b")
      case True
      with b have "n" using u(2) length_filter_less [of b bs "\<lambda>b. \<not> isNullSchema b"] by simp
      with True b show ?thesis using null_schema_accepts by blast
    next
      case False
      with b have "b \<in> set (filter (\<lambda>b. \<not> isNullSchema b) bs)" by simp
      with c u b show ?thesis by simp
    qed
  qed
qed (use assms in \<open>auto simp: graphSchemaNonNull_def js_array_def\<close>)

text \<open>An object schema's required fields are present.\<close>

lemma accepts_object:
  assumes "subset_form s" and "js_prop s ''type'' = JStr ''object''" and "accepts s v"
    and "obj_get (obj_members (js_prop s ''properties'')) k = Some p"
  shows "\<exists>x. ownField v k = x \<and> v = JObj (obj_members v) \<and> obj_get (obj_members v) k = Some x \<and> accepts p x"
proof -
  have any: "js_prop s ''anyOf'' = JUndef"
  proof (rule ccontr)
    assume "js_prop s ''anyOf'' \<noteq> JUndef"
    with assms(1) have "js_prop s ''type'' = JUndef" by (rule form_union)
    with assms(2) show False by simp
  qed
  obtain ty where ty: "js_prop s ''type'' = JStr ty" "typed_form s ty" using assms(1) any by (rule form_type)
  have kp: "(k, p) \<in> set (obj_members (js_prop s ''properties''))"
    using assms(4) by (simp add: obj_get_def map_of_SomeD)
  have acc: "scalar_refusal s v = None" "\<And>vs. v = JObj vs \<Longrightarrow> field_issues s vs [] = []"
    "\<And>vs q x. v = JObj vs \<Longrightarrow> q \<in> set (obj_members (js_prop s ''properties'')) \<Longrightarrow> obj_get vs (fst q) = Some x \<Longrightarrow> accepts (snd q) x"
    using assms(3) accepts_plain [OF form_record [OF assms(1)] any] by blast+
  obtain vs where v: "v = JObj vs"
    using acc(1) assms(2) by (cases v) (auto simp: scalar_refusal_def schemaTypeMatches_def split: if_splits)
  have "k \<in> set (string_list (js_prop s ''required''))"
    using ty assms(2) kp by (auto simp: typed_form_def list_all_iff)
  then obtain x where x: "obj_get vs k = Some x"
    using acc(2) [OF v] by (auto simp: field_issues_def filter_empty_conv)
  with acc(3) [OF v kp] v show ?thesis by (simp add: ownField_def obj_members_def)
qed

definition path_step :: "string \<Rightarrow> js \<Rightarrow> js" where
  "path_step seg cur = (if cur = JNull \<or> cur = JUndef then JUndef else ownField cur seg)"

lemma schema_at_segments_sound:
  assumes "schema_at_segments s nullable segs = Some (t, m)" and "subset_form s"
    and "accepts s v \<or> nullable \<and> (v = JNull \<or> v = JUndef)"
  shows "subset_form t \<and> (accepts t (fold path_step segs v) \<or>
    m \<and> (fold path_step segs v = JNull \<or> fold path_step segs v = JUndef))"
  using assms
proof (induction segs arbitrary: s nullable v)
  case (Cons seg segs)
  obtain u n where u: "graphSchemaNonNull s = (u, n)" by fastforce
  obtain p where p: "js_prop u ''type'' = JStr ''object''" "obj_get (obj_members (js_prop u ''properties'')) seg = Some p"
      "schema_at_segments p (nullable \<or> n) segs = Some (t, m)"
    using Cons.prems(1) by (auto simp: u Let_def split: if_splits option.splits)
  have uf: "subset_form u" by (rule non_null_form [OF Cons.prems(2) u])
  have any: "js_prop u ''anyOf'' = JUndef"
    using form_union [OF uf, of "js_prop u ''anyOf'' = JUndef"] p(1) by (cases "js_prop u ''anyOf'' = JUndef") auto
  have pf: "subset_form p" by (rule form_property [OF uf any, of seg]) (use p(2) in \<open>simp add: obj_get_def map_of_SomeD\<close>)
  have "accepts p (path_step seg v) \<or> (nullable \<or> n) \<and> (path_step seg v = JNull \<or> path_step seg v = JUndef)"
  proof (cases "v = JNull \<or> v = JUndef")
    case True
    have "nullable \<or> n"
    proof (cases "accepts u v")
      case True
      with accepts_object [OF uf p(1) True p(2)] \<open>v = JNull \<or> v = JUndef\<close> show ?thesis by auto
    qed (use Cons.prems(3) non_null_accepts [OF Cons.prems(2) u] in blast)
    with True show ?thesis by (simp add: path_step_def)
  next
    case False
    with Cons.prems(3) non_null_accepts [OF Cons.prems(2) u, of v] have "accepts u v" by blast
    with accepts_object [OF uf p(1) _ p(2), of v] False show ?thesis by (auto simp: path_step_def)
  qed
  with Cons.IH [OF p(3) pf] show ?case by simp
qed simp

lemma non_null_depth: "graphSchemaNonNull s = (u, n) \<Longrightarrow> js_depth u \<le> js_depth s"
proof (cases "js_array (js_prop s ''anyOf'')")
  case (Some bs)
  assume s: "graphSchemaNonNull s = (u, n)"
  have "js_depth b \<le> js_depth s" if "filter (\<lambda>b. \<not> isNullSchema b) bs = [b]" for b
  proof -
    have "b \<in> set bs" using that filter_is_subset [of "\<lambda>b. \<not> isNullSchema b" bs] by simp
    with depth_alternative [of s "''anyOf''" bs b] Some show ?thesis by simp
  qed
  with s Some show ?thesis by (auto simp: graphSchemaNonNull_def Let_def split: list.splits if_splits)
qed (simp add: graphSchemaNonNull_def)

lemma schema_at_segments_depth: "schema_at_segments s nullable segs = Some (t, m) \<Longrightarrow> js_depth t \<le> js_depth s"
proof (induction segs arbitrary: s nullable)
  case (Cons seg segs)
  obtain u n where u: "graphSchemaNonNull s = (u, n)" by fastforce
  obtain p where p: "obj_get (obj_members (js_prop u ''properties'')) seg = Some p"
      "schema_at_segments p (nullable \<or> n) segs = Some (t, m)"
    using Cons.prems by (auto simp: u Let_def split: if_splits option.splits)
  have "js_depth p < js_depth u"
    by (rule depth_property [where k = seg and p = "''properties''"]) (use p(1) in \<open>simp add: obj_get_def map_of_SomeD\<close>)
  with Cons.IH [OF p(2)] non_null_depth [OF u] show ?case by simp
qed simp

lemma value_at_path_steps: "valueAtPath v path = fold path_step (split_on CHR ''.'' path) v"
  by (simp add: valueAtPath_def path_step_def [abs_def])

section \<open>Properties\<close>

text \<open>C40. For a schema the checker accepts, the schema shown to a provider accepts exactly the values that
  the submit-time validator accepts for the schema itself.\<close>

theorem provider_schema_same:
  assumes "checkGraphSchemaSubset nt s path errors = (Some sources, errors')"
  shows "validateGraphSchemaValue (graphProviderSchema s) v = [] \<longleftrightarrow> validateGraphSchemaValue s v = []"
proof -
  have "subset_form s" "js_depth s \<le> SCHEMA_MAX_DEPTH" using checked_form [OF assms] by simp_all
  moreover have "js_depth (graphProviderSchema s) \<le> SCHEMA_MAX_DEPTH"
    using strip_depth [of s] calculation by simp
  ultimately show ?thesis
    by (simp add: validateGraphSchemaValue_def validate_accepts provider_accepts)
qed

text \<open>A schema with one provenance field that may be null.\<close>

definition example_schema :: js where
  "example_schema = JObj [(''type'', JStr ''object''), (''additionalProperties'', JBool False),
     (''required'', JArr [JStr ''ids'']),
     (''properties'', JObj [(''ids'', JObj [
        (''anyOf'', JArr [JObj [(''type'', JStr ''array''), (''items'', JObj [(''type'', JStr ''string'')])],
           JObj [(''type'', JStr ''null'')]]),
        (GRAPH_SCHEMA_SOURCES_KEYWORD, JBool True)])])]"

definition no_numerals :: "rat \<Rightarrow> utf16" where "no_numerals r = []"

definition example_walk :: "subset_walk" where
  "example_walk = \<lparr>sw_errors = empty_collector, sw_properties = 0, sw_enumValues = 0, sw_sources = []\<rparr>"

lemma example_text: "case js_stringify no_numerals example_schema of None \<Rightarrow> False | Some t \<Rightarrow> utf8_bytes t \<le> maxSchemaBytes"
  by (simp add: example_schema_def uni_def json_quote_def quote_unit_def is_high_surrogate_def is_low_surrogate_def
    GRAPH_SCHEMA_SOURCES_KEYWORD_def List.map_filter_def unit_bytes_def maxSchemaBytes_def)

lemma example_visit: "visitSchema example_schema ''$'' [] 0 True False example_walk
    = example_walk\<lparr>sw_properties := 1, sw_sources := [[''ids'']]\<rparr>"
  by code_simp

lemma example_depth: "\<not> jsonDepthExceeds example_schema maxSchemaDepth"
  by code_simp

lemma example_checked:
  "checkGraphSchemaSubset no_numerals example_schema ''$'' empty_collector = (Some [[''ids'']], empty_collector)"
proof -
  obtain t where "js_stringify no_numerals example_schema = Some t" "utf8_bytes t \<le> maxSchemaBytes"
    using example_text by (auto split: option.splits)
  moreover have "isPlainRecord example_schema" by (simp add: example_schema_def isPlainRecord_def)
  ultimately show ?thesis
    using example_visit example_depth by (simp add: checkGraphSchemaSubset_def example_walk_def Let_def)
qed

text \<open>The provider's schema has no provenance mark, and accepts what the schema accepts.\<close>

theorem provider_schema_same_witness:
  "js_prop (js_prop (js_prop (graphProviderSchema example_schema) ''properties'') ''ids'') GRAPH_SCHEMA_SOURCES_KEYWORD = JUndef
   \<and> (validateGraphSchemaValue (graphProviderSchema example_schema) (JObj [(''ids'', JNull)]) = []
      \<longleftrightarrow> validateGraphSchemaValue example_schema (JObj [(''ids'', JNull)]) = [])"
  using provider_schema_same [OF example_checked]
  by (simp add: example_schema_def graphProviderSchema.simps isPlainRecord_def obj_members_def js_prop_def
    obj_get_def GRAPH_SCHEMA_SOURCES_KEYWORD_def)

text \<open>C24. A field path found in an accepted schema names, in every valid value, a value that is valid for the
  schema found there, or no value (null or absent) and then the path is marked nullable.\<close>

theorem schema_path_sound:
  assumes "checkGraphSchemaSubset nt s path errors = (Some sources, errors')"
    and "validateGraphSchemaValue s v = []" and "graphSchemaAtPath s p = Some (u, nullable)"
  shows "validateGraphSchemaValue u (valueAtPath v p) = []
    \<or> nullable \<and> (valueAtPath v p = JNull \<or> valueAtPath v p = JUndef)"
proof -
  have s: "subset_form s" "js_depth s \<le> SCHEMA_MAX_DEPTH" using checked_form [OF assms(1)] by simp_all
  then have v: "accepts s v" using assms(2) by (simp add: validateGraphSchemaValue_def validate_accepts)
  obtain t m n where t: "schema_at_segments s False (split_on CHR ''.'' p) = Some (t, m)"
      "graphSchemaNonNull t = (u, n)" "nullable = (m \<or> n)"
    using assms(3) by (auto simp: graphSchemaAtPath_def Let_def split: if_splits option.splits prod.splits)
  have "js_depth u \<le> SCHEMA_MAX_DEPTH"
    using schema_at_segments_depth [OF t(1)] non_null_depth [OF t(2)] s(2) by simp
  moreover have "subset_form t"
    "accepts t (valueAtPath v p) \<or> m \<and> (valueAtPath v p = JNull \<or> valueAtPath v p = JUndef)"
    using schema_at_segments_sound [OF t(1) s(1)] v by (auto simp: value_at_path_steps)
  ultimately show ?thesis
    using non_null_accepts [OF _ t(2)] t(3) by (auto simp: validateGraphSchemaValue_def validate_accepts)
qed

text \<open>The optional list of a value that has none.\<close>

theorem schema_path_sound_witness:
  "graphSchemaAtPath example_schema ''ids''
     = Some (JObj [(''type'', JStr ''array''), (''items'', JObj [(''type'', JStr ''string'')])], True)
   \<and> (validateGraphSchemaValue (JObj [(''type'', JStr ''array''), (''items'', JObj [(''type'', JStr ''string'')])])
        (valueAtPath (JObj [(''ids'', JNull)]) ''ids'') = []
      \<or> valueAtPath (JObj [(''ids'', JNull)]) ''ids'' = JNull \<or> valueAtPath (JObj [(''ids'', JNull)]) ''ids'' = JUndef)"
proof -
  have "validateGraphSchemaValue example_schema (JObj [(''ids'', JNull)]) = []" by code_simp
  moreover have g: "graphSchemaAtPath example_schema ''ids''
     = Some (JObj [(''type'', JStr ''array''), (''items'', JObj [(''type'', JStr ''string'')])], True)" by code_simp
  ultimately show ?thesis using schema_path_sound [OF example_checked] by blast
qed

end
