(* ===== verification/Type_Assignability.thy ===== *)
theory Type_Assignability
  imports Schema_Use
begin

text \<open>
  Type checking on edges (\<^verbatim>\<open>packages/protocol/src/graphs/type-assignability.ts\<close>) with the budgets and the
  checks of an artifact value (\<^verbatim>\<open>packages/protocol/src/graphs/types.ts\<close>): when every value one schema
  accepts is accepted by another, and when a value of one type may reach a port of another.

  A failed check carries its code and path; messages are left out. The domain validators of built-in types
  (\<^verbatim>\<open>type-validators.ts\<close>) are an argument.
\<close>

section \<open>Types of values\<close>

record type_budgets =
  tb_maxBytes :: nat
  tb_maxStringBytes :: "nat option"
  tb_maxItems :: "nat option"

record graph_type =
  gt_name :: string
  gt_version :: int
  gt_ref :: string
  gt_builtIn :: bool
  gt_schema :: js
  gt_reference :: bool
  gt_budgets :: type_budgets
  gt_items :: "type_items option"
  gt_itemType :: "string option"
  gt_validator :: "string option"

datatype value_type =
    NamedType graph_type
  | ShapeType js type_budgets string
  | ListType value_type

fun graphValueTypeLabel :: "value_type \<Rightarrow> string" where
  "graphValueTypeLabel (NamedType d) = gt_ref d"
| "graphValueTypeLabel (ShapeType s b origin) = origin"
| "graphValueTypeLabel (ListType t) = ''list<'' @ graphValueTypeLabel t @ ''>''"

fun graphValueTypeElement :: "value_type \<Rightarrow> value_type \<times> nat" where
  "graphValueTypeElement (ListType t) = (let (e, d) = graphValueTypeElement t in (e, d + 1))"
| "graphValueTypeElement t = (t, 0)"

section \<open>Subtypes of schemas\<close>

text \<open>The properties every object inherits: functions, and \<open>__proto__\<close> with no keyword of a schema.\<close>

definition inherited_functions :: "string list" where
  "inherited_functions = [''constructor'', ''__defineGetter__'', ''__defineSetter__'', ''hasOwnProperty'',
     ''__lookupGetter__'', ''__lookupSetter__'', ''isPrototypeOf'', ''propertyIsEnumerable'', ''toString'', ''valueOf'',
     ''toLocaleString'']"

text \<open>\<open>object[key]\<close>.\<close>

definition js_lookup :: "js \<Rightarrow> string \<Rightarrow> js" where
  "js_lookup v k =
     (case obj_get (obj_members v) k of
        Some x \<Rightarrow> x
      | None \<Rightarrow> if k \<in> set inherited_functions then JOther else if k = ''__proto__'' then JObj [] else JUndef)"

definition schema_branches :: "js \<Rightarrow> js list" where
  "schema_branches s = (case js_array (js_prop s ''anyOf'') of Some bs \<Rightarrow> filter isPlainRecord bs | None \<Rightarrow> [s])"

definition schema_literals :: "js \<Rightarrow> js list option" where
  "schema_literals s = (if js_prop s ''const'' \<noteq> JUndef then Some [js_prop s ''const''] else js_array (js_prop s ''enum''))"

text \<open>\<open><=\<close> on numbers.\<close>

definition num_le :: "jsnum \<Rightarrow> jsnum \<Rightarrow> bool" where
  "num_le x y \<longleftrightarrow> num_below x y \<or> (x = y \<and> x \<noteq> NaN)"

text \<open>The bounds of the source within those of the target; the flag says that the bound is the minimum.\<close>

definition boundFits :: "js \<Rightarrow> js \<Rightarrow> bool \<Rightarrow> bool" where
  "boundFits s t minimum =
     (let key = (if minimum then ''minimum'' else ''maximum'') in
      case js_prop t key of
        JNum limit \<Rightarrow>
          (case js_prop s key of
             JNum bound \<Rightarrow> (if minimum then num_le limit bound else num_le bound limit)
           | _ \<Rightarrow> False)
      | _ \<Rightarrow> True)"

text \<open>The path of the first failure.\<close>

definition first_failure :: "string option list \<Rightarrow> string option" where
  "first_failure rs = (case filter (\<lambda>r. r \<noteq> None) rs of [] \<Rightarrow> None | r # _ \<Rightarrow> r)"

text \<open>\<open>isPlainRecord(x) ? x : {}\<close> and the checks of an object's fields before their types.\<close>

definition record_or_empty :: "js \<Rightarrow> js" where
  "record_or_empty v = (if isPlainRecord v then v else JObj [])"

definition fields_failure :: "js \<Rightarrow> js \<Rightarrow> string option" where
  "fields_failure s t =
     (case filter (\<lambda>k. k \<notin> set (string_list (js_prop s ''required''))) (string_list (js_prop t ''required'')) of
        k # _ \<Rightarrow> Some k
      | [] \<Rightarrow>
          (if js_prop t ''additionalProperties'' = JBool False
           then (case filter (\<lambda>k. obj_get (obj_members (record_or_empty (js_prop t ''properties''))) k = None)
                        (map fst (obj_members (record_or_empty (js_prop s ''properties'')))) of
                   k # _ \<Rightarrow> Some k | [] \<Rightarrow> None)
           else None))"

lemma size_record: "isPlainRecord (js_prop v k) \<Longrightarrow> size (js_prop v k) < size v"
  by (rule size_prop) (auto simp: isPlainRecord_def)

lemma obj_members_empty [simp]: "obj_members (JObj []) = []"
  by (simp add: obj_members_def)

text \<open>\<open>isGraphSchemaSubtype\<close>: None when the source fits, or the path of the failure.\<close>

function isGraphSchemaSubtype :: "js \<Rightarrow> js \<Rightarrow> string \<Rightarrow> string option" where
  "isGraphSchemaSubtype s t path =
     (case js_array (js_prop s ''anyOf'') of
        Some bs \<Rightarrow> first_failure (map (\<lambda>b. isGraphSchemaSubtype b t path) (filter isPlainRecord bs))
      | None \<Rightarrow>
        (case js_array (js_prop t ''anyOf'') of
           Some bs \<Rightarrow>
             (let rs = map (\<lambda>b. isGraphSchemaSubtype s b path) (filter isPlainRecord bs)
              in if None \<in> set rs then None else case rs of r # _ \<Rightarrow> r | [] \<Rightarrow> Some path)
         | None \<Rightarrow>
           (case schema_literals s of
              Some vs \<Rightarrow> if list_all (\<lambda>v. validateGraphSchemaValue t v = []) vs then None else Some path
            | None \<Rightarrow>
                (let st = js_prop s ''type''; tt = js_prop t ''type'' in
                 if schema_literals t \<noteq> None then Some path
                 else if \<not> strict_equal st tt \<and> \<not> (st = JStr ''integer'' \<and> tt = JStr ''number'') then Some path
                 else if tt = JStr ''number'' \<or> tt = JStr ''integer''
                 then (if boundFits s t True \<and> boundFits s t False then None else Some path)
                 else if tt = JStr ''array''
                 then (if isPlainRecord (js_prop s ''items'') \<and> isPlainRecord (js_prop t ''items'')
                       then isGraphSchemaSubtype (js_prop s ''items'') (js_prop t ''items'') (path @ ''[]'')
                       else Some path)
                 else if tt = JStr ''object''
                 then (case fields_failure s t of
                         Some k \<Rightarrow> Some (path @ ''.'' @ k)
                       | None \<Rightarrow>
                           first_failure (map (\<lambda>(k, tp).
                             (let sp = js_lookup (record_or_empty (js_prop s ''properties'')) k in
                              if \<not> isPlainRecord tp then None
                              else if sp = JUndef
                              then (if js_prop s ''additionalProperties'' \<noteq> JBool False then Some (path @ ''.'' @ k) else None)
                              else if \<not> isPlainRecord sp then Some (path @ ''.'' @ k)
                              else isGraphSchemaSubtype sp tp (path @ ''.'' @ k)))
                            (obj_members (record_or_empty (js_prop t ''properties'')))))
                 else None))))"
  by pat_completeness auto
termination
  by (relation "measures [\<lambda>(s, t, path). size t, \<lambda>(s, t, path). size s]")
    (auto dest: size_alternative size_property size_record simp: record_or_empty_def split: if_splits)

declare isGraphSchemaSubtype.simps [simp del]


section \<open>A subtype accepts no more\<close>

text \<open>What a schema of the subset says of its values, type by type.\<close>

lemma literal_values:
  assumes "subset_form s" and "js_prop s ''anyOf'' = JUndef" and "accepts s v" and "schema_literals s = Some vs"
  shows "v \<in> set vs"
proof -
  have ok: "scalar_refusal s v = None"
    using assms(3) accepts_plain [OF form_record [OF assms(1)] assms(2)] by blast
  have same: "strict_equal a b \<Longrightarrow> a = b" for a b by (auto simp: strict_equal_def split: js.splits jsnum.splits)
  show ?thesis
  proof (cases "js_prop s ''const'' = JUndef")
    case False
    with ok assms(4) show ?thesis
      by (auto simp: scalar_refusal_def schema_literals_def same split: if_splits)
  next
    case True
    then have "js_prop s ''enum'' = JArr vs" using assms(4) by (simp add: schema_literals_def)
    with ok True show ?thesis
      by (auto simp: scalar_refusal_def same_value_zero_def list_ex_iff dest!: same split: if_splits)
  qed
qed

lemma no_literals:
  assumes "schema_literals s = None"
  shows "scalar_refusal s v = None \<longleftrightarrow> schemaTypeMatches (js_prop s ''type'') v"
  using assms by (auto simp: schema_literals_def scalar_refusal_def split: if_splits)

lemma not_record_undef: "isPlainRecord x \<Longrightarrow> x \<noteq> JUndef"
  by (auto simp: isPlainRecord_def)

lemma below_trans: "num_le a b \<Longrightarrow> \<not> num_below n b \<Longrightarrow> n \<noteq> NaN \<Longrightarrow> \<not> num_below n a"
  by (cases a; cases b; cases n) (auto simp: num_le_def)

lemma above_trans: "num_le b a \<Longrightarrow> \<not> num_below b n \<Longrightarrow> n \<noteq> NaN \<Longrightarrow> \<not> num_below a n"
  by (cases a; cases b; cases n) (auto simp: num_le_def)

lemma under_fits:
  assumes "boundFits s t True" and "n \<noteq> NaN" and "\<not> under_bound n (js_prop s ''minimum'')"
  shows "\<not> under_bound n (js_prop t ''minimum'')"
  using assms below_trans [OF _ _ assms(2)]
  by (cases "js_prop t ''minimum''"; cases "js_prop s ''minimum''") (auto simp: boundFits_def under_bound_def)

lemma over_fits:
  assumes "boundFits s t False" and "n \<noteq> NaN" and "\<not> over_bound n (js_prop s ''maximum'')"
  shows "\<not> over_bound n (js_prop t ''maximum'')"
  using assms above_trans [OF _ _ assms(2)]
  by (cases "js_prop t ''maximum''"; cases "js_prop s ''maximum''") (auto simp: boundFits_def over_bound_def)

lemma bounds_sound:
  assumes "boundFits s t True" and "boundFits s t False" and "range_codes s (JNum n) = []" and "n \<noteq> NaN"
  shows "range_codes t (JNum n) = []"
  using under_fits [OF assms(1,4)] over_fits [OF assms(2,4)] assms(3) by (simp add: range_codes_def split: if_splits)

lemma first_failure_None: "first_failure rs = None \<longleftrightarrow> (\<forall>r\<in>set rs. r = None)"
proof (cases "filter (\<lambda>r. r \<noteq> None) rs")
  case Nil
  then show ?thesis by (simp add: first_failure_def filter_empty_conv)
next
  case (Cons r rest)
  then have "r \<in> set (filter (\<lambda>r. r \<noteq> None) rs)" by (metis list.set_intros(1))
  then have "r \<in> set rs" "r \<noteq> None" by simp_all
  then show ?thesis using Cons by (auto simp: first_failure_def)
qed

lemma fields_failure_None:
  assumes "fields_failure s t = None"
  shows "set (string_list (js_prop t ''required'')) \<subseteq> set (string_list (js_prop s ''required''))"
    and "js_prop t ''additionalProperties'' = JBool False \<Longrightarrow> obj_get (obj_members (record_or_empty (js_prop s ''properties''))) k \<noteq> None \<Longrightarrow>
       obj_get (obj_members (record_or_empty (js_prop t ''properties''))) k \<noteq> None"
proof -
  show "set (string_list (js_prop t ''required'')) \<subseteq> set (string_list (js_prop s ''required''))"
    using assms by (auto simp: fields_failure_def filter_empty_conv split: list.splits)
  assume "js_prop t ''additionalProperties'' = JBool False" "obj_get (obj_members (record_or_empty (js_prop s ''properties''))) k \<noteq> None"
  then have "k \<in> set (map fst (obj_members (record_or_empty (js_prop s ''properties''))))"
    by (force simp: obj_get_def dest: map_of_SomeD)
  moreover have "filter (\<lambda>k. obj_get (obj_members (record_or_empty (js_prop t ''properties''))) k = None)
                        (map fst (obj_members (record_or_empty (js_prop s ''properties'')))) = []"
    using assms \<open>js_prop t ''additionalProperties'' = JBool False\<close> by (auto simp: fields_failure_def split: list.splits)
  ultimately show "obj_get (obj_members (record_or_empty (js_prop t ''properties''))) k \<noteq> None"
    by (force simp: filter_empty_conv)
qed

text \<open>The comparison of two schemas that are no unions, where the source allows more than literals.\<close>

lemma subtype_plain:
  assumes "isGraphSchemaSubtype s t path = None" and "js_prop s ''anyOf'' = JUndef" and "js_prop t ''anyOf'' = JUndef"
    and "schema_literals s = None"
  shows "schema_literals t = None"
    and "strict_equal (js_prop s ''type'') (js_prop t ''type'') \<or> js_prop s ''type'' = JStr ''integer'' \<and> js_prop t ''type'' = JStr ''number''"
    and "js_prop t ''type'' = JStr ''number'' \<or> js_prop t ''type'' = JStr ''integer'' \<Longrightarrow> boundFits s t True \<and> boundFits s t False"
    and "js_prop t ''type'' = JStr ''array'' \<Longrightarrow> isPlainRecord (js_prop s ''items'')
      \<and> isGraphSchemaSubtype (js_prop s ''items'') (js_prop t ''items'') (path @ ''[]'') = None"
    and "js_prop t ''type'' = JStr ''object'' \<Longrightarrow> fields_failure s t = None
      \<and> (\<forall>(k, tp)\<in>set (obj_members (record_or_empty (js_prop t ''properties''))). isPlainRecord tp \<longrightarrow>
          (\<forall>sp. js_lookup (record_or_empty (js_prop s ''properties'')) k = sp \<longrightarrow> sp \<noteq> JUndef \<longrightarrow>
            isGraphSchemaSubtype sp tp (path @ ''.'' @ k) = None))"
proof -
  have un: "js_array JUndef = None" by (simp add: js_array_def)
  note s = assms(1) [unfolded isGraphSchemaSubtype.simps [of s t path] assms(2-4) un option.case Let_def]
  show "schema_literals t = None" using s by (simp split: if_splits)
  show "strict_equal (js_prop s ''type'') (js_prop t ''type'') \<or> js_prop s ''type'' = JStr ''integer'' \<and> js_prop t ''type'' = JStr ''number''"
    using s by (simp only: split: if_splits) blast+
  show "boundFits s t True \<and> boundFits s t False" if "js_prop t ''type'' = JStr ''number'' \<or> js_prop t ''type'' = JStr ''integer''"
    using s that by (simp split: if_splits)
  show "isPlainRecord (js_prop s ''items'') \<and> isGraphSchemaSubtype (js_prop s ''items'') (js_prop t ''items'') (path @ ''[]'') = None"
    if "js_prop t ''type'' = JStr ''array''"
    using s that by (simp split: if_splits)
  show "fields_failure s t = None
      \<and> (\<forall>(k, tp)\<in>set (obj_members (record_or_empty (js_prop t ''properties''))). isPlainRecord tp \<longrightarrow>
          (\<forall>sp. js_lookup (record_or_empty (js_prop s ''properties'')) k = sp \<longrightarrow> sp \<noteq> JUndef \<longrightarrow>
            isGraphSchemaSubtype sp tp (path @ ''.'' @ k) = None))"
    if "js_prop t ''type'' = JStr ''object''"
    using s that by (auto simp: first_failure_None split: if_splits option.splits)
qed

lemma type_values:
  "schemaTypeMatches (JStr ''number'') v \<Longrightarrow> \<exists>q. v = JNum (Fin q)" "schemaTypeMatches (JStr ''integer'') v \<Longrightarrow> \<exists>q. v = JNum (Fin q)"
  "schemaTypeMatches (JStr ''array'') v \<Longrightarrow> \<exists>xs. v = JArr xs" "schemaTypeMatches (JStr ''object'') v \<Longrightarrow> \<exists>vs. v = JObj vs"
  "schemaTypeMatches (JStr ''string'') v \<Longrightarrow> \<exists>x. v = JStr x" "schemaTypeMatches (JStr ''boolean'') v \<Longrightarrow> \<exists>b. v = JBool b"
  "schemaTypeMatches (JStr ''null'') v \<Longrightarrow> v = JNull"
  by (cases v; auto simp: schemaTypeMatches_def split: jsnum.splits)+

lemma integer_is_number: "schemaTypeMatches (JStr ''integer'') v \<Longrightarrow> schemaTypeMatches (JStr ''number'') v"
  by (cases v) (simp_all add: schemaTypeMatches_def split: jsnum.splits)

lemma type_kinds:
  "ty \<in> set GRAPH_SCHEMA_TYPES \<Longrightarrow> (ty = ''number'' \<or> ty = ''integer'') \<or> ty = ''array'' \<or> ty = ''object''
     \<or> (ty = ''string'' \<or> ty = ''boolean'' \<or> ty = ''null'')"
  unfolding GRAPH_SCHEMA_TYPES_def by (simp only: list.set insert_iff empty_iff) (elim disjE; simp)

lemma form_counts:
  assumes "subset_form t"
  shows "count_codes t n = []" and "range_codes t (JStr x) = []"
  by (simp_all add: count_codes_def range_codes_def under_bound_def over_bound_def form_lengths [OF assms])

lemma object_sound:
  assumes sf: "subset_form s" and sa: "js_prop s ''anyOf'' = JUndef" and st: "js_prop s ''type'' = JStr ''object''"
    and tf: "subset_form t" and ta: "js_prop t ''anyOf'' = JUndef" and tt: "js_prop t ''type'' = JStr ''object''"
    and none: "fields_failure s t = None"
    and props: "\<And>k sp tp x. (k, sp) \<in> set (obj_members (js_prop s ''properties'')) \<Longrightarrow>
      obj_get (obj_members (js_prop s ''properties'')) k = Some sp \<Longrightarrow>
      (k, tp) \<in> set (obj_members (js_prop t ''properties'')) \<Longrightarrow> accepts sp x \<Longrightarrow> accepts tp x"
    and vs: "field_issues s vs [] = []"
      "\<And>q x. q \<in> set (obj_members (js_prop s ''properties'')) \<Longrightarrow> obj_get vs (fst q) = Some x \<Longrightarrow> accepts (snd q) x"
  shows "field_issues t vs [] = []"
    and "\<And>q x. q \<in> set (obj_members (js_prop t ''properties'')) \<Longrightarrow> obj_get vs (fst q) = Some x \<Longrightarrow> accepts (snd q) x"
proof -
  have form: "isPlainRecord (js_prop u ''properties'') \<and> js_prop u ''additionalProperties'' = JBool False"
    if "subset_form u" "js_prop u ''anyOf'' = JUndef" "js_prop u ''type'' = JStr ''object''" for u
    using that(1,2) by (rule form_type) (use that(3) in \<open>auto simp: typed_form_def required_form_def\<close>)
  note s = form [OF sf sa st] and t = form [OF tf ta tt]
  have own: "obj_get (obj_members (js_prop s ''properties'')) k \<noteq> None" if "obj_get vs k \<noteq> None" for k
  proof -
    have "k \<in> fst ` set vs" using that by (force simp: obj_get_def dest: map_of_SomeD)
    with vs(1) s show ?thesis by (auto simp: field_issues_def filter_empty_conv split: if_splits)
  qed
  show "accepts (snd q) x" if q: "q \<in> set (obj_members (js_prop t ''properties''))" "obj_get vs (fst q) = Some x" for q x
  proof -
    obtain sp where sp: "obj_get (obj_members (js_prop s ''properties'')) (fst q) = Some sp" using own q(2) by fastforce
    then have m: "(fst q, sp) \<in> set (obj_members (js_prop s ''properties''))" by (simp add: obj_get_def map_of_SomeD)
    have "accepts sp x" using vs(2) [OF m] q(2) by simp
    with props [OF m sp, of "snd q" x] q(1) show ?thesis by simp
  qed
  have "obj_get vs k \<noteq> None" if "k \<in> set (string_list (js_prop t ''required''))" for k
    using fields_failure_None(1) [OF none] that vs(1) by (auto simp: field_issues_def filter_empty_conv)
  moreover have "obj_get (obj_members (js_prop t ''properties'')) k \<noteq> None" if "k \<in> fst ` set vs" for k
    using fields_failure_None(2) [OF none, of k] own [of k] that s t
    by (auto simp: record_or_empty_def obj_get_def map_of_eq_None_iff)
  ultimately show "field_issues t vs [] = []" by (auto simp: field_issues_def filter_empty_conv)
qed

lemma subtype_accepts:
  "isGraphSchemaSubtype s t path = None \<Longrightarrow> subset_form s \<Longrightarrow> subset_form t \<Longrightarrow> js_depth t \<le> SCHEMA_MAX_DEPTH \<Longrightarrow>
     accepts s v \<Longrightarrow> accepts t v"
proof (induction "size s + size t" arbitrary: s t path v rule: less_induct)
  case less
  note sub = less.prems(1) and sf = less.prems(2) and tf = less.prems(3) and depth = less.prems(4) and v = less.prems(5)
  note sr = form_record [OF sf] and tr = form_record [OF tf]
  have un: "js_array JUndef = None" by (simp add: js_array_def)
  consider (source) "js_prop s ''anyOf'' \<noteq> JUndef" | (target) "js_prop s ''anyOf'' = JUndef" "js_prop t ''anyOf'' \<noteq> JUndef"
    | (plain) "js_prop s ''anyOf'' = JUndef" "js_prop t ''anyOf'' = JUndef" by blast
  then show ?case
  proof cases
    case source
    obtain bs where bs: "js_prop s ''anyOf'' = JArr bs" "\<And>b. b \<in> set bs \<Longrightarrow> subset_form b"
      using sf source by (rule form_union) blast
    obtain b where b: "b \<in> set bs" "accepts b v" using v accepts_union [OF sr bs(1)] by blast
    have "isGraphSchemaSubtype b t path = None"
      using sub b(1) form_record [OF bs(2) [OF b(1)]] bs(1)
      by (subst (asm) isGraphSchemaSubtype.simps) (simp add: first_failure_None)
    with less.hyps [of b t path v] size_alternative [OF bs(1) b(1)] bs(2) [OF b(1)] tf depth b(2) show ?thesis by simp
  next
    case target
    obtain bs where bs: "js_prop t ''anyOf'' = JArr bs" "\<And>b. b \<in> set bs \<Longrightarrow> subset_form b"
      using tf target(2) by (rule form_union) blast
    let ?rs = "map (\<lambda>b. isGraphSchemaSubtype s b path) (filter isPlainRecord bs)"
    have "(if None \<in> set ?rs then None else case ?rs of r # _ \<Rightarrow> r | [] \<Rightarrow> Some path) = None"
      using sub target(1) bs(1) by (subst (asm) isGraphSchemaSubtype.simps) (simp only: un Let_def js_array_JArr option.case)
    then have "None \<in> set ?rs" by (cases ?rs) (simp_all split: if_splits)
    then obtain b where b: "b \<in> set bs" "isGraphSchemaSubtype s b path = None" by auto
    have "js_depth b \<le> SCHEMA_MAX_DEPTH" using depth_alternative [OF bs(1) b(1)] depth by simp
    with less.hyps [of s b path v] size_alternative [OF bs(1) b(1)] bs(2) [OF b(1)] sf v b(2) have "accepts b v" by simp
    with b(1) show ?thesis using accepts_union [OF tr bs(1)] by blast
  next
    case plain
    show ?thesis
    proof (cases "schema_literals s")
      case (Some vs)
      have "list_all (\<lambda>v. validateGraphSchemaValue t v = []) vs"
        using sub plain Some by (subst (asm) isGraphSchemaSubtype.simps) (simp add: un split: if_splits)
      with literal_values [OF sf plain(1) v Some] have "validateGraphSchemaValue t v = []" by (simp add: list_all_iff)
      then show ?thesis using validate_accepts [OF depth] by (simp add: validateGraphSchemaValue_def)
    next
      case None
      note parts = subtype_plain [OF sub plain None]
      note sacc = accepts_plain [OF sr plain(1), THEN iffD1, OF v] and refusal = no_literals [OF parts(1)]
      obtain ty where ty: "js_prop t ''type'' = JStr ty" "ty \<in> set GRAPH_SCHEMA_TYPES"
        using tf plain(2) by (rule form_type)
      obtain sty where sty: "js_prop s ''type'' = JStr sty" using sf plain(1) by (rule form_type)
      have match: "schemaTypeMatches (JStr sty) v" using sacc no_literals [OF None] sty by simp
      have types: "sty = ty \<or> sty = ''integer'' \<and> ty = ''number''" using parts(2) sty ty by (auto simp: strict_equal_def)
      then have tmatch: "schemaTypeMatches (JStr ty) v" using match integer_is_number by blast
      with ty refusal have ok: "scalar_refusal t v = None" by simp
      consider "ty = ''number'' \<or> ty = ''integer''" | "ty = ''array''" | "ty = ''object''"
        | "ty = ''string'' \<or> ty = ''boolean'' \<or> ty = ''null''"
        using type_kinds [OF ty(2)] by (elim disjE; iprover)
      then show ?thesis
      proof cases
        case 1
        with tmatch type_values(1,2) obtain q where q: "v = JNum (Fin q)" by blast
        have fits: "boundFits s t True" "boundFits s t False" using 1 parts(3) ty(1) by simp_all
        have "range_codes s (JNum (Fin q)) = []" using sacc unfolding q by simp
        then have "range_codes t v = []" unfolding q by (intro bounds_sound [OF fits]) simp_all
        with ok q show ?thesis by (simp add: accepts_plain [OF tr plain(2)])
      next
        case 2
        with tmatch type_values(3) obtain xs where xs: "v = JArr xs" by blast
        note items = parts(4) [unfolded ty(1) 2, OF refl]
        have s_items: "js_prop s ''items'' \<noteq> JUndef" using items not_record_undef by blast
        have "accepts (js_prop t ''items'') x" if "x \<in> set xs" "js_prop t ''items'' \<noteq> JUndef" for x
        proof (rule less.hyps)
          show "size (js_prop s ''items'') + size (js_prop t ''items'') < size s + size t"
            using size_prop [OF s_items] size_prop [OF that(2)] by simp
          show "isGraphSchemaSubtype (js_prop s ''items'') (js_prop t ''items'') (path @ ''[]'') = None" using items by blast
          show "subset_form (js_prop s ''items'')" by (rule form_items [OF sf plain(1) s_items])
          show "subset_form (js_prop t ''items'')" by (rule form_items [OF tf plain(2) that(2)])
          show "js_depth (js_prop t ''items'') \<le> SCHEMA_MAX_DEPTH" using depth_prop [OF that(2)] depth by simp
          show "accepts (js_prop s ''items'') x" using sacc xs s_items that(1) by blast
        qed
        moreover have "length xs \<le> SCHEMA_MAX_ARRAY_ITEMS" using sacc xs s_items by blast
        ultimately show ?thesis using ok xs form_counts(1) [OF tf]
          by (simp add: accepts_plain [OF tr plain(2)] range_codes_def)
      next
        case 3
        with tmatch type_values(4) obtain vs where vs: "v = JObj vs" by blast
        have st: "js_prop s ''type'' = JStr ''object''" using types 3 sty by auto
        note fields_ok = parts(5) [unfolded ty(1) 3, OF refl]
        have props: "accepts tp x"
          if m: "(k, sp) \<in> set (obj_members (js_prop s ''properties''))"
            "obj_get (obj_members (js_prop s ''properties'')) k = Some sp"
            "(k, tp) \<in> set (obj_members (js_prop t ''properties''))" "accepts sp x" for k sp tp x
        proof (rule less.hyps)
          have r: "isPlainRecord (js_prop s ''properties'')" "isPlainRecord (js_prop t ''properties'')"
            using m by (cases "js_prop s ''properties''", simp_all add: obj_members_def isPlainRecord_def,
                cases "js_prop t ''properties''", simp_all add: obj_members_def isPlainRecord_def)
          show spf: "subset_form sp" and tpf: "subset_form tp"
            using form_property [OF sf plain(1) m(1)] form_property [OF tf plain(2) m(3)] by simp_all
          show "size sp + size tp < size s + size t"
            using size_property [OF m(1)] size_property [OF m(3)] by simp
          show "js_depth tp \<le> SCHEMA_MAX_DEPTH" using depth_property [OF m(3)] depth by simp
          show "isGraphSchemaSubtype sp tp (path @ ''.'' @ k) = None"
            using fields_ok m(2,3) r form_record [OF tpf] not_record_undef [OF form_record [OF spf]]
            by (auto simp: record_or_empty_def js_lookup_def)
        qed (rule m(4))
        have tt: "js_prop t ''type'' = JStr ''object''" using ty(1) 3 by simp
        have none: "fields_failure s t = None" using fields_ok by blast
        have held: "field_issues s vs [] = []"
          "\<And>q x. q \<in> set (obj_members (js_prop s ''properties'')) \<Longrightarrow> obj_get vs (fst q) = Some x \<Longrightarrow> accepts (snd q) x"
          using sacc vs by blast+
        have "field_issues t vs [] = []"
          by (rule object_sound(1) [OF sf plain(1) st tf plain(2) tt none props held])
        moreover have "accepts (snd q) x"
          if "q \<in> set (obj_members (js_prop t ''properties''))" "obj_get vs (fst q) = Some x" for q x
          by (rule object_sound(2) [OF sf plain(1) st tf plain(2) tt none props held that])
        moreover note ok vs
        ultimately show ?thesis by (simp add: accepts_plain [OF tr plain(2)] range_codes_def)
      next
        case 4
        with tmatch type_values(5-7) have "(\<exists>x. v = JStr x) \<or> (\<exists>b. v = JBool b) \<or> v = JNull" by blast
        with ok form_counts(2) [OF tf] show ?thesis
          by (auto simp: accepts_plain [OF tr plain(2)] range_codes_def)
      qed
    qed
  qed
qed

section \<open>Budgets and the checks of an artifact's value\<close>

definition graph_value_cap :: nat where "graph_value_cap = 384 * 1024"
definition MAX_ISSUES :: nat where "MAX_ISSUES = 32"

text \<open>The issue of one text or list, and the parts of a value in order, each with its path.\<close>

definition part_issues :: "type_budgets \<Rightarrow> js \<Rightarrow> string \<Rightarrow> schema_issue list" where
  "part_issues b v path =
     (case v of
        JStr s \<Rightarrow>
          (case tb_maxStringBytes b of
             Some m \<Rightarrow> if text_bytes s > m then [schema_issue_at path ''too_large''] else [] | None \<Rightarrow> [])
      | JArr xs \<Rightarrow>
          (case tb_maxItems b of
             Some m \<Rightarrow> if length xs > m then [schema_issue_at path ''too_many_items''] else [] | None \<Rightarrow> [])
      | _ \<Rightarrow> [])"

definition value_parts :: "js \<Rightarrow> string \<Rightarrow> (js \<times> string) list" where
  "value_parts v path =
     (case v of
        JArr xs \<Rightarrow> map (\<lambda>(i, x). (x, joinIndex path (int i))) (enumerate 0 xs)
      | JObj ps \<Rightarrow> map (\<lambda>(k, x). (x, path @ ''.'' @ k)) ps
      | _ \<Rightarrow> [])"

lemma value_parts_children: "map fst (value_parts v path) = js_children v"
  by (cases v) (simp_all add: value_parts_def comp_def case_prod_unfold)

lemma value_parts_size: "(\<Sum>x\<leftarrow>value_parts v path. Suc (size (fst x))) \<le> size v"
  using js_children_size [of v] by (simp add: comp_def flip: value_parts_children [of v path])

text \<open>The loop over the stack, its top first.\<close>

function budget_loop :: "type_budgets \<Rightarrow> (js \<times> string) list \<Rightarrow> schema_issue list \<Rightarrow> schema_issue list" where
  "budget_loop b [] issues = issues"
| "budget_loop b ((v, path) # stack) issues =
     (if length issues \<ge> MAX_ISSUES then issues
      else budget_loop b (value_parts v path @ stack) (issues @ part_issues b v path))"
  by pat_completeness auto
termination
  by (relation "measure (\<lambda>(_, stack, _). \<Sum>x\<leftarrow>stack. Suc (size (fst x)))")
    (simp_all add: value_parts_size less_Suc_eq_le)

text \<open>\<open>graphBudgetIssues\<close>; the flag says that the type is stored by reference.\<close>

definition graphBudgetIssues :: "(rat \<Rightarrow> utf16) \<Rightarrow> type_budgets \<Rightarrow> js \<Rightarrow> bool \<Rightarrow> schema_issue list" where
  "graphBudgetIssues nt b v reference =
     (case js_stringify nt v of
        None \<Rightarrow> [schema_issue_at ''$'' ''invalid_value'']
      | Some encoded \<Rightarrow>
          (let maxBytes = (if reference then graph_value_cap else tb_maxBytes b)
           in if utf8_bytes encoded > maxBytes then [schema_issue_at ''$'' ''too_large'']
              else budget_loop b [(v, ''$'')] []))"

definition string_field :: "string \<Rightarrow> js" where
  "string_field description = JObj [(''type'', JStr ''string''), (''description'', JStr description)]"

definition object_schema :: "(string \<times> js) list \<Rightarrow> js" where
  "object_schema properties = JObj [(''type'', JStr ''object''), (''additionalProperties'', JBool False),
     (''required'', JArr (map (\<lambda>(k, _). JStr k) properties)), (''properties'', JObj properties)]"

definition graphDecisionSchema :: "string list option \<Rightarrow> js" where
  "graphDecisionSchema choices = object_schema
     [(''choice'', case choices of
         Some (c # cs) \<Rightarrow> JObj [(''type'', JStr ''string''), (''enum'', JArr (map JStr (c # cs))),
            (''description'', JStr ''The option chosen.'')]
       | _ \<Rightarrow> string_field ''The option chosen, one of those the node offers.''),
      (''rationale'', string_field ''Why this option, in one or two sentences.'')]"

definition validateGraphArtifactValue ::
  "(rat \<Rightarrow> utf16) \<Rightarrow> (string \<Rightarrow> js \<Rightarrow> string list option \<Rightarrow> schema_issue list) \<Rightarrow> graph_type \<Rightarrow> js \<Rightarrow> string list option \<Rightarrow>
     schema_issue list" where
  "validateGraphArtifactValue nt domain_check d v choices =
     (case graphBudgetIssues nt (gt_budgets d) v (gt_reference d) of
        i # is \<Rightarrow> i # is
      | [] \<Rightarrow>
          (let schema = (if gt_builtIn d \<and> gt_name d = ''decision'' \<and> choices \<noteq> None
                         then graphDecisionSchema choices else gt_schema d)
           in case validateGraphSchemaValue schema v of
                i # is \<Rightarrow> i # is
              | [] \<Rightarrow> (case gt_validator d of
                       None \<Rightarrow> [] | Some validator \<Rightarrow> take MAX_ISSUES (domain_check validator v choices))))"

section \<open>Assignability\<close>

datatype assignability =
    Identical
  | Structural bool
  | NotAssignable string "string option"

definition budgetsFit :: "type_budgets \<Rightarrow> type_budgets \<Rightarrow> bool" where
  "budgetsFit s t \<longleftrightarrow> tb_maxBytes s \<le> tb_maxBytes t
     \<and> list_all (\<lambda>get. case get t of None \<Rightarrow> True | Some limit \<Rightarrow> (case get s of None \<Rightarrow> False | Some bound \<Rightarrow> bound \<le> limit))
         [tb_maxStringBytes, tb_maxItems]"

text \<open>A scalar type's schema, budgets and storage; the code passes no list.\<close>

fun scalarParts :: "value_type \<Rightarrow> js \<times> type_budgets \<times> bool" where
  "scalarParts (NamedType d) = (gt_schema d, gt_budgets d, gt_reference d)"
| "scalarParts (ShapeType s b origin) = (s, b, False)"
| "scalarParts (ListType t) = scalarParts t"

definition structural_fit :: "value_type \<Rightarrow> value_type \<Rightarrow> assignability" where
  "structural_fit s t =
     (case (scalarParts s, scalarParts t) of
        ((ss, sb, sr), (ts, tb, tr)) \<Rightarrow>
          if sr \<noteq> tr then NotAssignable ''storage_mismatch'' None
          else (case isGraphSchemaSubtype ss ts ''$'' of
                  Some path \<Rightarrow> NotAssignable ''schema_mismatch'' (Some path)
                | None \<Rightarrow> Structural (\<not> budgetsFit sb tb)))"

definition scalar_assignability :: "value_type \<Rightarrow> value_type \<Rightarrow> assignability" where
  "scalar_assignability s t =
     (case (s, t) of
        (NamedType d, NamedType e) \<Rightarrow>
          if gt_name d = gt_name e \<and> gt_version d = gt_version e \<and> gt_builtIn d = gt_builtIn e then Identical
          else if gt_name d = gt_name e then NotAssignable ''version_mismatch'' None
          else if gt_validator e \<noteq> None then NotAssignable ''nominal_target'' None
          else structural_fit s t
      | (_, NamedType e) \<Rightarrow> if gt_validator e \<noteq> None then NotAssignable ''nominal_target'' None else structural_fit s t
      | _ \<Rightarrow> structural_fit s t)"

fun graphTypeAssignability :: "value_type \<Rightarrow> value_type \<Rightarrow> assignability" where
  "graphTypeAssignability (ListType s) (ListType t) = graphTypeAssignability s t"
| "graphTypeAssignability (ListType s) t = NotAssignable ''cardinality'' None"
| "graphTypeAssignability s (ListType t) = NotAssignable ''cardinality'' None"
| "graphTypeAssignability s t = scalar_assignability s t"

section \<open>The budgets of a value\<close>

text \<open>Every text and every list of a value within the budgets.\<close>

fun value_within :: "type_budgets \<Rightarrow> js \<Rightarrow> bool" where
  "value_within b (JStr s) = (case tb_maxStringBytes b of None \<Rightarrow> True | Some m \<Rightarrow> text_bytes s \<le> m)"
| "value_within b (JArr xs) =
     ((case tb_maxItems b of None \<Rightarrow> True | Some m \<Rightarrow> length xs \<le> m) \<and> (\<forall>x\<in>set xs. value_within b x))"
| "value_within b (JObj ps) = (\<forall>q\<in>set ps. value_within b (snd q))"
| "value_within b v = True"

lemma within_parts: "value_within b v \<longleftrightarrow> part_issues b v path = [] \<and> (\<forall>q\<in>set (value_parts v path). value_within b (fst q))"
proof -
  have "(\<forall>q\<in>set (value_parts v path). value_within b (fst q)) \<longleftrightarrow> (\<forall>c\<in>set (js_children v). value_within b c)"
    by (simp flip: value_parts_children [of v path])
  then show ?thesis by (cases v) (auto simp: part_issues_def split: option.splits)
qed

lemma part_issues_length: "length (part_issues b v path) \<le> 1"
  by (simp add: part_issues_def split: js.split option.split)

lemma budget_loop_appends: "\<exists>ys. budget_loop b stack issues = issues @ ys"
  by (induction b stack issues rule: budget_loop.induct) auto

lemma budget_loop_length: "length issues \<le> MAX_ISSUES \<Longrightarrow> length (budget_loop b stack issues) \<le> MAX_ISSUES"
proof (induction b stack issues rule: budget_loop.induct)
  case (2 b v path stack issues)
  then show ?case using part_issues_length [of b v path] by (cases "MAX_ISSUES \<le> length issues") auto
qed simp

lemma budget_loop_silent:
  "length issues < MAX_ISSUES \<Longrightarrow> budget_loop b stack issues = issues \<longleftrightarrow> (\<forall>q\<in>set stack. value_within b (fst q))"
proof (induction b stack issues rule: budget_loop.induct)
  case (2 b v path stack issues)
  let ?p = "part_issues b v path"
  obtain ys where ys: "budget_loop b (value_parts v path @ stack) (issues @ ?p) = issues @ ?p @ ys"
    using budget_loop_appends [of b "value_parts v path @ stack" "issues @ ?p"] by auto
  show ?case
  proof (cases "?p = []")
    case True
    with 2 show ?thesis using within_parts [of b v path] by auto
  next
    case False
    with 2 ys show ?thesis using within_parts [of b v path] by simp
  qed
qed simp

lemma budget_issues_none:
  "graphBudgetIssues nt b v reference = [] \<longleftrightarrow>
     (\<exists>t. js_stringify nt v = Some t \<and> utf8_bytes t \<le> (if reference then graph_value_cap else tb_maxBytes b) \<and> value_within b v)"
  using budget_loop_silent [of "[]" b "[(v, ''$'')]"]
  by (auto simp: graphBudgetIssues_def MAX_ISSUES_def Let_def split: option.split)

lemma budgets_fit_sound:
  assumes "budgetsFit s t" and "graphBudgetIssues nt s v reference = []"
  shows "graphBudgetIssues nt t v reference = []"
proof -
  have "value_within s v \<Longrightarrow> value_within t v"
    using assms(1) by (induction t v rule: value_within.induct) (auto simp: budgetsFit_def split: option.splits)
  then show ?thesis using assms by (auto simp: budget_issues_none budgetsFit_def split: if_splits)
qed

section \<open>Properties\<close>

text \<open>C4. A value that passes every check of its own type passes every check of a type its type is structurally
  assignable to, where either the budgets are known to fit or the value is within the target's budgets.\<close>

theorem assignable_value_valid:
  assumes "checkGraphSchemaSubset nt (gt_schema d) p1 c1 = (Some i1, c1')"
    and "checkGraphSchemaSubset nt (gt_schema e) p2 c2 = (Some i2, c2')"
    and "graphTypeAssignability (NamedType d) (NamedType e) = Structural budgetCheck"
    and "validateGraphArtifactValue nt domain_check d v None = []"
    and "budgetCheck \<longrightarrow> graphBudgetIssues nt (gt_budgets e) v (gt_reference e) = []"
  shows "validateGraphArtifactValue nt domain_check e v None = []"
proof -
  note sf = checked_form [OF assms(1)] and tf = checked_form [OF assms(2)]
  have fit: "gt_validator e = None" "gt_reference d = gt_reference e" "isGraphSchemaSubtype (gt_schema d) (gt_schema e) ''$'' = None"
      "budgetCheck = (\<not> budgetsFit (gt_budgets d) (gt_budgets e))"
    using assms(3) by (auto simp: scalar_assignability_def structural_fit_def split: if_splits option.splits)
  have valid: "graphBudgetIssues nt (gt_budgets d) v (gt_reference d) = []" "validateGraphSchemaValue (gt_schema d) v = []"
    using assms(4) by (auto simp: validateGraphArtifactValue_def Let_def split: list.splits)
  have "accepts (gt_schema d) v" using valid(2) sf by (simp add: validateGraphSchemaValue_def validate_accepts)
  then have "accepts (gt_schema e) v" using subtype_accepts [OF fit(3)] sf tf by blast
  then have "validateGraphSchemaValue (gt_schema e) v = []" using tf by (simp add: validateGraphSchemaValue_def validate_accepts)
  moreover have "graphBudgetIssues nt (gt_budgets e) v (gt_reference e) = []"
    using assms(5) fit(2,4) budgets_fit_sound [OF _ valid(1)] by auto
  ultimately show ?thesis by (simp add: validateGraphArtifactValue_def Let_def fit(1))
qed

text \<open>A type with the same schema and more room.\<close>

definition example_graph_type :: "string \<Rightarrow> nat \<Rightarrow> graph_type" where
  "example_graph_type name bytes = \<lparr>gt_name = name, gt_version = 1, gt_ref = name @ ''@1'', gt_builtIn = False,
     gt_schema = example_schema, gt_reference = False,
     gt_budgets = \<lparr>tb_maxBytes = bytes, tb_maxStringBytes = None, tb_maxItems = None\<rparr>,
     gt_items = None, gt_itemType = None, gt_validator = None\<rparr>"

theorem assignable_value_valid_witness:
  "validateGraphArtifactValue no_numerals (\<lambda>_ _ _. []) (example_graph_type ''wide'' 40) (JObj [(''ids'', JNull)]) None = []"
proof -
  have "isGraphSchemaSubtype example_schema example_schema ''$'' = None" by code_simp
  then have a: "graphTypeAssignability (NamedType (example_graph_type ''narrow'' 30)) (NamedType (example_graph_type ''wide'' 40)) = Structural False"
    by (simp add: scalar_assignability_def structural_fit_def example_graph_type_def budgetsFit_def)
  have "validateGraphSchemaValue example_schema (JObj [(''ids'', JNull)]) = []" by code_simp
  moreover have "graphBudgetIssues no_numerals (gt_budgets (example_graph_type ''narrow'' 30)) (JObj [(''ids'', JNull)]) False = []"
    by (simp add: budget_issues_none example_graph_type_def uni_def json_quote_def quote_unit_def is_high_surrogate_def
        is_low_surrogate_def List.map_filter_def unit_bytes_def)
  ultimately have "validateGraphArtifactValue no_numerals (\<lambda>_ _ _. []) (example_graph_type ''narrow'' 30) (JObj [(''ids'', JNull)]) None = []"
    by (simp add: validateGraphArtifactValue_def example_graph_type_def)
  moreover have "checkGraphSchemaSubset no_numerals (gt_schema (example_graph_type n b)) ''$'' empty_collector
      = (Some [[''ids'']], empty_collector)" for n b
    by (simp add: example_graph_type_def example_checked)
  ultimately show ?thesis using assignable_value_valid [OF _ _ a] by blast
qed

end
