(* ===== verification/Transform_Types.thy ===== *)
theory Transform_Types
  imports Type_Assignability
begin

text \<open>
  The type library (\<^verbatim>\<open>packages/protocol/src/graphs/types.ts\<close>), the built-in adapters and the type an edge
  transform produces (\<^verbatim>\<open>packages/protocol/src/graphs/type-assignability.ts\<close>), and that the transforms of
  \<open>Edge_Transforms\<close> make values of that type.

  The table of built-in types is an argument. An answer None stands for a thrown error. Adapters are given
  values of their source type: texts are texts there and lists are lists.
\<close>

section \<open>The type library\<close>

record type_table =
  tt_builtIns :: "(string \<times> graph_type) list"
  tt_custom :: "(string \<times> graph_type) list"
  tt_conflicts :: "string list"

definition type_ref_of :: "string \<Rightarrow> int \<Rightarrow> string" where
  "type_ref_of name version = name @ ''@'' @ show_int version"

text \<open>A custom type as the library holds it; its family and its provenance fields are left out.\<close>

definition graphCustomTypeDefinition :: "graph_type \<Rightarrow> graph_type" where
  "graphCustomTypeDefinition def =
     def\<lparr>gt_ref := type_ref_of (gt_name def) (gt_version def), gt_builtIn := False\<rparr>"

text \<open>The constructor of \<open>GraphTypeLibrary\<close>, with the names of the built-in types.\<close>

definition new_type_library :: "(string \<times> graph_type) list \<Rightarrow> string list \<Rightarrow> graph_type list \<Rightarrow> type_table" where
  "new_type_library builtIns names customTypes =
     fold (\<lambda>def lib.
         let ref = type_ref_of (gt_name def) (gt_version def) in
         if gt_name def \<in> set names \<or> obj_get (tt_custom lib) ref \<noteq> None
         then lib\<lparr>tt_conflicts := tt_conflicts lib @ [ref]\<rparr>
         else lib\<lparr>tt_custom := obj_set ref (graphCustomTypeDefinition def) (tt_custom lib)\<rparr>)
       customTypes \<lparr>tt_builtIns = builtIns, tt_custom = [], tt_conflicts = []\<rparr>"

definition library_definition :: "type_table \<Rightarrow> string \<Rightarrow> int \<Rightarrow> graph_type option" where
  "library_definition lib name version =
     (case obj_get (tt_builtIns lib) (type_ref_of name version) of
        Some d \<Rightarrow> Some d | None \<Rightarrow> obj_get (tt_custom lib) (type_ref_of name version))"

definition library_definitions :: "type_table \<Rightarrow> graph_type list" where
  "library_definitions lib = map snd (tt_builtIns lib) @ map snd (tt_custom lib)"

definition wrap_type :: "value_type \<Rightarrow> nat \<Rightarrow> value_type" where
  "wrap_type element listDepth = (ListType ^^ listDepth) element"

definition resolve_type :: "type_table \<Rightarrow> string \<Rightarrow> string + value_type" where
  "resolve_type lib ref =
     (case parseGraphTypeRef ref of
        None \<Rightarrow> Inl ''type_ref''
      | Some parts \<Rightarrow>
          (case library_definition lib (tr_name parts) (int (tr_version parts)) of
             None \<Rightarrow> Inl (if list_ex (\<lambda>d. gt_name d = tr_name parts) (library_definitions lib)
                          then ''unknown_version'' else ''unknown_type'')
           | Some d \<Rightarrow> Inr (wrap_type (NamedType d) (tr_depth parts))))"

section \<open>Adapters\<close>

record graph_adapter =
  ga_id :: string
  ga_from :: string
  ga_to :: string
  ga_apply :: "js \<Rightarrow> js option"

text \<open>\<open>field\<close>: reading a property of null or undefined throws.\<close>

definition adapter_field :: "js \<Rightarrow> string \<Rightarrow> js option" where
  "adapter_field v k = (if v = JUndef \<or> v = JNull then None else Some (js_lookup v k))"

definition text_field :: "js \<Rightarrow> string \<Rightarrow> string option" where
  "text_field v k = Option.bind (adapter_field v k) js_string"

definition list_field :: "js \<Rightarrow> string \<Rightarrow> js list option" where
  "list_field v k = Option.bind (adapter_field v k) js_array"

definition criterion_line :: "js \<Rightarrow> string option" where
  "criterion_line entry =
     Option.bind (text_field entry ''id'') (\<lambda>i. map_option (\<lambda>t. ''- '' @ i @ '': '' @ t) (text_field entry ''text''))"

definition newline :: char where "newline = CHR 0x0A"

definition ticketMarkdown :: "js \<Rightarrow> string option" where
  "ticketMarkdown ticket =
     Option.bind (list_field ticket ''criteria'') (\<lambda>entries.
     Option.bind (those (map criterion_line entries)) (\<lambda>criteria.
     Option.bind (text_field ticket ''title'') (\<lambda>title.
     map_option (\<lambda>description.
       let lines = join_with [newline] criteria in
       join_with [newline, newline]
         (filter (\<lambda>part. part \<noteq> [])
            [''# '' @ title, description,
             if lines \<noteq> [] then ''## Acceptance criteria'' @ [newline, newline] @ lines else []]))
       (text_field ticket ''description''))))"

definition changed_files :: "js \<Rightarrow> js option" where
  "changed_files v =
     Option.bind (list_field v ''filesChanged'') (\<lambda>paths.
       map_option (\<lambda>reason.
         JObj [(''files'', JArr (map (\<lambda>path. JObj [(''path'', path), (''reason'', reason)]) paths))])
       (adapter_field v ''summary''))"

text \<open>The built-in adapters; the formatter of review reports is an argument.\<close>

definition graphTypeAdapters :: "(js \<Rightarrow> string option) \<Rightarrow> graph_adapter list" where
  "graphTypeAdapters format_report =
     [\<lparr>ga_id = ''review-report-to-finding-list'', ga_from = ''review-report@1'', ga_to = ''list<finding@1>'',
        ga_apply = (\<lambda>v. map_option JArr (list_field v ''issues''))\<rparr>,
      \<lparr>ga_id = ''review-report-to-markdown'', ga_from = ''review-report@1'', ga_to = ''markdown@1'',
        ga_apply = (\<lambda>v. map_option (\<lambda>t. JObj [(''markdown'', JStr t)]) (format_report v))\<rparr>,
      \<lparr>ga_id = ''ticket-to-markdown'', ga_from = ''ticket@1'', ga_to = ''markdown@1'',
        ga_apply = (\<lambda>v. map_option (\<lambda>t. JObj [(''markdown'', JStr t)]) (ticketMarkdown v))\<rparr>,
      \<lparr>ga_id = ''fix-result-to-file-list'', ga_from = ''fix-result@1'', ga_to = ''file-list@1'',
        ga_apply = changed_files\<rparr>,
      \<lparr>ga_id = ''text-to-markdown'', ga_from = ''text@1'', ga_to = ''markdown@1'',
        ga_apply = (\<lambda>v. map_option (\<lambda>t. JObj [(''markdown'', t)]) (adapter_field v ''text''))\<rparr>,
      \<lparr>ga_id = ''markdown-to-text'', ga_from = ''markdown@1'', ga_to = ''text@1'',
        ga_apply = (\<lambda>v. map_option (\<lambda>t. JObj [(''text'', t)]) (adapter_field v ''markdown''))\<rparr>]"

definition graphTypeAdapter :: "graph_adapter list \<Rightarrow> string \<Rightarrow> graph_adapter option" where
  "graphTypeAdapter adapters aid = List.find (\<lambda>a. ga_id a = aid) adapters"

text \<open>\<open>flat\<close>.\<close>

definition flat_list :: "js list \<Rightarrow> js list" where
  "flat_list xs = concat (map (\<lambda>x. case x of JArr ys \<Rightarrow> ys | _ \<Rightarrow> [x]) xs)"

fun applyGraphTypeAdapter :: "graph_adapter \<Rightarrow> js \<Rightarrow> nat \<Rightarrow> js option" where
  "applyGraphTypeAdapter a v 0 = ga_apply a v"
| "applyGraphTypeAdapter a v (Suc d) =
     (case v of
        JArr xs \<Rightarrow>
          map_option (\<lambda>mapped. JArr (if d = 0 \<and> starts_with ''list<'' (ga_to a) then flat_list mapped else mapped))
            (those (map (\<lambda>x. applyGraphTypeAdapter a x d) xs))
      | _ \<Rightarrow> None)"

section \<open>The type a transform produces\<close>

fun build_schema :: "pick_tree \<Rightarrow> js \<Rightarrow> js option"
  and build_fields :: "(string \<times> pick_tree) list \<Rightarrow> js \<Rightarrow> (string \<times> js) list \<Rightarrow> (string \<times> js) list option" where
  "build_schema PickAll current = Some current"
| "build_schema (PickSome picks) current =
     (if current = JUndef \<or> current = JNull then None
      else
        (let (u, nullable) = graphSchemaNonNull current in
         map_option (\<lambda>picked. let result = object_schema picked in
             if nullable then JObj [(''anyOf'', JArr [result, JObj [(''type'', JStr ''null'')]])] else result)
           (build_fields picks (js_prop u ''properties'') [])))"
| "build_fields [] properties picked = Some picked"
| "build_fields ((k, sub) # picks) properties picked =
     (if properties = JUndef \<or> properties = JNull then None
      else case build_schema sub (js_lookup properties k) of
        None \<Rightarrow> None
      | Some s \<Rightarrow> build_fields picks properties (obj_set k s picked))"

text \<open>\<open>project\<close>: None when building the schema throws.\<close>

definition project :: "js \<Rightarrow> string list \<Rightarrow> (string + js) option" where
  "project s names =
     (if list_ex (\<lambda>path. graphSchemaAtPath s path = None) names then Some (Inl ''unknown_field'')
      else map_option Inr (build_schema (PickSome (pickTree names)) s))"

text \<open>\<open>shapeOf\<close>: a scalar type's schema and budgets.\<close>

definition shapeOf :: "value_type \<Rightarrow> js \<times> type_budgets" where
  "shapeOf t = (let (s, b, _) = scalarParts t in (s, b))"

definition pick_origin :: "value_type \<Rightarrow> string list \<Rightarrow> string" where
  "pick_origin element names = ''pick('' @ graphValueTypeLabel element @ '': '' @ join_with '', '' names @ '')''"

definition pick_type :: "value_type \<Rightarrow> nat \<Rightarrow> string list \<Rightarrow> (string + value_type) option" where
  "pick_type element listDepth names =
     (let (s, b) = shapeOf element in
      map_option (\<lambda>r. case r of
          Inl code \<Rightarrow> Inl code
        | Inr projected \<Rightarrow> Inr (wrap_type (ShapeType projected b (pick_origin element names)) listDepth))
        (project s names))"

text \<open>The library type of the elements of a named type's own items list.\<close>

definition named_items :: "type_table \<Rightarrow> value_type \<Rightarrow> string \<Rightarrow> value_type option" where
  "named_items lib element path =
     (case element of
        NamedType d \<Rightarrow>
          (case (gt_items d, gt_itemType d) of
             (Some items, Some ref) \<Rightarrow>
               if ti_path items = path \<and> ref \<noteq> [] then (case resolve_type lib ref of Inr t \<Rightarrow> Some t | Inl _ \<Rightarrow> None) else None
           | _ \<Rightarrow> None)
      | _ \<Rightarrow> None)"

definition flatten_type :: "type_table \<Rightarrow> value_type \<Rightarrow> nat \<Rightarrow> string \<Rightarrow> string + value_type" where
  "flatten_type lib element listDepth path =
     (if listDepth > 1 then Inl ''too_deep''
      else
        (let (s, b) = shapeOf element in
         case graphSchemaAtPath s path of
           None \<Rightarrow> Inl ''unknown_field''
         | Some (target, _) \<Rightarrow>
             if js_prop target ''type'' \<noteq> JStr ''array'' \<or> \<not> isPlainRecord (js_prop target ''items'') then Inl ''not_a_list''
             else (case named_items lib element path of
                     Some t \<Rightarrow> Inr (ListType t)
                   | None \<Rightarrow> Inr (ListType (ShapeType (js_prop target ''items'') b
                       (graphValueTypeLabel element @ ''.'' @ path @ ''[]''))))))"

definition is_list_type :: "value_type \<Rightarrow> bool" where
  "is_list_type t = (case t of ListType _ \<Rightarrow> True | _ \<Rightarrow> False)"

definition adapt_type :: "type_table \<Rightarrow> graph_adapter list \<Rightarrow> value_type \<Rightarrow> nat \<Rightarrow> string \<Rightarrow> string + value_type" where
  "adapt_type lib adapters element listDepth aid =
     (case graphTypeAdapter adapters aid of
        None \<Rightarrow> Inl ''unknown_adapter''
      | Some a \<Rightarrow>
          (case (resolve_type lib (ga_from a), resolve_type lib (ga_to a)) of
             (Inr from_type, Inr to_type) \<Rightarrow>
               if \<not> (listDepth \<le> 1 \<and> (case graphTypeAssignability element from_type of NotAssignable _ _ \<Rightarrow> False | _ \<Rightarrow> True))
               then Inl ''adapter_mismatch''
               else if listDepth = 0 then Inr to_type
               else Inr (if is_list_type to_type then to_type else ListType to_type)
           | _ \<Rightarrow> Inl ''unknown_adapter''))"

definition graphEdgeTransformResultType ::
  "type_table \<Rightarrow> graph_adapter list \<Rightarrow> value_type \<Rightarrow> edge_transform \<Rightarrow> (string + value_type) option" where
  "graphEdgeTransformResultType lib adapters source t =
     (let (element, listDepth) = graphValueTypeElement source in
      case t of
        TFilter _ \<Rightarrow> Some (if listDepth > 0 then Inr source else Inl ''requires_list'')
      | TLimit _ \<Rightarrow> Some (if listDepth > 0 then Inr source else Inl ''requires_list'')
      | TPick names \<Rightarrow> pick_type element listDepth names
      | TFlatten path \<Rightarrow> Some (flatten_type lib element listDepth path)
      | TAdapt aid \<Rightarrow> Some (adapt_type lib adapters element listDepth aid))"

text \<open>The type after a chain, or the code of the first failure with its index.\<close>

fun transforms_type ::
  "type_table \<Rightarrow> graph_adapter list \<Rightarrow> nat \<Rightarrow> value_type \<Rightarrow> edge_transform list \<Rightarrow> (string \<times> nat + value_type) option" where
  "transforms_type lib adapters index source [] = Some (Inr source)"
| "transforms_type lib adapters index source (t # ts) =
     (case graphEdgeTransformResultType lib adapters source t of
        None \<Rightarrow> None
      | Some (Inl code) \<Rightarrow> Some (Inl (code, index))
      | Some (Inr result) \<Rightarrow> transforms_type lib adapters (index + 1) result ts)"

definition graphEdgeTransformsResultType ::
  "type_table \<Rightarrow> graph_adapter list \<Rightarrow> value_type \<Rightarrow> edge_transform list \<Rightarrow> (string \<times> nat + value_type) option" where
  "graphEdgeTransformsResultType lib adapters source ts = transforms_type lib adapters 0 source ts"

definition suggestGraphTypeAdapters :: "type_table \<Rightarrow> graph_adapter list \<Rightarrow> value_type \<Rightarrow> value_type \<Rightarrow> graph_adapter list" where
  "suggestGraphTypeAdapters lib adapters source target =
     filter (\<lambda>a. case graphEdgeTransformResultType lib adapters source (TAdapt (ga_id a)) of
         Some (Inr t) \<Rightarrow> (case graphTypeAssignability t target of NotAssignable _ _ \<Rightarrow> False | _ \<Rightarrow> True)
       | _ \<Rightarrow> False) adapters"

section \<open>Picked values have the picked type\<close>

text \<open>A pick tree over the properties of a schema.\<close>

fun fits :: "pick_tree \<Rightarrow> js \<Rightarrow> bool"
  and fits_all :: "(string \<times> pick_tree) list \<Rightarrow> js \<Rightarrow> bool" where
  "fits PickAll s = True"
| "fits (PickSome picks) s =
     (js_prop (fst (graphSchemaNonNull s)) ''type'' = JStr ''object'' \<and> distinct (map fst picks)
      \<and> fits_all picks (js_prop (fst (graphSchemaNonNull s)) ''properties''))"
| "fits_all [] properties = True"
| "fits_all ((k, sub) # picks) properties =
     (case obj_get (obj_members properties) k of None \<Rightarrow> False | Some p \<Rightarrow> fits sub p \<and> fits_all picks properties)"

lemma obj_set_absent: "k \<notin> fst ` set ps \<Longrightarrow> obj_set k v ps = ps @ [(k, v)]"
  by (induction k v ps rule: obj_set.induct) auto

lemma js_prop_obj [simp]: "js_prop (JObj ps) k = (case obj_get ps k of None \<Rightarrow> JUndef | Some x \<Rightarrow> x)"
  by (simp add: js_prop_def)

lemma obj_members_obj [simp]: "obj_members (JObj ps) = ps"
  by (simp add: obj_members_def)

lemma plain_obj [simp]: "isPlainRecord (JObj ps)"
  by (simp add: isPlainRecord_def)

lemma string_list_names [simp]: "string_list (JArr (map (\<lambda>(k, _). JStr k) bs)) = map fst bs"
  by (induction bs) (auto simp: string_list_def List.map_filter_def)

lemma picked_form:
  assumes "\<And>k B. (k, B) \<in> set bs \<Longrightarrow> subset_form B \<and> property_name_ok k"
  shows "subset_form (object_schema bs)" and "js_prop (object_schema bs) ''anyOf'' = JUndef"
proof -
  have "names_property (JObj bs) (case q of (k, _) \<Rightarrow> JStr k)" if "q \<in> set bs" for q
    using that by (force simp: names_property_def case_prod_unfold obj_get_None_iff)
  then have "required_form (object_schema bs)"
    by (simp add: required_form_def object_schema_def list_all_iff)
  moreover have "list_all (\<lambda>(k, p). property_name_ok k \<and> k \<in> fst ` set bs \<and> subset_form p) bs"
    using assms by (force simp: list_all_iff)
  ultimately have "typed_form (object_schema bs) ''object''"
    by (simp add: typed_form_def object_schema_def)
  moreover have "applicable_form (object_schema bs) ''object''"
    by (simp add: applicable_form_def object_schema_def GRAPH_SCHEMA_KEYWORDS_def KEYWORDS_BY_TYPE_def)
  moreover have "keywords_form (object_schema bs) GRAPH_SCHEMA_KEYWORDS"
    by (simp add: keywords_form_def object_schema_def GRAPH_SCHEMA_KEYWORDS_def)
  moreover have "declared_type (object_schema bs) False = Inr ''object''"
    by (simp add: declared_type_def object_schema_def GRAPH_SCHEMA_TYPES_def)
  ultimately show "subset_form (object_schema bs)"
    by (subst subset_form_steps) (simp add: object_schema_def)
  show "js_prop (object_schema bs) ''anyOf'' = JUndef" by (simp add: object_schema_def)
qed

definition null_schema :: js where "null_schema = JObj [(''type'', JStr ''null'')]"

lemma null_form: "subset_form null_schema" "js_prop null_schema ''anyOf'' = JUndef" "accepts null_schema JNull"
proof -
  show "subset_form null_schema"
    by (subst subset_form_steps)
      (simp add: null_schema_def keywords_form_def GRAPH_SCHEMA_KEYWORDS_def declared_type_def GRAPH_SCHEMA_TYPES_def
        applicable_form_def typed_form_def)
  show any: "js_prop null_schema ''anyOf'' = JUndef" by (simp add: null_schema_def)
  show "accepts null_schema JNull"
    by (subst accepts_plain)
      (simp_all add: null_schema_def scalar_refusal_def schemaTypeMatches_def range_codes_def js_array_def)
qed

definition nullable_schema :: "js \<Rightarrow> js" where
  "nullable_schema s = JObj [(''anyOf'', JArr [s, null_schema])]"

lemma nullable_form:
  assumes "subset_form s" and "js_prop s ''anyOf'' = JUndef"
  shows "subset_form (nullable_schema s)"
  by (subst subset_form_steps)
    (use assms null_form in \<open>simp add: nullable_schema_def keywords_form_def GRAPH_SCHEMA_KEYWORDS_def maxAnyOfBranches_def\<close>)

lemma nullable_accepts: "accepts (nullable_schema s) v \<longleftrightarrow> accepts s v \<or> accepts null_schema v"
  by (subst accepts_union [of _ "[s, null_schema]"]) (simp_all add: nullable_schema_def)

lemma object_parts:
  "js_prop (object_schema bs) ''type'' = JStr ''object''" "js_prop (object_schema bs) ''anyOf'' = JUndef"
  "js_prop (object_schema bs) ''properties'' = JObj bs" "js_prop (object_schema bs) ''additionalProperties'' = JBool False"
  "js_prop (object_schema bs) ''const'' = JUndef" "js_prop (object_schema bs) ''enum'' = JUndef"
  "js_prop (object_schema bs) ''items'' = JUndef" "string_list (js_prop (object_schema bs) ''required'') = map fst bs"
  by (simp_all add: object_schema_def)

lemma picked_accepts:
  assumes "list_all2 (\<lambda>(k, B) (k', w). k = k' \<and> accepts B w) bs ws" and "distinct (map fst bs)"
  shows "accepts (object_schema bs) (JObj ws)"
proof -
  have keys: "map fst bs = map fst ws"
    using assms(1) by (induction rule: list_all2_induct) auto
  then have "fst ` set ws = fst ` set bs" by (metis set_map)
  then have "field_issues (object_schema bs) ws [] = []"
    unfolding field_issues_ok fields_ok_def object_parts by simp
  moreover have "accepts (snd q) x" if q: "q \<in> set bs" "obj_get ws (fst q) = Some x" for q x
  proof -
    obtain i where i: "i < length bs" "q = bs ! i" using q(1) unfolding in_set_conv_nth by blast
    have n: "length ws = length bs" using list_all2_lengthD [OF assms(1)] by simp
    have at: "fst (ws ! i) = fst (bs ! i) \<and> accepts (snd (bs ! i)) (snd (ws ! i))"
      using list_all2_nthD [OF assms(1) i(1)] by (simp add: case_prod_unfold)
    have "distinct (map fst ws)" using assms(2) keys by simp
    moreover have "(fst (bs ! i), snd (ws ! i)) \<in> set ws" 
      using at nth_mem [of i ws] i(1) n by (cases "ws ! i") simp
    ultimately have "x = snd (ws ! i)" using q(2) i(2) by (simp add: obj_get_def)
    with at i(2) show ?thesis by simp
  qed
  moreover have "isPlainRecord (object_schema bs)" by (simp add: object_schema_def)
  moreover have "scalar_refusal (object_schema bs) (JObj ws) = None" "range_codes (object_schema bs) (JObj ws) = []"
    by (simp_all add: object_parts scalar_refusal_def schemaTypeMatches_def range_codes_def js_array_def)
  ultimately show ?thesis by (subst accepts_plain) (simp_all add: object_parts)
qed

text \<open>An object schema's values, and its parts.\<close>

lemma typed_object:
  assumes "subset_form s" and "js_prop s ''type'' = JStr ''object''"
  shows "js_prop s ''anyOf'' = JUndef"
    and "obj_get (obj_members (js_prop s ''properties'')) k = Some p \<Longrightarrow> subset_form p \<and> property_name_ok k"
    and "accepts s v \<Longrightarrow> \<exists>vs. v = JObj vs"
proof -
  show any: "js_prop s ''anyOf'' = JUndef"
  proof (rule ccontr)
    assume "js_prop s ''anyOf'' \<noteq> JUndef"
    with assms(1) have "js_prop s ''type'' = JUndef" by (rule form_union)
    with assms(2) show False by simp
  qed
  obtain ty where ty: "js_prop s ''type'' = JStr ty" "typed_form s ty" using assms(1) any by (rule form_type)
  show "subset_form p \<and> property_name_ok k" if "obj_get (obj_members (js_prop s ''properties'')) k = Some p"
    using map_of_SomeD [OF that [unfolded obj_get_def]] ty assms(2) by (auto simp: typed_form_def list_all_iff)
  show "\<exists>vs. v = JObj vs" if "accepts s v"
  proof -
    have "scalar_refusal s v = None" using that accepts_plain [OF form_record [OF assms(1)] any] by blast
    then show ?thesis using type_values(4) assms(2) by (simp add: scalar_refusal_def split: if_splits)
  qed
qed

lemma accepts_present:
  assumes "subset_form s" and "accepts s v"
  shows "v \<noteq> JUndef"
proof -
  have plain: "v \<noteq> JUndef" if b: "subset_form b" "js_prop b ''anyOf'' = JUndef" "accepts b v" for b
  proof -
    obtain ty where ty: "js_prop b ''type'' = JStr ty" "ty \<in> set GRAPH_SCHEMA_TYPES" using b(1,2) by (rule form_type)
    have "scalar_refusal b v = None" using b(3) accepts_plain [OF form_record [OF b(1)] b(2)] by blast
    then have "schemaTypeMatches (JStr ty) v" using ty(1) by (simp add: scalar_refusal_def split: if_splits)
    with type_kinds [OF ty(2)] show ?thesis by (auto dest: type_values)
  qed
  show ?thesis
  proof (cases "js_prop s ''anyOf'' = JUndef")
    case True
    with plain assms show ?thesis by blast
  next
    case False
    obtain bs where bs: "js_prop s ''anyOf'' = JArr bs" "\<And>b. b \<in> set bs \<Longrightarrow> subset_form b \<and> js_prop b ''anyOf'' = JUndef"
      using assms(1) False by (rule form_union) blast
    with assms plain accepts_union [OF form_record [OF assms(1)] bs(1)] show ?thesis by blast
  qed
qed

lemma lookup_own: "obj_get (obj_members v) k = Some x \<Longrightarrow> js_lookup v k = x"
  by (simp add: js_lookup_def)

lemma members_object: "obj_get (obj_members v) k = Some x \<Longrightarrow> v \<noteq> JUndef \<and> v \<noteq> JNull"
  by (auto simp: obj_members_def)

definition apart :: "(string \<times> 'a) list \<Rightarrow> (string \<times> 'b) list \<Rightarrow> bool" where
  "apart xs ys \<longleftrightarrow> fst ` set xs \<inter> fst ` set ys = {}"

lemma build_fields_step:
  assumes "obj_get (obj_members properties) k = Some p" and "build_schema sub p = Some B" and "k \<notin> fst ` set out"
  shows "build_fields ((k, sub) # picks) properties out = build_fields picks properties (out @ [(k, B)])"
  using assms members_object [OF assms(1)] by (simp add: lookup_own obj_set_absent)

lemma pick_fields_step:
  assumes "ownField v k = x" and "x \<noteq> JUndef" and "k \<notin> fst ` set out"
  shows "pick_fields ((k, sub) # picks) v out = pick_fields picks v (out @ [(k, if x = JNull then x else pick_build sub x)])"
  using assms by (simp add: obj_set_absent Let_def)

lemma pick_build_null [simp]: "pick_build sub JNull = JNull"
  by (cases sub) simp_all

text \<open>Building a schema and picking a value go hand in hand.\<close>

definition built_for :: "pick_tree \<Rightarrow> js \<Rightarrow> bool" where
  "built_for sub s \<longleftrightarrow> (\<exists>B. build_schema sub s = Some B \<and> subset_form B \<and> (\<forall>x. accepts s x \<longrightarrow> accepts B (pick_build sub x)))"

definition fields_built :: "(string \<times> pick_tree) list \<Rightarrow> js \<Rightarrow> bool" where
  "fields_built picks properties \<longleftrightarrow> (\<exists>bs. map fst bs = map fst picks
     \<and> (\<forall>(k, B)\<in>set bs. subset_form B \<and> property_name_ok k)
     \<and> (\<forall>out. apart picks out \<longrightarrow> build_fields picks properties out = Some (out @ bs))
     \<and> (\<forall>v out. (\<forall>k p. obj_get (obj_members properties) k = Some p \<longrightarrow> ownField v k \<noteq> JUndef \<and> accepts p (ownField v k)) \<longrightarrow>
          apart picks out \<longrightarrow>
          (\<exists>ws. pick_fields picks v out = out @ ws \<and> list_all2 (\<lambda>(k, B) (k', w). k = k' \<and> accepts B w) bs ws)))"

lemma fields_built_Cons:
  assumes p: "obj_get (obj_members properties) k = Some p" and name: "property_name_ok k"
    and sub: "built_for sub p" and rest: "fields_built picks properties" and new: "k \<notin> fst ` set picks"
  shows "fields_built ((k, sub) # picks) properties"
proof -
  obtain B where B: "build_schema sub p = Some B" "subset_form B" "\<And>x. accepts p x \<Longrightarrow> accepts B (pick_build sub x)"
    using sub unfolding built_for_def by blast
  obtain bs where bs: "map fst bs = map fst picks" "\<forall>(k, B)\<in>set bs. subset_form B \<and> property_name_ok k"
      "\<And>out. apart picks out \<Longrightarrow> build_fields picks properties out = Some (out @ bs)"
      "\<And>v out. (\<forall>k p. obj_get (obj_members properties) k = Some p \<longrightarrow> ownField v k \<noteq> JUndef \<and> accepts p (ownField v k)) \<Longrightarrow>
          apart picks out \<Longrightarrow>
          \<exists>ws. pick_fields picks v out = out @ ws \<and> list_all2 (\<lambda>(k, B) (k', w). k = k' \<and> accepts B w) bs ws"
    using rest unfolding fields_built_def by blast
  have away: "k \<notin> fst ` set out" "apart picks (out @ [(k, y)])" if "apart ((k, sub) # picks) out" for out and y :: js
    using that new by (auto simp: apart_def)
  have build: "build_fields ((k, sub) # picks) properties out = Some (out @ (k, B) # bs)" if "apart ((k, sub) # picks) out" for out
    using build_fields_step [OF p B(1) away(1) [OF that], of picks] bs(3) [OF away(2) [OF that, of B]] by simp
  have pick: "\<exists>ws. pick_fields ((k, sub) # picks) v out = out @ ws
      \<and> list_all2 (\<lambda>(k, B) (k', w). k = k' \<and> accepts B w) ((k, B) # bs) ws"
    if v: "\<forall>k p. obj_get (obj_members properties) k = Some p \<longrightarrow> ownField v k \<noteq> JUndef \<and> accepts p (ownField v k)"
      and out: "apart ((k, sub) # picks) out" for v out
  proof -
    let ?w = "if ownField v k = JNull then ownField v k else pick_build sub (ownField v k)"
    have own: "ownField v k \<noteq> JUndef" "accepts p (ownField v k)" using v p by blast+
    have "accepts B ?w" using B(3) [OF own(2)] by (cases "ownField v k = JNull") simp_all
    moreover obtain ws where "pick_fields picks v (out @ [(k, ?w)]) = (out @ [(k, ?w)]) @ ws"
        "list_all2 (\<lambda>(k, B) (k', w). k = k' \<and> accepts B w) bs ws"
      using bs(4) [OF v away(2) [OF out]] by blast
    ultimately show ?thesis using pick_fields_step [OF refl own(1) away(1) [OF out], of sub picks] by auto
  qed
  show ?thesis
    unfolding fields_built_def
  proof (intro exI [of _ "(k, B) # bs"] conjI)
    show "map fst ((k, B) # bs) = map fst ((k, sub) # picks)" using bs(1) by simp
    show "\<forall>(k, B)\<in>set ((k, B) # bs). subset_form B \<and> property_name_ok k" using bs(2) B(2) name by simp
  qed (use build pick in blast)+
qed

lemma fits_built:
  "subset_form s \<Longrightarrow> fits sub s \<Longrightarrow> built_for sub s"
  "(\<And>k p. obj_get (obj_members properties) k = Some p \<Longrightarrow> subset_form p \<and> property_name_ok k) \<Longrightarrow>
     distinct (map fst picks) \<Longrightarrow> fits_all picks properties \<Longrightarrow> fields_built picks properties"
proof (induction sub s and picks properties rule: fits_fits_all.induct)
  case (1 s)
  then show ?case by (simp add: built_for_def)
next
  case (2 picks s)
  obtain u n where u: "graphSchemaNonNull s = (u, n)" by fastforce
  have uf: "subset_form u" by (rule non_null_form [OF 2(2) u])
  have ty: "js_prop u ''type'' = JStr ''object''" "distinct (map fst picks)" "fits_all picks (js_prop u ''properties'')"
    using 2(3) u by simp_all
  have "fields_built picks (js_prop u ''properties'')"
    using 2(1) typed_object(2) [OF uf ty(1)] ty(2,3) u by simp
  then obtain bs where bs: "map fst bs = map fst picks" "\<forall>(k, B)\<in>set bs. subset_form B \<and> property_name_ok k"
      "\<And>out. apart picks out \<Longrightarrow> build_fields picks (js_prop u ''properties'') out = Some (out @ bs)"
      "\<And>v out. (\<forall>k p. obj_get (obj_members (js_prop u ''properties'')) k = Some p \<longrightarrow>
            ownField v k \<noteq> JUndef \<and> accepts p (ownField v k)) \<Longrightarrow> apart picks out \<Longrightarrow>
          \<exists>ws. pick_fields picks v out = out @ ws \<and> list_all2 (\<lambda>(k, B) (k', w). k = k' \<and> accepts B w) bs ws"
    unfolding fields_built_def by blast
  let ?R = "object_schema bs" and ?B = "if n then nullable_schema (object_schema bs) else object_schema bs"
  have "s \<noteq> JUndef \<and> s \<noteq> JNull" using form_record [OF 2(2)] by (auto simp: isPlainRecord_def)
  then have B: "build_schema (PickSome picks) s = Some ?B"
    using bs(3) [of "[]"] u by (simp add: apart_def nullable_schema_def null_schema_def Let_def)
  have R: "subset_form ?R" "js_prop ?R ''anyOf'' = JUndef" using picked_form [of bs] bs(2) by auto
  then have "subset_form ?B" by (simp add: nullable_form)
  moreover have "accepts ?B (pick_build (PickSome picks) x)" if x: "accepts s x" for x
  proof (cases "accepts u x")
    case True
    then obtain vs where vs: "x = JObj vs" using typed_object(3) [OF uf ty(1)] by blast
    have own: "ownField x k \<noteq> JUndef \<and> accepts p (ownField x k)"
      if "obj_get (obj_members (js_prop u ''properties'')) k = Some p" for k p
      using accepts_object [OF uf ty(1) True that] accepts_present typed_object(2) [OF uf ty(1) that] by blast
    obtain ws where ws: "pick_fields picks x [] = ws" "list_all2 (\<lambda>(k, B) (k', w). k = k' \<and> accepts B w) bs ws"
      using bs(4) [of x "[]"] own by (auto simp: apart_def)
    have "accepts ?R (JObj ws)" using picked_accepts [OF ws(2)] bs(1) ty(2) by simp
    with ws(1) vs show ?thesis by (simp add: nullable_accepts)
  next
    case False
    with non_null_accepts [OF 2(2) u x] have "n" "x = JNull" by blast+
    then show ?thesis by (simp add: nullable_accepts null_form)
  qed
  ultimately show ?case using B unfolding built_for_def by blast
next
  case (3 properties)
  then show ?case by (simp add: fields_built_def)
next
  case (4 k sub picks properties)
  obtain p where p: "obj_get (obj_members properties) k = Some p" "fits sub p" "fits_all picks properties"
    using 4(5) by (auto split: option.splits)
  have "built_for sub p" using 4(1) [OF p(1)] 4(3) [OF p(1)] p(2) by blast
  moreover have "fields_built picks properties" using 4(2) [OF p(1)] 4(3,4) p(3) by simp
  ultimately show ?case using fields_built_Cons [OF p(1)] 4(3) [OF p(1)] 4(4) by simp
qed

section \<open>The tree of a list of field paths\<close>

text \<open>Adding a path does not run into a picked whole.\<close>

fun leak_free :: "string list \<Rightarrow> (string \<times> pick_tree) list \<Rightarrow> bool" where
  "leak_free [] node = True"
| "leak_free [seg] node = True"
| "leak_free (seg # segs) node =
     (case obj_get node seg of Some PickAll \<Rightarrow> False | Some (PickSome sub) \<Rightarrow> leak_free segs sub | None \<Rightarrow> True)"

lemma leak_free_empty [simp]: "leak_free segs []"
  by (cases segs rule: remdups_adj.cases) simp_all

lemma obj_set_subset: "set (obj_set k v ps) \<subseteq> insert (k, v) (set ps)"
  by (induction k v ps rule: obj_set.induct) auto

lemma fits_all_iff:
  "fits_all picks properties \<longleftrightarrow> (\<forall>(k, sub)\<in>set picks. \<exists>p. obj_get (obj_members properties) k = Some p \<and> fits sub p)"
  by (induction picks) (auto split: option.splits)

lemma fits_set:
  assumes "fits (PickSome node) s" and "obj_get (obj_members (js_prop (fst (graphSchemaNonNull s)) ''properties'')) k = Some p"
    and "fits sub p"
  shows "fits (PickSome (obj_set k sub node)) s"
  using assms obj_set_subset [of k sub node] by (auto simp: fits_all_iff)

lemma schema_at_ConsD:
  assumes "schema_at_segments s b (seg # segs) = Some r"
  obtains p m where "js_prop (fst (graphSchemaNonNull s)) ''type'' = JStr ''object''"
    and "obj_get (obj_members (js_prop (fst (graphSchemaNonNull s)) ''properties'')) seg = Some p"
    and "schema_at_segments p m segs = Some r"
  using assms by (auto simp: Let_def case_prod_unfold split: if_splits option.splits)

lemma pick_add_fits:
  "schema_at_segments s b segs = Some r \<Longrightarrow> fits (PickSome node) s \<Longrightarrow> leak_free segs node \<Longrightarrow>
     fits (PickSome (pick_add segs node)) s"
proof (induction segs node arbitrary: s b rule: pick_add.induct)
  case (2 seg node)
  then obtain p where "obj_get (obj_members (js_prop (fst (graphSchemaNonNull s)) ''properties'')) seg = Some p"
    by (elim schema_at_ConsD) blast
  then have "fits (PickSome (obj_set seg PickAll node)) s" by (rule fits_set [OF 2(2)]) (rule fits.simps(1) [THEN iffD2, OF TrueI])
  then show ?case by (simp only: pick_add.simps)
next
  case (3 seg seg2 segs node)
  obtain p m where p: "obj_get (obj_members (js_prop (fst (graphSchemaNonNull s)) ''properties'')) seg = Some p"
      "schema_at_segments p m (seg2 # segs) = Some r"
    using 3(4) by (rule schema_at_ConsD)
  show ?case
  proof (cases "obj_get node seg")
    case None
    have "fits (PickSome []) p" using p(2) by (rule schema_at_ConsD) simp
    then have "fits (PickSome (pick_add (seg2 # segs) [])) p" using 3(1) [OF None p(2)] by simp
    from fits_set [OF 3(5) p(1) this] show ?thesis by (simp only: pick_add.simps None option.case)
  next
    case (Some sub)
    then obtain picks where sub: "sub = PickSome picks" using 3(6) by (cases sub) auto
    have "(seg, PickSome picks) \<in> set node" using Some sub by (simp add: obj_get_def map_of_SomeD)
    moreover have "fits_all node (js_prop (fst (graphSchemaNonNull s)) ''properties'')" using 3(5) by simp
    ultimately have "fits (PickSome picks) p" using p(1) unfolding fits_all_iff by fastforce
    then have "fits (PickSome (pick_add (seg2 # segs) picks)) p"
      using 3(3) [OF Some sub p(2)] 3(6) Some sub by (simp del: fits.simps)
    from fits_set [OF 3(5) p(1) this] show ?thesis by (simp only: pick_add.simps Some sub option.case pick_tree.case)
  qed
qed simp

text \<open>The paths a tree takes whole.\<close>

fun whole :: "string list \<Rightarrow> (string \<times> pick_tree) list \<Rightarrow> bool" where
  "whole [] node = False"
| "whole [seg] node = (obj_get node seg = Some PickAll)"
| "whole (seg # segs) node = (case obj_get node seg of Some (PickSome sub) \<Rightarrow> whole segs sub | _ \<Rightarrow> False)"

lemma whole_empty [simp]: "\<not> whole p []"
  by (cases p rule: remdups_adj.cases) simp_all

lemma leak_freeI: "(\<And>p. strict_prefix p segs \<Longrightarrow> \<not> whole p node) \<Longrightarrow> leak_free segs node"
proof (induction segs node rule: leak_free.induct)
  case (3 seg seg2 segs node)
  have "\<not> whole [seg] node" using 3(2) [of "[seg]"] by (simp add: strict_prefix_def)
  moreover have "leak_free (seg2 # segs) sub" if sub: "obj_get node seg = Some (PickSome sub)" for sub
  proof (rule 3(1) [OF sub refl])
    show "\<not> whole p sub" if "strict_prefix p (seg2 # segs)" for p
      using 3(2) [of "seg # p"] that sub by (cases p) simp_all
  qed
  ultimately show ?case by (auto split: option.split pick_tree.split)
qed simp_all

lemma whole_add: "leak_free segs node \<Longrightarrow> segs \<noteq> [] \<Longrightarrow> whole p (pick_add segs node) \<Longrightarrow> p = segs \<or> whole p node"
proof (induction segs node arbitrary: p rule: pick_add.induct)
  case (2 seg node)
  then show ?case by (cases p rule: remdups_adj.cases) (auto split: if_splits)
next
  case (3 seg seg2 segs node)
  show ?case
  proof (cases "obj_get node seg")
    case None
    then show ?thesis using 3(1) [OF None] 3(6)
      by (cases p rule: remdups_adj.cases) (auto split: if_splits)
  next
    case (Some sub)
    then obtain picks where sub: "sub = PickSome picks" using 3(4) by (cases sub) auto
    then show ?thesis using 3(3) [OF Some sub] 3(4,6) Some
      by (cases p rule: remdups_adj.cases) (auto split: if_splits)
  qed
qed simp

text \<open>Field paths none of which continues an earlier one.\<close>

definition picks_apart :: "string list \<Rightarrow> bool" where
  "picks_apart names \<longleftrightarrow> names \<noteq> []
     \<and> sorted_wrt (\<lambda>a b. \<not> strict_prefix (split_on CHR ''.'' a) (split_on CHR ''.'' b)) names"

lemma pick_fold_fits:
  assumes "sorted_wrt (\<lambda>a b. \<not> strict_prefix (split_on CHR ''.'' a) (split_on CHR ''.'' b)) names"
    and "\<And>f. f \<in> set names \<Longrightarrow> \<exists>r. schema_at_segments s False (split_on CHR ''.'' f) = Some r"
    and "fits (PickSome node) s"
    and "\<And>p f. whole p node \<Longrightarrow> f \<in> set names \<Longrightarrow> \<not> strict_prefix p (split_on CHR ''.'' f)"
  shows "fits (PickSome (fold (\<lambda>f node. pick_add (split_on CHR ''.'' f) node) names node)) s"
  using assms
proof (induction names arbitrary: node)
  case (Cons f names)
  let ?node = "pick_add (split_on CHR ''.'' f) node"
  have free: "leak_free (split_on CHR ''.'' f) node" using Cons.prems(4) by (intro leak_freeI) auto
  obtain r where r: "schema_at_segments s False (split_on CHR ''.'' f) = Some r" using Cons.prems(2) by force
  have "fits (PickSome ?node) s" by (rule pick_add_fits [OF r Cons.prems(3) free])
  moreover have "\<not> strict_prefix p (split_on CHR ''.'' g)" if "whole p ?node" "g \<in> set names" for p g
    using whole_add [OF free _ that(1)] Cons.prems(1,4) that(2) by auto
  ultimately show ?case using Cons.IH [of ?node] Cons.prems(1,2) by simp
qed simp

lemma pick_tree_fits:
  assumes "subset_form s" and "picks_apart names" and "\<not> list_ex (\<lambda>path. graphSchemaAtPath s path = None) names"
  shows "fits (PickSome (pickTree names)) s"
proof -
  have paths: "\<exists>r. schema_at_segments s False (split_on CHR ''.'' f) = Some r" if "f \<in> set names" for f
    using assms(3) that by (auto simp: list_ex_iff graphSchemaAtPath_def split: if_splits option.splits)
  obtain f where f: "f \<in> set names" using assms(2) by (cases names) (auto simp: picks_apart_def)
  obtain r where r: "schema_at_segments s False (split_on CHR ''.'' f) = Some r" using paths [OF f] by blast
  obtain seg segs where split: "split_on CHR ''.'' f = seg # segs" by (cases "split_on CHR ''.'' f") simp_all
  have "fits (PickSome []) s" using r unfolding split by (rule schema_at_ConsD) simp
  then show ?thesis
    unfolding pickTree_def by (intro pick_fold_fits) (use assms(2) paths in \<open>simp_all add: picks_apart_def\<close>)
qed

text \<open>Building the type of a pick does not throw, and picked values have it.\<close>

lemma project_total: "subset_form s \<Longrightarrow> picks_apart names \<Longrightarrow> project s names \<noteq> None"
  using fits_built(1) [of s "PickSome (pickTree names)"] pick_tree_fits [of s names]
  by (cases "list_ex (\<lambda>path. graphSchemaAtPath s path = None) names") (auto simp: built_for_def project_def)

lemma project_typed:
  assumes "project s names = Some (Inr B)" and "subset_form s" and "picks_apart names"
  shows "subset_form B \<and> (\<forall>x. accepts s x \<longrightarrow> accepts B (pickGraphValue x names))"
proof -
  have "\<not> list_ex (\<lambda>path. graphSchemaAtPath s path = None) names" using assms(1) by (auto simp: project_def)
  from fits_built(1) [OF assms(2) pick_tree_fits [OF assms(2,3) this]] show ?thesis
    using assms(1) by (auto simp: built_for_def project_def pickGraphValue_def split: if_splits)
qed

section \<open>Types of values\<close>

fun has_type :: "value_type \<Rightarrow> js \<Rightarrow> bool" where
  "has_type (NamedType d) v = accepts (gt_schema d) v"
| "has_type (ShapeType s b origin) v = accepts s v"
| "has_type (ListType t) v = (case js_array v of None \<Rightarrow> False | Some xs \<Rightarrow> list_all (has_type t) xs)"

text \<open>A library whose schemas are in the subset, and whose items lists hold values of their item type.\<close>

definition items_typed :: "type_table \<Rightarrow> graph_type \<Rightarrow> bool" where
  "items_typed lib d \<longleftrightarrow> (\<forall>path t u n. named_items lib (NamedType d) path = Some t \<longrightarrow>
     graphSchemaAtPath (gt_schema d) path = Some (u, n) \<longrightarrow>
     (\<exists>e\<in>set (library_definitions lib). t = NamedType e \<and> (\<forall>x. accepts (js_prop u ''items'') x \<longrightarrow> accepts (gt_schema e) x)))"

definition library_typed :: "type_table \<Rightarrow> bool" where
  "library_typed lib \<longleftrightarrow> (\<forall>d\<in>set (library_definitions lib). subset_form (gt_schema d) \<and> items_typed lib d)"

fun type_formed :: "type_table \<Rightarrow> value_type \<Rightarrow> bool" where
  "type_formed lib (NamedType d) \<longleftrightarrow> d \<in> set (library_definitions lib)"
| "type_formed lib (ShapeType s b origin) \<longleftrightarrow> subset_form s"
| "type_formed lib (ListType t) \<longleftrightarrow> type_formed lib t"

text \<open>A value or a list of values, but no list of lists.\<close>

definition list_element :: "value_type \<Rightarrow> value_type" where
  "list_element t = (case t of ListType e \<Rightarrow> e | _ \<Rightarrow> t)"

definition flat_type :: "value_type \<Rightarrow> bool" where
  "flat_type t \<longleftrightarrow> \<not> is_list_type (list_element t)"

lemma element_of_flat:
  "flat_type t \<Longrightarrow> graphValueTypeElement t = (list_element t, if is_list_type t then 1 else 0)"
  by (cases t; cases "list_element t") (auto simp: flat_type_def list_element_def is_list_type_def)

lemma scalar_shape:
  assumes "\<not> is_list_type e" and "shapeOf e = (s, b)"
  shows "has_type e v \<longleftrightarrow> accepts s v" and "library_typed lib \<Longrightarrow> type_formed lib e \<Longrightarrow> subset_form s"
  using assms by (cases e; auto simp: is_list_type_def shapeOf_def library_typed_def)+

lemma schema_at_segments_form: "schema_at_segments s nullable segs = Some (t, m) \<Longrightarrow> subset_form s \<Longrightarrow> subset_form t"
proof (induction segs arbitrary: s nullable)
  case (Cons seg segs)
  obtain p k where p: "js_prop (fst (graphSchemaNonNull s)) ''type'' = JStr ''object''"
      "obj_get (obj_members (js_prop (fst (graphSchemaNonNull s)) ''properties'')) seg = Some p"
      "schema_at_segments p k segs = Some (t, m)"
    using Cons.prems(1) by (rule schema_at_ConsD)
  have "subset_form (fst (graphSchemaNonNull s))" by (rule non_null_form [OF Cons.prems(2) prod.collapse [symmetric]])
  with p Cons.IH typed_object(2) show ?case by blast
qed simp

text \<open>A list field of a schema, and its elements in a valid value.\<close>

lemma list_field_schema:
  assumes "subset_form s" and "graphSchemaAtPath s path = Some (u, n)"
    and "js_prop u ''type'' = JStr ''array''" and "isPlainRecord (js_prop u ''items'')"
  shows "subset_form u" and "js_prop u ''anyOf'' = JUndef" and "js_prop u ''items'' \<noteq> JUndef"
proof -
  obtain t m k where t: "schema_at_segments s False (split_on CHR ''.'' path) = Some (t, m)" "graphSchemaNonNull t = (u, k)"
    using assms(2) by (auto simp: graphSchemaAtPath_def Let_def split: if_splits option.splits prod.splits)
  show uf: "subset_form u" by (rule non_null_form [OF schema_at_segments_form [OF t(1) assms(1)] t(2)])
  show "js_prop u ''anyOf'' = JUndef"
  proof (rule ccontr)
    assume "js_prop u ''anyOf'' \<noteq> JUndef"
    with uf have "js_prop u ''type'' = JUndef" by (rule form_union)
    with assms(3) show False by simp
  qed
  show "js_prop u ''items'' \<noteq> JUndef" using assms(4) by (rule not_record_undef)
qed

lemma list_field_form:
  assumes "subset_form s" and "graphSchemaAtPath s path = Some (u, n)"
    and "js_prop u ''type'' = JStr ''array''" and "isPlainRecord (js_prop u ''items'')"
  shows "subset_form (js_prop u ''items'')"
  by (rule form_items [OF list_field_schema [OF assms]])

lemma list_field_elements:
  assumes "subset_form s" and "accepts s v" and "graphSchemaAtPath s path = Some (u, n)"
    and "js_prop u ''type'' = JStr ''array''" and "isPlainRecord (js_prop u ''items'')" and "valueAtPath v path = JArr xs"
  shows "\<forall>x\<in>set xs. accepts (js_prop u ''items'') x"
proof -
  obtain t m k where t: "schema_at_segments s False (split_on CHR ''.'' path) = Some (t, m)" "graphSchemaNonNull t = (u, k)"
    using assms(3) by (auto simp: graphSchemaAtPath_def Let_def split: if_splits option.splits prod.splits)
  have tf: "subset_form t" and tv: "accepts t (JArr xs)"
    using schema_at_segments_sound [OF t(1) assms(1) disjI1 [OF assms(2)]] assms(6) by (auto simp: value_at_path_steps)
  note u = list_field_schema [OF assms(1,3-5)]
  have "accepts u (JArr xs)" using non_null_accepts [OF tf t(2) tv] by simp
  then show ?thesis using u(3) accepts_plain [OF form_record [OF u(1)] u(2), of "JArr xs"] by blast
qed

section \<open>A typed chain\<close>

definition chain_typed :: "type_table \<Rightarrow> value_type \<Rightarrow> bool \<Rightarrow> chain_entry list \<Rightarrow> bool" where
  "chain_typed lib t lst entries \<longleftrightarrow> flat_type t \<and> type_formed lib t \<and> lst = is_list_type t
     \<and> (\<forall>e\<in>set entries. has_type (list_element t) (en_value e)) \<and> (\<not> lst \<longrightarrow> length entries = 1)"

lemma set_align: "set (align kept entries) \<subseteq> set entries"
  by (induction kept entries rule: align.induct) auto

lemma flatten_elements:
  "flatten_entries path index entries out = Inr (lst, made) \<Longrightarrow> lst \<and>
     (\<forall>e\<in>set made. e \<in> set out \<or> (\<exists>s\<in>set entries. \<exists>xs. valueAtPath (en_value s) path = JArr xs \<and> en_value e \<in> set xs))"
proof (induction path index entries out rule: flatten_entries.induct)
  case (2 path index s entries out)
  show ?case
  proof (cases "\<exists>xs. valueAtPath (en_value s) path = JArr xs")
    case False
    then have "flatten_entries path index (s # entries) out = flatten_entries path index entries out"
      by (cases "valueAtPath (en_value s) path") simp_all
    with 2 False show ?thesis by (cases "valueAtPath (en_value s) path") auto
  next
    case True
    then obtain xs where xs: "valueAtPath (en_value s) path = JArr xs" by blast
    have cut: "en_value e \<in> set xs" if "e \<in> set (cut_entries path s xs)" for e
      using that by (auto simp: cut_entries_def plain_entry_def Let_def)
    show ?thesis using 2(6) [OF xs] 2(9) xs cut by (fastforce split: if_splits)
  qed
qed auto

definition typed_transform :: "edge_transform \<Rightarrow> bool" where
  "typed_transform t = (case t of TPick names \<Rightarrow> picks_apart names | TAdapt _ \<Rightarrow> False | _ \<Rightarrow> True)"

lemma pick_step:
  assumes typed: "chain_typed lib t lst entries" and lib: "library_typed lib" and names: "picks_apart names"
    and ty: "graphEdgeTransformResultType lib adapters t (TPick names) = Some (Inr result)"
  shows "chain_typed lib result lst (map (\<lambda>e. (plain_entry (pickGraphValue (en_value e) names))\<lparr>en_sourceItem := en_sourceItem e\<rparr>) entries)"
proof -
  have flat: "flat_type t" "type_formed lib t" "lst = is_list_type t" using typed by (simp_all add: chain_typed_def)
  obtain s b where s: "shapeOf (list_element t) = (s, b)" by fastforce
  have scalar: "\<not> is_list_type (list_element t)" using flat(1) by (simp add: flat_type_def)
  have "type_formed lib (list_element t)" using flat(2) by (cases t) (simp_all add: list_element_def)
  then have form: "subset_form s" by (rule scalar_shape(2) [OF scalar s lib])
  obtain z where z: "project s names = Some z" "(case z of Inl code \<Rightarrow> Inl code
      | Inr B \<Rightarrow> Inr (wrap_type (ShapeType B b (pick_origin (list_element t) names)) (if is_list_type t then 1 else 0))) = Inr result"
    using ty s element_of_flat [OF flat(1)] by (auto simp: graphEdgeTransformResultType_def pick_type_def)
  obtain B where B: "project s names = Some (Inr B)"
    "result = wrap_type (ShapeType B b (pick_origin (list_element t) names)) (if is_list_type t then 1 else 0)"
    using z by (cases z) auto
  have picked: "subset_form B" "\<And>x. accepts s x \<Longrightarrow> accepts B (pickGraphValue x names)"
    using project_typed [OF B(1) form names] by blast+
  have "has_type (list_element t) v \<Longrightarrow> accepts s v" for v using scalar_shape(1) [OF scalar s] by simp
  with typed picked flat show ?thesis
    by (auto simp: chain_typed_def B(2) wrap_type_def flat_type_def list_element_def is_list_type_def plain_entry_def split: value_type.splits)
qed

lemma flatten_step:
  assumes typed: "chain_typed lib t lst entries" and lib: "library_typed lib"
    and ty: "graphEdgeTransformResultType lib adapters t (TFlatten path) = Some (Inr result)"
    and made: "flatten_entries path index entries [] = Inr (lst', made)"
  shows "chain_typed lib result lst' made"
proof -
  have flat: "flat_type t" "type_formed lib t" using typed by (simp_all add: chain_typed_def)
  obtain s b where s: "shapeOf (list_element t) = (s, b)" by fastforce
  have scalar: "\<not> is_list_type (list_element t)" using flat(1) by (simp add: flat_type_def)
  have formed: "type_formed lib (list_element t)" using flat(2) by (cases t) (simp_all add: list_element_def)
  have form: "subset_form s" by (rule scalar_shape(2) [OF scalar s lib formed])
  obtain u n where u: "graphSchemaAtPath s path = Some (u, n)" "js_prop u ''type'' = JStr ''array''" "isPlainRecord (js_prop u ''items'')"
      "result = (case named_items lib (list_element t) path of Some e \<Rightarrow> ListType e
         | None \<Rightarrow> ListType (ShapeType (js_prop u ''items'') b (graphValueTypeLabel (list_element t) @ ''.'' @ path @ ''[]'')))"
    using ty s element_of_flat [OF flat(1)]
    by (auto simp: graphEdgeTransformResultType_def flatten_type_def split: option.splits if_splits)
  have cut: "accepts (js_prop u ''items'') (en_value e)" if "e \<in> set made" for e
  proof -
    obtain x xs where x: "x \<in> set entries" "valueAtPath (en_value x) path = JArr xs" "en_value e \<in> set xs"
      using flatten_elements [OF made] \<open>e \<in> set made\<close> by auto
    have "accepts s (en_value x)" using typed x(1) scalar_shape(1) [OF scalar s] by (simp add: chain_typed_def)
    from list_field_elements [OF form this u(1-3) x(2)] x(3) show ?thesis by blast
  qed
  have lst: "lst'" using flatten_elements [OF made] by blast
  show ?thesis
  proof (cases "named_items lib (list_element t) path")
    case None
    have "subset_form (js_prop u ''items'')"
      by (rule list_field_form [OF form u(1-3)])
    with None u(4) lst cut show ?thesis
      by (simp add: chain_typed_def flat_type_def list_element_def is_list_type_def)
  next
    case (Some e)
    then obtain d where d: "list_element t = NamedType d" by (cases "list_element t") (auto simp: named_items_def)
    then have sd: "s = gt_schema d" using s by (simp add: shapeOf_def)
    have "items_typed lib d" using lib formed d by (simp add: library_typed_def)
    then obtain i where i: "i \<in> set (library_definitions lib)" "e = NamedType i"
        "\<And>x. accepts (js_prop u ''items'') x \<Longrightarrow> accepts (gt_schema i) x"
      using Some u(1) unfolding d sd items_typed_def by blast
    with Some u(4) lst cut show ?thesis
      by (simp add: chain_typed_def flat_type_def list_element_def is_list_type_def)
  qed
qed

lemma transform_step:
  assumes "chain_typed lib t lst entries" and "library_typed lib" and "typed_transform tr"
    and "graphEdgeTransformResultType lib adapters t tr = Some (Inr result)"
    and "applyOne rlib index tr lst entries = Inr (lst', entries')"
  shows "chain_typed lib result lst' entries'"
proof (cases tr)
  case (TPick names)
  then show ?thesis using pick_step [OF assms(1,2), of names] assms(3-5) by (simp add: typed_transform_def)
next
  case (TFlatten path)
  then show ?thesis using flatten_step [OF assms(1,2)] assms(4,5) by simp
next
  case (TFilter where_pred)
  have "set entries' \<subseteq> set entries" "lst' = lst" "lst"
    using assms(5) TFilter set_align by (auto split: if_splits sum.splits)
  moreover have "result = t" using assms(4) TFilter by (auto simp: graphEdgeTransformResultType_def Let_def split: prod.splits if_splits)
  ultimately show ?thesis using assms(1) by (auto simp: chain_typed_def)
next
  case (TLimit n)
  have "set entries' \<subseteq> set entries" "lst' = lst" "lst"
    using assms(5) TLimit by (auto split: if_splits dest: in_set_takeD)
  moreover have "result = t" using assms(4) TLimit by (auto simp: graphEdgeTransformResultType_def Let_def split: prod.splits if_splits)
  ultimately show ?thesis using assms(1) by (auto simp: chain_typed_def)
next
  case (TAdapt aid)
  then show ?thesis using assms(3) by (simp add: typed_transform_def)
qed

lemma transforms_typed:
  "chain_typed lib t lst entries \<Longrightarrow> library_typed lib \<Longrightarrow> \<forall>tr\<in>set ts. typed_transform tr \<Longrightarrow>
   transforms_type lib adapters i t ts = Some (Inr result) \<Longrightarrow> run_transforms rlib j ts lst entries = Inr (lst', entries') \<Longrightarrow>
   chain_typed lib result lst' entries'"
proof (induction ts arbitrary: t lst entries i j)
  case (Cons tr ts)
  obtain t1 where t1: "graphEdgeTransformResultType lib adapters t tr = Some (Inr t1)" "transforms_type lib adapters (i + 1) t1 ts = Some (Inr result)"
    using Cons.prems(4) by (auto split: option.splits sum.splits)
  obtain l1 e1 where e1: "applyOne rlib j tr lst entries = Inr (l1, e1)" "run_transforms rlib (j + 1) ts l1 e1 = Inr (lst', entries')"
    using Cons.prems(5) by (auto split: sum.splits prod.splits)
  have "chain_typed lib t1 l1 e1"
    by (rule transform_step [OF Cons.prems(1,2) _ t1(1) e1(1)]) (use Cons.prems(3) in simp)
  then show ?case using Cons.IH [OF _ Cons.prems(2) _ t1(2) e1(2)] Cons.prems(3) by simp
qed simp

lemma chain_start:
  assumes "type_formed lib source" and "flat_type source" and "has_type source v"
    and "applyGraphEdgeTransforms rlib v ts (is_list_type source) = Inr (w, lst)"
  shows "\<exists>entries made. chain_typed lib source (is_list_type source) entries
    \<and> run_transforms rlib 0 ts (is_list_type source) entries = Inr (lst, made)
    \<and> w = (if lst then JArr (map en_value made) else (case made of [] \<Rightarrow> JUndef | e # _ \<Rightarrow> en_value e))"
proof (cases "is_list_type source")
  case True
  then obtain e where e: "source = ListType e" by (cases source) (simp_all add: is_list_type_def)
  then obtain xs where xs: "v = JArr xs" "list_all (has_type e) xs" using assms(3) by (auto split: option.splits)
  have "chain_typed lib source True (map plain_entry xs)"
    using assms(1,2) xs e by (auto simp: chain_typed_def list_element_def is_list_type_def list_all_iff plain_entry_def)
  with assms(4) xs True show ?thesis
    by - (rule exI [of _ "map plain_entry xs"],
      auto simp: applyGraphEdgeTransforms_def runChain_def split: sum.splits if_splits)
next
  case False
  then have "chain_typed lib source False [plain_entry v]"
    using assms(1-3) by (cases source) (simp_all add: chain_typed_def list_element_def is_list_type_def plain_entry_def)
  with assms(4) False show ?thesis
    by - (rule exI [of _ "[plain_entry v]"],
      auto simp: applyGraphEdgeTransforms_def runChain_def split: sum.splits if_splits)
qed

lemma chain_result:
  assumes "chain_typed lib t lst made"
  shows "has_type t (if lst then JArr (map en_value made) else (case made of [] \<Rightarrow> JUndef | e # _ \<Rightarrow> en_value e))"
  using assms by (cases t; cases made) (auto simp: chain_typed_def is_list_type_def list_element_def list_all_iff)

section \<open>Property\<close>


text \<open>Two fields, of which one is picked from the first element of a list.\<close>

definition pair_schema :: js where
  "pair_schema = object_schema [(''a'', JObj [(''type'', JStr ''string'')]), (''b'', JObj [(''type'', JStr ''string'')])]"

definition pair_type :: value_type where
  "pair_type = ShapeType pair_schema \<lparr>tb_maxBytes = 100, tb_maxStringBytes = None, tb_maxItems = None\<rparr> ''pair''"

definition pair_value :: js where "pair_value = JObj [(''a'', JStr ''x''), (''b'', JStr ''y'')]"

definition empty_table :: type_table where "empty_table = \<lparr>tt_builtIns = [], tt_custom = [], tt_conflicts = []\<rparr>"

definition picked_type :: value_type where
  "picked_type = ShapeType (object_schema [(''a'', JObj [(''type'', JStr ''string'')])])
     \<lparr>tb_maxBytes = 100, tb_maxStringBytes = None, tb_maxItems = None\<rparr> ''pick(pair: a)''"

definition no_adapters :: type_library where
  "no_adapters = \<lparr>tl_definition = (\<lambda>_. None), tl_adapter = (\<lambda>_. None)\<rparr>"

lemma pair_typed:
  "graphEdgeTransformsResultType empty_table [] (ListType pair_type) [TPick [''a''], TLimit 1] = Some (Inr (ListType picked_type))"
  by code_simp

lemma pair_form: "subset_form pair_schema" by code_simp

lemma pair_accepted: "accepts pair_schema pair_value" by code_simp


section \<open>Where the checker and the transforms differ\<close>

text \<open>A pick over a list of lists is typed as a list of lists of picked values, but leaves the values alone.\<close>

lemma nested_pick_mistyped:
  "graphEdgeTransformsResultType empty_table [] (ListType (ListType pair_type)) [TPick [''a'']]
     = Some (Inr (ListType (ListType picked_type)))
   \<and> pickGraphValue (JArr [pair_value]) [''a''] = JArr [pair_value] \<and> \<not> has_type (ListType picked_type) (JArr [pair_value])"
proof -
  have "graphEdgeTransformsResultType empty_table [] (ListType (ListType pair_type)) [TPick [''a'']]
     = Some (Inr (ListType (ListType picked_type)))" by code_simp
  moreover have "\<not> has_type (ListType picked_type) (JArr [pair_value])" by code_simp
  ultimately show ?thesis by (simp add: pickGraphValue_def)
qed

text \<open>Picking a field and a part of it types a field that the picked values lack.\<close>

definition nested_schema :: js where
  "nested_schema = object_schema [(''a'', object_schema [(''b'', JObj [(''type'', JStr ''string'')])])]"

lemma overlapping_pick_mistyped:
  "project nested_schema [''a'', ''a.b''] =
     Some (Inr (object_schema [(''a'', object_schema [(''b'', JObj [(''type'', JStr ''string'')])]), (''b'', JUndef)]))
   \<and> pickGraphValue (JObj [(''a'', JObj [(''b'', JStr ''x'')])]) [''a'', ''a.b''] = JObj [(''a'', JObj [(''b'', JStr ''x'')])]"
  by code_simp

end
