(* ===== verification/Spec2Isabelle.thy ===== *)
theory Spec2Isabelle
  imports Event_Ring Graph_Transitions Graph_Rewind Field_Checks Predicates Graph_Isolation
    Graph_Branches Edge_Transforms Collect Planning Pass_Safety
    Line_Splitter Canonical_Round_Trip Artifact_Identity Store_History Transform_Types
begin

text \<open>
  A model of the graph engine of Orkestrator: the code that runs a compiled workflow graph (agents,
  checks, fan-outs, loops, human gates) from one durable record, the store that keeps the record, its artifacts and its effects,
  and the streams beside it: the replay ring of the bridges and the line splitter of the relays. Sources are named from \<^verbatim>\<open>src/\<close>; \<^verbatim>\<open>protocol/\<close> stands for
  \<^verbatim>\<open>packages/protocol/src/\<close> and \<^verbatim>\<open>core/\<close> for \<^verbatim>\<open>apps/backend/src/core/\<close>.

  \<^bold>\<open>How the parts interact.\<close> A run is one record: the frozen plan, the bindings, the activations
  (one per node, loop iteration, branch and attempt), the artifacts' ids on their ports, loop
  iterations, items fan-outs, rewinds, usage. A pass (\<^verbatim>\<open>core/graph-run-pass.ts\<close>) reads the record,
  enforces the wall clock, plans to a fixpoint (retries, routed errors, loops, the ready set), decides
  which ready activations may start under the workspace locks and the limits, starts, observes or
  cancels admitted ones through executors, applies their reports by the transition tables, settles the
  run's status and says when the next pass is due. A person may rewind the run to a node. Executors,
  clocks, storage and the type library are outside and are arguments of the definitions.

  \<^bold>\<open>The theories.\<close>
  \<^item> \<open>Prelude\<close>: dynamic JavaScript values, UTF-16 strings, decimal text, ordered objects, and the
    locales the components share (\<open>invariant_machine\<close>, \<open>simulated_machine\<close>,
    \<open>forward_machine\<close>, \<open>saturating_pass\<close>).
  \<^item> \<open>Event_Ring\<close> (\<^verbatim>\<open>protocol/node/event-ring.ts\<close>): the bounded replay ring of every bridge.
  \<^item> \<open>Graph_Model\<close> (\<^verbatim>\<open>protocol/graphs/run-model.ts\<close>, \<^verbatim>\<open>plan.ts\<close>): the records of plan and run.
  \<^item> \<open>Graph_Lineage\<close> (\<^verbatim>\<open>run-lineage.ts\<close>), \<open>Graph_Transitions\<close>
    (\<^verbatim>\<open>core/graph-run-transitions.ts\<close>, \<^verbatim>\<open>graph-run-executors.ts\<close>): every operation on the record, the
    transition tables and the record invariant \<open>run_inv\<close>, with the machine of all of them.
  \<^item> \<open>Graph_Rewind\<close> (\<^verbatim>\<open>run-rewind.ts\<close>): the scope of a restart against the least closed set.
  \<^item> \<open>Field_Checks\<close> (\<^verbatim>\<open>field-validation.ts\<close>, \<^verbatim>\<open>grammar.ts\<close>), \<open>Predicates\<close>
    (\<^verbatim>\<open>predicate-shape.ts\<close>, \<^verbatim>\<open>predicate-eval.ts\<close>): guards, error collection, three-valued evaluation.
  \<^item> \<open>Sha256\<close>, \<open>Graph_Identity\<close> (\<^verbatim>\<open>run-identity.ts\<close>), \<open>Graph_Isolation\<close> (\<^verbatim>\<open>isolation.ts\<close>),
    \<open>Graph_Branches\<close> (\<^verbatim>\<open>run-branches.ts\<close>, \<^verbatim>\<open>run-items.ts\<close>, \<^verbatim>\<open>run-fanout.ts\<close>): hashing, keys, paths,
    branches and items.
  \<^item> \<open>Run_View\<close>, \<open>Edge_Transforms\<close>, \<open>Ready_Set\<close>, \<open>Scheduling\<close> (\<^verbatim>\<open>core/graph-run-view.ts\<close>,
    \<^verbatim>\<open>graph-edge-transforms.ts\<close>, \<^verbatim>\<open>graph-run-ready-set.ts\<close>, \<^verbatim>\<open>graph-run-fanout.ts\<close>,
    \<^verbatim>\<open>graph-run-loops.ts\<close>, \<^verbatim>\<open>graph-run-scheduling.ts\<close>): planning.
  \<^item> \<open>Admission\<close>, \<open>Workspace_Locks\<close> (\<^verbatim>\<open>graph-run-scheduling.ts\<close>): admission and the lock table.
  \<^item> \<open>Run_Pass\<close>, \<open>Pass_Safety\<close> (\<^verbatim>\<open>core/graph-run-pass.ts\<close>): the pass between two awaited calls.
  \<^item> \<open>Canonical_Json\<close>, \<open>Canonical_Round_Trip\<close> (\<^verbatim>\<open>protocol/canonical-json.ts\<close>): the encoder
    identities are hashed over and the strict reader, with the proof that they are inverse.
  \<^item> \<open>Artifact_Identity\<close> (\<^verbatim>\<open>run-identity.ts\<close>, \<^verbatim>\<open>run-guards.ts\<close>): digests, ids, footprints and the guard of
    artifacts. \<open>Run_Store\<close>, \<open>Store_Safety\<close>, \<open>Store_History\<close>
    (\<^verbatim>\<open>core/storage-graph-runs.ts\<close>, \<^verbatim>\<open>storage-graph-effects.ts\<close>): the compare-and-swap store of runs, the
    artifact store with its budgets and the effect journal; their invariant, their history, the properties.
  \<^item> \<open>Json_Schema\<close> (\<^verbatim>\<open>protocol/workflow-json-schema.ts\<close>): the bounded validator against what a schema means.
    \<open>Schema_Subset\<close>, \<open>Schema_Use\<close> (\<^verbatim>\<open>protocol/graphs/schema-subset.ts\<close>): the checker of the portable subset, the
    form of what it accepts, the schema a provider sees, the fields of a schema.
    \<open>Type_Assignability\<close> (\<^verbatim>\<open>type-assignability.ts\<close>, \<^verbatim>\<open>types.ts\<close>): schema subtypes, budgets, the checks of a value;
    \<open>Transform_Types\<close>: the library, the adapters and the types of transforms, with the soundness of \<open>Edge_Transforms\<close>.
  \<^item> \<open>Line_Splitter\<close> (\<^verbatim>\<open>protocol/node/bounded-line-splitter.ts\<close>): output of child processes as bounded lines.

  \<^bold>\<open>Correspondence.\<close> An interface of the source is a record with the same fields, a string union a
  datatype, an optional field an option, an object with computed keys an association list in insertion
  order (\<open>obj_get\<close>, \<open>obj_set\<close>). Error texts are UTF-16 code unit lists where the code cuts them.
  A refusal the source returns is \<open>Inl\<close>; a thrown internal error is \<open>Inl\<close> or None, as each theory says.
  Numbers the record bounds are \<open>int\<close> or \<open>nat\<close>, 32-bit arithmetic is on words, monotonic clocks are
  rationals.

  \<^bold>\<open>What the lemmas show.\<close> Each theory proves an invariant or functional lemma per operation, collects
  them (\<open>named_theorems\<close>, \<open>lemmas\<close>), and interprets the shared locales on the model: the run machine and
  the lock table are instances, so reachability and refinement follow once. The properties are about
  the replay ring, the record invariant and its history, reports against the tables, restarts,
  the store's budgets, revisions, effects and pruning, canonical texts, predicates, schemas and types, identities and round trips, branches, deliveries, planning, admission, exclusion of
  workspaces across runs, bounded stopping and failing.

  \<^bold>\<open>Bounds and fuel.\<close> Scans over a string or a list are structural or have a measure. Planning runs
  at most \<open>MAX_PLANNING_ROUNDS\<close> rounds, as the code does. The work lists of the depth check and of the
  suffix loop have measures. The strict reader is given \<open>2 * length + 1\<close> calls, which
  \<open>strict_reader_sound\<close> shows to be enough; the loop that cuts lines is partial, and the splitter's property
  shows that it returns.

  \<^bold>\<open>Not modelled.\<close> Provisioning, executors and agents, the database under
  the stores, the guard of whole run records, sealed artifact files, the graph compiler and template editor, the prompt language, the multi-review, build
  pipeline and native agent services, bridges other than their ring, the web, desktop and mobile
  applications, the command line and the scripts: input and output, user interface, or code of other
  subsystems. In scheduling and delivery the type library, the adapters and the budget checks are arguments; the
  tables of built-in types, of their domain validators and of adapters are left out.
\<close>

end
